(* ===== verification/Prelude.thy ===== *)
theory Prelude
  imports Main "HOL-Library.Word" "HOL-Library.Monad_Syntax"
begin

text \<open>
  Shared vocabulary of the development: the machine integers of the C code (LP64, the ABI of the
  iOS targets), the fact collections the component theories fill, and the generic lemmas on lists,
  options and words that more than one component uses. A multi-byte integer in memory is
  little-endian: \<open>le_bytes\<close> and \<open>le_word\<close> convert between a word and its bytes.
\<close>

unbundle bit_operations_syntax

section \<open>Machine integers\<close>

type_synonym byte = "8 word"
type_synonym u32 = "32 word"
type_synonym u64 = "64 word"
type_synonym size_t = "64 word"
type_synonym addr = "64 word"

named_theorems cm_rules \<open>Hoare rules of the memory operations\<close>
named_theorems pb_frame \<open>facts about what an operation leaves unchanged\<close>

section \<open>Little-endian integers\<close>

definition le_bytes :: "nat \<Rightarrow> 'a::len word \<Rightarrow> byte list" where
  "le_bytes n w = map (\<lambda>i. ucast (drop_bit (8 * i) w)) [0..<n]"

fun le_word :: "byte list \<Rightarrow> 'a::len word" where
  "le_word [] = 0"
| "le_word (b # bs) = ucast b OR push_bit 8 (le_word bs)"

lemma length_le_bytes [simp]: "length (le_bytes n w) = n"
  by (simp add: le_bytes_def)

lemma le_bytes_0 [simp]: "le_bytes 0 w = []"
  by (simp add: le_bytes_def)

lemma le_bytes_Suc: "le_bytes (Suc n) w = ucast w # le_bytes n (drop_bit 8 w)"
proof -
  have "[0..<Suc n] = 0 # map Suc [0..<n]"
    by (simp add: upt_conv_Cons map_Suc_upt del: upt_Suc)
  then show ?thesis
    by (simp add: le_bytes_def o_def add.commute)
qed

lemma bit_le_word: "bit (le_word bs :: 'a::len word) k \<longleftrightarrow>
    k < LENGTH('a) \<and> k div 8 < length bs \<and> bit (bs ! (k div 8)) (k mod 8)"
proof (induction bs arbitrary: k)
  case Nil
  then show ?case by simp
next
  case (Cons b bs)
  show ?case
  proof (cases "k < 8")
    case True
    then show ?thesis
      by (auto simp: bit_or_iff bit_ucast_iff bit_push_bit_iff dest: bit_imp_le_length)
  next
    case False
    then obtain j where k: "k = j + 8" by (metis add.commute le_add_diff_inverse not_less)
    have nb: "\<not> bit b k" using False by (auto dest: bit_imp_le_length)
    have d: "(j + 8) div 8 = Suc (j div 8)" "(j + 8) mod 8 = j mod 8" by simp_all
    show ?thesis
      using nb by (auto simp: bit_or_iff bit_ucast_iff bit_push_bit_iff Cons.IH k d)
  qed
qed

lemma le_word_le_bytes:
  assumes "LENGTH('a::len) \<le> 8 * n"
  shows "le_word (le_bytes n (w :: 'a word)) = w"
proof (rule bit_word_eqI)
  fix k assume "k < LENGTH('a)"
  moreover from this assms have "k div 8 < n" by linarith
  ultimately show "bit (le_word (le_bytes n w) :: 'a word) k \<longleftrightarrow> bit w k"
    by (simp add: bit_le_word le_bytes_def bit_ucast_iff bit_drop_bit_eq)
qed

lemma le_bytes_le_word:
  assumes "8 * length bs \<le> LENGTH('a::len)"
  shows "le_bytes (length bs) (le_word bs :: 'a word) = bs"
proof (rule nth_equalityI)
  show "length (le_bytes (length bs) (le_word bs :: 'a word)) = length bs" by simp
next
  fix i assume "i < length (le_bytes (length bs) (le_word bs :: 'a word))"
  then have i: "i < length bs" by simp
  show "le_bytes (length bs) (le_word bs :: 'a word) ! i = bs ! i"
  proof (rule bit_word_eqI)
    fix k assume "k < LENGTH(8)"
    then have k: "k < 8" by simp
    with i assms have "8 * i + k < LENGTH('a)" by linarith
    with i k show "bit (le_bytes (length bs) (le_word bs :: 'a word) ! i) k = bit (bs ! i) k"
      by (simp add: le_bytes_def bit_ucast_iff bit_drop_bit_eq bit_le_word)
  qed
qed

section \<open>Words as sizes and offsets\<close>

lemma unat_minus_le: "b \<le> a \<Longrightarrow> unat (a - b :: 'a::len word) = unat a - unat b"
  by (simp add: unat_sub)

lemma unat_minus_one: "a \<noteq> 0 \<Longrightarrow> unat (a - 1 :: 'a::len word) = unat a - 1"
  by (metis Word.word_less_1 linorder_not_less unat_1 unat_sub)

lemma of_nat_unat_ucast: "of_nat (unat (x :: 32 word)) = (ucast x :: 64 word)"
  by simp

lemma unat_minus_1_addr [simp]: "unat (- 1 :: addr) = 2 ^ 64 - 1"
  by (simp add: unsigned_minus_1_eq_mask mask_eq_exp_minus_1)

lemma word_add_of_nat: "a + of_nat m + of_nat n = (a :: addr) + of_nat (m + n)"
  by simp

lemma unat_less_64: "unat (x :: 64 word) < 18446744073709551616"
  using unsigned_less [of x, where 'a = nat] by simp

lemma unat_of_nat_64: "n < 18446744073709551616 \<Longrightarrow> unat (of_nat n :: 64 word) = n"
  by (simp add: unat_of_nat)

lemma unat_add_of_nat:
  "unat (x :: 64 word) + n < 18446744073709551616 \<Longrightarrow> unat (x + of_nat n) = unat x + n"
  by (simp add: unat_word_ariths unat_of_nat)

lemma unat_ucast_up:
  assumes "LENGTH('a::len) \<le> LENGTH('b::len)"
  shows "unat (ucast (x::'a word) :: 'b word) = unat x"
proof -
  have "unat x < 2 ^ LENGTH('a)" by (rule unsigned_less)
  also have "(2::nat) ^ LENGTH('a) \<le> 2 ^ LENGTH('b)" using assms by simp
  finally show ?thesis by (simp add: unsigned_ucast_eq take_bit_nat_eq_self)
qed

section \<open>Bytes by enumeration\<close>

text \<open>A fact about one byte can be checked on the 256 of them.\<close>

abbreviation nibbles :: "byte list" where
  "nibbles \<equiv> [0, 1, 2, 3, 4, 5, 6, 7, 8, 9, 10, 11, 12, 13, 14, 15]"

lemma nibble: "n < 16 \<Longrightarrow> (word_of_nat n :: byte) \<in> set nibbles"
proof -
  assume "n < 16"
  then have "n \<in> set [0..<16]" by simp
  then show ?thesis by (auto simp: upt_rec)
qed

lemma all_bytes:
  assumes "list_all (\<lambda>h. list_all (\<lambda>l. P (16 * h + l)) nibbles) nibbles"
  shows "P b"
proof -
  have "unat b < 256" using unsigned_less [of b, where 'a = nat] by simp
  then have "(word_of_nat (unat b div 16) :: byte) \<in> set nibbles" "(word_of_nat (unat b mod 16) :: byte) \<in> set nibbles"
    using nibble [of "unat b div 16"] nibble [of "unat b mod 16"] by linarith+
  with assms have "P (16 * word_of_nat (unat b div 16) + word_of_nat (unat b mod 16))"
    unfolding list_all_iff by blast
  moreover have "16 * word_of_nat (unat b div 16) + word_of_nat (unat b mod 16)
      = (word_of_nat (16 * (unat b div 16) + unat b mod 16) :: byte)" by (simp only: of_nat_add of_nat_mult of_nat_numeral)
  ultimately show ?thesis by simp
qed

lemma byte_top: "b AND 0x80 = 0 \<longleftrightarrow> b < (0x80 :: byte)"
  by (rule all_bytes) simp

lemma byte_top_set [simp]: "(b OR 0x80) AND 0x80 = (0x80 :: byte)"
  by (rule all_bytes) simp

lemma byte_low_set [simp]: "(b OR 0x80) AND 0x7F = b AND (0x7F :: byte)"
  by (rule all_bytes) simp

lemma byte_low_id: "b < 0x80 \<Longrightarrow> b AND 0x7F = (b :: byte)"
  by (rule all_bytes [of "\<lambda>b. b < 0x80 \<longrightarrow> b AND 0x7F = b", THEN mp]) simp

section \<open>Buffers\<close>

text \<open>\<open>put buf pos bs\<close> writes into a buffer; a write past its end is undefined (\<open>None\<close>).\<close>

definition put :: "byte list \<Rightarrow> nat \<Rightarrow> byte list \<Rightarrow> byte list option" where
  "put buf pos bs = (if pos + length bs \<le> length buf
     then Some (take pos buf @ bs @ drop (pos + length bs) buf) else None)"

lemma put_iff: "put buf pos bs = Some buf' \<longleftrightarrow> pos + length bs \<le> length buf
    \<and> buf' = take pos buf @ bs @ drop (pos + length bs) buf"
  by (auto simp: put_def)

lemma put_fits: "pos + length bs \<le> length buf \<longleftrightarrow> (\<exists>buf'. put buf pos bs = Some buf')"
  by (simp add: put_def)

lemma put_length: "put buf pos bs = Some buf' \<Longrightarrow> length buf' = length buf"
  by (auto simp: put_iff)

lemma put_take:
  "put buf pos bs = Some buf' \<Longrightarrow> k \<le> pos \<Longrightarrow> take k buf' = take k buf"
  "put buf pos bs = Some buf' \<Longrightarrow> take (pos + length bs) buf' = take pos buf @ bs"
  "put buf pos bs = Some buf' \<Longrightarrow> take (length bs) (drop pos buf') = bs"
proof -
  assume p: "put buf pos bs = Some buf'"
  then have m: "min (length buf) pos = pos" by (simp add: put_iff)
  with p show "take (pos + length bs) buf' = take pos buf @ bs" "take (length bs) (drop pos buf') = bs"
    by (auto simp: put_iff)
  show "take k buf' = take k buf" if "k \<le> pos" using p that by (auto simp: put_iff min_absorb1)
qed

lemma put_drop: "put buf pos bs = Some buf' \<Longrightarrow> pos + length bs \<le> k \<Longrightarrow> drop k buf' = drop k buf"
  by (auto simp: put_iff min_def)

lemma put_Nil [simp]: "pos \<le> length buf \<Longrightarrow> put buf pos [] = Some buf"
  by (simp add: put_def)

lemma put_append: "put buf pos (as @ bs) = Option.bind (put buf pos as) (\<lambda>buf. put buf (pos + length as) bs)"
proof (cases "pos + length as + length bs \<le> length buf")
  case True
  then have "take (pos + length as) (take pos buf @ as @ drop (pos + length as) buf) = take pos buf @ as"
    "drop (pos + length as + length bs) (take pos buf @ as @ drop (pos + length as) buf) = drop (pos + length as + length bs) buf"
    by (simp_all add: min_absorb2 add.commute add.left_commute)
  with True show ?thesis by (simp add: put_def add.assoc)
next
  case False
  then show ?thesis by (auto simp: put_def)
qed

lemmas put_Cons = put_append [of _ _ "[a]" bs for a bs, simplified]

lemma put_overwrite:
  "put buf pos (as @ [x]) = Some b1 \<Longrightarrow> put b1 (pos + length as) (y # ys) = put buf pos (as @ y # ys)"
proof -
  assume b1: "put buf pos (as @ [x]) = Some b1"
  have "length b1 = length buf" using b1 by (rule put_length)
  moreover have "take (pos + length as) b1 = take pos buf @ as"
    using arg_cong [OF put_take(2) [OF b1], of "take (pos + length as)"] put_iff [of buf pos "as @ [x]" b1] b1 by (simp add: min_def)
  moreover have "drop (pos + length as + length (y # ys)) b1 = drop (pos + length as + length (y # ys)) buf"
    using b1 by (rule put_drop) simp
  ultimately show ?thesis using b1 by (simp add: put_def add.assoc)
qed

end
