(* ===== verification/CMem.thy ===== *)
theory CMem
  imports Prelude
begin

text \<open>
  The part of the C language the translation rests on. A C function that returns \<open>bool\<close> and works
  on a stream and on memory is a computation of type \<open>cm\<close>: it has no result at all when the C
  behaviour is undefined (an invalid access, a call through a null pointer) or when a fuel bound of
  the model is reached, and otherwise ends in a state with either \<open>Some\<close> of its out-parameters
  (C \<open>true\<close>) or \<open>None\<close> (C \<open>false\<close>); \<open>bindC\<close> is the early return of \<open>if (!f(...)) return false;\<close>.
\<close>

section \<open>Computations that may fail\<close>

type_synonym ('s, 'a) cm = "'s \<Rightarrow> ('a option \<times> 's) option"

definition returnC :: "'a \<Rightarrow> ('s, 'a) cm" where
  "returnC a s = Some (Some a, s)"

definition failC :: "('s, 'a) cm" where
  "failC s = Some (None, s)"

definition ubC :: "('s, 'a) cm" where
  "ubC s = None"

definition bindC :: "('s, 'a) cm \<Rightarrow> ('a \<Rightarrow> ('s, 'b) cm) \<Rightarrow> ('s, 'b) cm" where
  "bindC m f s = (case m s of
     None \<Rightarrow> None
   | Some (None, s') \<Rightarrow> Some (None, s')
   | Some (Some a, s') \<Rightarrow> f a s')"

text \<open>\<open>status = f(...)\<close>: the caller looks at the result itself instead of returning early.\<close>

definition catchC :: "('s, 'a) cm \<Rightarrow> ('s, 'a option) cm" where
  "catchC m s = (case m s of None \<Rightarrow> None | Some (r, s') \<Rightarrow> Some (Some r, s'))"

definition thenC :: "('s, unit) cm \<Rightarrow> ('s, 'b) cm \<Rightarrow> ('s, 'b) cm" where
  "thenC m k = bindC m (\<lambda>_. k)"

definition liftC :: "'a option \<Rightarrow> ('s, 'a) cm" where
  "liftC r = (case r of None \<Rightarrow> ubC | Some a \<Rightarrow> returnC a)"

definition whenC :: "bool \<Rightarrow> ('s, unit) cm \<Rightarrow> ('s, unit) cm" where
  "whenC b m = (if b then m else returnC ())"

lemmas cm_defs = returnC_def failC_def ubC_def bindC_def catchC_def thenC_def liftC_def whenC_def

lemma bindC_return [simp]: "bindC (returnC a) f = f a"
  by (rule ext) (simp add: cm_defs)

lemma bindC_fail [simp]: "bindC failC f = failC"
  by (rule ext) (simp add: cm_defs)

lemma bindC_ub [simp]: "bindC ubC f = ubC"
  by (rule ext) (simp add: cm_defs)

lemma bindC_assoc: "bindC (bindC m f) g = bindC m (\<lambda>a. bindC (f a) g)"
  by (rule ext) (simp add: bindC_def split: option.splits prod.splits)

lemma bindC_returnC_right [simp]: "bindC m returnC = m"
  by (rule ext) (simp add: cm_defs split: option.splits prod.splits)

lemma bindC_eval:
  "m s = Some (Some a, s') \<Longrightarrow> bindC m f s = f a s'"
  "m s = Some (None, s') \<Longrightarrow> bindC m f s = Some (None, s')"
  "m s = None \<Longrightarrow> bindC m f s = None"
  by (simp_all add: bindC_def)

lemma catchC_eval:
  "m s = Some (r, s') \<Longrightarrow> catchC m s = Some (Some r, s')"
  "m s = None \<Longrightarrow> catchC m s = None"
  by (simp_all add: catchC_def)

lemma thenC_eval:
  "m s = Some (Some a, s') \<Longrightarrow> thenC m k s = k s'"
  "m s = Some (None, s') \<Longrightarrow> thenC m k s = Some (None, s')"
  "m s = None \<Longrightarrow> thenC m k s = None"
  by (simp_all add: thenC_def bindC_def)

section \<open>Hoare triples\<close>

text \<open>
  \<open>hoare P m Q R\<close>: from a state of \<open>P\<close>, \<open>m\<close> is defined; if it returns true with value \<open>a\<close> the
  state satisfies \<open>Q a\<close>, if it returns false the state satisfies \<open>R\<close>.
\<close>

definition hoare :: "('s \<Rightarrow> bool) \<Rightarrow> ('s, 'a) cm \<Rightarrow> ('a \<Rightarrow> 's \<Rightarrow> bool) \<Rightarrow> ('s \<Rightarrow> bool) \<Rightarrow> bool" where
  "hoare P m Q R \<longleftrightarrow> (\<forall>s. P s \<longrightarrow>
     (case m s of None \<Rightarrow> False | Some (None, s') \<Rightarrow> R s' | Some (Some a, s') \<Rightarrow> Q a s'))"

lemma hoareI:
  assumes "\<And>s. P s \<Longrightarrow> \<exists>r s'. m s = Some (r, s') \<and> (case r of None \<Rightarrow> R s' | Some a \<Rightarrow> Q a s')"
  shows "hoare P m Q R"
  using assms by (fastforce simp: hoare_def split: option.splits)

lemma hoareD:
  assumes "hoare P m Q R" "P s"
  obtains a s' where "m s = Some (Some a, s')" "Q a s'"
    | s' where "m s = Some (None, s')" "R s'"
proof -
  have c: "case m s of None \<Rightarrow> False | Some (None, s') \<Rightarrow> R s' | Some (Some a, s') \<Rightarrow> Q a s'"
    using assms by (simp add: hoare_def)
  then obtain r s' where rs: "m s = Some (r, s')" by (cases "m s") auto
  with c that show thesis by (cases r) auto
qed

lemma hoare_conseq:
  assumes "hoare P' m Q' R'" "\<And>s. P s \<Longrightarrow> P' s" "\<And>a s. Q' a s \<Longrightarrow> Q a s" "\<And>s. R' s \<Longrightarrow> R s"
  shows "hoare P m Q R"
proof (rule hoareI)
  fix s assume "P s"
  then have "P' s" by (rule assms(2))
  with assms(1) show "\<exists>r s'. m s = Some (r, s') \<and> (case r of None \<Rightarrow> R s' | Some a \<Rightarrow> Q a s')"
    by (cases rule: hoareD) (auto intro: assms(3,4))
qed

lemma hoare_pre: "hoare P' m Q R \<Longrightarrow> (\<And>s. P s \<Longrightarrow> P' s) \<Longrightarrow> hoare P m Q R"
  by (rule hoare_conseq)

lemma hoare_return [cm_rules]: "hoare (Q a) (returnC a) Q R"
  by (simp add: hoare_def returnC_def)

lemma hoare_returnI: "(\<And>s. P s \<Longrightarrow> Q a s) \<Longrightarrow> hoare P (returnC a) Q R"
  by (simp add: hoare_def returnC_def)

lemma hoare_fail [cm_rules]: "hoare R failC Q R"
  by (simp add: hoare_def failC_def)

lemma hoare_bind [cm_rules]:
  assumes "\<And>a. hoare (Q' a) (f a) Q R" "hoare P m Q' R"
  shows "hoare P (bindC m f) Q R"
proof (rule hoareI)
  fix s assume "P s"
  with assms(2) show "\<exists>r s'. bindC m f s = Some (r, s') \<and> (case r of None \<Rightarrow> R s' | Some a \<Rightarrow> Q a s')"
  proof (cases rule: hoareD)
    case (1 a s')
    from assms(1)[of a] 1(2) show ?thesis
      by (cases rule: hoareD) (simp_all add: bindC_eval 1)
  next
    case (2 s')
    then show ?thesis by (simp add: bindC_eval)
  qed
qed

lemma hoare_then [cm_rules]:
  assumes "hoare Q' k Q R" "hoare P m (\<lambda>_. Q') R"
  shows "hoare P (thenC m k) Q R"
  unfolding thenC_def using assms by (rule hoare_bind)

lemma hoare_catch [cm_rules]:
  assumes "hoare P m (\<lambda>a. Q (Some a)) (Q None)"
  shows "hoare P (catchC m) Q R"
proof (rule hoareI)
  fix s assume "P s"
  with assms show "\<exists>r s'. catchC m s = Some (r, s') \<and> (case r of None \<Rightarrow> R s' | Some a \<Rightarrow> Q a s')"
    by (cases rule: hoareD) (simp_all add: catchC_eval)
qed

lemma hoare_if [cm_rules]:
  assumes "b \<Longrightarrow> hoare P m Q R" "\<not> b \<Longrightarrow> hoare P m' Q R"
  shows "hoare P (if b then m else m') Q R"
  using assms by simp

lemma hoare_when [cm_rules]:
  assumes "b \<Longrightarrow> hoare P m Q R" "\<And>s. \<not> b \<Longrightarrow> P s \<Longrightarrow> Q () s"
  shows "hoare P (whenC b m) Q R"
  using assms by (auto simp: whenC_def intro: hoare_returnI)

lemma hoare_option [cm_rules]:
  assumes "x = None \<Longrightarrow> hoare P m Q R" "\<And>a. x = Some a \<Longrightarrow> hoare P (f a) Q R"
  shows "hoare P (case x of None \<Rightarrow> m | Some a \<Rightarrow> f a) Q R"
  using assms by (cases x) simp_all

lemma hoare_impI:
  assumes "\<And>s. P s \<Longrightarrow> hoare (\<lambda>t. t = s) m Q R"
  shows "hoare P m Q R"
  using assms by (simp add: hoare_def)

lemma hoare_fun:
  "(\<And>s. P s \<Longrightarrow> hoare (\<lambda>t. t = s) (f s) Q R) \<Longrightarrow> hoare P (\<lambda>s. f s s) Q R"
  by (simp add: hoare_def)

end
