(* ===== verification/Heap.thy ===== *)
theory Heap
  imports CMem
begin

text \<open>
  Memory: flat and byte-addressed, an address without a byte is not accessible and touching it is
  undefined behaviour. Loads and stores of \<open>n\<close> bytes, the typed accesses the library makes through
  \<open>void*\<close> casts (little-endian), \<open>memset\<close>/\<open>memcpy\<close>, and \<open>realloc\<close> and \<open>free\<close> as the C standard
  describes them, with the placement and the initial contents of a new block left to an oracle.
\<close>

section \<open>Bytes in memory\<close>

record heap =
  mem :: "addr \<Rightarrow> byte option"
  blocks :: "addr \<Rightarrow> nat option"

fun load_bytes :: "heap \<Rightarrow> addr \<Rightarrow> nat \<Rightarrow> byte list option" where
  "load_bytes h a 0 = Some []"
| "load_bytes h a (Suc n) = (case mem h a of
     None \<Rightarrow> None
   | Some b \<Rightarrow> (case load_bytes h (a + 1) n of None \<Rightarrow> None | Some bs \<Rightarrow> Some (b # bs)))"

fun store_bytes :: "heap \<Rightarrow> addr \<Rightarrow> byte list \<Rightarrow> heap option" where
  "store_bytes h a [] = Some h"
| "store_bytes h a (b # bs) = (case mem h a of
     None \<Rightarrow> None
   | Some _ \<Rightarrow> store_bytes (h\<lparr>mem := (mem h)(a := Some b)\<rparr>) (a + 1) bs)"

text \<open>\<open>region a n\<close>: the \<open>n\<close> addresses from \<open>a\<close> on, modulo the size of the address space.\<close>

definition region :: "addr \<Rightarrow> nat \<Rightarrow> addr set" where
  "region a n = {x. unat (x - a) < n}"

definition readable :: "heap \<Rightarrow> addr \<Rightarrow> nat \<Rightarrow> bool" where
  "readable h a n \<longleftrightarrow> (\<forall>i<n. mem h (a + of_nat i) \<noteq> None)"

text \<open>What a computation that may write only inside \<open>W\<close> does to memory.\<close>

definition frame :: "addr set \<Rightarrow> heap \<Rightarrow> heap \<Rightarrow> bool" where
  "frame W h h' \<longleftrightarrow> dom (mem h') = dom (mem h) \<and> blocks h' = blocks h
     \<and> (\<forall>x. x \<notin> W \<longrightarrow> mem h' x = mem h x)"

section \<open>Accesses as computations\<close>

definition loadC :: "addr \<Rightarrow> nat \<Rightarrow> ('s \<times> heap, byte list) cm" where
  "loadC a n = (\<lambda>(s, h). case load_bytes h a n of None \<Rightarrow> None | Some bs \<Rightarrow> Some (Some bs, (s, h)))"

definition storeC :: "addr \<Rightarrow> byte list \<Rightarrow> ('s \<times> heap, unit) cm" where
  "storeC a bs = (\<lambda>(s, h). case store_bytes h a bs of None \<Rightarrow> None | Some h' \<Rightarrow> Some (Some (), (s, h')))"

definition load_bool :: "addr \<Rightarrow> ('s \<times> heap, bool) cm" where
  "load_bool a = bindC (loadC a 1) (\<lambda>bs. returnC (bs \<noteq> [0]))"

definition load_u32 :: "addr \<Rightarrow> ('s \<times> heap, u32) cm" where
  "load_u32 a = bindC (loadC a 4) (\<lambda>bs. returnC (le_word bs))"

definition load_ptr :: "addr \<Rightarrow> ('s \<times> heap, addr) cm" where
  "load_ptr a = bindC (loadC a 8) (\<lambda>bs. returnC (le_word bs))"

definition store_bool :: "addr \<Rightarrow> bool \<Rightarrow> ('s \<times> heap, unit) cm" where
  "store_bool a b = storeC a [if b then 1 else 0]"

definition store_u32 :: "addr \<Rightarrow> u32 \<Rightarrow> ('s \<times> heap, unit) cm" where
  "store_u32 a w = storeC a (le_bytes 4 w)"

definition store_ptr :: "addr \<Rightarrow> addr \<Rightarrow> ('s \<times> heap, unit) cm" where
  "store_ptr a p = storeC a (le_bytes 8 p)"

definition memset0 :: "addr \<Rightarrow> nat \<Rightarrow> ('s \<times> heap, unit) cm" where
  "memset0 a n = storeC a (replicate n 0)"

section \<open>realloc and free\<close>

text \<open>
  The oracle proposes, for the heap and the size asked for, an address and the bytes a new block
  starts with. A proposal that is null, wraps around or overlaps accessible memory counts as "out of
  memory", so every oracle is a legal allocator.
\<close>

type_synonym alloc_oracle = "heap \<Rightarrow> nat \<Rightarrow> addr \<times> (nat \<Rightarrow> byte)"

definition block_ok :: "heap \<Rightarrow> addr \<Rightarrow> nat \<Rightarrow> bool" where
  "block_ok h a n \<longleftrightarrow> a \<noteq> 0 \<and> unat a + n \<le> 2 ^ 64
     \<and> list_all (\<lambda>i. mem h (a + of_nat i) = None) [0..<n]"

definition drop_block :: "heap \<Rightarrow> addr \<Rightarrow> nat \<Rightarrow> heap" where
  "drop_block h p n = h\<lparr>mem := (\<lambda>x. if unat (x - p) < n then None else mem h x),
                         blocks := (blocks h)(p := None)\<rparr>"

definition add_block :: "heap \<Rightarrow> addr \<Rightarrow> nat \<Rightarrow> (nat \<Rightarrow> byte) \<Rightarrow> heap" where
  "add_block h p n f = h\<lparr>mem := (\<lambda>x. if unat (x - p) < n then Some (f (unat (x - p))) else mem h x),
                          blocks := (blocks h)(p := Some n)\<rparr>"

text \<open>\<open>realloc(ptr, size)\<close> with \<open>size > 0\<close>; the result 0 is the null pointer of a failed call.\<close>

definition c_realloc :: "alloc_oracle \<Rightarrow> addr \<Rightarrow> nat \<Rightarrow> ('s \<times> heap, addr) cm" where
  "c_realloc ora p n = (\<lambda>(s, h).
     if n = 0 then None
     else if p = 0 then
       (case ora h n of (a, junk) \<Rightarrow>
          if block_ok h a n then Some (Some a, (s, add_block h a n junk))
          else Some (Some 0, (s, h)))
     else (case blocks h p of
       None \<Rightarrow> None
     | Some m \<Rightarrow> (case load_bytes h p (min m n) of
         None \<Rightarrow> None
       | Some old \<Rightarrow> (let h1 = drop_block h p m in
           case ora h n of (a, junk) \<Rightarrow>
             if block_ok h1 a n
             then Some (Some a, (s, add_block h1 a n (\<lambda>i. if i < length old then old ! i else junk i)))
             else Some (Some 0, (s, h))))))"

definition c_free :: "addr \<Rightarrow> ('s \<times> heap, unit) cm" where
  "c_free p = (\<lambda>(s, h).
     if p = 0 then Some (Some (), (s, h))
     else (case blocks h p of
       None \<Rightarrow> None
     | Some m \<Rightarrow> Some (Some (), (s, drop_block h p m))))"

section \<open>Loads\<close>

lemma load_bytes_length: "load_bytes h a n = Some bs \<Longrightarrow> length bs = n"
  by (induction h a n arbitrary: bs rule: load_bytes.induct) (auto split: option.splits)

lemma readable_0 [simp]: "readable h a 0"
  by (simp add: readable_def)

lemma readable_Suc: "readable h a (Suc n) \<longleftrightarrow> mem h a \<noteq> None \<and> readable h (a + 1) n"
  by (simp add: readable_def All_less_Suc2 ac_simps)

lemma load_bytes_readable: "readable h a n \<longleftrightarrow> (\<exists>bs. load_bytes h a n = Some bs)"
  by (induction n arbitrary: a) (auto simp: readable_Suc split: option.splits)

lemma load_bytes_Some:
  assumes "readable h a n"
  obtains bs where "load_bytes h a n = Some bs" "length bs = n"
  using assms load_bytes_readable load_bytes_length by blast

lemma load_bytes_append:
  "load_bytes h a (m + n) = (case load_bytes h a m of
     None \<Rightarrow> None
   | Some bs \<Rightarrow> (case load_bytes h (a + of_nat m) n of None \<Rightarrow> None | Some cs \<Rightarrow> Some (bs @ cs)))"
  by (induction m arbitrary: a) (auto simp: ac_simps split: option.splits)

lemma load_bytes_cong:
  "(\<And>i. i < n \<Longrightarrow> mem h (a + of_nat i) = mem h' (a + of_nat i)) \<Longrightarrow> load_bytes h a n = load_bytes h' a n"
proof (induction n arbitrary: a)
  case (Suc n)
  have "mem h a = mem h' a" using Suc.prems[of 0] by simp
  moreover have "load_bytes h (a + 1) n = load_bytes h' (a + 1) n"
  proof (rule Suc.IH)
    fix i assume "i < n"
    then show "mem h (a + 1 + of_nat i) = mem h' (a + 1 + of_nat i)"
      using Suc.prems[of "Suc i"] by (simp add: ac_simps)
  qed
  ultimately show ?case by (simp split: option.split)
qed simp

lemma readable_mono: "readable h a n \<Longrightarrow> m \<le> n \<Longrightarrow> readable h a m"
  by (simp add: readable_def)

lemma readable_offset: "readable h a n \<Longrightarrow> k + m \<le> n \<Longrightarrow> readable h (a + of_nat k) m"
  unfolding readable_def by (auto simp: add.assoc simp flip: of_nat_add)

section \<open>Regions and frames\<close>

lemma of_nat_in_region: "i < n \<Longrightarrow> a + of_nat i \<in> region a n"
  by (simp add: region_def unat_of_nat le_less_trans[OF mod_less_eq_dividend])

lemma region_offset: "k + m \<le> n \<Longrightarrow> region (a + of_nat k) m \<subseteq> region a n"
proof
  fix x assume le: "k + m \<le> n" and "x \<in> region (a + of_nat k) m"
  then have lt: "unat (x - (a + of_nat k)) < m" by (simp add: region_def)
  have "x - a = (x - (a + of_nat k)) + of_nat k" by simp
  then have "unat (x - a) \<le> unat (x - (a + of_nat k)) + unat (of_nat k :: addr)"
    by (metis mod_less_eq_dividend unat_word_ariths(1))
  also have "unat (of_nat k :: addr) \<le> k" by (simp add: unat_of_nat)
  finally show "x \<in> region a n" using lt le by (simp add: region_def)
qed

lemma region_mono: "m \<le> n \<Longrightarrow> region a m \<subseteq> region a n"
  by (auto simp: region_def)

lemma region_0 [simp]: "region a 0 = {}"
  by (simp add: region_def)

lemma in_region_dest: "x \<in> region a n \<Longrightarrow> \<exists>i<n. x = a + of_nat i"
  by (rule exI[of _ "unat (x - a)"]) (simp add: region_def)

lemma frame_refl [simp, intro]: "frame W h h"
  by (simp add: frame_def)

lemma frame_trans: "frame W h1 h2 \<Longrightarrow> frame W h2 h3 \<Longrightarrow> frame W h1 h3"
  by (auto simp: frame_def)

lemma frame_mono: "frame V h h' \<Longrightarrow> V \<subseteq> W \<Longrightarrow> frame W h h'"
  by (auto simp: frame_def)

lemma frame_readable: "frame W h h' \<Longrightarrow> readable h' a n = readable h a n"
proof -
  assume "frame W h h'"
  then have "x \<in> dom (mem h') \<longleftrightarrow> x \<in> dom (mem h)" for x
    by (simp add: frame_def)
  then have "mem h' x = None \<longleftrightarrow> mem h x = None" for x
    unfolding domIff by blast
  then show ?thesis by (simp add: readable_def)
qed

lemma frame_load:
  assumes "frame W h h'" "W \<inter> region a n = {}"
  shows "load_bytes h' a n = load_bytes h a n"
proof (rule load_bytes_cong)
  fix i assume "i < n"
  then have "a + of_nat i \<notin> W" using assms(2) of_nat_in_region by blast
  then show "mem h' (a + of_nat i) = mem h (a + of_nat i)" using assms(1) by (simp add: frame_def)
qed

section \<open>Stores\<close>

lemma readable_upd:
  "mem h a \<noteq> None \<Longrightarrow> readable (h\<lparr>mem := (mem h)(a := Some b)\<rparr>) c n = readable h c n"
  by (auto simp: readable_def)

lemma store_bytes_readable: "(\<exists>h'. store_bytes h a bs = Some h') \<longleftrightarrow> readable h a (length bs)"
proof (induction bs arbitrary: h a)
  case (Cons b bs)
  show ?case
    using Cons.IH[of "h\<lparr>mem := (mem h)(a := Some b)\<rparr>" "a + 1"] readable_upd[of h a b "a + 1" "length bs"]
    by (cases "mem h a") (simp_all add: readable_Suc)
qed simp

lemma store_bytes_frame:
  "store_bytes h a bs = Some h' \<Longrightarrow> frame (region a (length bs)) h h'"
proof (induction bs arbitrary: h a)
  case (Cons b bs)
  let ?h = "h\<lparr>mem := (mem h)(a := Some b)\<rparr>"
  from Cons.prems have a: "mem h a \<noteq> None" and s: "store_bytes ?h (a + 1) bs = Some h'"
    by (auto split: option.splits)
  from Cons.IH[OF s] have "frame (region (a + 1) (length bs)) ?h h'" .
  moreover have "region (a + of_nat 1) (length bs) \<subseteq> region a (Suc (length bs))"
    by (rule region_offset) simp
  moreover have "a \<in> region a (Suc (length bs))" by (simp add: region_def)
  moreover have "frame (region a (Suc (length bs))) h ?h"
    using a \<open>a \<in> _\<close> by (auto simp: frame_def)
  ultimately show ?case
    by (auto intro: frame_trans frame_mono)
qed simp

lemma load_store_same:
  "store_bytes h a bs = Some h' \<Longrightarrow> length bs \<le> 2 ^ 64 \<Longrightarrow> load_bytes h' a (length bs) = Some bs"
proof (induction bs arbitrary: h a)
  case (Cons b bs)
  let ?h = "h\<lparr>mem := (mem h)(a := Some b)\<rparr>"
  from Cons.prems have s: "store_bytes ?h (a + 1) bs = Some h'"
    by (auto split: option.splits)
  have "a \<notin> region (a + 1) (length bs)"
    using Cons.prems(2) by (simp add: region_def)
  then have "mem h' a = Some b"
    using store_bytes_frame[OF s] by (simp add: frame_def)
  with Cons.IH[OF s] Cons.prems(2) show ?case by simp
qed simp

section \<open>Hoare rules for the accesses\<close>

text \<open>
  \<open>owns P W h0\<close>: the stream satisfies \<open>P\<close> and memory is the initial one except for what was written
  inside \<open>W\<close>. The accesses keep it as long as they stay inside the accessible memory of \<open>h0\<close> and
  write inside \<open>W\<close> only.
\<close>

definition owns :: "('s \<Rightarrow> bool) \<Rightarrow> addr set \<Rightarrow> heap \<Rightarrow> 's \<times> heap \<Rightarrow> bool" where
  "owns P W h0 = (\<lambda>(s, h). P s \<and> frame W h0 h)"

lemma hoare_loadC [cm_rules]:
  assumes "readable h0 a n"
  shows "hoare (owns P W h0) (loadC a n) (\<lambda>bs st. length bs = n \<and> owns P W h0 st) R"
proof (rule hoareI)
  fix st assume st: "owns P W h0 st"
  obtain s h where [simp]: "st = (s, h)" by (cases st)
  from st have fr: "frame W h0 h" by (simp add: owns_def)
  have "readable h a n" using assms by (simp add: frame_readable [OF fr])
  then obtain bs where "load_bytes h a n = Some bs" "length bs = n" by (rule load_bytes_Some)
  with st show "\<exists>r s'. loadC a n st = Some (r, s') \<and>
      (case r of None \<Rightarrow> R s' | Some bs \<Rightarrow> length bs = n \<and> owns P W h0 s')"
    by (simp add: loadC_def)
qed

lemma hoare_storeC [cm_rules]:
  assumes "readable h0 a (length bs)" "region a (length bs) \<subseteq> W"
  shows "hoare (owns P W h0) (storeC a bs) (\<lambda>_. owns P W h0) R"
proof (rule hoareI)
  fix st assume st: "owns P W h0 st"
  obtain s h where [simp]: "st = (s, h)" by (cases st)
  from st have fr: "frame W h0 h" by (simp add: owns_def)
  have "readable h a (length bs)" using assms by (simp add: frame_readable [OF fr])
  then obtain h' where h': "store_bytes h a bs = Some h'" using store_bytes_readable by blast
  then have "frame W h h'" using assms(2) by (meson frame_mono store_bytes_frame)
  with st h' show "\<exists>r s'. storeC a bs st = Some (r, s') \<and>
      (case r of None \<Rightarrow> R s' | Some _ \<Rightarrow> owns P W h0 s')"
    by (auto simp: storeC_def owns_def intro: frame_trans)
qed

lemma hoare_load_u32 [cm_rules]:
  "readable h0 a 4 \<Longrightarrow> hoare (owns P W h0) (load_u32 a) (\<lambda>_. owns P W h0) R"
  unfolding load_u32_def by (rule hoare_bind [OF hoare_returnI hoare_loadC]) simp_all

lemma hoare_load_bool [cm_rules]:
  "readable h0 a 1 \<Longrightarrow> hoare (owns P W h0) (load_bool a) (\<lambda>_. owns P W h0) R"
  unfolding load_bool_def by (rule hoare_bind [OF hoare_returnI hoare_loadC]) simp_all

lemma hoare_load_ptr [cm_rules]:
  "readable h0 a 8 \<Longrightarrow> hoare (owns P W h0) (load_ptr a) (\<lambda>_. owns P W h0) R"
  unfolding load_ptr_def by (rule hoare_bind [OF hoare_returnI hoare_loadC]) simp_all

lemma hoare_store_u32 [cm_rules]:
  "readable h0 a 4 \<Longrightarrow> region a 4 \<subseteq> W \<Longrightarrow> hoare (owns P W h0) (store_u32 a w) (\<lambda>_. owns P W h0) R"
  unfolding store_u32_def by (rule hoare_storeC) simp_all

lemma hoare_store_bool [cm_rules]:
  "readable h0 a 1 \<Longrightarrow> region a 1 \<subseteq> W \<Longrightarrow> hoare (owns P W h0) (store_bool a b) (\<lambda>_. owns P W h0) R"
  unfolding store_bool_def by (rule hoare_storeC) simp_all

lemma hoare_memset0 [cm_rules]:
  "readable h0 a n \<Longrightarrow> region a n \<subseteq> W \<Longrightarrow> hoare (owns P W h0) (memset0 a n) (\<lambda>_. owns P W h0) R"
  unfolding memset0_def by (rule hoare_storeC) simp_all

end
