(* ===== verification/PbTypes.thy ===== *)
theory PbTypes
  imports Heap
begin

text \<open>
  The data of nanopb (\<open>pb.h\<close>, and the stream types of \<open>pb_decode.h\<close> and \<open>pb_encode.h\<close>) in the
  configuration of the iOS targets: \<open>PB_ENABLE_MALLOC\<close>, \<open>PB_FIELD_32BIT\<close>, error messages on, custom
  streams on. A field type is one byte: the low nibble is the data type, bits 4-5 the repetition
  rule, bits 6-7 the allocation. An array of descriptors is the list of its entries before
  \<open>PB_LAST_FIELD\<close>; a pointer to such an array held by a descriptor is the number of the array.
  The record \<open>env\<close> holds what a program supplies to the library through function pointers and
  constants: its descriptor arrays, its stream and field callbacks, its extension types, and libc's
  allocator oracle.
\<close>

section \<open>Field types\<close>

definition PB_LTYPE_BOOL :: byte where [simp]: "PB_LTYPE_BOOL = 0x00"
definition PB_LTYPE_VARINT :: byte where [simp]: "PB_LTYPE_VARINT = 0x01"
definition PB_LTYPE_UVARINT :: byte where [simp]: "PB_LTYPE_UVARINT = 0x02"
definition PB_LTYPE_SVARINT :: byte where [simp]: "PB_LTYPE_SVARINT = 0x03"
definition PB_LTYPE_FIXED32 :: byte where [simp]: "PB_LTYPE_FIXED32 = 0x04"
definition PB_LTYPE_FIXED64 :: byte where [simp]: "PB_LTYPE_FIXED64 = 0x05"
definition PB_LTYPE_LAST_PACKABLE :: byte where [simp]: "PB_LTYPE_LAST_PACKABLE = 0x05"
definition PB_LTYPE_BYTES :: byte where [simp]: "PB_LTYPE_BYTES = 0x06"
definition PB_LTYPE_STRING :: byte where [simp]: "PB_LTYPE_STRING = 0x07"
definition PB_LTYPE_SUBMESSAGE :: byte where [simp]: "PB_LTYPE_SUBMESSAGE = 0x08"
definition PB_LTYPE_EXTENSION :: byte where [simp]: "PB_LTYPE_EXTENSION = 0x09"
definition PB_LTYPE_FIXED_LENGTH_BYTES :: byte where [simp]: "PB_LTYPE_FIXED_LENGTH_BYTES = 0x0A"

definition PB_HTYPE_REQUIRED :: byte where [simp]: "PB_HTYPE_REQUIRED = 0x00"
definition PB_HTYPE_OPTIONAL :: byte where [simp]: "PB_HTYPE_OPTIONAL = 0x10"
definition PB_HTYPE_REPEATED :: byte where [simp]: "PB_HTYPE_REPEATED = 0x20"
definition PB_HTYPE_ONEOF :: byte where [simp]: "PB_HTYPE_ONEOF = 0x30"

definition PB_ATYPE_STATIC :: byte where [simp]: "PB_ATYPE_STATIC = 0x00"
definition PB_ATYPE_POINTER :: byte where [simp]: "PB_ATYPE_POINTER = 0x80"
definition PB_ATYPE_CALLBACK :: byte where [simp]: "PB_ATYPE_CALLBACK = 0x40"

definition PB_ATYPE :: "byte \<Rightarrow> byte" where "PB_ATYPE x = x AND 0xC0"
definition PB_HTYPE :: "byte \<Rightarrow> byte" where "PB_HTYPE x = x AND 0x30"
definition PB_LTYPE :: "byte \<Rightarrow> byte" where "PB_LTYPE x = x AND 0x0F"

definition PB_SIZE_MAX :: u32 where [simp]: "PB_SIZE_MAX = 0xFFFFFFFF"

text \<open>\<open>offsetof(pb_bytes_array_t, bytes)\<close>: the bytes follow a 4-byte \<open>pb_size_t\<close>.\<close>

definition PB_BYTES_ARRAY_T_ALLOCSIZE :: "u32 \<Rightarrow> size_t" where
  "PB_BYTES_ARRAY_T_ALLOCSIZE n = ucast n + 4"

definition PB_WT_VARINT :: u32 where [simp]: "PB_WT_VARINT = 0"
definition PB_WT_64BIT :: u32 where [simp]: "PB_WT_64BIT = 1"
definition PB_WT_STRING :: u32 where [simp]: "PB_WT_STRING = 2"
definition PB_WT_32BIT :: u32 where [simp]: "PB_WT_32BIT = 5"

section \<open>Field descriptors\<close>

text \<open>
  The \<open>ptr\<close> of a descriptor: null, the address of a submessage's descriptor array, or the address of
  a constant default value. \<open>size_offset\<close> is a signed 32-bit integer.
\<close>

datatype field_ptr = Null | Submsg nat | Default "byte list"

record pb_field =
  tag :: u32
  ftype :: byte
  data_offset :: u32
  size_offset :: u32
  data_size :: u32
  array_size :: u32
  ptr :: field_ptr

definition PB_LAST_FIELD :: pb_field where
  "PB_LAST_FIELD = \<lparr>tag = 0, ftype = 0, data_offset = 0, size_offset = 0, data_size = 0,
                    array_size = 0, ptr = Null\<rparr>"

section \<open>Streams\<close>

datatype read_callback = Buf_read | Custom_read nat

record pb_istream =
  i_callback :: read_callback
  i_state :: addr
  bytes_left :: size_t
  i_errmsg :: "string option"

datatype write_callback = Null_write | Buf_write | Custom_write nat

record pb_ostream =
  o_callback :: write_callback
  o_state :: addr
  max_size :: size_t
  bytes_written :: size_t
  o_errmsg :: "string option"

type_synonym 'a dec = "(pb_istream \<times> heap, 'a) cm"
type_synonym 'a enc = "(pb_ostream \<times> heap, 'a) cm"

text \<open>\<open>PB_SET_ERROR\<close> keeps the first message; \<open>PB_RETURN_ERROR\<close> sets it and returns false.\<close>

definition set_i_error :: "string \<Rightarrow> pb_istream \<Rightarrow> pb_istream" where
  "set_i_error msg s = s\<lparr>i_errmsg := (case i_errmsg s of None \<Rightarrow> Some msg | Some m \<Rightarrow> Some m)\<rparr>"

definition set_o_error :: "string \<Rightarrow> pb_ostream \<Rightarrow> pb_ostream" where
  "set_o_error msg s = s\<lparr>o_errmsg := (case o_errmsg s of None \<Rightarrow> Some msg | Some m \<Rightarrow> Some m)\<rparr>"

definition i_error :: "string \<Rightarrow> 'a dec" where
  "i_error msg = (\<lambda>(s, h). Some (None, (set_i_error msg s, h)))"

definition o_error :: "string \<Rightarrow> 'a enc" where
  "o_error msg = (\<lambda>(s, h). Some (None, (set_o_error msg s, h)))"

section \<open>What the program supplies\<close>

text \<open>
  A stream callback works on the stream's \<open>state\<close> and error message and on memory (the rules in
  \<open>pb_decode.h\<close> and \<open>pb_encode.h\<close> leave the byte counts to the library). It is given the number of
  bytes and, for reading, whether a buffer is supplied; it delivers the bytes read. An extension
  type's \<open>arg\<close> is a descriptor array. \<open>stack_buffer\<close> is where the compiler places the one local
  buffer the library hands to a callback.
\<close>

record ext_type =
  et_decode :: "(addr \<Rightarrow> u32 \<Rightarrow> u32 \<Rightarrow> unit dec) option"
  et_encode :: "(addr \<Rightarrow> unit enc) option"
  et_arg :: "pb_field list"

record env =
  descs :: "nat \<Rightarrow> pb_field list"
  allocator :: alloc_oracle
  custom_read :: "nat \<Rightarrow> bool \<Rightarrow> size_t \<Rightarrow> ((addr \<times> string option) \<times> heap, byte list) cm"
  custom_write :: "nat \<Rightarrow> byte list \<Rightarrow> ((addr \<times> string option) \<times> heap, unit) cm"
  cb_decode :: "addr \<Rightarrow> pb_field \<Rightarrow> addr \<Rightarrow> unit dec"
  cb_encode :: "addr \<Rightarrow> pb_field \<Rightarrow> addr \<Rightarrow> unit enc"
  ext_types :: "addr \<Rightarrow> ext_type option"
  stack_buffer :: addr

definition submsg_fields :: "env \<Rightarrow> field_ptr \<Rightarrow> pb_field list option" where
  "submsg_fields E p = (case p of Submsg i \<Rightarrow> Some (descs E i) | _ \<Rightarrow> None)"

text \<open>\<open>struct pb_extension_s\<close>: type at 0, dest at 8, next at 16, found at 24.\<close>

definition ext_type_of :: "env \<Rightarrow> addr \<Rightarrow> ('s \<times> heap, ext_type) cm" where
  "ext_type_of E ext = bindC (load_ptr ext) (\<lambda>t. liftC (ext_types E t))"

definition ext_dest :: "addr \<Rightarrow> ('s \<times> heap, addr) cm" where
  "ext_dest ext = load_ptr (ext + 8)"

definition ext_next :: "addr \<Rightarrow> ('s \<times> heap, addr) cm" where
  "ext_next ext = load_ptr (ext + 16)"

text \<open>
  A program with the descriptor arrays \<open>ds\<close> that registers no callbacks and no extensions and whose
  allocator never finds memory, and a memory of zeros; the concrete instances are evaluated on these.
\<close>

definition plain_env :: "(nat \<Rightarrow> pb_field list) \<Rightarrow> env" where
  "plain_env ds = \<lparr>descs = ds, allocator = (\<lambda>_ _. (0, \<lambda>_. 0)), custom_read = (\<lambda>_ _ _. failC),
     custom_write = (\<lambda>_ _. failC), cb_decode = (\<lambda>_ _ _. failC), cb_encode = (\<lambda>_ _ _. failC),
     ext_types = (\<lambda>_. None), stack_buffer = 0\<rparr>"

definition zero_memory :: heap where
  "zero_memory = \<lparr>mem = (\<lambda>_. Some 0), blocks = (\<lambda>_. None)\<rparr>"

section \<open>Lemmas\<close>

lemma zero_memory_readable [simp]: "readable zero_memory a n"
  by (simp add: zero_memory_def readable_def)

lemma set_i_error_sel [simp]:
  "i_callback (set_i_error m s) = i_callback s" "i_state (set_i_error m s) = i_state s"
  "bytes_left (set_i_error m s) = bytes_left s" "i_errmsg (set_i_error m s) \<noteq> None"
  by (simp_all add: set_i_error_def split: option.split)

lemma set_o_error_sel [simp]:
  "o_callback (set_o_error m s) = o_callback s" "o_state (set_o_error m s) = o_state s"
  "max_size (set_o_error m s) = max_size s" "bytes_written (set_o_error m s) = bytes_written s"
  "o_errmsg (set_o_error m s) \<noteq> None"
  by (simp_all add: set_o_error_def split: option.split)

lemma set_i_error_first [simp]: "i_errmsg s = Some m' \<Longrightarrow> set_i_error m s = s"
  by (simp add: set_i_error_def)

lemma set_o_error_first [simp]: "o_errmsg s = Some m' \<Longrightarrow> set_o_error m s = s"
  by (simp add: set_o_error_def)

end
