(* ===== verification/PbCommon.thy ===== *)
theory PbCommon
  imports PbTypes
begin

text \<open>
  The field iterator of \<open>pb_common.c\<close>. An iterator walks a descriptor array and computes, field by
  field, the address of the field's data (\<open>pData\<close>) and of its count or \<open>has_\<close> flag (\<open>pSize\<close>) inside
  the message structure. \<open>pb_decode_noinit\<close> may redirect \<open>pSize\<close> to its local variable
  \<open>fixed_count_size\<close>; the model keeps that local in the iterator (\<open>fixed_count\<close>) and \<open>Fixed_count\<close> is
  its address. The lemmas show that the cyclic walk computes the layout of the structure
  (\<open>field_off\<close>, \<open>size_off\<close>), that the search loop stops, and what it finds.
\<close>

section \<open>The iterator\<close>

datatype size_ptr = At addr | Fixed_count

record pb_field_iter =
  start :: "pb_field list"
  pos :: nat
  required_field_index :: u32
  dest_struct :: addr
  pData :: addr
  pSize :: size_ptr
  fixed_count :: u32

definition field_at :: "pb_field list \<Rightarrow> nat \<Rightarrow> pb_field" where
  "field_at fs i = (if i < length fs then fs ! i else PB_LAST_FIELD)"

definition cur :: "pb_field_iter \<Rightarrow> pb_field" where
  "cur it = field_at (start it) (pos it)"

text \<open>The contents of an iterator variable before \<open>pb_field_iter_begin\<close>; no field is read.\<close>

definition iter0 :: pb_field_iter where
  "iter0 = \<lparr>start = [], pos = 0, required_field_index = 0, dest_struct = 0, pData = 0,
            pSize = At 0, fixed_count = 0\<rparr>"

definition pb_field_iter_begin :: "pb_field_iter \<Rightarrow> pb_field list \<Rightarrow> addr \<Rightarrow> bool \<times> pb_field_iter" where
  "pb_field_iter_begin it fs dest =
    (let f = field_at fs 0;
         d = (if dest = 0 then 0 else dest + ucast (data_offset f));
         z = (if dest = 0 then 0 else d + scast (size_offset f))
     in (tag f \<noteq> 0,
         it\<lparr>start := fs, pos := 0, required_field_index := 0, dest_struct := dest,
            pData := d, pSize := At z\<rparr>))"

definition pb_field_iter_next :: "pb_field_iter \<Rightarrow> bool \<times> pb_field_iter" where
  "pb_field_iter_next it =
    (let prev_field = cur it in
     if tag prev_field = 0 then (False, it)
     else
       let it1 = it\<lparr>pos := Suc (pos it)\<rparr>; f = cur it1 in
       if tag f = 0 then (False, snd (pb_field_iter_begin it1 (start it1) (dest_struct it1)))
       else if PB_HTYPE (ftype prev_field) = PB_HTYPE_ONEOF \<and> PB_HTYPE (ftype f) = PB_HTYPE_ONEOF
               \<and> data_offset f = PB_SIZE_MAX
       then (True, it1)
       else
         let prev_size :: size_t =
               (if PB_ATYPE (ftype prev_field) = PB_ATYPE_STATIC \<and> PB_HTYPE (ftype prev_field) = PB_HTYPE_REPEATED
                then ucast (data_size prev_field) * ucast (array_size prev_field)
                else if PB_ATYPE (ftype prev_field) = PB_ATYPE_POINTER then 8
                else ucast (data_size prev_field));
             req = (if PB_HTYPE (ftype prev_field) = PB_HTYPE_REQUIRED
                    then required_field_index it1 + 1 else required_field_index it1);
             d = pData it1 + prev_size + ucast (data_offset f)
         in (True, it1\<lparr>required_field_index := req, pData := d, pSize := At (d + scast (size_offset f))\<rparr>))"

text \<open>
  \<open>do { if (P) return true; next; } while (pos != start); return false;\<close> with a bound on the
  number of rounds; the value None is a loop that has used up its bound.
\<close>

fun search :: "nat \<Rightarrow> ('i \<Rightarrow> 'i) \<Rightarrow> ('i \<Rightarrow> nat) \<Rightarrow> ('i \<Rightarrow> bool) \<Rightarrow> nat \<Rightarrow> 'i \<Rightarrow> (bool \<times> 'i) option" where
  "search 0 nxt idx P st x = None"
| "search (Suc n) nxt idx P st x =
     (if P x then Some (True, x)
      else let y = nxt x in if idx y \<noteq> st then search n nxt idx P st y else Some (False, y))"

definition pb_field_iter_find :: "pb_field_iter \<Rightarrow> u32 \<Rightarrow> (bool \<times> pb_field_iter) option" where
  "pb_field_iter_find it t =
     search (Suc (length (start it))) (\<lambda>it. snd (pb_field_iter_next it)) pos
       (\<lambda>it. tag (cur it) = t \<and> PB_LTYPE (ftype (cur it)) \<noteq> PB_LTYPE_EXTENSION) (pos it) it"

text \<open>
  \<open>do { body(&iter) } while (pb_field_iter_next(&iter));\<close>, leaving at the first body that returns
  false. The bound is the number of fields plus one.
\<close>

fun each_field :: "nat \<Rightarrow> (pb_field_iter \<Rightarrow> ('s, unit) cm) \<Rightarrow> pb_field_iter \<Rightarrow> ('s, unit) cm" where
  "each_field 0 body it = ubC"
| "each_field (Suc n) body it =
     thenC (body it) (case pb_field_iter_next it of (again, it') \<Rightarrow>
       if again then each_field n body it' else returnC ())"

section \<open>Access through pSize\<close>

definition get_size :: "pb_field_iter \<Rightarrow> ('s \<times> heap, u32) cm" where
  "get_size it = (case pSize it of At a \<Rightarrow> load_u32 a | Fixed_count \<Rightarrow> returnC (fixed_count it))"

definition set_size :: "pb_field_iter \<Rightarrow> u32 \<Rightarrow> ('s \<times> heap, pb_field_iter) cm" where
  "set_size it v = (case pSize it of
     At a \<Rightarrow> bindC (store_u32 a v) (\<lambda>_. returnC it)
   | Fixed_count \<Rightarrow> returnC (it\<lparr>fixed_count := v\<rparr>))"

definition set_has :: "pb_field_iter \<Rightarrow> bool \<Rightarrow> ('s \<times> heap, unit) cm" where
  "set_has it b = (case pSize it of At a \<Rightarrow> store_bool a b | Fixed_count \<Rightarrow> ubC)"

section \<open>A cyclic cursor and the search over it\<close>

text \<open>
  What the search loops rely on: moving on goes to the next position, round and round.
\<close>

locale cyclic_cursor =
  fixes nxt :: "'i \<Rightarrow> 'i" and idx :: "'i \<Rightarrow> nat" and len :: "'i \<Rightarrow> nat" and inv :: "'i \<Rightarrow> bool"
  assumes inv_nxt: "inv x \<Longrightarrow> inv (nxt x)"
    and len_nxt: "inv x \<Longrightarrow> len (nxt x) = len x"
    and idx_less: "inv x \<Longrightarrow> idx x < len x"
    and idx_nxt: "inv x \<Longrightarrow> idx (nxt x) = Suc (idx x) mod len x"
begin

lemma iterate:
  assumes "inv x"
  shows "inv ((nxt ^^ k) x) \<and> len ((nxt ^^ k) x) = len x \<and> idx ((nxt ^^ k) x) = (idx x + k) mod len x"
proof (induction k)
  case 0
  then show ?case using assms idx_less by simp
next
  case (Suc k)
  then show ?case by (auto simp: inv_nxt len_nxt idx_nxt mod_Suc_eq)
qed

lemma back_at_start:
  assumes "inv x" "0 < k" "k \<le> len x"
  shows "idx ((nxt ^^ k) x) = idx x \<longleftrightarrow> k = len x"
proof -
  from assms have i: "idx x < len x" by (simp add: idx_less)
  have "(idx x + k) mod len x = idx x \<longleftrightarrow> k = len x"
  proof (cases "idx x + k < len x")
    case True
    then show ?thesis using assms by simp
  next
    case False
    then have "(idx x + k) mod len x = idx x + k - len x"
      using i assms(3) by (simp add: mod_if)
    then show ?thesis using False i assms by linarith
  qed
  with iterate[OF assms(1)] show ?thesis by simp
qed

lemma search_from:
  assumes "inv x" "k < len x" "len x - k \<le> n" "\<forall>j<k. \<not> P ((nxt ^^ j) x)"
  shows "\<exists>b y. search n nxt idx P (idx x) ((nxt ^^ k) x) = Some (b, y) \<and>
     (b \<longrightarrow> (\<exists>j<len x. y = (nxt ^^ j) x \<and> P y \<and> (\<forall>i<j. \<not> P ((nxt ^^ i) x)))) \<and>
     (\<not> b \<longrightarrow> y = (nxt ^^ len x) x \<and> (\<forall>j<len x. \<not> P ((nxt ^^ j) x)))"
  using assms(2-)
proof (induction n arbitrary: k)
  case 0
  then show ?case by simp
next
  case (Suc n)
  show ?case
  proof (cases "P ((nxt ^^ k) x)")
    case True
    then show ?thesis using Suc.prems by auto
  next
    case False
    then have nP: "\<forall>j<Suc k. \<not> P ((nxt ^^ j) x)"
      using Suc.prems(3) by (simp add: less_Suc_eq)
    show ?thesis
    proof (cases "Suc k = len x")
      case True
      then have "idx ((nxt ^^ Suc k) x) = idx x" using back_at_start[OF assms(1), of "Suc k"] by simp
      then have "idx (nxt ((nxt ^^ k) x)) = idx x" by simp
      moreover have "nxt ((nxt ^^ k) x) = (nxt ^^ len x) x" using True by (metis comp_apply funpow.simps(2))
      ultimately show ?thesis using False nP True by (auto simp: Let_def)
    next
      case neq: False
      then have "idx ((nxt ^^ Suc k) x) \<noteq> idx x"
        using back_at_start[OF assms(1), of "Suc k"] Suc.prems(1) by simp
      moreover have "\<exists>b y. search n nxt idx P (idx x) ((nxt ^^ Suc k) x) = Some (b, y) \<and>
         (b \<longrightarrow> (\<exists>j<len x. y = (nxt ^^ j) x \<and> P y \<and> (\<forall>i<j. \<not> P ((nxt ^^ i) x)))) \<and>
         (\<not> b \<longrightarrow> y = (nxt ^^ len x) x \<and> (\<forall>j<len x. \<not> P ((nxt ^^ j) x)))"
        using neq Suc.prems nP by (intro Suc.IH) auto
      ultimately show ?thesis using False by simp
    qed
  qed
qed

lemma search_result:
  assumes "inv x"
  obtains (found) y j where "search (Suc (len x)) nxt idx P (idx x) x = Some (True, y)"
      "j < len x" "y = (nxt ^^ j) x" "P y" "\<forall>i<j. \<not> P ((nxt ^^ i) x)"
    | (absent) "search (Suc (len x)) nxt idx P (idx x) x = Some (False, (nxt ^^ len x) x)"
      "\<forall>j<len x. \<not> P ((nxt ^^ j) x)"
proof -
  have "0 < len x" using idx_less[OF assms] by simp
  then obtain b y where "search (Suc (len x)) nxt idx P (idx x) ((nxt ^^ 0) x) = Some (b, y)"
    "b \<longrightarrow> (\<exists>j<len x. y = (nxt ^^ j) x \<and> P y \<and> (\<forall>i<j. \<not> P ((nxt ^^ i) x)))"
    "\<not> b \<longrightarrow> y = (nxt ^^ len x) x \<and> (\<forall>j<len x. \<not> P ((nxt ^^ j) x))"
    using search_from[OF assms, of 0 "Suc (len x)" P] by auto
  with found absent show thesis by (cases b) auto
qed

end

section \<open>The layout the iterator computes\<close>

text \<open>
  \<open>field_off fs i\<close> and \<open>size_off fs i\<close>: where field number \<open>i\<close> and its count or flag lie, relative to
  the start of the structure. A member of the same union as its predecessor shares its place.
\<close>

definition same_union :: "pb_field \<Rightarrow> pb_field \<Rightarrow> bool" where
  "same_union f g \<longleftrightarrow> PB_HTYPE (ftype f) = PB_HTYPE_ONEOF \<and> PB_HTYPE (ftype g) = PB_HTYPE_ONEOF
     \<and> data_offset g = PB_SIZE_MAX"

definition struct_size :: "pb_field \<Rightarrow> size_t" where
  "struct_size f =
     (if PB_ATYPE (ftype f) = PB_ATYPE_STATIC \<and> PB_HTYPE (ftype f) = PB_HTYPE_REPEATED
      then ucast (data_size f) * ucast (array_size f)
      else if PB_ATYPE (ftype f) = PB_ATYPE_POINTER then 8
      else ucast (data_size f))"

fun field_off :: "pb_field list \<Rightarrow> nat \<Rightarrow> addr" where
  "field_off fs 0 = ucast (data_offset (field_at fs 0))"
| "field_off fs (Suc i) = (let f = field_at fs i; g = field_at fs (Suc i) in
     if same_union f g then field_off fs i
     else field_off fs i + struct_size f + ucast (data_offset g))"

fun size_off :: "pb_field list \<Rightarrow> nat \<Rightarrow> addr" where
  "size_off fs 0 = field_off fs 0 + scast (size_offset (field_at fs 0))"
| "size_off fs (Suc i) = (let g = field_at fs (Suc i) in
     if same_union (field_at fs i) g then size_off fs i
     else field_off fs (Suc i) + scast (size_offset g))"

definition required :: "pb_field \<Rightarrow> bool" where
  "required f \<longleftrightarrow> PB_HTYPE (ftype f) = PB_HTYPE_REQUIRED"

definition required_before :: "pb_field list \<Rightarrow> nat \<Rightarrow> nat" where
  "required_before fs i = length (filter required (take i fs))"

text \<open>Every entry before the terminator has a tag, and there is at least one.\<close>

definition tags_ok :: "pb_field list \<Rightarrow> bool" where
  "tags_ok fs \<longleftrightarrow> fs \<noteq> [] \<and> list_all (\<lambda>f. tag f \<noteq> 0) fs"

text \<open>The iterator stands at field \<open>pos\<close>; \<open>pSize\<close> may have been redirected.\<close>

definition iter_ok :: "pb_field_iter \<Rightarrow> bool" where
  "iter_ok it \<longleftrightarrow> tags_ok (start it) \<and> dest_struct it \<noteq> 0 \<and> pos it < length (start it)
     \<and> pData it = dest_struct it + field_off (start it) (pos it)
     \<and> (pSize it = At (dest_struct it + size_off (start it) (pos it)) \<or> pSize it = Fixed_count)
     \<and> required_field_index it = of_nat (required_before (start it) (pos it))"

lemma field_at_less [simp]: "i < length fs \<Longrightarrow> field_at fs i = fs ! i"
  by (simp add: field_at_def)

lemma tag_last [simp]: "tag PB_LAST_FIELD = 0" "ftype PB_LAST_FIELD = 0"
  by (simp_all add: PB_LAST_FIELD_def)

lemma tags_okD: "tags_ok fs \<Longrightarrow> i < length fs \<Longrightarrow> tag (fs ! i) \<noteq> 0"
  by (simp add: tags_ok_def list_all_length)

lemma iter_begin_ok:
  assumes "tags_ok fs" "dest \<noteq> 0"
  shows "fst (pb_field_iter_begin it fs dest)" "iter_ok (snd (pb_field_iter_begin it fs dest))"
    "pos (snd (pb_field_iter_begin it fs dest)) = 0"
    "start (snd (pb_field_iter_begin it fs dest)) = fs"
    "dest_struct (snd (pb_field_iter_begin it fs dest)) = dest"
    "fixed_count (snd (pb_field_iter_begin it fs dest)) = fixed_count it"
    "pSize (snd (pb_field_iter_begin it fs dest)) = At (dest + size_off fs 0)"
  using assms
  by (auto simp: pb_field_iter_begin_def iter_ok_def Let_def required_before_def tags_ok_def
      list_all_length add.assoc)

lemma required_before_Suc:
  "i < length fs \<Longrightarrow> required_before fs (Suc i) = required_before fs i + (if required (fs ! i) then 1 else 0)"
  by (simp add: required_before_def take_Suc_conv_app_nth)

lemma iter_next_eq:
  "pb_field_iter_next it =
    (let f = cur it; it1 = it\<lparr>pos := Suc (pos it)\<rparr>; g = cur it1 in
     if tag f = 0 then (False, it)
     else if tag g = 0 then (False, snd (pb_field_iter_begin it1 (start it1) (dest_struct it1)))
     else if same_union f g then (True, it1)
     else let req = (if required f then required_field_index it1 + 1 else required_field_index it1);
              d = pData it1 + struct_size f + ucast (data_offset g)
          in (True, it1\<lparr>required_field_index := req, pData := d, pSize := At (d + scast (size_offset g))\<rparr>))"
  unfolding pb_field_iter_next_def same_union_def struct_size_def required_def Let_def by (rule refl)

text \<open>One step of the iterator, in the middle of the array and at its end.\<close>

lemma iter_next_step:
  assumes "iter_ok it" "Suc (pos it) < length (start it)"
  shows "fst (pb_field_iter_next it)" "iter_ok (snd (pb_field_iter_next it))"
    "pos (snd (pb_field_iter_next it)) = Suc (pos it)"
proof -
  from assms have t: "tag (start it ! pos it) \<noteq> 0" "tag (start it ! Suc (pos it)) \<noteq> 0"
    by (auto simp: iter_ok_def tags_okD)
  have nr: "same_union f g \<Longrightarrow> \<not> required f" for f g
    by (simp add: same_union_def required_def)
  show "fst (pb_field_iter_next it)" "pos (snd (pb_field_iter_next it)) = Suc (pos it)"
    using assms t by (auto simp: pb_field_iter_next_def cur_def Let_def iter_ok_def)
  show "iter_ok (snd (pb_field_iter_next it))"
  proof (cases "same_union (start it ! pos it) (start it ! Suc (pos it))")
    case True
    then have "snd (pb_field_iter_next it) = it\<lparr>pos := Suc (pos it)\<rparr>"
      using assms t by (simp add: iter_next_eq cur_def Let_def iter_ok_def)
    then show ?thesis using assms True nr[OF True]
      by (simp add: iter_ok_def Let_def required_before_Suc)
  next
    case False
    then have "snd (pb_field_iter_next it) =
      (let f = start it ! pos it; g = start it ! Suc (pos it); d = pData it + struct_size f + ucast (data_offset g)
       in it\<lparr>pos := Suc (pos it), required_field_index := required_field_index it + (if required f then 1 else 0),
             pData := d, pSize := At (d + scast (size_offset g))\<rparr>)"
      using assms t
      by (simp add: iter_next_eq cur_def Let_def iter_ok_def)
    then show ?thesis using assms False
      by (simp add: iter_ok_def Let_def required_before_Suc ac_simps)
  qed
qed

lemma iter_next_wrap:
  assumes "iter_ok it" "Suc (pos it) = length (start it)"
  shows "\<not> fst (pb_field_iter_next it)" "iter_ok (snd (pb_field_iter_next it))"
    "pos (snd (pb_field_iter_next it)) = 0"
proof -
  from assms have t: "tag (start it ! pos it) \<noteq> 0" "dest_struct it \<noteq> 0" "tags_ok (start it)"
    by (auto simp: iter_ok_def tags_okD)
  have "pb_field_iter_next it =
      (False, snd (pb_field_iter_begin (it\<lparr>pos := Suc (pos it)\<rparr>) (start it) (dest_struct it)))"
    using assms t by (simp add: pb_field_iter_next_def cur_def Let_def field_at_def)
  with t iter_begin_ok show "\<not> fst (pb_field_iter_next it)" "iter_ok (snd (pb_field_iter_next it))"
    "pos (snd (pb_field_iter_next it)) = 0" by simp_all
qed

lemma iter_next_same [simp]:
  "start (snd (pb_field_iter_next it)) = start it"
  "dest_struct (snd (pb_field_iter_next it)) = dest_struct it"
  "fixed_count (snd (pb_field_iter_next it)) = fixed_count it"
  by (simp_all add: pb_field_iter_next_def pb_field_iter_begin_def Let_def)

interpretation field_cursor: cyclic_cursor "\<lambda>it. snd (pb_field_iter_next it)" pos
  "\<lambda>it. length (start it)" iter_ok
proof unfold_locales
  fix it assume it: "iter_ok it"
  then show lt: "pos it < length (start it)" by (simp add: iter_ok_def)
  then consider "Suc (pos it) < length (start it)" | "Suc (pos it) = length (start it)" by linarith
  then show "pos (snd (pb_field_iter_next it)) = Suc (pos it) mod length (start it)"
    "iter_ok (snd (pb_field_iter_next it))"
    using iter_next_step[OF it] iter_next_wrap[OF it] by (cases; simp)+
qed simp

section \<open>What the searches find\<close>

lemma iterate_same [simp]:
  "start (((\<lambda>it. snd (pb_field_iter_next it)) ^^ k) it) = start it"
  "dest_struct (((\<lambda>it. snd (pb_field_iter_next it)) ^^ k) it) = dest_struct it"
  "fixed_count (((\<lambda>it. snd (pb_field_iter_next it)) ^^ k) it) = fixed_count it"
  by (induction k) simp_all

lemma cyclic_surj:
  assumes "i < n" "j < (n::nat)"
  obtains k where "k < n" "(i + k) mod n = j"
proof (cases "i \<le> j")
  case True
  then show thesis using assms that[of "j - i"] by simp
next
  case False
  then show thesis using assms that[of "n + j - i"] by simp
qed

text \<open>The same statement serves \<open>pb_field_iter_find\<close> and \<open>find_extension_field\<close>.\<close>

lemma cur_iter: "iter_ok it \<Longrightarrow> cur it = start it ! pos it"
  by (simp add: cur_def iter_ok_def)

lemma field_search:
  assumes it: "iter_ok it"
  obtains (found) it' where
      "search (Suc (length (start it))) (\<lambda>it. snd (pb_field_iter_next it)) pos (\<lambda>it. P (cur it)) (pos it) it
        = Some (True, it')"
      "iter_ok it'" "start it' = start it" "dest_struct it' = dest_struct it"
      "fixed_count it' = fixed_count it" "P (start it ! pos it')"
    | (absent) it' where
      "search (Suc (length (start it))) (\<lambda>it. snd (pb_field_iter_next it)) pos (\<lambda>it. P (cur it)) (pos it) it
        = Some (False, it')"
      "iter_ok it'" "start it' = start it" "dest_struct it' = dest_struct it"
      "fixed_count it' = fixed_count it" "pos it' = pos it" "list_all (\<lambda>f. \<not> P f) (start it)"
proof (rule field_cursor.search_result [OF it, where P = "\<lambda>it. P (cur it)"])
  fix y j assume y: "search (Suc (length (start it))) (\<lambda>it. snd (pb_field_iter_next it)) pos
      (\<lambda>it. P (cur it)) (pos it) it = Some (True, y)" "P (cur y)"
    and j: "y = ((\<lambda>it. snd (pb_field_iter_next it)) ^^ j) it"
  have ok: "iter_ok y" using field_cursor.iterate [OF it, of j] j by simp
  show thesis by (rule found [OF y(1) ok]) (use j y(2) cur_iter [OF ok] in simp_all)
next
  let ?step = "\<lambda>k. ((\<lambda>it. snd (pb_field_iter_next it)) ^^ k) it"
  assume r: "search (Suc (length (start it))) (\<lambda>it. snd (pb_field_iter_next it)) pos
      (\<lambda>it. P (cur it)) (pos it) it = Some (False, ?step (length (start it)))"
    and none: "\<forall>j<length (start it). \<not> P (cur (?step j))"
  have lt: "pos it < length (start it)" using it by (simp add: iter_ok_def)
  note step = field_cursor.iterate [OF it]
  have "list_all (\<lambda>f. \<not> P f) (start it)"
  proof (simp add: list_all_length, intro allI impI)
    fix i assume i: "i < length (start it)"
    obtain k where k: "k < length (start it)" "(pos it + k) mod length (start it) = i"
      using cyclic_surj [OF lt i] .
    then have "cur (?step k) = start it ! i" using step [of k] cur_iter [of "?step k"] by simp
    with none k(1) show "\<not> P (start it ! i)" by auto
  qed
  with step [of "length (start it)"] lt show thesis by (intro absent [OF r]) simp_all
qed

lemma pb_field_iter_find_cases:
  assumes it: "iter_ok it"
  obtains (found) it' where "pb_field_iter_find it t = Some (True, it')" "iter_ok it'"
      "start it' = start it" "dest_struct it' = dest_struct it" "fixed_count it' = fixed_count it"
      "tag (start it ! pos it') = t" "PB_LTYPE (ftype (start it ! pos it')) \<noteq> PB_LTYPE_EXTENSION"
    | (absent) it' where "pb_field_iter_find it t = Some (False, it')" "iter_ok it'"
      "start it' = start it" "dest_struct it' = dest_struct it" "fixed_count it' = fixed_count it"
      "pos it' = pos it"
      "list_all (\<lambda>f. \<not> (tag f = t \<and> PB_LTYPE (ftype f) \<noteq> PB_LTYPE_EXTENSION)) (start it)"
  by (rule field_search [OF it, of "\<lambda>f. tag f = t \<and> PB_LTYPE (ftype f) \<noteq> PB_LTYPE_EXTENSION"])
    (auto simp: pb_field_iter_find_def intro: found absent)

text \<open>A walk that nobody redirects keeps \<open>pSize\<close> at the field's own count or flag.\<close>

definition own_size :: "pb_field_iter \<Rightarrow> bool" where
  "own_size it \<longleftrightarrow> pSize it = At (dest_struct it + size_off (start it) (pos it))"

lemma own_size_next:
  assumes "iter_ok it" "own_size it"
  shows "own_size (snd (pb_field_iter_next it))"
proof -
  from assms have t: "tag (start it ! pos it) \<noteq> 0" "tags_ok (start it)" "dest_struct it \<noteq> 0"
    "pos it < length (start it)" "pSize it = At (dest_struct it + size_off (start it) (pos it))"
    by (auto simp: iter_ok_def own_size_def tags_okD)
  show ?thesis
  proof (cases "Suc (pos it) < length (start it)")
    case True
    with t have "tag (start it ! Suc (pos it)) \<noteq> 0" by (simp add: tags_okD)
    with True t show ?thesis using iter_next_step [OF assms(1) True]
      by (auto simp: iter_next_eq cur_def Let_def own_size_def iter_ok_def)
  next
    case False
    with t have "snd (pb_field_iter_next it) =
        snd (pb_field_iter_begin (it\<lparr>pos := Suc (pos it)\<rparr>) (start it) (dest_struct it))"
      by (simp add: iter_next_eq cur_def Let_def field_at_def)
    with t show ?thesis using iter_begin_ok [of "start it" "dest_struct it"] by (simp add: own_size_def)
  qed
qed

text \<open>Where the iterator stands after \<open>k\<close> steps from the start.\<close>

abbreviation after_steps :: "nat \<Rightarrow> pb_field list \<Rightarrow> addr \<Rightarrow> pb_field_iter" where
  "after_steps k fs dest \<equiv> ((\<lambda>it. snd (pb_field_iter_next it)) ^^ k) (snd (pb_field_iter_begin iter0 fs dest))"

lemma after_steps:
  assumes "tags_ok fs" "dest \<noteq> 0"
  shows "iter_ok (after_steps k fs dest)" "own_size (after_steps k fs dest)" "pos (after_steps k fs dest) = k mod length fs"
    "start (after_steps k fs dest) = fs" "dest_struct (after_steps k fs dest) = dest"
proof -
  note b = iter_begin_ok [OF assms, of iter0]
  show "iter_ok (after_steps k fs dest)" "pos (after_steps k fs dest) = k mod length fs"
    using field_cursor.iterate [OF b(2), of k] b(3,4) by simp_all
  show "own_size (after_steps k fs dest)"
    by (induction k) (use b field_cursor.iterate [OF b(2)] own_size_next in \<open>simp_all add: own_size_def\<close>)
  show "start (after_steps k fs dest) = fs" "dest_struct (after_steps k fs dest) = dest" using b by simp_all
qed

section \<open>Properties\<close>

text \<open>C28: Walking a descriptor array with \<open>pb_field_iter_begin\<close> and \<open>pb_field_iter_next\<close> visits its fields in
  order, each with the address of its data and of its count or flag and with the number of required
  fields before it, and comes back to the first field after the last.\<close>

theorem field_iter_walk:
  assumes "tags_ok fs" "dest \<noteq> 0" "k \<le> length fs"
  shows "let it = ((\<lambda>it. snd (pb_field_iter_next it)) ^^ k) (snd (pb_field_iter_begin iter0 fs dest));
           i = k mod length fs
         in cur it = fs ! i \<and> pData it = dest + field_off fs i \<and> pSize it = At (dest + size_off fs i)
           \<and> required_field_index it = of_nat (required_before fs i)"
  using after_steps [OF assms(1,2), of k] cur_iter [OF after_steps(1) [OF assms(1,2), of k]]
  by (simp add: Let_def iter_ok_def own_size_def)

theorem field_iter_walk_witness:
  "let fs = [\<lparr>tag = 1, ftype = 0, data_offset = 8, size_offset = 0, data_size = 4, array_size = 0, ptr = Null\<rparr>,
             \<lparr>tag = 2, ftype = 0x11, data_offset = 4, size_offset = - 4, data_size = 8, array_size = 0, ptr = Null\<rparr>];
       it = ((\<lambda>it. snd (pb_field_iter_next it)) ^^ 1) (snd (pb_field_iter_begin iter0 fs 0x1000))
   in cur it = fs ! 1 \<and> pData it = 0x1010 \<and> pSize it = At 0x100C \<and> required_field_index it = 1"
  using field_iter_walk [of "[\<lparr>tag = 1, ftype = 0, data_offset = 8, size_offset = 0, data_size = 4, array_size = 0, ptr = Null\<rparr>,
             \<lparr>tag = 2, ftype = 0x11, data_offset = 4, size_offset = - 4, data_size = 8, array_size = 0, ptr = Null\<rparr>]" "0x1000" 1]
  by (simp add: tags_ok_def Let_def same_union_def struct_size_def required_before_def required_def
      PB_ATYPE_def PB_HTYPE_def del: funpow.simps)

text \<open>C29: The search for a field by tag ends, and finds a field exactly when the array has one with that
  tag that is not an extension placeholder, from wherever the iterator stands.\<close>

theorem field_iter_find_iff:
  assumes "iter_ok it"
  shows "\<exists>b it'. pb_field_iter_find it t = Some (b, it') \<and> iter_ok it' \<and> start it' = start it
    \<and> (b \<longleftrightarrow> list_ex (\<lambda>f. tag f = t \<and> PB_LTYPE (ftype f) \<noteq> PB_LTYPE_EXTENSION) (start it))
    \<and> (b \<longrightarrow> tag (cur it') = t \<and> PB_LTYPE (ftype (cur it')) \<noteq> PB_LTYPE_EXTENSION)
    \<and> (\<not> b \<longrightarrow> pos it' = pos it)"
proof (rule pb_field_iter_find_cases [OF assms, of t])
  fix it' assume *: "pb_field_iter_find it t = Some (True, it')" "iter_ok it'" "start it' = start it"
    "tag (start it ! pos it') = t" "PB_LTYPE (ftype (start it ! pos it')) \<noteq> PB_LTYPE_EXTENSION"
  then have "pos it' < length (start it)" by (simp add: iter_ok_def)
  with * show ?thesis by (auto simp: cur_iter list_ex_iff)
qed (auto simp: list_all_iff list_ex_iff)

theorem field_iter_find_iff_witness:
  "let fs = [\<lparr>tag = 1, ftype = 0, data_offset = 0, size_offset = 0, data_size = 4, array_size = 0, ptr = Null\<rparr>,
             \<lparr>tag = 5, ftype = 0x01, data_offset = 0, size_offset = 0, data_size = 8, array_size = 0, ptr = Null\<rparr>]
   in \<exists>it'. pb_field_iter_find (snd (pb_field_iter_begin iter0 fs 0x1000)) 5 = Some (True, it') \<and> tag (cur it') = 5"
proof -
  let ?fs = "[\<lparr>tag = 1, ftype = 0, data_offset = 0, size_offset = 0, data_size = 4, array_size = 0, ptr = Null\<rparr>,
             \<lparr>tag = 5, ftype = 0x01, data_offset = 0, size_offset = 0, data_size = 8, array_size = 0, ptr = Null\<rparr>]"
  have t: "tags_ok ?fs" by (simp add: tags_ok_def)
  have "iter_ok (snd (pb_field_iter_begin iter0 ?fs 0x1000))" by (rule iter_begin_ok [OF t]) simp
  from field_iter_find_iff [OF this, of 5] iter_begin_ok(4) [OF t, of "0x1000" iter0] show ?thesis
    by (auto simp: Let_def PB_LTYPE_def)
qed

end
