(* ===== verification/PbDefaults.thy ===== *)
theory PbDefaults
  imports PbCommon
begin

text \<open>
  Initialising and releasing a message structure (\<open>pb_decode.c\<close>): \<open>pb_message_set_to_defaults\<close> writes
  default values into every field, \<open>pb_release\<close> frees what the fields own. Both recurse into
  submessages and into the extensions of a message; each level of the recursion, and each link of an
  extension list, spends one unit of the bound the functions carry.
\<close>

section \<open>Extensions\<close>

text \<open>Null pointers are the address 0. \<open>found\<close> lies at offset 24, \<open>dest\<close> at offset 8.\<close>

definition iter_from_extension :: "env \<Rightarrow> addr \<Rightarrow> ('s \<times> heap, pb_field_iter) cm" where
  "iter_from_extension E ext =
     bindC (ext_type_of E ext) (\<lambda>et.
     bindC (ext_dest ext) (\<lambda>dest.
       let it = snd (pb_field_iter_begin iter0 (et_arg et) dest);
           it = it\<lparr>pData := dest, pSize := At (ext + 24)\<rparr>
       in returnC (if PB_ATYPE (ftype (field_at (et_arg et) 0)) = PB_ATYPE_POINTER
                   then it\<lparr>pData := ext + 8\<rparr> else it)))"

fun each_extension :: "nat \<Rightarrow> (addr \<Rightarrow> ('s \<times> heap, unit) cm) \<Rightarrow> addr \<Rightarrow> ('s \<times> heap, unit) cm" where
  "each_extension 0 body ext = ubC"
| "each_extension (Suc n) body ext =
     (if ext = 0 then returnC ()
      else bindC (body ext) (\<lambda>_. bindC (ext_next ext) (\<lambda>e. each_extension n body e)))"

section \<open>Default values\<close>

definition message_defaults :: "(pb_field_iter \<Rightarrow> ('s \<times> heap, unit) cm) \<Rightarrow> pb_field list \<Rightarrow> addr
    \<Rightarrow> ('s \<times> heap, unit) cm" where
  "message_defaults field_default fs dest =
     (case pb_field_iter_begin iter0 fs dest of (nonempty, it) \<Rightarrow>
       if \<not> nonempty then returnC ()
       else each_field (Suc (length fs)) field_default it)"

text \<open>The data part of a static field: \<open>lines 880-897\<close>.\<close>

definition init_data :: "env \<Rightarrow> (pb_field_iter \<Rightarrow> ('s \<times> heap, unit) cm) \<Rightarrow> pb_field_iter
    \<Rightarrow> ('s \<times> heap, unit) cm" where
  "init_data E field_default it = (let f = cur it in
     if PB_LTYPE (ftype f) = PB_LTYPE_SUBMESSAGE then
       bindC (liftC (submsg_fields E (ptr f))) (\<lambda>fs. message_defaults field_default fs (pData it))
     else (case ptr f of
       Null \<Rightarrow> memset0 (pData it) (unat (data_size f))
     | Default bs \<Rightarrow> if unat (data_size f) \<le> length bs
                     then storeC (pData it) (take (unat (data_size f)) bs) else ubC
     | Submsg _ \<Rightarrow> ubC))"

fun pb_field_set_to_default :: "env \<Rightarrow> nat \<Rightarrow> pb_field_iter \<Rightarrow> ('s \<times> heap, unit) cm" where
  "pb_field_set_to_default E 0 it = ubC"
| "pb_field_set_to_default E (Suc n) it = (let t = ftype (cur it) in
     if PB_LTYPE t = PB_LTYPE_EXTENSION then
       bindC (load_ptr (pData it)) (\<lambda>ext.
         each_extension n (\<lambda>ext.
           bindC (store_bool (ext + 24) False) (\<lambda>_.
           bindC (iter_from_extension E ext) (\<lambda>ext_iter.
             pb_field_set_to_default E n ext_iter))) ext)
     else if PB_ATYPE t = PB_ATYPE_STATIC then
       (if PB_HTYPE t = PB_HTYPE_OPTIONAL \<and> pSize it \<noteq> At (pData it)
        then bindC (set_has it False) (\<lambda>_. init_data E (pb_field_set_to_default E n) it)
        else if PB_HTYPE t = PB_HTYPE_REPEATED \<or> PB_HTYPE t = PB_HTYPE_ONEOF
        then bindC (set_size it 0) (\<lambda>_. returnC ())
        else init_data E (pb_field_set_to_default E n) it)
     else if PB_ATYPE t = PB_ATYPE_POINTER then
       bindC (store_ptr (pData it) 0) (\<lambda>_.
         if PB_HTYPE t = PB_HTYPE_REPEATED \<or> PB_HTYPE t = PB_HTYPE_ONEOF
         then bindC (set_size it 0) (\<lambda>_. returnC ())
         else returnC ())
     else returnC ())"

definition pb_message_set_to_defaults :: "env \<Rightarrow> nat \<Rightarrow> pb_field list \<Rightarrow> addr \<Rightarrow> ('s \<times> heap, unit) cm" where
  "pb_message_set_to_defaults E n fs dest = message_defaults (pb_field_set_to_default E n) fs dest"

section \<open>Releasing\<close>

text \<open>\<open>for (; count > 0; count--) { f(p); p += step; }\<close>\<close>

fun repeat_items :: "nat \<Rightarrow> addr \<Rightarrow> (addr \<Rightarrow> ('s, unit) cm) \<Rightarrow> addr \<Rightarrow> ('s, unit) cm" where
  "repeat_items 0 step f p = returnC ()"
| "repeat_items (Suc k) step f p = bindC (f p) (\<lambda>_. repeat_items k step f (p + step))"

definition release_fields :: "(pb_field_iter \<Rightarrow> ('s \<times> heap, unit) cm) \<Rightarrow> pb_field list \<Rightarrow> addr
    \<Rightarrow> ('s \<times> heap, unit) cm" where
  "release_fields release_field fs dest =
     (if dest = 0 then returnC ()
      else case pb_field_iter_begin iter0 fs dest of (nonempty, it) \<Rightarrow>
        if \<not> nonempty then returnC ()
        else each_field (Suc (length fs)) release_field it)"

text \<open>How many submessages a submessage field holds (lines 1200-1221).\<close>

definition submsg_count :: "pb_field_iter \<Rightarrow> ('s \<times> heap, u32) cm" where
  "submsg_count it = (let f = cur it; t = ftype f in
     if PB_HTYPE t = PB_HTYPE_REPEATED then
       bindC (if PB_ATYPE t = PB_ATYPE_STATIC \<and> pSize it = At (pData it)
              then returnC (array_size f) else get_size it) (\<lambda>count.
         returnC (if PB_ATYPE t = PB_ATYPE_STATIC \<and> count > array_size f then array_size f else count))
     else returnC 1)"

text \<open>The storage of a pointer field (lines 1233-1258).\<close>

definition release_pointer :: "pb_field_iter \<Rightarrow> ('s \<times> heap, unit) cm" where
  "release_pointer it = (let t = ftype (cur it) in
     bindC (if PB_HTYPE t = PB_HTYPE_REPEATED
               \<and> (PB_LTYPE t = PB_LTYPE_STRING \<or> PB_LTYPE t = PB_LTYPE_BYTES)
            then bindC (load_ptr (pData it)) (\<lambda>items. bindC (get_size it) (\<lambda>count.
              repeat_items (unat count) 8
                (\<lambda>p. bindC (load_ptr p) (\<lambda>q. bindC (c_free q) (\<lambda>_. store_ptr p 0))) items))
            else returnC ()) (\<lambda>_.
     bindC (if PB_HTYPE t = PB_HTYPE_REPEATED then bindC (set_size it 0) (\<lambda>_. returnC ())
            else returnC ()) (\<lambda>_.
     bindC (load_ptr (pData it)) (\<lambda>p. bindC (c_free p) (\<lambda>_. store_ptr (pData it) 0)))))"

fun pb_release_single_field :: "env \<Rightarrow> nat \<Rightarrow> pb_field_iter \<Rightarrow> ('s \<times> heap, unit) cm" where
  "pb_release_single_field E 0 it = ubC"
| "pb_release_single_field E (Suc n) it = (let f = cur it; t = ftype f in
     bindC (if PB_HTYPE t = PB_HTYPE_ONEOF
            then bindC (get_size it) (\<lambda>which. returnC (which \<noteq> tag f))
            else returnC False) (\<lambda>not_current.
     if not_current then returnC ()
     else bindC
       (if PB_LTYPE t = PB_LTYPE_EXTENSION then
          bindC (load_ptr (pData it)) (\<lambda>ext.
            each_extension n (\<lambda>ext.
              bindC (iter_from_extension E ext) (\<lambda>ext_iter. pb_release_single_field E n ext_iter)) ext)
        else if PB_LTYPE t = PB_LTYPE_SUBMESSAGE \<and> PB_ATYPE t \<noteq> PB_ATYPE_CALLBACK then
          bindC (if PB_ATYPE t = PB_ATYPE_POINTER then load_ptr (pData it) else returnC (pData it)) (\<lambda>pItem.
          bindC (submsg_count it) (\<lambda>count.
            if pItem \<noteq> 0 then
              repeat_items (unat count) (ucast (data_size f))
                (\<lambda>p. bindC (liftC (submsg_fields E (ptr f))) (\<lambda>fs.
                   release_fields (pb_release_single_field E n) fs p)) pItem
            else returnC ()))
        else returnC ()) (\<lambda>_.
       if PB_ATYPE t = PB_ATYPE_POINTER then release_pointer it else returnC ())))"

definition pb_release :: "env \<Rightarrow> nat \<Rightarrow> pb_field list \<Rightarrow> addr \<Rightarrow> ('s \<times> heap, unit) cm" where
  "pb_release E n fs dest = release_fields (pb_release_single_field E n) fs dest"

end
