(* ===== verification/PbIstream.thy ===== *)
theory PbIstream
  imports PbTypes
begin

text \<open>
  Input streams and the wire-level readers of \<open>pb_decode.c\<close>: reading bytes, varints, tags, skipping
  fields, substreams. The buffer callback \<open>buf_read\<close> reads from memory at the stream's \<open>state\<close>; other
  callbacks come from the environment. Where the C code reads into a local buffer, or copies into the
  message, the reader here delivers the bytes and its caller stores them; \<open>want\<close> is false where C
  passes a null buffer. A local that C sets through an out-parameter is part of the result.
\<close>

section \<open>Reading bytes\<close>

definition buf_read :: "bool \<Rightarrow> size_t \<Rightarrow> byte list dec" where
  "buf_read want count = (\<lambda>(s, h).
     let s' = s\<lparr>i_state := i_state s + count\<rparr> in
     if want then (case load_bytes h (i_state s) (unat count) of
         None \<Rightarrow> None
       | Some bs \<Rightarrow> Some (Some bs, (s', h)))
     else Some (Some [], (s', h)))"

text \<open>
  \<open>stream->callback(stream, buf, count)\<close>; a custom callback that does not fill the buffer it is given
  breaks its contract.
\<close>

definition stream_read :: "env \<Rightarrow> bool \<Rightarrow> size_t \<Rightarrow> byte list dec" where
  "stream_read E want count = (\<lambda>(s, h). case i_callback s of
     Buf_read \<Rightarrow> buf_read want count (s, h)
   | Custom_read k \<Rightarrow> (case custom_read E k want count ((i_state s, i_errmsg s), h) of
       None \<Rightarrow> None
     | Some (r, ((st, e), h')) \<Rightarrow>
         if want \<and> r \<noteq> None \<and> length (the r) \<noteq> unat count then None
         else Some (r, (s\<lparr>i_state := st, i_errmsg := e\<rparr>, h'))))"

text \<open>\<open>pb_read\<close> from the check of \<open>bytes_left\<close> on, and its loop that skips 16 bytes at a time.\<close>

definition read_checked :: "env \<Rightarrow> bool \<Rightarrow> size_t \<Rightarrow> byte list dec" where
  "read_checked E want count = (\<lambda>(s, h).
     if bytes_left s < count then i_error ''end-of-stream'' (s, h)
     else bindC (catchC (stream_read E want count)) (\<lambda>r. case r of
         None \<Rightarrow> i_error ''io error''
       | Some bs \<Rightarrow> (\<lambda>(s, h). Some (Some bs, (s\<lparr>bytes_left := bytes_left s - count\<rparr>, h)))) (s, h))"

function skip_chunks :: "env \<Rightarrow> nat \<Rightarrow> byte list dec" where
  "skip_chunks E n =
     (if 16 < n then bindC (read_checked E True 16) (\<lambda>_. skip_chunks E (n - 16))
      else bindC (if n = 0 then returnC [] else read_checked E True (of_nat n)) (\<lambda>_. returnC []))"
  by pat_completeness auto
termination by (relation "measure snd") auto

declare skip_chunks.simps [simp del]

definition pb_read :: "env \<Rightarrow> bool \<Rightarrow> size_t \<Rightarrow> byte list dec" where
  "pb_read E want count = (\<lambda>(s, h).
     if count = 0 then Some (Some [], (s, h))
     else if \<not> want \<and> i_callback s \<noteq> Buf_read then skip_chunks E (unat count) (s, h)
     else read_checked E want count (s, h))"

definition pb_readbyte :: "env \<Rightarrow> byte dec" where
  "pb_readbyte E = (\<lambda>(s, h).
     if bytes_left s = 0 then i_error ''end-of-stream'' (s, h)
     else bindC (catchC (stream_read E True 1)) (\<lambda>r. case r of
         None \<Rightarrow> i_error ''io error''
       | Some bs \<Rightarrow> (case bs of
           [b] \<Rightarrow> (\<lambda>(s, h). Some (Some b, (s\<lparr>bytes_left := bytes_left s - 1\<rparr>, h)))
         | _ \<Rightarrow> ubC)) (s, h))"

definition pb_istream_from_buffer :: "addr \<Rightarrow> size_t \<Rightarrow> pb_istream" where
  "pb_istream_from_buffer buf bufsize =
     \<lparr>i_callback = Buf_read, i_state = buf, bytes_left = bufsize, i_errmsg = None\<rparr>"

section \<open>Varints\<close>

text \<open>
  The loops over input bytes run at most once per byte that is left, since each round reads one; the
  bound is the number of bytes left when the loop is entered, plus one for the round that fails.
  \<open>bitpos\<close> is a \<open>uint_fast8_t\<close>, 8 bits wide on the iOS targets, so its addition wraps.
\<close>

definition input_bound :: "('a \<Rightarrow> nat \<Rightarrow> 'b dec) \<Rightarrow> 'a \<Rightarrow> 'b dec" where
  "input_bound loop x = (\<lambda>(s, h). loop x (Suc (unat (bytes_left s))) (s, h))"

fun varint32_loop :: "env \<Rightarrow> u32 \<Rightarrow> byte \<Rightarrow> nat \<Rightarrow> (u32 \<times> byte \<times> byte) dec" where
  "varint32_loop E result bitpos 0 = ubC"
| "varint32_loop E result bitpos (Suc n) =
     bindC (pb_readbyte E) (\<lambda>b.
       let sign_extension = (if bitpos < 63 then 0xFF else 0x01) in
       if bitpos \<ge> 32 \<and> b AND 0x7F \<noteq> 0 \<and> (drop_bit 31 result = 0 \<or> b \<noteq> sign_extension)
       then i_error ''varint overflow''
       else
         let result' = (if bitpos \<ge> 32 then result
                        else result OR push_bit (unat bitpos) (ucast (b AND 0x7F)));
             bitpos' = bitpos + 7
         in if b AND 0x80 \<noteq> 0 then varint32_loop E result' bitpos' n
            else returnC (result', bitpos', b))"

text \<open>The result is the value, None where C returns false, and whether \<open>*eof\<close> was set.\<close>

definition pb_decode_varint32_eof :: "env \<Rightarrow> (u32 option \<times> bool) dec" where
  "pb_decode_varint32_eof E =
     bindC (catchC (pb_readbyte E)) (\<lambda>r. case r of
       None \<Rightarrow> (\<lambda>(s, h). Some (Some (None, bytes_left s = 0), (s, h)))
     | Some b \<Rightarrow>
         bindC (catchC
           (if b AND 0x80 = 0 then returnC (ucast b)
            else bindC (input_bound (\<lambda>(res, bp). varint32_loop E res bp) (ucast (b AND 0x7F), 7))
              (\<lambda>(result, bitpos, b).
                 if bitpos = 35 \<and> b AND 0x70 \<noteq> 0 then i_error ''varint overflow''
                 else returnC result)))
         (\<lambda>v. returnC (v, False)))"

definition pb_decode_varint32 :: "env \<Rightarrow> u32 dec" where
  "pb_decode_varint32 E =
     bindC (pb_decode_varint32_eof E) (\<lambda>(v, eof). case v of None \<Rightarrow> failC | Some w \<Rightarrow> returnC w)"

fun varint_loop :: "env \<Rightarrow> u64 \<Rightarrow> byte \<Rightarrow> nat \<Rightarrow> u64 dec" where
  "varint_loop E result bitpos 0 = ubC"
| "varint_loop E result bitpos (Suc n) =
     (if bitpos \<ge> 64 then i_error ''varint overflow''
      else bindC (pb_readbyte E) (\<lambda>b.
        let result' = result OR push_bit (unat bitpos) (ucast (b AND 0x7F));
            bitpos' = bitpos + 7
        in if b AND 0x80 \<noteq> 0 then varint_loop E result' bitpos' n else returnC result'))"

definition pb_decode_varint :: "env \<Rightarrow> u64 dec" where
  "pb_decode_varint E = input_bound (\<lambda>(res, bp). varint_loop E res bp) (0, 0)"

section \<open>Skipping and tags\<close>

fun skip_varint_loop :: "env \<Rightarrow> nat \<Rightarrow> unit dec" where
  "skip_varint_loop E 0 = ubC"
| "skip_varint_loop E (Suc n) =
     bindC (pb_read E True 1) (\<lambda>bs. if hd bs AND 0x80 \<noteq> 0 then skip_varint_loop E n else returnC ())"

definition pb_skip_varint :: "env \<Rightarrow> unit dec" where
  "pb_skip_varint E = input_bound (\<lambda>_. skip_varint_loop E) ()"

definition pb_skip_string :: "env \<Rightarrow> unit dec" where
  "pb_skip_string E =
     bindC (pb_decode_varint32 E) (\<lambda>len. bindC (pb_read E False (ucast len)) (\<lambda>_. returnC ()))"

text \<open>
  The result is \<open>(ok, wire_type, tag, eof)\<close>: the return value and the three out-parameters.
\<close>

definition pb_decode_tag :: "env \<Rightarrow> (bool \<times> u32 \<times> u32 \<times> bool) dec" where
  "pb_decode_tag E =
     bindC (pb_decode_varint32_eof E) (\<lambda>(v, eof). case v of
       None \<Rightarrow> returnC (False, 0, 0, eof)
     | Some temp \<Rightarrow>
         if temp = 0 then returnC (False, 0, 0, True)
         else returnC (True, temp AND 7, drop_bit 3 temp, eof))"

definition pb_skip_field :: "env \<Rightarrow> u32 \<Rightarrow> unit dec" where
  "pb_skip_field E wire_type =
     (if wire_type = PB_WT_VARINT then pb_skip_varint E
      else if wire_type = PB_WT_64BIT then bindC (pb_read E False 8) (\<lambda>_. returnC ())
      else if wire_type = PB_WT_STRING then pb_skip_string E
      else if wire_type = PB_WT_32BIT then bindC (pb_read E False 4) (\<lambda>_. returnC ())
      else i_error ''invalid wire_type'')"

text \<open>
  \<open>read_raw_value\<close>, for a buffer of \<open>max\<close> bytes: the bytes read so far are \<open>acc\<close>.
\<close>

fun raw_varint :: "env \<Rightarrow> nat \<Rightarrow> byte list \<Rightarrow> nat \<Rightarrow> byte list dec" where
  "raw_varint E mx acc 0 = ubC"
| "raw_varint E mx acc (Suc n) =
     (if Suc (length acc) > mx then failC
      else bindC (pb_read E True 1) (\<lambda>bs.
        if hd bs AND 0x80 \<noteq> 0 then raw_varint E mx (acc @ bs) n else returnC (acc @ bs)))"

definition read_raw_value :: "env \<Rightarrow> u32 \<Rightarrow> nat \<Rightarrow> byte list dec" where
  "read_raw_value E wire_type mx =
     (if wire_type = PB_WT_VARINT then raw_varint E mx [] (Suc mx)
      else if wire_type = PB_WT_64BIT then pb_read E True 8
      else if wire_type = PB_WT_32BIT then pb_read E True 4
      else i_error ''invalid wire_type'')"

section \<open>Substreams\<close>

text \<open>
  A substream is a copy of the stream limited to \<open>size\<close> bytes; the parent gives these bytes up at
  once and takes over the substream's position when it is closed.
\<close>

definition pb_make_string_substream :: "env \<Rightarrow> pb_istream dec" where
  "pb_make_string_substream E =
     bindC (pb_decode_varint32 E) (\<lambda>size. (\<lambda>(s, h).
       if bytes_left s < ucast size then i_error ''parent stream too short'' (s, h)
       else Some (Some (s\<lparr>bytes_left := ucast size\<rparr>), (s\<lparr>bytes_left := bytes_left s - ucast size\<rparr>, h))))"

text \<open>Run a computation on a substream: its result and the substream it leaves.\<close>

definition on_substream :: "pb_istream \<Rightarrow> 'a dec \<Rightarrow> ('a option \<times> pb_istream) dec" where
  "on_substream sub m = (\<lambda>(s, h). case m (sub, h) of
     None \<Rightarrow> None
   | Some (r, (sub', h')) \<Rightarrow> Some (Some (r, sub'), (s, h')))"

definition pb_close_string_substream :: "env \<Rightarrow> pb_istream \<Rightarrow> unit dec" where
  "pb_close_string_substream E sub =
     bindC (if bytes_left sub \<noteq> 0 then on_substream sub (pb_read E False (bytes_left sub))
            else returnC (Some [], sub))
       (\<lambda>(r, sub'). case r of
          None \<Rightarrow> failC
        | Some _ \<Rightarrow> (\<lambda>(s, h). Some (Some (), (s\<lparr>i_state := i_state sub', i_errmsg := i_errmsg sub'\<rparr>, h))))"

section \<open>Integers on the wire\<close>

definition pb_decode_svarint :: "env \<Rightarrow> u64 dec" where
  "pb_decode_svarint E =
     bindC (pb_decode_varint E) (\<lambda>value.
       returnC (if value AND 1 \<noteq> 0 then NOT (drop_bit 1 value) else drop_bit 1 value))"

definition pb_decode_fixed32 :: "env \<Rightarrow> addr \<Rightarrow> unit dec" where
  "pb_decode_fixed32 E dest =
     bindC (pb_read E True 4) (\<lambda>bytes.
       store_u32 dest (push_bit 0 (ucast (bytes ! 0)) OR push_bit 8 (ucast (bytes ! 1))
         OR push_bit 16 (ucast (bytes ! 2)) OR push_bit 24 (ucast (bytes ! 3))))"

definition pb_decode_fixed64 :: "env \<Rightarrow> addr \<Rightarrow> unit dec" where
  "pb_decode_fixed64 E dest =
     bindC (pb_read E True 8) (\<lambda>bytes.
       storeC dest (le_bytes 8 (push_bit 0 (ucast (bytes ! 0)) OR push_bit 8 (ucast (bytes ! 1))
         OR push_bit 16 (ucast (bytes ! 2)) OR push_bit 24 (ucast (bytes ! 3))
         OR push_bit 32 (ucast (bytes ! 4)) OR push_bit 40 (ucast (bytes ! 5))
         OR push_bit 48 (ucast (bytes ! 6)) OR push_bit 56 (ucast (bytes ! 7)) :: u64)))"

end
