(* ===== verification/PbDecode.thy ===== *)
theory PbDecode
  imports PbDefaults PbIstream
begin

text \<open>
  The field decoders and the message loop of \<open>pb_decode.c\<close>. A submessage is decoded by the message
  decoder itself; the definitions below take that decoder as the argument \<open>sub\<close> (its flag says whether
  the submessage is initialised first, \<open>pb_decode\<close>, or not, \<open>pb_decode_noinit\<close>), and
  \<open>pb_decode_noinit\<close> ties the knot with a bound on the nesting depth. \<open>n\<close> is that bound; it also
  bounds the walks over extension lists and the calls of a field callback.
\<close>

type_synonym sub_decoder = "bool \<Rightarrow> pb_field list \<Rightarrow> addr \<Rightarrow> unit dec"

section \<open>Allocation\<close>

definition allocate_field :: "env \<Rightarrow> addr \<Rightarrow> size_t \<Rightarrow> size_t \<Rightarrow> unit dec" where
  "allocate_field E pdata dsize asize =
     bindC (load_ptr pdata) (\<lambda>p.
       if dsize = 0 \<or> asize = 0 then i_error ''invalid size''
       else if (dsize \<ge> 0x100000000 \<or> asize \<ge> 0x100000000) \<and> 0xFFFFFFFFFFFFFFFF div asize < dsize
       then i_error ''size too large''
       else bindC (c_realloc (allocator E) p (unat (asize * dsize))) (\<lambda>q.
         if q = 0 then i_error ''realloc failed'' else store_ptr pdata q))"

definition initialize_pointer_field :: "env \<Rightarrow> nat \<Rightarrow> addr \<Rightarrow> pb_field_iter \<Rightarrow> unit dec" where
  "initialize_pointer_field E n pItem it = (let f = cur it; lt = PB_LTYPE (ftype f) in
     if lt = PB_LTYPE_STRING \<or> lt = PB_LTYPE_BYTES then store_ptr pItem 0
     else if lt = PB_LTYPE_SUBMESSAGE then
       bindC (memset0 pItem (unat (data_size f))) (\<lambda>_.
       bindC (liftC (submsg_fields E (ptr f))) (\<lambda>fs. pb_message_set_to_defaults E n fs pItem))
     else returnC ())"

section \<open>Field decoders\<close>

definition pb_dec_bool :: "env \<Rightarrow> pb_field \<Rightarrow> addr \<Rightarrow> unit dec" where
  "pb_dec_bool E f dest =
     bindC (pb_decode_varint32 E) (\<lambda>value. store_bool dest (value \<noteq> 0))"

definition pb_decode_bool :: "env \<Rightarrow> addr \<Rightarrow> unit dec" where
  "pb_decode_bool E dest = pb_dec_bool E PB_LAST_FIELD dest"

text \<open>The integer decoders write the value at the width of the field and then check that it fitted.\<close>

definition pb_dec_varint :: "env \<Rightarrow> pb_field \<Rightarrow> addr \<Rightarrow> unit dec" where
  "pb_dec_varint E f dest =
     bindC (pb_decode_varint E) (\<lambda>value.
       let svalue :: u64 = (if data_size f = 8 then value else scast (ucast value :: u32));
           finish = (\<lambda>clamped :: u64. if clamped \<noteq> svalue then i_error ''integer too large'' else returnC ())
       in if data_size f = 8 then bindC (storeC dest (le_bytes 8 svalue)) (\<lambda>_. finish svalue)
          else if data_size f = 4 then bindC (storeC dest (le_bytes 4 (ucast svalue :: u32)))
            (\<lambda>_. finish (scast (ucast svalue :: u32)))
          else if data_size f = 2 then bindC (storeC dest (le_bytes 2 (ucast svalue :: 16 word)))
            (\<lambda>_. finish (scast (ucast svalue :: 16 word)))
          else if data_size f = 1 then bindC (storeC dest (le_bytes 1 (ucast svalue :: byte)))
            (\<lambda>_. finish (scast (ucast svalue :: byte)))
          else i_error ''invalid data_size'')"

definition pb_dec_uvarint :: "env \<Rightarrow> pb_field \<Rightarrow> addr \<Rightarrow> unit dec" where
  "pb_dec_uvarint E f dest =
     bindC (pb_decode_varint E) (\<lambda>value.
       let finish = (\<lambda>clamped :: u64. if clamped \<noteq> value then i_error ''integer too large'' else returnC ())
       in if data_size f = 8 then bindC (storeC dest (le_bytes 8 value)) (\<lambda>_. finish value)
          else if data_size f = 4 then bindC (storeC dest (le_bytes 4 (ucast value :: u32)))
            (\<lambda>_. finish (ucast (ucast value :: u32)))
          else if data_size f = 2 then bindC (storeC dest (le_bytes 2 (ucast value :: 16 word)))
            (\<lambda>_. finish (ucast (ucast value :: 16 word)))
          else if data_size f = 1 then bindC (storeC dest (le_bytes 1 (ucast value :: byte)))
            (\<lambda>_. finish (ucast (ucast value :: byte)))
          else i_error ''invalid data_size'')"

definition pb_dec_svarint :: "env \<Rightarrow> pb_field \<Rightarrow> addr \<Rightarrow> unit dec" where
  "pb_dec_svarint E f dest =
     bindC (pb_decode_svarint E) (\<lambda>value.
       let finish = (\<lambda>clamped :: u64. if clamped \<noteq> value then i_error ''integer too large'' else returnC ())
       in if data_size f = 8 then bindC (storeC dest (le_bytes 8 value)) (\<lambda>_. finish value)
          else if data_size f = 4 then bindC (storeC dest (le_bytes 4 (ucast value :: u32)))
            (\<lambda>_. finish (scast (ucast value :: u32)))
          else if data_size f = 2 then bindC (storeC dest (le_bytes 2 (ucast value :: 16 word)))
            (\<lambda>_. finish (scast (ucast value :: 16 word)))
          else if data_size f = 1 then bindC (storeC dest (le_bytes 1 (ucast value :: byte)))
            (\<lambda>_. finish (scast (ucast value :: byte)))
          else i_error ''invalid data_size'')"

definition pb_dec_fixed32 :: "env \<Rightarrow> pb_field \<Rightarrow> addr \<Rightarrow> unit dec" where
  "pb_dec_fixed32 E f dest = pb_decode_fixed32 E dest"

definition pb_dec_fixed64 :: "env \<Rightarrow> pb_field \<Rightarrow> addr \<Rightarrow> unit dec" where
  "pb_dec_fixed64 E f dest = pb_decode_fixed64 E dest"

text \<open>\<open>pb_read(stream, buf, count)\<close> with \<open>buf\<close> in memory.\<close>

definition pb_read_to :: "env \<Rightarrow> addr \<Rightarrow> size_t \<Rightarrow> unit dec" where
  "pb_read_to E buf count = bindC (pb_read E True count) (\<lambda>bs. storeC buf bs)"

definition pb_dec_bytes :: "env \<Rightarrow> pb_field \<Rightarrow> addr \<Rightarrow> unit dec" where
  "pb_dec_bytes E f dest =
     bindC (pb_decode_varint32 E) (\<lambda>sz. let alloc_size = PB_BYTES_ARRAY_T_ALLOCSIZE sz in
       if sz > PB_SIZE_MAX then i_error ''bytes overflow''
       else if ucast sz > alloc_size then i_error ''size too large''
       else bindC
         (if PB_ATYPE (ftype f) = PB_ATYPE_POINTER then
            (\<lambda>(s, h). if bytes_left s < ucast sz then i_error ''end-of-stream'' (s, h)
              else bindC (allocate_field E dest alloc_size 1) (\<lambda>_. load_ptr dest) (s, h))
          else if alloc_size > ucast (data_size f) then i_error ''bytes overflow''
          else returnC dest) (\<lambda>bdest.
       bindC (store_u32 bdest sz) (\<lambda>_. pb_read_to E (bdest + 4) (ucast sz))))"

text \<open>
  \<open>size + 1\<close> is computed in 32 bits. The terminator is written whether or not the read succeeded.
\<close>

definition pb_dec_string :: "env \<Rightarrow> pb_field \<Rightarrow> addr \<Rightarrow> unit dec" where
  "pb_dec_string E f dest =
     bindC (pb_decode_varint32 E) (\<lambda>sz. let alloc_size = (ucast (sz + 1) :: size_t) in
       if alloc_size < ucast sz then i_error ''size too large''
       else bindC
         (if PB_ATYPE (ftype f) = PB_ATYPE_POINTER then
            (\<lambda>(s, h). if bytes_left s < ucast sz then i_error ''end-of-stream'' (s, h)
              else bindC (allocate_field E dest alloc_size 1) (\<lambda>_. load_ptr dest) (s, h))
          else if alloc_size > ucast (data_size f) then i_error ''string overflow''
          else returnC dest) (\<lambda>d.
       bindC (catchC (pb_read_to E d (ucast sz))) (\<lambda>status.
       bindC (storeC (d + ucast sz) [0]) (\<lambda>_.
         if status = None then failC else returnC ()))))"

definition pb_dec_submessage :: "env \<Rightarrow> sub_decoder \<Rightarrow> pb_field \<Rightarrow> addr \<Rightarrow> unit dec" where
  "pb_dec_submessage E sub f dest =
     bindC (pb_make_string_substream E) (\<lambda>substream.
       if ptr f = Null then i_error ''invalid field descriptor''
       else bindC (liftC (submsg_fields E (ptr f))) (\<lambda>fs.
         bindC (on_substream substream (sub (PB_HTYPE (ftype f) = PB_HTYPE_REPEATED) fs dest))
           (\<lambda>(status, substream).
         bindC (pb_close_string_substream E substream) (\<lambda>_.
           if status = None then failC else returnC ()))))"

definition pb_dec_fixed_length_bytes :: "env \<Rightarrow> pb_field \<Rightarrow> addr \<Rightarrow> unit dec" where
  "pb_dec_fixed_length_bytes E f dest =
     bindC (pb_decode_varint32 E) (\<lambda>sz.
       if sz > PB_SIZE_MAX then i_error ''bytes overflow''
       else if sz = 0 then memset0 dest (unat (data_size f))
       else if sz \<noteq> data_size f then i_error ''incorrect fixed length bytes size''
       else pb_read_to E dest (ucast (data_size f)))"

text \<open>The table of decoders; calling the null entry, or an entry past the end, is undefined.\<close>

definition PB_DECODERS :: "env \<Rightarrow> sub_decoder \<Rightarrow> byte \<Rightarrow> pb_field \<Rightarrow> addr \<Rightarrow> unit dec" where
  "PB_DECODERS E sub lt =
     (if lt = PB_LTYPE_BOOL then pb_dec_bool E
      else if lt = PB_LTYPE_VARINT then pb_dec_varint E
      else if lt = PB_LTYPE_UVARINT then pb_dec_uvarint E
      else if lt = PB_LTYPE_SVARINT then pb_dec_svarint E
      else if lt = PB_LTYPE_FIXED32 then pb_dec_fixed32 E
      else if lt = PB_LTYPE_FIXED64 then pb_dec_fixed64 E
      else if lt = PB_LTYPE_BYTES then pb_dec_bytes E
      else if lt = PB_LTYPE_STRING then pb_dec_string E
      else if lt = PB_LTYPE_SUBMESSAGE then pb_dec_submessage E sub
      else if lt = PB_LTYPE_FIXED_LENGTH_BYTES then pb_dec_fixed_length_bytes E
      else (\<lambda>_ _. ubC))"

section \<open>Static fields\<close>

text \<open>The address of array entry \<open>i\<close>: the product \<open>data_size * i\<close> is a 32-bit one.\<close>

definition item_addr :: "addr \<Rightarrow> pb_field \<Rightarrow> u32 \<Rightarrow> addr" where
  "item_addr base f i = base + ucast (data_size f * i)"

text \<open>
  The loop over a packed array, run on the substream. Its result is the iterator and \<open>status\<close>.
\<close>

fun packed_static_loop :: "(pb_field \<Rightarrow> addr \<Rightarrow> unit dec) \<Rightarrow> pb_field_iter \<Rightarrow> nat
    \<Rightarrow> (pb_field_iter \<times> bool) dec" where
  "packed_static_loop func it 0 = ubC"
| "packed_static_loop func it (Suc k) =
     (\<lambda>(s, h). if bytes_left s = 0 then returnC (it, True) (s, h)
       else bindC (get_size it) (\<lambda>sz.
         if \<not> sz < array_size (cur it) then returnC (it, True)
         else bindC (catchC (func (cur it) (item_addr (pData it) (cur it) sz))) (\<lambda>r.
           if r = None then returnC (it, False)
           else bindC (get_size it) (\<lambda>sz'. bindC (set_size it (sz' + 1)) (\<lambda>it'.
             packed_static_loop func it' k)))) (s, h))"

definition decode_static_field :: "env \<Rightarrow> nat \<Rightarrow> sub_decoder \<Rightarrow> u32 \<Rightarrow> pb_field_iter \<Rightarrow> pb_field_iter dec" where
  "decode_static_field E n sub wire_type it = (let f = cur it; t = ftype f;
       func = PB_DECODERS E sub (PB_LTYPE t) in
     if PB_HTYPE t = PB_HTYPE_REQUIRED then bindC (func f (pData it)) (\<lambda>_. returnC it)
     else if PB_HTYPE t = PB_HTYPE_OPTIONAL then
       bindC (if pSize it \<noteq> At (pData it) then set_has it True else returnC ()) (\<lambda>_.
       bindC (func f (pData it)) (\<lambda>_. returnC it))
     else if PB_HTYPE t = PB_HTYPE_REPEATED then
       (if wire_type = PB_WT_STRING \<and> PB_LTYPE t \<le> PB_LTYPE_LAST_PACKABLE then
          bindC (pb_make_string_substream E) (\<lambda>substream.
          bindC (on_substream substream (input_bound (packed_static_loop func) it)) (\<lambda>(r, substream).
            case r of None \<Rightarrow> ubC
            | Some (it', status) \<Rightarrow>
                if bytes_left substream \<noteq> 0 then i_error ''array overflow''
                else bindC (pb_close_string_substream E substream) (\<lambda>_.
                  if status then returnC it' else failC)))
        else bindC (get_size it) (\<lambda>sz. bindC (set_size it (sz + 1)) (\<lambda>it'.
          if sz \<ge> array_size f then i_error ''array overflow''
          else bindC (func f (item_addr (pData it) f sz)) (\<lambda>_. returnC it'))))
     else
       bindC (if PB_LTYPE t = PB_LTYPE_SUBMESSAGE
              then bindC (get_size it) (\<lambda>which. returnC (which \<noteq> tag f)) else returnC False) (\<lambda>fresh.
       bindC (if fresh
              then bindC (memset0 (pData it) (unat (data_size f))) (\<lambda>_.
                   bindC (liftC (submsg_fields E (ptr f))) (\<lambda>fs.
                     pb_message_set_to_defaults E n fs (pData it)))
              else returnC ()) (\<lambda>_.
       bindC (set_size it (tag f)) (\<lambda>it'.
       bindC (func f (pData it)) (\<lambda>_. returnC it')))))"

section \<open>Pointer fields\<close>

text \<open>
  The loop over a packed array of a pointer field. Its result is the iterator, \<open>status\<close>, and whether
  the parent stream's message was set to \<open>too many array entries\<close>. A division by a zero \<open>data_size\<close>
  is undefined.
\<close>

fun packed_pointer_loop :: "env \<Rightarrow> nat \<Rightarrow> (pb_field \<Rightarrow> addr \<Rightarrow> unit dec) \<Rightarrow> pb_field_iter \<times> size_t \<Rightarrow> nat
    \<Rightarrow> (pb_field_iter \<times> bool \<times> bool) dec" where
  "packed_pointer_loop E n func ia 0 = ubC"
| "packed_pointer_loop E n func (it, allocated) (Suc k) =
     (\<lambda>(s, h). if bytes_left s = 0 then returnC (it, True, False) (s, h)
       else bindC (get_size it) (\<lambda>sz.
         if sz = PB_SIZE_MAX then returnC (it, False, True)
         else
           let grow = (ucast sz + 1 > allocated);
               remain = (bytes_left s - 1) div ucast (data_size (cur it)) + 1;
               allocated' = (if \<not> grow then allocated
                             else if remain < ucast PB_SIZE_MAX - allocated then allocated + remain
                             else allocated + 1)
           in bindC (if grow \<and> data_size (cur it) = 0 then ubC
                     else if grow then catchC (allocate_field E (pData it) (ucast (data_size (cur it))) allocated')
                     else returnC (Some ())) (\<lambda>r.
              if r = None then returnC (it, False, False)
              else bindC (load_ptr (pData it)) (\<lambda>base.
                let pItem = item_addr base (cur it) sz in
                if pItem = 0 then returnC (it, False, False)
                else bindC (initialize_pointer_field E n pItem it) (\<lambda>_.
                  bindC (catchC (func (cur it) pItem)) (\<lambda>r.
                    if r = None then returnC (it, False, False)
                    else bindC (get_size it) (\<lambda>sz'. bindC (set_size it (sz' + 1)) (\<lambda>it'.
                      packed_pointer_loop E n func (it', allocated') k))))))) (s, h))"

definition decode_pointer_field :: "env \<Rightarrow> nat \<Rightarrow> sub_decoder \<Rightarrow> u32 \<Rightarrow> pb_field_iter \<Rightarrow> pb_field_iter dec" where
  "decode_pointer_field E n sub wire_type it = (let f = cur it; t = ftype f;
       func = PB_DECODERS E sub (PB_LTYPE t) in
     if PB_HTYPE t = PB_HTYPE_REPEATED then
       (if wire_type = PB_WT_STRING \<and> PB_LTYPE t \<le> PB_LTYPE_LAST_PACKABLE then
          bindC (get_size it) (\<lambda>sz.
          bindC (pb_make_string_substream E) (\<lambda>substream.
          bindC (on_substream substream (input_bound (packed_pointer_loop E n func) (it, ucast sz)))
            (\<lambda>(r, substream).
            case r of None \<Rightarrow> ubC
            | Some (it', status, too_many) \<Rightarrow>
                bindC (\<lambda>(s, h). Some (Some (),
                  (if too_many then s\<lparr>i_errmsg := Some ''too many array entries''\<rparr> else s, h))) (\<lambda>_.
                bindC (pb_close_string_substream E substream) (\<lambda>_.
                  if status then returnC it' else failC)))))
        else
          bindC (get_size it) (\<lambda>sz.
            if sz = PB_SIZE_MAX then i_error ''too many array entries''
            else bindC (allocate_field E (pData it) (ucast (data_size f)) (ucast (sz + 1))) (\<lambda>_.
              bindC (load_ptr (pData it)) (\<lambda>base.
              bindC (set_size it (sz + 1)) (\<lambda>it'.
              bindC (initialize_pointer_field E n (item_addr base f sz) it') (\<lambda>_.
              bindC (func f (item_addr base f sz)) (\<lambda>_. returnC it')))))))
     else
       bindC (if PB_LTYPE t = PB_LTYPE_SUBMESSAGE
              then bindC (load_ptr (pData it)) (\<lambda>p. returnC (p \<noteq> 0)) else returnC False) (\<lambda>duplicate.
       bindC (if duplicate then pb_release_single_field E n it else returnC ()) (\<lambda>_.
       bindC (if PB_HTYPE t = PB_HTYPE_ONEOF then set_size it (tag f) else returnC it) (\<lambda>it'.
         if PB_LTYPE t = PB_LTYPE_STRING \<or> PB_LTYPE t = PB_LTYPE_BYTES
         then bindC (func f (pData it')) (\<lambda>_. returnC it')
         else bindC (allocate_field E (pData it') (ucast (data_size f)) 1) (\<lambda>_.
           bindC (load_ptr (pData it')) (\<lambda>p.
           bindC (initialize_pointer_field E n p it') (\<lambda>_.
           bindC (load_ptr (pData it')) (\<lambda>p.
           bindC (func f p) (\<lambda>_. returnC it')))))))))"

section \<open>Callback fields\<close>

text \<open>
  \<open>pb_callback_t\<close>: the function pointer at 0, the callback's argument at 8. The callback is called
  again until the substream is empty, its pointer read anew for every call; the bound on its calls is \<open>n\<close>.
\<close>

fun callback_loop :: "nat \<Rightarrow> unit dec \<Rightarrow> bool dec" where
  "callback_loop 0 call = ubC"
| "callback_loop (Suc k) call =
     bindC (catchC call) (\<lambda>r.
       if r = None then returnC False
       else (\<lambda>(s, h). if bytes_left s \<noteq> 0 then callback_loop k call (s, h)
                       else returnC True (s, h)))"

text \<open>
  The local buffer that holds a scalar while its callback runs is on the stack; the callback reads it
  through a stream like any other buffer, so the model puts its bytes in memory for the duration of
  the call.
\<close>

definition with_buffer :: "addr \<Rightarrow> byte list \<Rightarrow> 'a dec \<Rightarrow> 'a dec" where
  "with_buffer a bs f = (\<lambda>(s, h). let n = length bs in
     case f (s, h\<lparr>mem := (\<lambda>x. if unat (x - a) < n then Some (bs ! unat (x - a)) else mem h x)\<rparr>) of
       None \<Rightarrow> None
     | Some (r, (s', h')) \<Rightarrow>
         Some (r, (s', h'\<lparr>mem := (\<lambda>x. if unat (x - a) < n then mem h x else mem h' x)\<rparr>)))"

definition decode_callback_field :: "env \<Rightarrow> nat \<Rightarrow> u32 \<Rightarrow> pb_field_iter \<Rightarrow> pb_field_iter dec" where
  "decode_callback_field E n wire_type it =
     (if pData it = 0 then bindC (pb_skip_field E wire_type) (\<lambda>_. returnC it)
      else bindC (load_ptr (pData it)) (\<lambda>fptr.
        if fptr = 0 then bindC (pb_skip_field E wire_type) (\<lambda>_. returnC it)
        else let call = bindC (load_ptr (pData it)) (\<lambda>fptr.
                          if fptr = 0 then ubC else cb_decode E fptr (cur it) (pData it + 8)) in
          if wire_type = PB_WT_STRING then
            bindC (pb_make_string_substream E) (\<lambda>substream.
            bindC (on_substream substream (callback_loop n call)) (\<lambda>(r, substream).
              if r \<noteq> Some True then i_error ''callback failed''
              else bindC (pb_close_string_substream E substream) (\<lambda>_. returnC it)))
          else
            bindC (read_raw_value E wire_type 10) (\<lambda>buffer.
            with_buffer (stack_buffer E) buffer
              (bindC (on_substream (pb_istream_from_buffer (stack_buffer E) (of_nat (length buffer))) call)
                (\<lambda>(r, _). if r = None then failC else returnC it)))))"

section \<open>Dispatch, unions and extensions\<close>

definition pb_release_union_field :: "env \<Rightarrow> nat \<Rightarrow> pb_field_iter \<Rightarrow> pb_field_iter dec" where
  "pb_release_union_field E n it =
     bindC (get_size it) (\<lambda>old_tag. let new_tag = tag (cur it) in
       if old_tag = 0 then returnC it
       else if old_tag = new_tag then returnC it
       else bindC (liftC (pb_field_iter_find it old_tag)) (\<lambda>(found, it1).
         if \<not> found then i_error ''invalid union tag''
         else bindC (pb_release_single_field E n it1) (\<lambda>_.
           bindC (liftC (pb_field_iter_find it1 new_tag)) (\<lambda>(found, it2).
             if \<not> found then i_error ''iterator error''
             else if PB_ATYPE (ftype (cur it2)) = PB_ATYPE_POINTER
             then bindC (store_ptr (pData it2) 0) (\<lambda>_. returnC it2)
             else returnC it2))))"

definition decode_field :: "env \<Rightarrow> nat \<Rightarrow> sub_decoder \<Rightarrow> u32 \<Rightarrow> pb_field_iter \<Rightarrow> pb_field_iter dec" where
  "decode_field E n sub wire_type it =
     bindC (if PB_HTYPE (ftype (cur it)) = PB_HTYPE_ONEOF then pb_release_union_field E n it
            else returnC it) (\<lambda>it. let at = PB_ATYPE (ftype (cur it)) in
       if at = PB_ATYPE_STATIC then decode_static_field E n sub wire_type it
       else if at = PB_ATYPE_POINTER then decode_pointer_field E n sub wire_type it
       else if at = PB_ATYPE_CALLBACK then decode_callback_field E n wire_type it
       else i_error ''invalid field type'')"

definition default_extension_decoder :: "env \<Rightarrow> nat \<Rightarrow> sub_decoder \<Rightarrow> ext_type \<Rightarrow> addr \<Rightarrow> u32 \<Rightarrow> u32
    \<Rightarrow> unit dec" where
  "default_extension_decoder E n sub et ext t wire_type =
     (if tag (field_at (et_arg et) 0) \<noteq> t then returnC ()
      else bindC (iter_from_extension E ext) (\<lambda>it.
        bindC (store_bool (ext + 24) True) (\<lambda>_.
        bindC (decode_field E n sub wire_type it) (\<lambda>_. returnC ()))))"

text \<open>The loop stops at the first extension that consumed input.\<close>

fun extension_loop :: "env \<Rightarrow> nat \<Rightarrow> sub_decoder \<Rightarrow> u32 \<Rightarrow> u32 \<Rightarrow> size_t \<Rightarrow> nat \<Rightarrow> addr \<Rightarrow> unit dec" where
  "extension_loop E n sub t wire_type p 0 ext = ubC"
| "extension_loop E n sub t wire_type p (Suc k) ext =
     (\<lambda>(s, h). if ext = 0 \<or> p \<noteq> bytes_left s then returnC () (s, h)
       else bindC (ext_type_of E ext) (\<lambda>et.
         bindC (case et_decode et of
             Some dec \<Rightarrow> dec ext t wire_type
           | None \<Rightarrow> default_extension_decoder E n sub et ext t wire_type) (\<lambda>_.
         bindC (ext_next ext) (\<lambda>nxt. extension_loop E n sub t wire_type p k nxt))) (s, h))"

definition decode_extension :: "env \<Rightarrow> nat \<Rightarrow> sub_decoder \<Rightarrow> u32 \<Rightarrow> u32 \<Rightarrow> pb_field_iter \<Rightarrow> unit dec" where
  "decode_extension E n sub t wire_type it =
     bindC (load_ptr (pData it)) (\<lambda>ext. (\<lambda>(s, h).
       extension_loop E n sub t wire_type (bytes_left s) n ext (s, h)))"

definition find_extension_field :: "pb_field_iter \<Rightarrow> (bool \<times> pb_field_iter) option" where
  "find_extension_field it =
     search (Suc (length (start it))) (\<lambda>it. snd (pb_field_iter_next it)) pos
       (\<lambda>it. PB_LTYPE (ftype (cur it)) = PB_LTYPE_EXTENSION) (pos it) it"

section \<open>The message loop\<close>

text \<open>
  The locals of \<open>pb_decode_noinit\<close>: the iterator (with \<open>fixed_count_size\<close>), the bitmap of required
  fields seen, the first extension tag, and the descriptor of the fixed-count array being filled.
\<close>

record dec_locals =
  d_iter :: pb_field_iter
  fields_seen :: "u32 list"
  extension_range_start :: u32
  fixed_count_field :: "nat option"

text \<open>A tag without a matching field (lines 966-995).\<close>

definition decode_unknown :: "env \<Rightarrow> nat \<Rightarrow> sub_decoder \<Rightarrow> u32 \<Rightarrow> u32 \<Rightarrow> dec_locals \<Rightarrow> dec_locals dec" where
  "decode_unknown E n sub t wire_type l =
     (if t \<ge> extension_range_start l then
        bindC (liftC (find_extension_field (d_iter l))) (\<lambda>(found, it).
          let ers = (if \<not> found then 0xFFFFFFFF else tag (cur it));
              l' = l\<lparr>d_iter := it, extension_range_start := ers\<rparr>
          in if t \<ge> ers then
               (\<lambda>(s, h). bindC (decode_extension E n sub t wire_type it) (\<lambda>_. (\<lambda>(s', h').
                  if bytes_left s \<noteq> bytes_left s' then returnC l' (s', h')
                  else bindC (pb_skip_field E wire_type) (\<lambda>_. returnC l') (s', h'))) (s, h))
             else bindC (pb_skip_field E wire_type) (\<lambda>_. returnC l'))
      else bindC (pb_skip_field E wire_type) (\<lambda>_. returnC l))"

text \<open>The count of a fixed-count array is kept in a local (lines 1000-1019).\<close>

definition track_fixed_count :: "dec_locals \<Rightarrow> dec_locals dec" where
  "track_fixed_count l = (let it = d_iter l in
     if PB_HTYPE (ftype (cur it)) = PB_HTYPE_REPEATED \<and> pSize it = At (pData it) then
       (if fixed_count_field l \<noteq> Some (pos it) then
          (case fixed_count_field l of
             Some i \<Rightarrow> if fixed_count it \<noteq> array_size (field_at (start it) i)
                       then i_error ''wrong size for fixed count field''
                       else returnC (l\<lparr>fixed_count_field := Some (pos it),
                              d_iter := it\<lparr>fixed_count := 0, pSize := Fixed_count\<rparr>\<rparr>)
           | None \<Rightarrow> returnC (l\<lparr>fixed_count_field := Some (pos it),
                       d_iter := it\<lparr>fixed_count := 0, pSize := Fixed_count\<rparr>\<rparr>))
        else returnC (l\<lparr>d_iter := it\<lparr>pSize := Fixed_count\<rparr>\<rparr>))
     else returnC l)"

text \<open>The bitmap of required fields (lines 1021-1026).\<close>

definition mark_required :: "dec_locals \<Rightarrow> dec_locals" where
  "mark_required l = (let it = d_iter l; i = required_field_index it in
     if PB_HTYPE (ftype (cur it)) = PB_HTYPE_REQUIRED \<and> i < 64
     then l\<lparr>fields_seen := (fields_seen l)[unat (drop_bit 5 i) :=
                (fields_seen l ! unat (drop_bit 5 i)) OR push_bit (unat (i AND 31)) 1]\<rparr>
     else l)"

text \<open>One round of the loop; the flag is false where C leaves the loop with \<open>break\<close>.\<close>

definition decode_step :: "env \<Rightarrow> nat \<Rightarrow> sub_decoder \<Rightarrow> dec_locals \<Rightarrow> (bool \<times> dec_locals) dec" where
  "decode_step E n sub l =
     bindC (pb_decode_tag E) (\<lambda>(ok, wire_type, t, eof).
       if \<not> ok then (if eof then returnC (False, l) else failC)
       else bindC (liftC (pb_field_iter_find (d_iter l) t)) (\<lambda>(found, it).
         let l = l\<lparr>d_iter := it\<rparr> in
         if \<not> found then bindC (decode_unknown E n sub t wire_type l) (\<lambda>l. returnC (True, l))
         else bindC (track_fixed_count l) (\<lambda>l. let l = mark_required l in
           bindC (decode_field E n sub wire_type (d_iter l)) (\<lambda>it.
             returnC (True, l\<lparr>d_iter := it\<rparr>)))))"

fun decode_loop :: "env \<Rightarrow> nat \<Rightarrow> sub_decoder \<Rightarrow> dec_locals \<Rightarrow> nat \<Rightarrow> dec_locals dec" where
  "decode_loop E n sub l 0 = ubC"
| "decode_loop E n sub l (Suc k) =
     (\<lambda>(s, h). if bytes_left s = 0 then returnC l (s, h)
       else bindC (decode_step E n sub l) (\<lambda>(again, l').
         if again then decode_loop E n sub l' k else returnC l') (s, h))"

text \<open>
  Seek the end of the descriptors: the number of required fields before the last one and the type of
  the last one (lines 1048-1051).
\<close>

fun seek_end :: "nat \<Rightarrow> pb_field_iter \<Rightarrow> (u32 \<times> byte \<times> pb_field_iter) option" where
  "seek_end 0 it = None"
| "seek_end (Suc k) it = (case pb_field_iter_next it of (again, it') \<Rightarrow>
     if again then seek_end k it' else Some (required_field_index it, ftype (cur it), it'))"

definition required_count :: "pb_field_iter \<Rightarrow> u32 option" where
  "required_count it = (case seek_end (Suc (length (start it))) it of
     None \<Rightarrow> None
   | Some (c, last_type, it') \<Rightarrow>
       let c = (if PB_HTYPE last_type = PB_HTYPE_REQUIRED \<and> tag (cur it') \<noteq> 0 then c + 1 else c)
       in Some (if c > 64 then 64 else c))"

definition required_seen :: "u32 list \<Rightarrow> u32 \<Rightarrow> bool" where
  "required_seen seen c = (let allbits = 0xFFFFFFFF :: u32 in
     c = 0 \<or>
     (list_all (\<lambda>i. seen ! i = allbits) [0..<unat (drop_bit 5 c)]
      \<and> (c AND 31 = 0 \<or> seen ! unat (drop_bit 5 c) = drop_bit (32 - unat (c AND 31)) allbits)))"

definition decode_noinit_body :: "env \<Rightarrow> nat \<Rightarrow> sub_decoder \<Rightarrow> pb_field list \<Rightarrow> addr \<Rightarrow> unit dec" where
  "decode_noinit_body E n sub fs dest =
     bindC (input_bound (decode_loop E n sub)
       \<lparr>d_iter = snd (pb_field_iter_begin iter0 fs dest), fields_seen = [0, 0],
        extension_range_start = 0, fixed_count_field = None\<rparr>) (\<lambda>l. let it = d_iter l in
     if (case fixed_count_field l of None \<Rightarrow> False
         | Some i \<Rightarrow> fixed_count it \<noteq> array_size (field_at (start it) i))
     then i_error ''wrong size for fixed count field''
     else bindC (liftC (required_count it)) (\<lambda>c.
       if required_seen (fields_seen l) c then returnC () else i_error ''missing required field''))"

text \<open>\<open>pb_decode\<close> over a given message decoder; the message is released when decoding fails.\<close>

definition init_and_decode :: "env \<Rightarrow> nat \<Rightarrow> (pb_field list \<Rightarrow> addr \<Rightarrow> unit dec) \<Rightarrow> pb_field list \<Rightarrow> addr
    \<Rightarrow> unit dec" where
  "init_and_decode E n noinit fs dest =
     bindC (pb_message_set_to_defaults E n fs dest) (\<lambda>_.
     bindC (catchC (noinit fs dest)) (\<lambda>status.
       if status = None then bindC (pb_release E n fs dest) (\<lambda>_. failC) else returnC ()))"

fun pb_decode_noinit :: "env \<Rightarrow> nat \<Rightarrow> pb_field list \<Rightarrow> addr \<Rightarrow> unit dec" where
  "pb_decode_noinit E 0 fs dest = ubC"
| "pb_decode_noinit E (Suc n) fs dest =
     decode_noinit_body E n
       (\<lambda>init fs' d. if init then init_and_decode E n (pb_decode_noinit E n) fs' d
                     else pb_decode_noinit E n fs' d) fs dest"

definition pb_decode :: "env \<Rightarrow> nat \<Rightarrow> pb_field list \<Rightarrow> addr \<Rightarrow> unit dec" where
  "pb_decode E n fs dest = init_and_decode E n (pb_decode_noinit E n) fs dest"

definition pb_decode_delimited_noinit :: "env \<Rightarrow> nat \<Rightarrow> pb_field list \<Rightarrow> addr \<Rightarrow> unit dec" where
  "pb_decode_delimited_noinit E n fs dest =
     bindC (pb_make_string_substream E) (\<lambda>substream.
     bindC (on_substream substream (pb_decode_noinit E n fs dest)) (\<lambda>(status, substream).
     bindC (pb_close_string_substream E substream) (\<lambda>_.
       if status = None then failC else returnC ())))"

definition pb_decode_delimited :: "env \<Rightarrow> nat \<Rightarrow> pb_field list \<Rightarrow> addr \<Rightarrow> unit dec" where
  "pb_decode_delimited E n fs dest =
     bindC (pb_make_string_substream E) (\<lambda>substream.
     bindC (on_substream substream (pb_decode E n fs dest)) (\<lambda>(status, substream).
     bindC (pb_close_string_substream E substream) (\<lambda>_.
       if status = None then failC else returnC ())))"

definition pb_decode_nullterminated :: "env \<Rightarrow> nat \<Rightarrow> pb_field list \<Rightarrow> addr \<Rightarrow> unit dec" where
  "pb_decode_nullterminated E n fs dest = pb_decode E n fs dest"

end
