(* ===== verification/PbObject.thy ===== *)
theory PbObject
  imports PbDefaults
begin

text \<open>
  When a descriptor array describes a structure of \<open>S\<close> bytes (\<open>desc_ok\<close>), for messages whose fields are
  all statically allocated, and the memory safety of initialising and releasing such a message:
  \<open>pb_message_set_to_defaults\<close> and \<open>pb_release\<close> touch nothing outside the structure. \<open>object\<close> is a
  piece of memory a function was given: accessible, not wrapping around, and inside the part \<open>W\<close> of
  memory that may be written.
\<close>

section \<open>Objects in memory\<close>

definition object :: "heap \<Rightarrow> addr set \<Rightarrow> addr \<Rightarrow> nat \<Rightarrow> bool" where
  "object h W a S \<longleftrightarrow> a \<noteq> 0 \<and> unat a + S < 2 ^ 64 \<and> readable h a S \<and> region a S \<subseteq> W"

lemma object_part:
  assumes "object h W a S" "k + T \<le> S"
  shows "object h W (a + of_nat k) T"
proof -
  have "unat (a + of_nat k) = unat a + k"
    using assms by (intro unat_add_of_nat) (simp add: object_def)
  moreover from this have "a + of_nat k \<noteq> 0" using assms by (auto simp: object_def unat_eq_0)
  ultimately show ?thesis
    using assms readable_offset [of h a S k T] region_offset [of k T S a] by (auto simp: object_def)
qed

lemma object_at:
  assumes "object h W a S" "unat x + T \<le> S"
  shows "object h W (a + x) T"
  using object_part [OF assms(1), of "unat x" T] assms(2) by simp

lemma object_less: "object h W a S \<Longrightarrow> T \<le> S \<Longrightarrow> object h W a T"
  using object_part [of h W a S 0 T] by simp

lemma objectD: "object h W a S \<Longrightarrow> readable h a S" "object h W a S \<Longrightarrow> region a S \<subseteq> W"
  by (simp_all add: object_def)

lemmas object_accesses = hoare_loadC hoare_storeC hoare_load_u32 hoare_load_bool hoare_store_u32
  hoare_store_bool hoare_memset0

lemma hoare_object_load:
  "object h0 W a S \<Longrightarrow> n \<le> S \<Longrightarrow>
    hoare (owns P W h0) (loadC a n) (\<lambda>bs st. length bs = n \<and> owns P W h0 st) R"
  by (rule hoare_loadC) (auto dest: objectD intro: readable_mono)

lemma hoare_object_load_u32:
  "object h0 W a S \<Longrightarrow> 4 \<le> S \<Longrightarrow> hoare (owns P W h0) (load_u32 a) (\<lambda>_. owns P W h0) R"
  by (rule hoare_load_u32) (auto dest: objectD intro: readable_mono)

lemma hoare_object_store:
  "object h0 W a S \<Longrightarrow> length bs \<le> S \<Longrightarrow> hoare (owns P W h0) (storeC a bs) (\<lambda>_. owns P W h0) R"
  by (rule hoare_storeC; rule objectD [OF object_less])

lemma hoare_object_store_u32:
  "object h0 W a S \<Longrightarrow> 4 \<le> S \<Longrightarrow> hoare (owns P W h0) (store_u32 a w) (\<lambda>_. owns P W h0) R"
  unfolding store_u32_def by (rule hoare_object_store) simp_all

lemma hoare_object_store_bool:
  "object h0 W a S \<Longrightarrow> 1 \<le> S \<Longrightarrow> hoare (owns P W h0) (store_bool a b) (\<lambda>_. owns P W h0) R"
  unfolding store_bool_def by (rule hoare_object_store) simp_all

lemma hoare_object_memset0:
  "object h0 W a S \<Longrightarrow> n \<le> S \<Longrightarrow> hoare (owns P W h0) (memset0 a n) (\<lambda>_. owns P W h0) R"
  unfolding memset0_def by (rule hoare_object_store) simp_all

section \<open>Descriptors of static messages\<close>

definition data_span :: "pb_field \<Rightarrow> nat" where
  "data_span f = (if PB_HTYPE (ftype f) = PB_HTYPE_REPEATED
                  then unat (data_size f) * unat (array_size f) else unat (data_size f))"

text \<open>The constraint that a field's data type puts on its size.\<close>

definition width_ok :: "pb_field \<Rightarrow> bool" where
  "width_ok f \<longleftrightarrow> (let lt = PB_LTYPE (ftype f); n = unat (data_size f) in
     (lt = PB_LTYPE_BOOL \<longrightarrow> 1 \<le> n) \<and> (lt = PB_LTYPE_FIXED32 \<longrightarrow> 4 \<le> n) \<and> (lt = PB_LTYPE_FIXED64 \<longrightarrow> 8 \<le> n)
     \<and> (lt \<le> PB_LTYPE_SUBMESSAGE \<or> lt = PB_LTYPE_FIXED_LENGTH_BYTES))"

definition static_ok :: "env \<Rightarrow> (pb_field list \<Rightarrow> nat \<Rightarrow> bool) \<Rightarrow> pb_field \<Rightarrow> nat \<Rightarrow> nat \<Rightarrow> nat \<Rightarrow> bool" where
  "static_ok E sub_ok f off soff S \<longleftrightarrow>
     PB_ATYPE (ftype f) = PB_ATYPE_STATIC \<and> width_ok f
     \<and> off + data_span f \<le> S \<and> data_span f < 2 ^ 32
     \<and> (PB_HTYPE (ftype f) = PB_HTYPE_OPTIONAL \<longrightarrow> soff = off \<or> soff + 1 \<le> S)
     \<and> (PB_HTYPE (ftype f) = PB_HTYPE_REPEATED \<or> PB_HTYPE (ftype f) = PB_HTYPE_ONEOF \<longrightarrow> soff + 4 \<le> S)
     \<and> (case ptr f of
          Submsg i \<Rightarrow> PB_LTYPE (ftype f) = PB_LTYPE_SUBMESSAGE \<and> sub_ok (descs E i) (unat (data_size f))
        | Default bs \<Rightarrow> PB_LTYPE (ftype f) \<noteq> PB_LTYPE_SUBMESSAGE \<and> unat (data_size f) \<le> length bs
        | Null \<Rightarrow> PB_LTYPE (ftype f) \<noteq> PB_LTYPE_SUBMESSAGE)"

text \<open>\<open>desc_ok E r fs S\<close>: \<open>fs\<close> describes a structure of \<open>S\<close> bytes and nests at most \<open>r\<close> deep.\<close>

fun desc_ok :: "env \<Rightarrow> nat \<Rightarrow> pb_field list \<Rightarrow> nat \<Rightarrow> bool" where
  "desc_ok E 0 fs S = False"
| "desc_ok E (Suc r) fs S \<longleftrightarrow> tags_ok fs \<and>
     list_all (\<lambda>i. static_ok E (desc_ok E r) (fs ! i) (unat (field_off fs i)) (unat (size_off fs i)) S)
       [0..<length fs]"

lemma desc_ok_tags: "desc_ok E r fs S \<Longrightarrow> tags_ok fs"
  by (cases r) simp_all

lemma htype_cases:
  obtains "PB_HTYPE t = PB_HTYPE_REQUIRED" | "PB_HTYPE t = PB_HTYPE_OPTIONAL"
    | "PB_HTYPE t = PB_HTYPE_REPEATED" | "PB_HTYPE t = PB_HTYPE_ONEOF"
proof -
  have "PB_HTYPE t = 0 \<or> PB_HTYPE t = 0x10 \<or> PB_HTYPE t = 0x20 \<or> PB_HTYPE t = 0x30"
    unfolding PB_HTYPE_def
    by (rule all_bytes [of "\<lambda>t. t AND 0x30 = 0 \<or> t AND 0x30 = 0x10 \<or> t AND 0x30 = 0x20 \<or> t AND 0x30 = 0x30"]) simp
  with that show thesis by auto
qed

section \<open>The iterator over a static message\<close>

text \<open>
  \<open>pSize\<close> is the field's own, or the local counter for a fixed-count array.
\<close>

definition iter_good :: "pb_field_iter \<Rightarrow> bool" where
  "iter_good it \<longleftrightarrow> iter_ok it \<and>
     (own_size it \<or> pSize it = Fixed_count \<and> PB_HTYPE (ftype (cur it)) = PB_HTYPE_REPEATED)"

lemma search_invariant:
  "search n nxt idx P st x = Some (b, y) \<Longrightarrow> I x \<Longrightarrow> (\<And>x. I x \<Longrightarrow> I (nxt x)) \<Longrightarrow> I y"
  by (induction n nxt idx P st x rule: search.induct) (auto simp: Let_def split: if_splits)

lemma iter_good_next:
  assumes "iter_good it"
  shows "iter_good (snd (pb_field_iter_next it))"
proof -
  from assms have ok: "iter_ok it" by (simp add: iter_good_def)
  then have ok': "iter_ok (snd (pb_field_iter_next it))" by (rule field_cursor.inv_nxt)
  show ?thesis
  proof (cases "own_size it")
    case True
    with ok ok' own_size_next show ?thesis by (simp add: iter_good_def)
  next
    case False
    with assms have r: "PB_HTYPE (ftype (start it ! pos it)) = PB_HTYPE_REPEATED"
      by (simp add: iter_good_def cur_iter [OF ok])
    have "own_size (snd (pb_field_iter_next it))"
    proof -
      let ?own = "it\<lparr>pSize := At (dest_struct it + size_off (start it) (pos it))\<rparr>"
      have own: "iter_ok ?own" "own_size ?own" using ok by (simp_all add: iter_ok_def own_size_def)
      have "\<not> same_union (start it ! pos it) g" for g using r by (simp add: same_union_def)
      then have "pSize (snd (pb_field_iter_next ?own)) = pSize (snd (pb_field_iter_next it))"
        "pos (snd (pb_field_iter_next ?own)) = pos (snd (pb_field_iter_next it))"
        using ok by (simp_all add: iter_next_eq cur_def Let_def iter_ok_def tags_okD pb_field_iter_begin_def)
      with own_size_next [OF own] show ?thesis by (simp add: own_size_def)
    qed
    with ok' show ?thesis by (simp add: iter_good_def)
  qed
qed

lemma iter_begin_good:
  assumes "tags_ok fs" "dest \<noteq> 0"
  shows "iter_good (snd (pb_field_iter_begin it fs dest))"
  using iter_begin_ok [OF assms, of it] by (simp add: iter_good_def own_size_def)

text \<open>What a good iterator over a described object stands on.\<close>

definition over :: "pb_field list \<Rightarrow> addr \<Rightarrow> pb_field_iter \<Rightarrow> bool" where
  "over fs dest it \<longleftrightarrow> iter_good it \<and> start it = fs \<and> dest_struct it = dest"

lemma over_field:
  assumes "over fs dest it" "desc_ok E (Suc r) fs S" "object h0 W dest S"
  shows "static_ok E (desc_ok E r) (cur it) (unat (field_off fs (pos it))) (unat (size_off fs (pos it))) S"
    "object h0 W (pData it) (data_span (cur it))"
    "PB_HTYPE (ftype (cur it)) = PB_HTYPE_ONEOF \<Longrightarrow> \<exists>a. pSize it = At a \<and> object h0 W a 4"
    "PB_HTYPE (ftype (cur it)) = PB_HTYPE_OPTIONAL \<Longrightarrow> \<exists>a. pSize it = At a \<and> (a = pData it \<or> object h0 W a 1)"
    "PB_HTYPE (ftype (cur it)) = PB_HTYPE_REPEATED \<Longrightarrow>
       pSize it = Fixed_count \<or> (\<exists>a. pSize it = At a \<and> object h0 W a 4)"
proof -
  from assms(1) have it: "iter_ok it" "start it = fs" "dest_struct it = dest"
    and own: "own_size it \<or> pSize it = Fixed_count \<and> PB_HTYPE (ftype (cur it)) = PB_HTYPE_REPEATED"
    by (simp_all add: over_def iter_good_def)
  then have "pos it < length fs" by (simp add: iter_ok_def)
  with assms(2) it show st: "static_ok E (desc_ok E r) (cur it) (unat (field_off fs (pos it)))
      (unat (size_off fs (pos it))) S"
    by (simp add: list_all_length cur_iter)
  have d: "pData it = dest + field_off fs (pos it)" using it by (simp add: iter_ok_def)
  with st show "object h0 W (pData it) (data_span (cur it))"
    using object_at [OF assms(3)] by (simp add: static_ok_def)
  have sz: "pSize it = At (dest + size_off fs (pos it)) \<or>
      pSize it = Fixed_count \<and> PB_HTYPE (ftype (cur it)) = PB_HTYPE_REPEATED"
    using own it by (simp add: own_size_def)
  show "\<exists>a. pSize it = At a \<and> object h0 W a 4" if "PB_HTYPE (ftype (cur it)) = PB_HTYPE_ONEOF"
    using sz st that object_at [OF assms(3), of "size_off fs (pos it)" 4] by (auto simp: static_ok_def)
  show "pSize it = Fixed_count \<or> (\<exists>a. pSize it = At a \<and> object h0 W a 4)"
    if "PB_HTYPE (ftype (cur it)) = PB_HTYPE_REPEATED"
    using sz st that object_at [OF assms(3), of "size_off fs (pos it)" 4] by (auto simp: static_ok_def)
  show "\<exists>a. pSize it = At a \<and> (a = pData it \<or> object h0 W a 1)"
    if "PB_HTYPE (ftype (cur it)) = PB_HTYPE_OPTIONAL"
  proof -
    from sz that have "pSize it = At (dest + size_off fs (pos it))" by auto
    moreover have "dest + size_off fs (pos it) = pData it \<or> object h0 W (dest + size_off fs (pos it)) 1"
    proof -
      from st that have "unat (size_off fs (pos it)) = unat (field_off fs (pos it)) \<or> unat (size_off fs (pos it)) + 1 \<le> S"
        by (simp add: static_ok_def)
      then show ?thesis using object_at [OF assms(3), of "size_off fs (pos it)" 1] d
        by (auto simp: word_unat_eq_iff [of "size_off fs (pos it)"])
    qed
    ultimately show ?thesis by blast
  qed
qed

section \<open>Walking over all fields\<close>

lemma over_begin:
  "tags_ok fs \<Longrightarrow> dest \<noteq> 0 \<Longrightarrow> over fs dest (snd (pb_field_iter_begin it fs dest))"
  "tags_ok fs \<Longrightarrow> dest \<noteq> 0 \<Longrightarrow> own_size (snd (pb_field_iter_begin it fs dest))"
  using iter_begin_good [of fs dest it] iter_begin_ok [of fs dest it]
  by (simp_all add: over_def own_size_def)

lemma over_next: "over fs dest it \<Longrightarrow> over fs dest (snd (pb_field_iter_next it))"
  by (simp add: over_def iter_good_next)

lemma hoare_each_field:
  assumes body: "\<And>it. over fs dest it \<Longrightarrow> own_size it \<Longrightarrow> hoare I (body it) (\<lambda>_. I) R"
    and "over fs dest it" "own_size it" "length fs - pos it < k"
  shows "hoare I (each_field k body it) (\<lambda>_. I) R"
  using assms(2-)
proof (induction k arbitrary: it)
  case (Suc k)
  obtain again it' where nxt: "pb_field_iter_next it = (again, it')" by (cases "pb_field_iter_next it")
  have ok: "iter_ok it" "start it = fs" using Suc.prems(1) by (simp_all add: over_def iter_good_def)
  have step: "hoare I (if again then each_field k body it' else returnC ()) (\<lambda>_. I) R"
  proof (rule hoare_if)
    assume again
    then have "Suc (pos it) < length fs"
      using iter_next_wrap(1) [OF ok(1)] nxt ok by (cases "Suc (pos it) = length (start it)") (auto simp: iter_ok_def)
    then have "pos it' = Suc (pos it)" using iter_next_step(3) [OF ok(1)] nxt ok(2) by simp
    with Suc.prems \<open>Suc (pos it) < length fs\<close> have "length fs - pos it' < k" by simp
    with Suc.IH over_next [OF Suc.prems(1)] own_size_next [OF ok(1) Suc.prems(2)] nxt
    show "hoare I (each_field k body it') (\<lambda>_. I) R" by simp
  qed (simp add: hoare_returnI)
  show ?case unfolding each_field.simps nxt prod.case
    by (rule hoare_then [OF step body [OF Suc.prems(1,2)]])
qed simp

lemma hoare_each_field_begin:
  assumes "\<And>it. over fs dest it \<Longrightarrow> own_size it \<Longrightarrow> hoare I (body it) (\<lambda>_. I) R"
    and "tags_ok fs" "dest \<noteq> 0"
  shows "hoare I (each_field (Suc (length fs)) body (snd (pb_field_iter_begin iter0 fs dest))) (\<lambda>_. I) R"
  using assms over_begin [OF assms(2,3), of iter0] by (intro hoare_each_field) auto

section \<open>Default values\<close>

lemma message_defaults_safe:
  assumes "\<And>it. over fs dest it \<Longrightarrow> own_size it \<Longrightarrow> hoare I (body it) (\<lambda>_. I) R"
    and "tags_ok fs" "dest \<noteq> 0"
  shows "hoare I (message_defaults body fs dest) (\<lambda>_. I) R"
proof -
  obtain b it where b: "pb_field_iter_begin iter0 fs dest = (b, it)" by (cases "pb_field_iter_begin iter0 fs dest")
  then show ?thesis using iter_begin_ok(1) [OF assms(2,3), of iter0] hoare_each_field_begin [OF assms]
    by (simp add: message_defaults_def)
qed

lemma hoare_set_size:
  assumes "pSize it = Fixed_count \<or> (\<exists>a. pSize it = At a \<and> object h0 W a 4)"
  shows "hoare (owns P W h0) (set_size it v)
    (\<lambda>it' st. owns P W h0 st \<and> (it' = it \<or> pSize it = Fixed_count \<and> it' = it\<lparr>fixed_count := v\<rparr>)) R"
  using assms
proof (elim disjE exE conjE)
  assume "pSize it = Fixed_count"
  then show ?thesis by (simp add: set_size_def hoare_returnI)
next
  fix a assume "pSize it = At a" "object h0 W a 4"
  then show ?thesis unfolding set_size_def
    by (simp, intro hoare_bind [OF hoare_returnI hoare_object_store_u32 [of h0 W a 4]]) simp_all
qed

lemma hoare_get_size:
  assumes "pSize it = Fixed_count \<or> (\<exists>a. pSize it = At a \<and> object h0 W a 4)"
  shows "hoare (owns P W h0) (get_size it) (\<lambda>_. owns P W h0) R"
  using assms
proof (elim disjE exE conjE)
  assume "pSize it = Fixed_count"
  then show ?thesis by (simp add: get_size_def hoare_returnI)
next
  fix a assume "pSize it = At a" "object h0 W a 4"
  then show ?thesis unfolding get_size_def by (simp add: hoare_object_load_u32)
qed

lemma static_not_extension: "static_ok E ok f off soff S \<Longrightarrow> PB_LTYPE (ftype f) \<noteq> PB_LTYPE_EXTENSION"
  by (auto simp: static_ok_def width_ok_def Let_def)

lemma field_default_safe:
  assumes "over fs dest it" "own_size it" "desc_ok E r fs S" "r \<le> n" "object h0 W dest S"
  shows "hoare (owns P W h0) (pb_field_set_to_default E n it) (\<lambda>_. owns P W h0) R"
  using assms
proof (induction n arbitrary: fs dest it r S)
  case 0
  then show ?case by simp
next
  case (Suc n)
  from Suc.prems(3,4) obtain q where r: "r = Suc q" "q \<le> n" by (cases r) auto
  let ?f = "cur it" and ?I = "owns P W h0"
  note fld = over_field [OF Suc.prems(1) Suc.prems(3) [unfolded r(1)] Suc.prems(5)]
  have static: "PB_ATYPE (ftype ?f) = PB_ATYPE_STATIC" using fld(1) by (simp add: static_ok_def)
  have data: "hoare ?I (init_data E (pb_field_set_to_default E n) it) (\<lambda>_. ?I) R"
    if "PB_HTYPE (ftype ?f) \<noteq> PB_HTYPE_REPEATED"
  proof -
    have obj: "object h0 W (pData it) (unat (data_size ?f))"
      using fld(2) that by (simp add: data_span_def)
    show ?thesis
    proof (cases "ptr ?f")
      case (Submsg i)
      with fld(1) have sub: "desc_ok E q (descs E i) (unat (data_size ?f))"
        and lt: "PB_LTYPE (ftype ?f) = PB_LTYPE_SUBMESSAGE" by (simp_all add: static_ok_def)
      have "hoare ?I (message_defaults (pb_field_set_to_default E n) (descs E i) (pData it)) (\<lambda>_. ?I) R"
      proof (rule message_defaults_safe)
        show "pData it \<noteq> 0" using obj by (simp add: object_def)
        show "tags_ok (descs E i)" using sub by (rule desc_ok_tags)
      qed (rule Suc.IH [OF _ _ sub r(2) obj])
      then show ?thesis using lt Submsg by (simp add: init_data_def submsg_fields_def liftC_def)
    next
      case (Default bs)
      with fld(1) obj show ?thesis
        by (simp add: init_data_def static_ok_def hoare_object_store)
    next
      case Null
      with fld(1) obj show ?thesis
        by (simp add: init_data_def static_ok_def hoare_object_memset0)
    qed
  qed
  show ?case
  proof (cases rule: htype_cases [of "ftype ?f"])
    case 1
    then show ?thesis using data static static_not_extension [OF fld(1)] by (simp add: Let_def)
  next
    case 2
    then obtain a where a: "pSize it = At a" "a = pData it \<or> object h0 W a 1" using fld(4) by auto
    then have "a \<noteq> pData it \<Longrightarrow> hoare ?I (set_has it False) (\<lambda>_. ?I) R"
      by (simp add: set_has_def hoare_object_store_bool [of h0 W a 1])
    then show ?thesis using 2 data static static_not_extension [OF fld(1)] a
      by (auto simp: Let_def intro!: hoare_bind)
  next
    case 3
    then have "hoare ?I (bindC (set_size it 0) (\<lambda>_. returnC ())) (\<lambda>_. ?I) R"
      by (intro hoare_bind [OF hoare_returnI hoare_set_size [OF fld(5)]]) auto
    then show ?thesis using 3 static static_not_extension [OF fld(1)] by (simp add: Let_def)
  next
    case 4
    then obtain a where "pSize it = At a" "object h0 W a 4" using fld(3) by auto
    then have "hoare ?I (bindC (set_size it 0) (\<lambda>_. returnC ())) (\<lambda>_. ?I) R"
      by (intro hoare_bind [OF hoare_returnI hoare_set_size]) auto
    then show ?thesis using 4 static static_not_extension [OF fld(1)] by (simp add: Let_def)
  qed
qed

lemma defaults_safe:
  assumes "desc_ok E r fs S" "r \<le> n" "object h0 W dest S"
  shows "hoare (owns P W h0) (pb_message_set_to_defaults E n fs dest) (\<lambda>_. owns P W h0) R"
  unfolding pb_message_set_to_defaults_def
proof (rule message_defaults_safe)
  show "tags_ok fs" using assms(1) by (rule desc_ok_tags)
  show "dest \<noteq> 0" using assms(3) by (simp add: object_def)
qed (rule field_default_safe [OF _ _ assms])

section \<open>Releasing\<close>

lemma hoare_repeat_items:
  assumes "\<And>i. i < k \<Longrightarrow> hoare I (f (p + of_nat i * step)) (\<lambda>_. I) R"
  shows "hoare I (repeat_items k step f p) (\<lambda>_. I) R"
  using assms
proof (induction k arbitrary: p)
  case 0
  then show ?case by (simp add: hoare_returnI)
next
  case (Suc k)
  have "hoare I (repeat_items k step f (p + step)) (\<lambda>_. I) R"
  proof (rule Suc.IH)
    fix i assume "i < k"
    then show "hoare I (f (p + step + of_nat i * step)) (\<lambda>_. I) R"
      using Suc.prems [of "Suc i"] by (simp add: algebra_simps)
  qed
  then show ?case using Suc.prems [of 0] by (auto intro: hoare_bind)
qed

lemma hoare_submsg_count:
  fixes P :: "'s \<Rightarrow> bool"
  assumes "over fs dest it" "desc_ok E (Suc r) fs S" "object h0 W dest S"
  shows "hoare (owns P W h0) (submsg_count it) (\<lambda>c st. owns P W h0 st \<and>
    unat c * unat (data_size (cur it)) \<le> data_span (cur it)) R"
proof -
  note fld = over_field [OF assms]
  have st: "PB_ATYPE (ftype (cur it)) = PB_ATYPE_STATIC" using fld(1) by (simp add: static_ok_def)
  show ?thesis
  proof (cases "PB_HTYPE (ftype (cur it)) = PB_HTYPE_REPEATED")
    case True
    have clamp: "unat (if c > array_size (cur it) then array_size (cur it) else c) * unat (data_size (cur it))
        \<le> data_span (cur it)" for c
      using True by (auto simp: data_span_def word_less_nat_alt mult.commute)
    show ?thesis
    proof (cases "pSize it = At (pData it)")
      case own: True
      then show ?thesis using True st clamp [of "array_size (cur it)"]
        by (simp add: submsg_count_def Let_def hoare_returnI)
    next
      case False
      with True st have "(submsg_count it :: ('s \<times> heap, u32) cm) = bindC (get_size it)
          (\<lambda>c. returnC (if c > array_size (cur it) then array_size (cur it) else c))"
        by (simp add: submsg_count_def Let_def)
      moreover have "hoare (owns P W h0) (returnC (if c > array_size (cur it) then array_size (cur it) else c))
          (\<lambda>c st. owns P W h0 st \<and> unat c * unat (data_size (cur it)) \<le> data_span (cur it)) R" for c
        using clamp [of c] by (simp add: hoare_returnI)
      ultimately show ?thesis
        by (simp only:) (rule hoare_bind [OF _ hoare_get_size [OF fld(5) [OF True]]])
    qed
  next
    case False
    then show ?thesis by (simp add: submsg_count_def Let_def hoare_returnI data_span_def)
  qed
qed

lemma release_fields_safe:
  assumes "\<And>it. over fs dest it \<Longrightarrow> own_size it \<Longrightarrow> hoare I (body it) (\<lambda>_. I) R"
    and "tags_ok fs" "dest \<noteq> 0"
  shows "hoare I (release_fields body fs dest) (\<lambda>_. I) R"
proof -
  obtain b it where b: "pb_field_iter_begin iter0 fs dest = (b, it)" by (cases "pb_field_iter_begin iter0 fs dest")
  then show ?thesis using iter_begin_ok(1) [OF assms(2,3), of iter0] hoare_each_field_begin [OF assms] assms(3)
    by (simp add: release_fields_def)
qed

lemma release_field_safe:
  assumes "over fs dest it" "desc_ok E r fs S" "r \<le> n" "object h0 W dest S"
  shows "hoare (owns P W h0) (pb_release_single_field E n it) (\<lambda>_. owns P W h0) R"
  using assms
proof (induction n arbitrary: fs dest it r S)
  case 0
  then show ?case by simp
next
  case (Suc n)
  from Suc.prems(2,3) obtain q where r: "r = Suc q" "q \<le> n" by (cases r) auto
  let ?f = "cur it" and ?I = "owns P W h0"
  note desc = Suc.prems(2) [unfolded r(1)]
  note fld = over_field [OF Suc.prems(1) desc Suc.prems(4)]
  have static: "PB_ATYPE (ftype ?f) = PB_ATYPE_STATIC" "PB_LTYPE (ftype ?f) \<noteq> PB_LTYPE_EXTENSION"
    using fld(1) static_not_extension [OF fld(1)] by (simp_all add: static_ok_def)
  have first: "hoare ?I (if PB_HTYPE (ftype ?f) = PB_HTYPE_ONEOF
      then bindC (get_size it) (\<lambda>which. returnC (which \<noteq> tag ?f)) else returnC False) (\<lambda>_. ?I) R"
  proof (rule hoare_if)
    assume "PB_HTYPE (ftype ?f) = PB_HTYPE_ONEOF"
    with fld(3) show "hoare ?I (bindC (get_size it) (\<lambda>which. returnC (which \<noteq> tag ?f))) (\<lambda>_. ?I) R"
      by (intro hoare_bind [OF hoare_returnI hoare_get_size]) auto
  qed (simp add: hoare_returnI)
  have items: "hoare ?I (bindC (submsg_count it) (\<lambda>count.
      if pData it \<noteq> 0 then
        repeat_items (unat count) (ucast (data_size ?f))
          (\<lambda>p. bindC (liftC (submsg_fields E (ptr ?f))) (\<lambda>fs.
             release_fields (pb_release_single_field E n) fs p)) (pData it)
      else returnC ())) (\<lambda>_. ?I) R"
    if lt: "PB_LTYPE (ftype ?f) = PB_LTYPE_SUBMESSAGE"
  proof (rule hoare_bind [OF _ hoare_submsg_count [OF Suc.prems(1) desc Suc.prems(4)]])
    fix c
    obtain i where p: "ptr ?f = Submsg i" and sub: "desc_ok E q (descs E i) (unat (data_size ?f))"
      using fld(1) lt by (auto simp: static_ok_def split: field_ptr.splits)
    have "hoare ?I (repeat_items (unat c) (ucast (data_size ?f))
          (\<lambda>p. bindC (liftC (submsg_fields E (ptr ?f))) (\<lambda>fs.
             release_fields (pb_release_single_field E n) fs p)) (pData it)) (\<lambda>_. ?I) R"
      if span: "unat c * unat (data_size ?f) \<le> data_span ?f"
    proof (rule hoare_repeat_items)
      fix j assume "j < unat c"
      then have "Suc j * unat (data_size ?f) \<le> unat c * unat (data_size ?f)" by (intro mult_le_mono1) simp
      with span have "j * unat (data_size ?f) + unat (data_size ?f) \<le> data_span ?f" by simp
      from object_part [OF fld(2) this]
      have obj: "object h0 W (pData it + of_nat j * ucast (data_size ?f)) (unat (data_size ?f))" by simp
      have "hoare ?I (release_fields (pb_release_single_field E n) (descs E i) (pData it + of_nat j * ucast (data_size ?f)))
          (\<lambda>_. ?I) R"
      proof (rule release_fields_safe)
        show "tags_ok (descs E i)" using sub by (rule desc_ok_tags)
        show "pData it + of_nat j * ucast (data_size ?f) \<noteq> 0" using obj by (simp add: object_def)
      qed (rule Suc.IH [OF _ sub r(2) obj])
      then show "hoare ?I (bindC (liftC (submsg_fields E (ptr ?f)))
          (\<lambda>fs. release_fields (pb_release_single_field E n) fs (pData it + of_nat j * ucast (data_size ?f)))) (\<lambda>_. ?I) R"
        by (simp add: p submsg_fields_def liftC_def)
    qed
    then show "hoare (\<lambda>st. ?I st \<and> unat c * unat (data_size ?f) \<le> data_span ?f)
        (if pData it \<noteq> 0 then repeat_items (unat c) (ucast (data_size ?f))
          (\<lambda>p. bindC (liftC (submsg_fields E (ptr ?f))) (\<lambda>fs.
             release_fields (pb_release_single_field E n) fs p)) (pData it) else returnC ()) (\<lambda>_. ?I) R"
      by (cases "unat c * unat (data_size ?f) \<le> data_span ?f")
         (auto simp: hoare_returnI intro: hoare_pre, simp_all add: hoare_def)
  qed
  show ?case
    unfolding pb_release_single_field.simps Let_def
    by (rule hoare_bind [OF _ first]) (use static items in \<open>auto intro!: hoare_returnI hoare_bind [OF hoare_returnI]\<close>)
qed

lemma release_safe:
  assumes "desc_ok E r fs S" "r \<le> n" "object h0 W dest S"
  shows "hoare (owns P W h0) (pb_release E n fs dest) (\<lambda>_. owns P W h0) R"
  unfolding pb_release_def
proof (rule release_fields_safe)
  show "tags_ok fs" using assms(1) by (rule desc_ok_tags)
  show "dest \<noteq> 0" using assms(3) by (simp add: object_def)
qed (rule release_field_safe [OF _ assms])

end
