(* ===== verification/PbInput.thy ===== *)
theory PbInput
  imports PbIstream
begin

text \<open>
  What the wire-level readers do on a memory buffer. \<open>feeds bs s h\<close> says that \<open>s\<close> reads from memory and
  that the bytes it has left are \<open>bs\<close>; \<open>advance n s\<close> is \<open>s\<close> after \<open>n\<close> bytes. Each reader is shown to
  compute a plain function of \<open>bs\<close>: \<open>varint_group\<close> splits off the bytes of one varint, \<open>varint_value\<close>
  is the number they stand for.
\<close>

section \<open>Streams over a buffer\<close>

definition feeds :: "byte list \<Rightarrow> pb_istream \<Rightarrow> heap \<Rightarrow> bool" where
  "feeds bs s h \<longleftrightarrow> i_callback s = Buf_read \<and> length bs = unat (bytes_left s)
     \<and> load_bytes h (i_state s) (length bs) = Some bs"

definition advance :: "nat \<Rightarrow> pb_istream \<Rightarrow> pb_istream" where
  "advance n s = s\<lparr>i_state := i_state s + of_nat n, bytes_left := bytes_left s - of_nat n\<rparr>"

lemma advance_sel [simp]:
  "i_callback (advance n s) = i_callback s" "i_errmsg (advance n s) = i_errmsg s"
  "i_state (advance n s) = i_state s + of_nat n" "bytes_left (advance n s) = bytes_left s - of_nat n"
  by (simp_all add: advance_def)

lemma advance_0 [simp]: "advance 0 s = s"
  by (simp add: advance_def)

lemma advance_advance [simp]: "advance m (advance n s) = advance (n + m) s"
  by (simp add: advance_def ac_simps)

lemma advance_error: "set_i_error m (advance n s) = advance n (set_i_error m s)"
  by (simp add: advance_def set_i_error_def)

lemma feeds_left: "feeds bs s h \<Longrightarrow> bytes_left s = of_nat (length bs)"
  by (simp add: feeds_def)

lemma feeds_unat: "feeds bs s h \<Longrightarrow> unat (bytes_left s) = length bs"
  by (simp add: feeds_def)

lemma feeds_buf: "feeds bs s h \<Longrightarrow> i_callback s = Buf_read"
  by (simp add: feeds_def)

lemma feeds_small: "feeds bs s h \<Longrightarrow> length bs < 2 ^ 64"
  using unsigned_less[of "bytes_left s"] by (simp add: feeds_def)

lemma feeds_split:
  assumes "feeds (xs @ ys) s h"
  shows "load_bytes h (i_state s) (length xs) = Some xs"
    "load_bytes h (i_state s + of_nat (length xs)) (length ys) = Some ys"
proof -
  from assms have "load_bytes h (i_state s) (length xs + length ys) = Some (xs @ ys)"
    by (metis feeds_def length_append)
  then obtain bs cs where *: "load_bytes h (i_state s) (length xs) = Some bs"
    "load_bytes h (i_state s + of_nat (length xs)) (length ys) = Some cs" "bs @ cs = xs @ ys"
    by (auto simp: load_bytes_append split: option.splits)
  then have "length bs = length xs" using load_bytes_length by blast
  with * show "load_bytes h (i_state s) (length xs) = Some xs"
    "load_bytes h (i_state s + of_nat (length xs)) (length ys) = Some ys" by auto
qed

lemma feeds_advance:
  assumes "feeds (xs @ ys) s h"
  shows "feeds ys (advance (length xs) s) h"
proof -
  have "length (xs @ ys) < 2 ^ 64" using feeds_small [OF assms] .
  then have "of_nat (length xs) \<le> bytes_left s"
    using assms by (simp add: feeds_def word_le_nat_alt unat_of_nat)
  then have "unat (bytes_left s - of_nat (length xs)) = length ys"
    using feeds_unat [OF assms] \<open>length (xs @ ys) < _\<close> by (simp add: unat_minus_le unat_of_nat)
  then show ?thesis
    using assms feeds_split(2) [OF assms] by (simp add: feeds_def)
qed

lemma feeds_Cons: "feeds (b # bs) s h \<Longrightarrow> feeds bs (advance 1 s) h"
  using feeds_advance [of "[b]" bs] by simp

lemma feeds_drop: "feeds bs s h \<Longrightarrow> n \<le> length bs \<Longrightarrow> feeds (drop n bs) (advance n s) h"
  using feeds_advance [of "take n bs" "drop n bs"] by simp

section \<open>Bytes\<close>

lemma stream_read_buf: "i_callback s = Buf_read \<Longrightarrow> stream_read E w n (s, h) = buf_read w n (s, h)"
  by (simp add: stream_read_def)

lemma readbyte_Cons:
  assumes "feeds (b # bs) s h"
  shows "pb_readbyte E (s, h) = Some (Some b, (advance 1 s, h))"
proof -
  from feeds_split(1) [of "[b]" bs s h] assms have "load_bytes h (i_state s) 1 = Some [b]" by simp
  moreover have "bytes_left s \<noteq> 0" using feeds_unat [OF assms] by auto
  ultimately show ?thesis using feeds_buf [OF assms]
    by (simp add: pb_readbyte_def bindC_def catchC_def stream_read_buf buf_read_def advance_def)
qed

lemma readbyte_Nil:
  "feeds [] s h \<Longrightarrow> pb_readbyte E (s, h) = Some (None, (set_i_error ''end-of-stream'' s, h))"
  by (simp add: pb_readbyte_def feeds_def i_error_def unat_eq_0)

lemma pb_read_buf:
  assumes "feeds bs s h" "unat n \<le> length bs"
  shows "pb_read E w n (s, h) = Some (Some (if w then take (unat n) bs else []), (advance (unat n) s, h))"
proof (cases "n = 0")
  case True
  then show ?thesis by (simp add: pb_read_def)
next
  case False
  have "feeds (take (unat n) bs @ drop (unat n) bs) s h" using assms by simp
  from feeds_split(1) [OF this] have "load_bytes h (i_state s) (unat n) = Some (take (unat n) bs)"
    using assms(2) by simp
  moreover have "\<not> bytes_left s < n" using assms by (simp add: word_less_nat_alt feeds_unat)
  ultimately show ?thesis using False feeds_buf [OF assms(1)]
    by (simp add: pb_read_def read_checked_def bindC_def catchC_def stream_read_buf buf_read_def
        advance_def)
qed

lemma pb_read_short:
  assumes "feeds bs s h" "length bs < unat n"
  shows "pb_read E w n (s, h) = Some (None, (set_i_error ''end-of-stream'' s, h))"
proof -
  have "bytes_left s < n" using assms by (simp add: word_less_nat_alt feeds_unat)
  moreover from this have "n \<noteq> 0" by auto
  ultimately show ?thesis using feeds_buf [OF assms(1)]
    by (simp add: pb_read_def read_checked_def i_error_def)
qed

lemmas bind_readbyte_Cons = bindC_eval(1) [where m = "pb_readbyte E" and s = "(s, h)" for E s h, OF readbyte_Cons]
lemmas bind_readbyte_Nil = bindC_eval(2) [where m = "pb_readbyte E" and s = "(s, h)" for E s h, OF readbyte_Nil]
lemmas bind_read_buf = bindC_eval(1) [where m = "pb_read E w n" and s = "(s, h)" for E w n s h, OF pb_read_buf]
lemmas bind_read_short = bindC_eval(2) [where m = "pb_read E w n" and s = "(s, h)" for E w n s h, OF pb_read_short]

lemma input_bound_eq:
  "feeds bs s h \<Longrightarrow> input_bound loop x (s, h) = loop x (Suc (length bs)) (s, h)"
  by (simp add: input_bound_def feeds_unat)

section \<open>The format of a varint\<close>

fun varint_group :: "byte list \<Rightarrow> (byte list \<times> byte list) option" where
  "varint_group [] = None"
| "varint_group (b # bs) =
     (if b AND 0x80 = 0 then Some ([b], bs)
      else (case varint_group bs of None \<Rightarrow> None | Some (g, rest) \<Rightarrow> Some (b # g, rest)))"

fun varint_value :: "byte list \<Rightarrow> nat" where
  "varint_value [] = 0"
| "varint_value (b # bs) = unat (b AND 0x7F) + 128 * varint_value bs"

lemma varint_group_append:
  "varint_group bs = Some (g, rest) \<Longrightarrow> bs = g @ rest \<and> g \<noteq> [] \<and> length g \<le> length bs"
  by (induction bs arbitrary: g rest) (auto split: if_splits option.splits)

lemma varint_group_extend:
  "varint_group bs = Some (g, rest) \<Longrightarrow> varint_group (bs @ ys) = Some (g, rest @ ys)"
  by (induction bs arbitrary: g rest) (auto split: if_splits option.splits)

lemma seven_bits: "unat (b AND 0x7F :: byte) < 128"
proof -
  have "b AND 0x7F \<le> 0x7F" by (rule word_and_le1)
  then show ?thesis by (simp add: word_le_nat_alt)
qed

lemma varint_value_less: "varint_value bs < 128 ^ length bs"
proof (induction bs)
  case (Cons b bs)
  then have "Suc (varint_value bs) \<le> 128 ^ length bs" by simp
  then have "128 * Suc (varint_value bs) \<le> 128 * 128 ^ length bs" by (rule mult_le_mono2)
  then show ?case using seven_bits [of b] by simp
qed simp

lemma small_take_bit:
  assumes "unat (a :: 'a::len word) < 2 ^ k"
  shows "take_bit k a = a"
  using assms by (simp add: word_unat_eq_iff unsigned_take_bit_eq take_bit_nat_eq_self)

lemma or_shifted:
  assumes "unat (a :: 'a::len word) < 2 ^ k"
  shows "a OR push_bit k c = a + push_bit k c"
proof -
  have "bit a i \<Longrightarrow> i < k" for i
    using small_take_bit [OF assms] by (metis bit_take_bit_iff)
  then have "a AND push_bit k c = 0"
    by (intro bit_word_eqI) (auto simp: bit_and_iff bit_push_bit_iff dest!: leD)
  then show ?thesis by (rule disjunctive_add_eq_or [symmetric])
qed

section \<open>A memory that holds one buffer\<close>

definition memory_of :: "addr \<Rightarrow> byte list \<Rightarrow> heap" where
  "memory_of a bs = \<lparr>mem = (\<lambda>x. if unat (x - a) < length bs then Some (bs ! unat (x - a)) else None),
                     blocks = (\<lambda>_. None)\<rparr>"

lemma load_memory_of:
  "length bs < 2 ^ 64 \<Longrightarrow> k + n \<le> length bs \<Longrightarrow>
     load_bytes (memory_of a bs) (a + of_nat k) n = Some (take n (drop k bs))"
proof (induction n arbitrary: k)
  case (Suc n)
  have "unat (of_nat k :: addr) = k" using Suc.prems by (intro unat_of_nat_64) simp
  moreover have "load_bytes (memory_of a bs) (a + of_nat (Suc k)) n = Some (take n (drop (Suc k) bs))"
    using Suc.prems by (intro Suc.IH) simp_all
  moreover have "drop k bs = bs ! k # drop (Suc k) bs"
    using Suc.prems by (simp add: Cons_nth_drop_Suc)
  ultimately show ?case using Suc.prems by (simp add: memory_of_def ac_simps)
qed simp

lemma memory_of_feeds:
  "length bs < 2 ^ 64 \<Longrightarrow> feeds bs (pb_istream_from_buffer a (of_nat (length bs))) (memory_of a bs)"
  using load_memory_of [of bs 0 "length bs" a]
  by (simp add: feeds_def pb_istream_from_buffer_def unat_of_nat_64)

end
