(* ===== verification/PbSafe.thy ===== *)
theory PbSafe
  imports PbDecode PbObject PbInput
begin

text \<open>
  Memory safety and termination of decoding: for a message type whose fields are static, whatever the
  input bytes are, \<open>pb_decode\<close> reads only the input and the message, writes only the message, and
  returns. The stream reads from a buffer \<open>base .. base + stop\<close>; \<open>within\<close> says that it is at most \<open>m\<close>
  bytes before the end, and \<open>m\<close> is what bounds the loops.
\<close>

section \<open>The stream invariant\<close>

definition within :: "addr \<Rightarrow> nat \<Rightarrow> nat \<Rightarrow> pb_istream \<Rightarrow> bool" where
  "within base stop m s \<longleftrightarrow> i_callback s = Buf_read \<and> unat (bytes_left s) \<le> m \<and> unat (bytes_left s) \<le> stop
     \<and> i_state s = base + of_nat (stop - unat (bytes_left s))"

text \<open>\<open>ahead m\<close>: at least one of the \<open>m\<close> bytes has been consumed.\<close>

definition ahead :: "addr \<Rightarrow> nat \<Rightarrow> nat \<Rightarrow> pb_istream \<Rightarrow> bool" where
  "ahead base stop m s \<longleftrightarrow> 0 < m \<and> within base stop (m - 1) s"

text \<open>After a failure only this is known of the stream.\<close>

definition buffered :: "pb_istream \<Rightarrow> bool" where
  "buffered s \<longleftrightarrow> i_callback s = Buf_read"

lemma within_mono: "within base stop m s \<Longrightarrow> m \<le> m' \<Longrightarrow> within base stop m' s"
  by (simp add: within_def)

lemma within_buffered: "within base stop m s \<Longrightarrow> buffered s"
  by (simp add: within_def buffered_def)

lemma owns_mono: "owns P W h st \<Longrightarrow> (\<And>s. P s \<Longrightarrow> Q s) \<Longrightarrow> owns Q W h st"
  by (auto simp: owns_def)

lemma owns_within_mono: "owns (within base stop m) W h st \<Longrightarrow> m \<le> m' \<Longrightarrow> owns (within base stop m') W h st"
  by (erule owns_mono) (rule within_mono)

lemma owns_buffered: "owns (within base stop m) W h st \<Longrightarrow> owns buffered W h st"
  by (erule owns_mono) (rule within_buffered)

lemma within_error: "within base stop m (set_i_error e s) = within base stop m s"
  by (simp add: within_def)

lemma hoare_i_error:
  assumes "\<And>s. P s \<Longrightarrow> P' (set_i_error e s)"
  shows "hoare (owns P W h0) (i_error e) Q (owns P' W h0)"
  using assms by (auto simp: hoare_def i_error_def owns_def)

lemma hoare_i_error_within: "hoare (owns (within base stop m) W h0) (i_error e) Q (owns (within base stop m) W h0)"
  by (rule hoare_i_error) (simp add: within_error)

lemma hoare_i_error_buffered: "hoare (owns (within base stop m) W h0) (i_error e) Q (owns buffered W h0)"
  by (rule hoare_i_error) (simp add: within_def buffered_def)

lemma hoare_i_error_buffered': "hoare (owns buffered W h0) (i_error e) Q (owns buffered W h0)"
  by (rule hoare_i_error) (simp add: buffered_def)

lemma hoare_weaken:
  assumes "hoare P m Q (owns (within base stop k) W h0)"
  shows "hoare P m Q (owns buffered W h0)"
  using assms by (rule hoare_conseq) (auto intro: owns_buffered)

lemma hoare_False [simp]: "hoare (\<lambda>_. False) m Q R"
  by (simp add: hoare_def)

section \<open>Wire-level readers\<close>

text \<open>The bytes of the input buffer are accessible.\<close>

definition input_ok :: "heap \<Rightarrow> addr \<Rightarrow> nat \<Rightarrow> bool" where
  "input_ok h base stop \<longleftrightarrow> readable h base stop \<and> stop < 2 ^ 64"

lemma within_move:
  assumes "within base stop m s" "n \<le> bytes_left s"
  shows "within base stop (m - unat n) (s\<lparr>i_state := i_state s + n, bytes_left := bytes_left s - n\<rparr>)"
proof -
  have u: "unat (bytes_left s - n) = unat (bytes_left s) - unat n" using assms(2) by (rule unat_minus_le)
  have le: "unat n \<le> unat (bytes_left s)" using assms(2) by (simp add: word_le_nat_alt)
  have "of_nat (stop - unat (bytes_left s)) + n = (of_nat (stop - unat (bytes_left s) + unat n) :: addr)" by simp
  also have "stop - unat (bytes_left s) + unat n = stop - (unat (bytes_left s) - unat n)"
    using assms(1) le by (simp add: within_def)
  finally show ?thesis using assms(1) le u by (simp add: within_def add.assoc diff_le_mono le_diff_conv)
qed

lemma within_readable:
  assumes "within base stop m s" "n \<le> bytes_left s" "input_ok h base stop"
  shows "readable h (i_state s) (unat n)"
proof -
  have "unat n \<le> unat (bytes_left s)" using assms(2) by (simp add: word_le_nat_alt)
  then show ?thesis using assms(1,3) readable_offset [of h base stop "stop - unat (bytes_left s)" "unat n"]
    by (simp add: within_def input_ok_def)
qed

lemma hoare_buf_read:
  assumes "input_ok h0 base stop"
  shows "hoare (\<lambda>st. owns (within base stop m) W h0 st \<and> n \<le> bytes_left (fst st))
    (bindC (catchC (stream_read E w n)) (\<lambda>r. case r of
       None \<Rightarrow> i_error ''io error''
     | Some bs \<Rightarrow> (\<lambda>(s, h). Some (Some bs, (s\<lparr>bytes_left := bytes_left s - n\<rparr>, h)))))
    (\<lambda>bs st. (w \<longrightarrow> length bs = unat n) \<and> owns (within base stop (m - unat n)) W h0 st) R"
proof (rule hoareI)
  fix st assume "owns (within base stop m) W h0 st \<and> n \<le> bytes_left (fst st)"
  then obtain s h where [simp]: "st = (s, h)" and i: "within base stop m s" and fr: "frame W h0 h"
    and n: "n \<le> bytes_left s" by (cases st) (auto simp: owns_def)
  have "readable h (i_state s) (unat n)"
    using within_readable [OF i n assms] frame_readable [OF fr] by simp
  then obtain bs where bs: "load_bytes h (i_state s) (unat n) = Some bs" "length bs = unat n"
    by (rule load_bytes_Some)
  have "i_callback s = Buf_read" using i by (simp add: within_def)
  then show "\<exists>r s'. bindC (catchC (stream_read E w n)) (\<lambda>r. case r of
       None \<Rightarrow> i_error ''io error''
     | Some bs \<Rightarrow> (\<lambda>(s, h). Some (Some bs, (s\<lparr>bytes_left := bytes_left s - n\<rparr>, h)))) st = Some (r, s')
     \<and> (case r of None \<Rightarrow> R s'
        | Some bs \<Rightarrow> (w \<longrightarrow> length bs = unat n) \<and> owns (within base stop (m - unat n)) W h0 s')"
    using bs within_move [OF i n] fr
    by (cases w) (simp_all add: bindC_def catchC_def stream_read_buf buf_read_def owns_def)
qed

lemma hoare_pb_read:
  assumes "input_ok h0 base stop"
  shows "hoare (owns (within base stop m) W h0) (pb_read E w n)
    (\<lambda>bs st. (w \<longrightarrow> length bs = unat n) \<and> owns (within base stop (m - unat n)) W h0 st)
    (owns (within base stop m) W h0)"
proof (rule hoareI)
  fix st assume st: "owns (within base stop m) W h0 st"
  then obtain s h where [simp]: "st = (s, h)" and i: "within base stop m s" by (cases st) (auto simp: owns_def)
  have b: "i_callback s = Buf_read" using i by (simp add: within_def)
  show "\<exists>r s'. pb_read E w n st = Some (r, s') \<and> (case r of None \<Rightarrow> owns (within base stop m) W h0 s'
      | Some bs \<Rightarrow> (w \<longrightarrow> length bs = unat n) \<and> owns (within base stop (m - unat n)) W h0 s')"
  proof (cases "n = 0")
    case True
    then show ?thesis using st by (simp add: pb_read_def)
  next
    case nz: False
    show ?thesis
    proof (cases "bytes_left s < n")
      case True
      then show ?thesis using st nz b by (simp add: pb_read_def read_checked_def i_error_def owns_def within_error)
    next
      case False
      then have "owns (within base stop m) W h0 st \<and> n \<le> bytes_left (fst st)" using st by simp
      with hoare_buf_read [OF assms, where R = "owns (within base stop m) W h0" and w = w and E = E]
      show ?thesis
      proof (cases rule: hoareD)
        case (1 bs s')
        then show ?thesis using nz b False by (simp add: pb_read_def read_checked_def)
      next
        case (2 s')
        then show ?thesis using nz b False by (simp add: pb_read_def read_checked_def)
      qed
    qed
  qed
qed

lemma hoare_readbyte:
  assumes "input_ok h0 base stop"
  shows "hoare (owns (within base stop m) W h0) (pb_readbyte E)
    (\<lambda>_ st. 0 < m \<and> owns (within base stop (m - 1)) W h0 st) (owns (within base stop m) W h0)"
proof (rule hoareI)
  fix st assume st: "owns (within base stop m) W h0 st"
  then obtain s h where [simp]: "st = (s, h)" and i: "within base stop m s" and fr: "frame W h0 h"
    by (cases st) (auto simp: owns_def)
  have b: "i_callback s = Buf_read" using i by (simp add: within_def)
  show "\<exists>r s'. pb_readbyte E st = Some (r, s') \<and> (case r of None \<Rightarrow> owns (within base stop m) W h0 s'
      | Some _ \<Rightarrow> 0 < m \<and> owns (within base stop (m - 1)) W h0 s')"
  proof (cases "bytes_left s = 0")
    case True
    then show ?thesis using st by (simp add: pb_readbyte_def i_error_def owns_def within_error)
  next
    case False
    then have one: "1 \<le> bytes_left s" by (simp add: word_le_nat_alt Suc_le_eq unat_gt_0)
    then have "readable h (i_state s) (unat (1 :: size_t))"
      using within_readable [OF i one assms] frame_readable [OF fr] by simp
    then obtain bs where "load_bytes h (i_state s) 1 = Some bs" "length bs = 1"
      by (auto elim: load_bytes_Some)
    then obtain c where c: "load_bytes h (i_state s) 1 = Some [c]" by (auto simp: length_Suc_conv)
    have "unat (bytes_left s) \<noteq> 0" using False by (simp add: unat_eq_0)
    then have "0 < m" using i unfolding within_def by linarith
    then show ?thesis using c b False within_move [OF i one] fr
      by (simp add: pb_readbyte_def bindC_def catchC_def stream_read_buf buf_read_def owns_def)
  qed
qed

lemma hoare_input_bound:
  assumes "\<And>k. k \<le> m \<Longrightarrow> hoare (owns (within base stop k) W h0) (loop x (Suc k)) Q R"
  shows "hoare (owns (within base stop m) W h0) (input_bound loop x) Q R"
proof (rule hoareI)
  fix st assume st: "owns (within base stop m) W h0 st"
  then obtain s h where [simp]: "st = (s, h)" and i: "within base stop m s" by (cases st) (auto simp: owns_def)
  let ?k = "unat (bytes_left s)"
  have "owns (within base stop ?k) W h0 st" "?k \<le> m"
    using st i by (simp_all add: owns_def within_def)
  with assms [of ?k] show "\<exists>r s'. input_bound loop x st = Some (r, s') \<and> (case r of None \<Rightarrow> R s' | Some a \<Rightarrow> Q a s')"
    by (auto simp: input_bound_def elim!: hoareD)
qed

lemma hoare_varint_loop:
  assumes "input_ok h0 base stop"
  shows "m < n \<Longrightarrow> hoare (owns (within base stop m) W h0) (varint_loop E r bp n)
    (\<lambda>_ st. 0 < m \<and> owns (within base stop (m - 1)) W h0 st) (owns (within base stop m) W h0)"
proof (induction n arbitrary: m r bp)
  case (Suc n)
  have step: "hoare (\<lambda>st. 0 < m \<and> owns (within base stop (m - 1)) W h0 st)
      (let result' = r OR push_bit (unat bp) (ucast (b AND 0x7F)); bitpos' = bp + 7
       in if b AND 0x80 \<noteq> 0 then varint_loop E result' bitpos' n else returnC result')
      (\<lambda>_ st. 0 < m \<and> owns (within base stop (m - 1)) W h0 st) (owns (within base stop m) W h0)" for b
  proof (cases "m = 0")
    case True
    then show ?thesis by (simp add: hoare_def)
  next
    case False
    with Suc.prems have lt: "m - 1 < n" by simp
    have loop: "hoare (\<lambda>st. 0 < m \<and> owns (within base stop (m - 1)) W h0 st) (varint_loop E r' bp' n)
      (\<lambda>_ st. 0 < m \<and> owns (within base stop (m - 1)) W h0 st) (owns (within base stop m) W h0)" for r' bp'
      by (rule hoare_conseq [OF Suc.IH [OF lt]]) (use False in \<open>auto intro: owns_within_mono\<close>)
    show ?thesis unfolding Let_def
      by (intro hoare_if loop hoare_returnI) auto
  qed
  show ?case
    unfolding varint_loop.simps
    by (intro hoare_if hoare_i_error_within hoare_bind [OF step hoare_readbyte [OF assms]])
qed simp

lemma hoare_decode_varint:
  assumes "input_ok h0 base stop"
  shows "hoare (owns (within base stop m) W h0) (pb_decode_varint E)
    (\<lambda>_ st. 0 < m \<and> owns (within base stop (m - 1)) W h0 st) (owns (within base stop m) W h0)"
  unfolding pb_decode_varint_def
proof (rule hoare_input_bound)
  fix k assume k: "k \<le> m"
  show "hoare (owns (within base stop k) W h0) ((\<lambda>(res, bp). varint_loop E res bp) (0, 0) (Suc k))
    (\<lambda>_ st. 0 < m \<and> owns (within base stop (m - 1)) W h0 st) (owns (within base stop m) W h0)"
    unfolding prod.case
    by (rule hoare_conseq [OF hoare_varint_loop [OF assms, of k "Suc k"]])
       (use k in \<open>auto intro: owns_within_mono diff_le_mono\<close>)
qed

lemma hoare_varint32_loop:
  assumes "input_ok h0 base stop"
  shows "m < n \<Longrightarrow> hoare (owns (within base stop m) W h0) (varint32_loop E r bp n)
    (\<lambda>_. owns (within base stop m) W h0) (owns (within base stop m) W h0)"
proof (induction n arbitrary: m r bp)
  case (Suc n)
  have step: "hoare (\<lambda>st. 0 < m \<and> owns (within base stop (m - 1)) W h0 st)
      (let sign_extension = (if bp < 63 then 0xFF else 0x01) in
       if bp \<ge> 32 \<and> b AND 0x7F \<noteq> 0 \<and> (drop_bit 31 r = 0 \<or> b \<noteq> sign_extension)
       then i_error ''varint overflow''
       else
         let result' = (if bp \<ge> 32 then r else r OR push_bit (unat bp) (ucast (b AND 0x7F)));
             bitpos' = bp + 7
         in if b AND 0x80 \<noteq> 0 then varint32_loop E result' bitpos' n
            else returnC (result', bitpos', b))
      (\<lambda>_. owns (within base stop m) W h0) (owns (within base stop m) W h0)" for b
  proof (cases "m = 0")
    case True
    then show ?thesis by (simp add: hoare_def)
  next
    case False
    with Suc.prems have lt: "m - 1 < n" by simp
    have loop: "hoare (\<lambda>st. 0 < m \<and> owns (within base stop (m - 1)) W h0 st) (varint32_loop E r' bp' n)
      (\<lambda>_. owns (within base stop m) W h0) (owns (within base stop m) W h0)" for r' bp'
      by (rule hoare_conseq [OF Suc.IH [OF lt]]) (auto intro: owns_within_mono)
    have err: "hoare (\<lambda>st. 0 < m \<and> owns (within base stop (m - 1)) W h0 st) (i_error e)
      (\<lambda>_. owns (within base stop m) W h0) (owns (within base stop m) W h0)" for e
      by (rule hoare_conseq [OF hoare_i_error_within]) (auto intro: owns_within_mono)
    show ?thesis unfolding Let_def
      by (intro hoare_if loop err hoare_returnI) (auto intro: owns_within_mono)
  qed
  show ?case unfolding varint32_loop.simps
    by (rule hoare_bind [OF step hoare_readbyte [OF assms]])
qed simp

text \<open>\<open>pb_decode_varint32_eof\<close> delivers None where C returns false; a value has cost at least a byte.\<close>

lemma hoare_varint32_eof:
  assumes "input_ok h0 base stop"
  shows "hoare (owns (within base stop m) W h0) (pb_decode_varint32_eof E)
    (\<lambda>(v, eof) st. owns (within base stop (if v = None then m else m - 1)) W h0 st \<and> (v \<noteq> None \<longrightarrow> 0 < m)) R"
proof -
  let ?Q = "\<lambda>(v, eof) st. owns (within base stop (if v = None then m else m - 1)) W h0 st \<and> (v \<noteq> None \<longrightarrow> 0 < m)"
  have rd: "hoare (owns (within base stop m) W h0) (catchC (pb_readbyte E))
      (\<lambda>r st. case r of None \<Rightarrow> owns (within base stop m) W h0 st
         | Some b \<Rightarrow> 0 < m \<and> owns (within base stop (m - 1)) W h0 st) R"
    using hoare_readbyte [OF assms, of m W E] by (intro hoare_catch) simp
  have more: "hoare (\<lambda>st. 0 < m \<and> owns (within base stop (m - 1)) W h0 st)
      (if b AND 0x80 = 0 then returnC (ucast b)
       else bindC (input_bound (\<lambda>(res, bp). varint32_loop E res bp) (ucast (b AND 0x7F), 7))
         (\<lambda>(result, bitpos, b).
            if bitpos = 35 \<and> b AND 0x70 \<noteq> 0 then i_error ''varint overflow'' else returnC result))
      (\<lambda>_ st. 0 < m \<and> owns (within base stop (m - 1)) W h0 st)
      (\<lambda>st. 0 < m \<and> owns (within base stop (m - 1)) W h0 st)" for b :: byte
  proof (cases "m = 0")
    case False
    have lp: "hoare (owns (within base stop (m - 1)) W h0)
        (input_bound (\<lambda>(res, bp). varint32_loop E res bp) (ucast (b AND 0x7F), 7))
        (\<lambda>_. owns (within base stop (m - 1)) W h0) (owns (within base stop (m - 1)) W h0)"
    proof (rule hoare_input_bound)
      fix k assume k: "k \<le> m - 1"
      show "hoare (owns (within base stop k) W h0)
        ((\<lambda>(res, bp). varint32_loop E res bp) (ucast (b AND 0x7F), 7) (Suc k))
        (\<lambda>_. owns (within base stop (m - 1)) W h0) (owns (within base stop (m - 1)) W h0)"
        unfolding prod.case
        by (rule hoare_conseq [OF hoare_varint32_loop [OF assms, of k "Suc k"]])
           (use k in \<open>auto intro: owns_within_mono\<close>)
    qed
    have "hoare (owns (within base stop (m - 1)) W h0)
      (if b AND 0x80 = 0 then returnC (ucast b)
       else bindC (input_bound (\<lambda>(res, bp). varint32_loop E res bp) (ucast (b AND 0x7F), 7))
         (\<lambda>(result, bitpos, b).
            if bitpos = 35 \<and> b AND 0x70 \<noteq> 0 then i_error ''varint overflow'' else returnC result))
      (\<lambda>_. owns (within base stop (m - 1)) W h0) (owns (within base stop (m - 1)) W h0)"
      by (intro hoare_if hoare_returnI, assumption, rule hoare_bind [OF _ lp])
         (auto intro!: hoare_if hoare_i_error_within hoare_returnI)
    with False show ?thesis by simp
  qed (simp add: hoare_def)
  show ?thesis unfolding pb_decode_varint32_eof_def
  proof (rule hoare_bind [OF _ rd])
    fix r :: "byte option"
    show "hoare (\<lambda>st. case r of None \<Rightarrow> owns (within base stop m) W h0 st
         | Some b \<Rightarrow> 0 < m \<and> owns (within base stop (m - 1)) W h0 st)
       (case r of None \<Rightarrow> (\<lambda>(s, h). Some (Some (None, bytes_left s = 0), (s, h)))
        | Some b \<Rightarrow> bindC (catchC
           (if b AND 0x80 = 0 then returnC (ucast b)
            else bindC (input_bound (\<lambda>(res, bp). varint32_loop E res bp) (ucast (b AND 0x7F), 7))
              (\<lambda>(result, bitpos, b).
                 if bitpos = 35 \<and> b AND 0x70 \<noteq> 0 then i_error ''varint overflow''
                 else returnC result)))
         (\<lambda>v. returnC (v, False))) ?Q R"
    proof (cases r)
      case None
      then show ?thesis by (auto simp: hoare_def)
    next
      case (Some b)
      have "hoare (\<lambda>st. 0 < m \<and> owns (within base stop (m - 1)) W h0 st) (catchC
           (if b AND 0x80 = 0 then returnC (ucast b)
            else bindC (input_bound (\<lambda>(res, bp). varint32_loop E res bp) (ucast (b AND 0x7F), 7))
              (\<lambda>(result, bitpos, b).
                 if bitpos = 35 \<and> b AND 0x70 \<noteq> 0 then i_error ''varint overflow''
                 else returnC result))) (\<lambda>_ st. 0 < m \<and> owns (within base stop (m - 1)) W h0 st) R"
        by (rule hoare_catch) (rule more)
      then show ?thesis unfolding Some option.case
        by (rule hoare_bind [rotated]) (auto intro!: hoare_returnI intro: owns_within_mono)
    qed
  qed
qed

lemma hoare_varint32:
  assumes "input_ok h0 base stop"
  shows "hoare (owns (within base stop m) W h0) (pb_decode_varint32 E)
    (\<lambda>_ st. 0 < m \<and> owns (within base stop (m - 1)) W h0 st) (owns (within base stop m) W h0)"
  unfolding pb_decode_varint32_def
proof (rule hoare_bind [OF _ hoare_varint32_eof [OF assms]])
  fix a :: "u32 option \<times> bool"
  obtain v eof where [simp]: "a = (v, eof)" by (cases a)
  show "hoare ((\<lambda>(v, eof) st. owns (within base stop (if v = None then m else m - 1)) W h0 st \<and> (v \<noteq> None \<longrightarrow> 0 < m)) a)
     (case a of (v, eof) \<Rightarrow> case v of None \<Rightarrow> failC | Some w \<Rightarrow> returnC w)
     (\<lambda>_ st. 0 < m \<and> owns (within base stop (m - 1)) W h0 st) (owns (within base stop m) W h0)"
    by (cases v) (auto simp: hoare_def failC_def returnC_def)
qed

lemma hoare_decode_tag:
  assumes "input_ok h0 base stop"
  shows "hoare (owns (within base stop m) W h0) (pb_decode_tag E)
    (\<lambda>(ok, wt, t, eof) st. owns (within base stop m) W h0 st \<and>
       (ok \<longrightarrow> 0 < m \<and> owns (within base stop (m - 1)) W h0 st \<and> t < 0x20000000)) R"
  unfolding pb_decode_tag_def
proof (rule hoare_bind [OF _ hoare_varint32_eof [OF assms]])
  fix a :: "u32 option \<times> bool"
  obtain v eof where [simp]: "a = (v, eof)" by (cases a)
  have "drop_bit 3 (w :: u32) < 0x20000000" for w
  proof -
    have "unat w div 8 < 536870912" using unsigned_less [of w, where 'a = nat] by (simp add: less_mult_imp_div_less)
    then show ?thesis by (simp add: word_less_nat_alt drop_bit_eq_div unat_div)
  qed
  then show "hoare ((\<lambda>(v, eof) st. owns (within base stop (if v = None then m else m - 1)) W h0 st \<and> (v \<noteq> None \<longrightarrow> 0 < m)) a)
     (case a of (v, eof) \<Rightarrow> case v of None \<Rightarrow> returnC (False, 0, 0, eof)
       | Some temp \<Rightarrow> if temp = 0 then returnC (False, 0, 0, True)
           else returnC (True, temp AND 7, drop_bit 3 temp, eof))
     (\<lambda>(ok, wt, t, eof) st. owns (within base stop m) W h0 st \<and>
       (ok \<longrightarrow> 0 < m \<and> owns (within base stop (m - 1)) W h0 st \<and> t < 0x20000000)) R"
    by (cases v) (auto simp: hoare_def returnC_def intro: owns_within_mono)
qed

lemma hoare_skip_varint_loop:
  assumes "input_ok h0 base stop"
  shows "m < n \<Longrightarrow> hoare (owns (within base stop m) W h0) (skip_varint_loop E n)
    (\<lambda>_. owns (within base stop m) W h0) (owns (within base stop m) W h0)"
proof (induction n arbitrary: m)
  case (Suc n)
  have rd: "hoare (owns (within base stop m) W h0) (pb_read E True 1)
      (\<lambda>bs st. owns (within base stop (m - 1)) W h0 st \<and> (m = 0 \<longrightarrow> False)) (owns (within base stop m) W h0)"
  proof (cases "m = 0")
    case True
    then show ?thesis
      by (auto simp: hoare_def pb_read_def read_checked_def i_error_def owns_def within_def unat_eq_0)
  next
    case False
    then show ?thesis
      by (intro hoare_conseq [OF hoare_pb_read [OF assms, of m W E True 1]]) auto
  qed
  have "hoare (\<lambda>st. owns (within base stop (m - 1)) W h0 st \<and> (m = 0 \<longrightarrow> False))
      (if hd bs AND 0x80 \<noteq> 0 then skip_varint_loop E n else returnC ())
      (\<lambda>_. owns (within base stop m) W h0) (owns (within base stop m) W h0)" for bs :: "byte list"
  proof (cases "m = 0")
    case False
    with Suc.prems have lt: "m - 1 < n" by simp
    have loop: "hoare (\<lambda>st. owns (within base stop (m - 1)) W h0 st \<and> (m = 0 \<longrightarrow> False)) (skip_varint_loop E n)
      (\<lambda>_. owns (within base stop m) W h0) (owns (within base stop m) W h0)"
      by (rule hoare_conseq [OF Suc.IH [OF lt]]) (auto intro: owns_within_mono)
    show ?thesis by (intro hoare_if hoare_returnI loop) (auto intro: owns_within_mono)
  qed (simp add: hoare_def)
  with rd show ?case unfolding skip_varint_loop.simps by (intro hoare_bind)
qed simp

lemma hoare_skip_varint:
  assumes "input_ok h0 base stop"
  shows "hoare (owns (within base stop m) W h0) (pb_skip_varint E)
    (\<lambda>_. owns (within base stop m) W h0) (owns (within base stop m) W h0)"
  unfolding pb_skip_varint_def
proof (rule hoare_input_bound)
  fix k assume k: "k \<le> m"
  show "hoare (owns (within base stop k) W h0) (skip_varint_loop E (Suc k))
    (\<lambda>_. owns (within base stop m) W h0) (owns (within base stop m) W h0)"
    by (rule hoare_conseq [OF hoare_skip_varint_loop [OF assms, of k "Suc k"]])
       (use k in \<open>auto intro: owns_within_mono\<close>)
qed

lemma hoare_read_skip:
  assumes "input_ok h0 base stop"
  shows "hoare (owns (within base stop m) W h0) (bindC (pb_read E False n) (\<lambda>_. returnC ()))
    (\<lambda>_. owns (within base stop m) W h0) (owns (within base stop m) W h0)"
  by (rule hoare_bind [OF hoare_returnI hoare_pb_read [OF assms]]) (auto intro: owns_within_mono)

lemma hoare_skip_string:
  assumes "input_ok h0 base stop"
  shows "hoare (owns (within base stop m) W h0) (pb_skip_string E)
    (\<lambda>_. owns (within base stop m) W h0) (owns (within base stop m) W h0)"
  unfolding pb_skip_string_def
proof (rule hoare_bind [OF _ hoare_varint32 [OF assms]])
  fix len :: u32
  show "hoare (\<lambda>st. 0 < m \<and> owns (within base stop (m - 1)) W h0 st)
      (bindC (pb_read E False (ucast len)) (\<lambda>_. returnC ()))
      (\<lambda>_. owns (within base stop m) W h0) (owns (within base stop m) W h0)"
    by (rule hoare_conseq [OF hoare_read_skip [OF assms]]) (auto intro: owns_within_mono)
qed

lemma hoare_skip_field:
  assumes "input_ok h0 base stop"
  shows "hoare (owns (within base stop m) W h0) (pb_skip_field E wt)
    (\<lambda>_. owns (within base stop m) W h0) (owns (within base stop m) W h0)"
  unfolding pb_skip_field_def
  by (intro hoare_if hoare_skip_varint hoare_skip_string hoare_read_skip hoare_i_error_within assms)

section \<open>Substreams\<close>

text \<open>
  After \<open>pb_make_string_substream\<close>, and after the substream has been used: the parent has \<open>L\<close> bytes
  left, which follow the substream's end. The substream's position is known when the result is \<open>good\<close>.
\<close>

definition made :: "addr \<Rightarrow> nat \<Rightarrow> nat \<Rightarrow> addr set \<Rightarrow> heap \<Rightarrow> pb_istream \<Rightarrow> pb_istream \<times> heap \<Rightarrow> bool" where
  "made base stop m W h0 sub st \<longleftrightarrow> (let L = unat (bytes_left (fst st)) in
     L \<le> stop \<and> L < m \<and> owns buffered W h0 st \<and> within base (stop - L) (m - 1) sub)"

definition used :: "addr \<Rightarrow> nat \<Rightarrow> nat \<Rightarrow> addr set \<Rightarrow> heap \<Rightarrow> ('a \<Rightarrow> bool) \<Rightarrow> ('a \<Rightarrow> bool) \<Rightarrow> 'a option
    \<Rightarrow> pb_istream \<Rightarrow> pb_istream \<times> heap \<Rightarrow> bool" where
  "used base stop m W h0 Q good r sub st \<longleftrightarrow> (let L = unat (bytes_left (fst st)) in
     L \<le> stop \<and> L < m \<and> owns buffered W h0 st \<and> buffered sub
     \<and> (case r of None \<Rightarrow> True | Some a \<Rightarrow> Q a \<and> (good a \<longrightarrow> within base (stop - L) (m - 1) sub)))"

lemma hoare_make_substream:
  assumes "input_ok h0 base stop"
  shows "hoare (owns (within base stop m) W h0) (pb_make_string_substream E)
    (\<lambda>sub. made base stop m W h0 sub) (owns (within base stop m) W h0)"
  unfolding pb_make_string_substream_def
proof (rule hoare_bind [OF _ hoare_varint32 [OF assms]])
  fix sz :: u32
  show "hoare (\<lambda>st. 0 < m \<and> owns (within base stop (m - 1)) W h0 st)
      (\<lambda>(s, h). if bytes_left s < ucast sz then i_error ''parent stream too short'' (s, h)
        else Some (Some (s\<lparr>bytes_left := ucast sz\<rparr>), (s\<lparr>bytes_left := bytes_left s - ucast sz\<rparr>, h)))
      (\<lambda>sub. made base stop m W h0 sub) (owns (within base stop m) W h0)"
  proof (rule hoareI)
    fix st assume st: "0 < m \<and> owns (within base stop (m - 1)) W h0 st"
    then obtain s h where [simp]: "st = (s, h)" and i: "within base stop (m - 1) s" "frame W h0 h"
      by (cases st) (auto simp: owns_def)
    show "\<exists>r s'. (\<lambda>(s, h). if bytes_left s < ucast sz then i_error ''parent stream too short'' (s, h)
        else Some (Some (s\<lparr>bytes_left := ucast sz\<rparr>), (s\<lparr>bytes_left := bytes_left s - ucast sz\<rparr>, h))) st
        = Some (r, s') \<and> (case r of None \<Rightarrow> owns (within base stop m) W h0 s' | Some sub \<Rightarrow> made base stop m W h0 sub s')"
    proof (cases "bytes_left s < ucast sz")
      case True
      then show ?thesis using st by (auto simp: i_error_def owns_def within_error intro: within_mono)
    next
      case False
      then have le: "(ucast sz :: size_t) \<le> bytes_left s" by simp
      then have u: "unat (bytes_left s - ucast sz) = unat (bytes_left s) - unat (ucast sz :: size_t)"
        and le': "unat (ucast sz :: size_t) \<le> unat (bytes_left s)"
        by (simp_all only: unat_minus_le word_le_nat_alt)
      have "within base (stop - unat (bytes_left s - ucast sz)) (m - 1) (s\<lparr>bytes_left := ucast sz\<rparr>)"
        using i(1) u le' unfolding within_def by (auto intro: arg_cong [where f = of_nat])
      then show ?thesis using False st i u le'
        by (auto simp: made_def owns_def within_def buffered_def Let_def)
    qed
  qed
qed

lemma hoare_on_substream:
  assumes "\<And>stop'. stop' \<le> stop \<Longrightarrow> hoare (owns (within base stop' (m - 1)) W h0) body
      (\<lambda>a st. Q a \<and> owns buffered W h0 st \<and> (good a \<longrightarrow> owns (within base stop' (m - 1)) W h0 st)) (owns buffered W h0)"
  shows "hoare (made base stop m W h0 sub) (on_substream sub body)
    (\<lambda>(r, sub') st. used base stop m W h0 Q good r sub' st) R"
proof (rule hoareI)
  fix st assume st: "made base stop m W h0 sub st"
  obtain s h where [simp]: "st = (s, h)" by (cases st)
  let ?L = "unat (bytes_left s)"
  from st have sub: "owns (within base (stop - ?L) (m - 1)) W h0 (sub, h)"
    and L: "?L \<le> stop" "?L < m" "buffered s"
    by (auto simp: made_def owns_def Let_def)
  have "hoare (owns (within base (stop - ?L) (m - 1)) W h0) body
      (\<lambda>a st. Q a \<and> owns buffered W h0 st \<and> (good a \<longrightarrow> owns (within base (stop - ?L) (m - 1)) W h0 st)) (owns buffered W h0)"
    by (rule assms) simp
  from this sub show "\<exists>r s'. on_substream sub body st = Some (r, s') \<and>
      (case r of None \<Rightarrow> R s' | Some a \<Rightarrow> (\<lambda>(r, sub') st. used base stop m W h0 Q good r sub' st) a s')"
  proof (cases rule: hoareD)
    case (1 a st')
    then show ?thesis using L
      by (cases st') (auto simp: on_substream_def used_def owns_def Let_def intro: within_buffered)
  next
    case (2 st')
    then show ?thesis using L
      by (cases st') (auto simp: on_substream_def used_def owns_def Let_def)
  qed
qed

lemma hoare_on_substream_total:
  assumes "\<And>stop'. stop' \<le> stop \<Longrightarrow> hoare (owns (within base stop' (m - 1)) W h0) body
      (\<lambda>a st. Q a \<and> owns buffered W h0 st \<and> (good a \<longrightarrow> owns (within base stop' (m - 1)) W h0 st)) (\<lambda>_. False)"
  shows "hoare (made base stop m W h0 sub) (on_substream sub body)
    (\<lambda>(r, sub') st. r \<noteq> None \<and> used base stop m W h0 Q good r sub' st) R"
proof (rule hoareI)
  fix st assume st: "made base stop m W h0 sub st"
  obtain s h where [simp]: "st = (s, h)" by (cases st)
  let ?L = "unat (bytes_left s)"
  have some: "\<exists>a st'. body (sub, h) = Some (Some a, st')"
  proof -
    from st have "owns (within base (stop - ?L) (m - 1)) W h0 (sub, h)"
      by (auto simp: made_def owns_def Let_def)
    with assms [of "stop - ?L"] show ?thesis by (auto elim: hoareD)
  qed
  have "hoare (made base stop m W h0 sub) (on_substream sub body)
    (\<lambda>(r, sub') st. used base stop m W h0 Q good r sub' st) R"
    by (rule hoare_on_substream, rule hoare_conseq [OF assms]) auto
  from this st show "\<exists>r s'. on_substream sub body st = Some (r, s') \<and>
      (case r of None \<Rightarrow> R s' | Some a \<Rightarrow> (\<lambda>(r, sub') st. r \<noteq> None \<and> used base stop m W h0 Q good r sub' st) a s')"
    by (rule hoareD) (use some in \<open>auto simp: on_substream_def split: prod.splits\<close>)
qed

text \<open>Closing never touches memory, whatever state the substream is in.\<close>

lemma pb_read_null:
  assumes "buffered s"
  obtains "pb_read E False n (s, h) = Some (None, (set_i_error ''end-of-stream'' s, h))" "bytes_left s < n"
    | "pb_read E False n (s, h) = Some (Some [], (s\<lparr>i_state := i_state s + n, bytes_left := bytes_left s - n\<rparr>, h))"
      "n \<le> bytes_left s"
proof (cases "bytes_left s < n")
  case True
  then have "n \<noteq> 0" by auto
  with True assms that(1) show thesis
    by (simp add: pb_read_def read_checked_def i_error_def buffered_def)
next
  case False
  have "pb_read E False n (s, h) =
      Some (Some [], (s\<lparr>i_state := i_state s + n, bytes_left := bytes_left s - n\<rparr>, h))"
    using assms False
    by (cases "n = 0") (simp_all add: pb_read_def read_checked_def buffered_def bindC_def catchC_def
        stream_read_buf buf_read_def)
  then show thesis using False by (intro that(2)) simp_all
qed

lemma hoare_close_substream:
  "hoare (used base stop m W h0 Q good r sub) (pb_close_string_substream E sub)
    (\<lambda>_ st. owns buffered W h0 st \<and> (\<forall>a. r = Some a \<longrightarrow> Q a \<and> (good a \<longrightarrow> owns (ahead base stop m) W h0 st)))
    (owns buffered W h0)"
proof (rule hoareI)
  fix st assume st: "used base stop m W h0 Q good r sub st"
  obtain s h where [simp]: "st = (s, h)" by (cases st)
  let ?L = "unat (bytes_left s)" and ?n = "bytes_left sub"
  from st have b: "buffered sub" "buffered s" "frame W h0 h" and L: "?L \<le> stop" "?L < m"
    and i: "\<And>a. r = Some a \<Longrightarrow> Q a \<and> (good a \<longrightarrow> within base (stop - ?L) (m - 1) sub)"
    by (auto simp: used_def owns_def Let_def)
  let ?rest = "s\<lparr>i_state := i_state sub + ?n, i_errmsg := i_errmsg sub\<rparr>"
  have fin: "within base stop (m - 1) ?rest" if w: "within base (stop - ?L) (m - 1) sub"
  proof -
    have "of_nat (stop - ?L - unat ?n) + ?n = (of_nat (stop - ?L - unat ?n + unat ?n) :: addr)" by simp
    also have "stop - ?L - unat ?n + unat ?n = stop - ?L" using w L(1) unfolding within_def by linarith
    finally show ?thesis using w L b by (simp add: within_def buffered_def add.assoc)
  qed
  have "pb_close_string_substream E sub st = Some (Some (), (?rest, h))"
  proof (cases "?n = 0")
    case True
    then show ?thesis by (simp add: pb_close_string_substream_def bindC_def returnC_def)
  next
    case False
    show ?thesis
      by (rule pb_read_null [OF b(1), of E ?n h])
         (use False in \<open>auto simp: pb_close_string_substream_def bindC_def on_substream_def\<close>)
  qed
  then show "\<exists>r' s'. pb_close_string_substream E sub st = Some (r', s') \<and> (case r' of None \<Rightarrow> owns buffered W h0 s'
      | Some _ \<Rightarrow> owns buffered W h0 s' \<and> (\<forall>a. r = Some a \<longrightarrow> Q a \<and> (good a \<longrightarrow> owns (ahead base stop m) W h0 s')))"
    using i fin b L by (auto simp: owns_def buffered_def ahead_def)
qed

lemma made_buffered: "made base stop m W h0 sub st \<Longrightarrow> owns buffered W h0 st"
  by (simp add: made_def Let_def)

lemma used_buffered: "used base stop m W h0 Q good r sub st \<Longrightarrow> owns buffered W h0 st"
  by (simp add: used_def Let_def)

section \<open>Field decoders\<close>

lemma owns_ahead: "owns (ahead base stop m) W h st \<longleftrightarrow> 0 < m \<and> owns (within base stop (m - 1)) W h st"
  by (auto simp: owns_def ahead_def split: prod.splits)

lemma ahead_within: "owns (ahead base stop m) W h st \<Longrightarrow> owns (within base stop m) W h st"
  by (auto simp: owns_ahead intro: owns_within_mono)

lemma ahead_buffered: "owns (ahead base stop m) W h st \<Longrightarrow> owns buffered W h st"
  by (auto simp: owns_ahead intro: owns_buffered)

lemma hoare_ahead_error: "hoare (owns (ahead base stop m) W h0) (i_error e) Q (owns buffered W h0)"
  by (rule hoare_i_error) (simp add: ahead_def within_def buffered_def)

lemma hoare_ahead_read:
  assumes "input_ok h0 base stop"
  shows "hoare (owns (ahead base stop m) W h0) (pb_read E w n)
    (\<lambda>bs st. (w \<longrightarrow> length bs = unat n) \<and> owns (ahead base stop m) W h0 st) (owns buffered W h0)"
proof (cases "m = 0")
  case True
  then show ?thesis by (simp add: hoare_def owns_ahead)
next
  case False
  show ?thesis
    by (rule hoare_conseq [OF hoare_pb_read [OF assms, of "m - 1"]])
       (use False in \<open>auto simp: owns_ahead intro: owns_within_mono owns_buffered\<close>)
qed

lemmas hoare_varint_ahead = hoare_weaken [OF hoare_decode_varint, folded owns_ahead]
lemmas hoare_varint32_ahead = hoare_weaken [OF hoare_varint32, folded owns_ahead]

lemma hoare_read_ahead:
  assumes "input_ok h0 base stop" "0 < unat n"
  shows "hoare (owns (within base stop m) W h0) (pb_read E True n)
    (\<lambda>bs st. length bs = unat n \<and> owns (ahead base stop m) W h0 st) (owns buffered W h0)"
proof (cases "m = 0")
  case True
  have "n \<noteq> 0" using assms(2) by auto
  then show ?thesis using True
    by (auto simp: hoare_def pb_read_def read_checked_def i_error_def owns_def within_def unat_eq_0
        buffered_def word_gt_0)
next
  case False
  show ?thesis
    by (rule hoare_conseq [OF hoare_pb_read [OF assms(1), of m W E True n]])
       (use False assms(2) in \<open>auto simp: owns_ahead intro: owns_within_mono owns_buffered\<close>)
qed

lemma hoare_ahead_storeC:
  assumes "object h0 W d S" "length bs \<le> S"
  shows "hoare (owns (ahead base stop m) W h0) (bindC (storeC d bs) (\<lambda>_. if c then i_error e else returnC ()))
    (\<lambda>_. owns (ahead base stop m) W h0) (owns buffered W h0)"
  by (rule hoare_bind [OF hoare_if hoare_object_store [OF assms]])
     (auto intro: hoare_ahead_error hoare_returnI)

lemma hoare_dec_bool:
  assumes "input_ok h0 base stop" "object h0 W d (unat (data_size f))" "1 \<le> unat (data_size f)"
  shows "hoare (owns (within base stop m) W h0) (pb_dec_bool E f d)
    (\<lambda>_. owns (ahead base stop m) W h0) (owns buffered W h0)"
  unfolding pb_dec_bool_def
  by (rule hoare_bind [OF hoare_object_store_bool [OF assms(2,3)] hoare_varint32_ahead [OF assms(1)]])

lemma hoare_dec_varint:
  assumes "input_ok h0 base stop" "object h0 W d (unat (data_size f))"
  shows "hoare (owns (within base stop m) W h0) (pb_dec_varint E f d)
    (\<lambda>_. owns (ahead base stop m) W h0) (owns buffered W h0)"
  unfolding pb_dec_varint_def Let_def
  by (rule hoare_bind [OF _ hoare_varint_ahead [OF assms(1)]],
      intro hoare_if hoare_ahead_storeC [OF assms(2)] hoare_ahead_error) simp_all

lemma hoare_dec_uvarint:
  assumes "input_ok h0 base stop" "object h0 W d (unat (data_size f))"
  shows "hoare (owns (within base stop m) W h0) (pb_dec_uvarint E f d)
    (\<lambda>_. owns (ahead base stop m) W h0) (owns buffered W h0)"
  unfolding pb_dec_uvarint_def Let_def
  by (rule hoare_bind [OF _ hoare_varint_ahead [OF assms(1)]],
      intro hoare_if hoare_ahead_storeC [OF assms(2)] hoare_ahead_error) simp_all

lemma hoare_svarint_ahead:
  "input_ok h0 base stop \<Longrightarrow> hoare (owns (within base stop m) W h0) (pb_decode_svarint E)
    (\<lambda>_. owns (ahead base stop m) W h0) (owns buffered W h0)"
  unfolding pb_decode_svarint_def by (rule hoare_bind [OF hoare_returnI hoare_varint_ahead])

lemma hoare_dec_svarint:
  assumes "input_ok h0 base stop" "object h0 W d (unat (data_size f))"
  shows "hoare (owns (within base stop m) W h0) (pb_dec_svarint E f d)
    (\<lambda>_. owns (ahead base stop m) W h0) (owns buffered W h0)"
  unfolding pb_dec_svarint_def Let_def
  by (rule hoare_bind [OF _ hoare_svarint_ahead [OF assms(1)]],
      intro hoare_if hoare_ahead_storeC [OF assms(2)] hoare_ahead_error) simp_all

lemma hoare_dec_fixed32:
  assumes "input_ok h0 base stop" "object h0 W d (unat (data_size f))" "4 \<le> unat (data_size f)"
  shows "hoare (owns (within base stop m) W h0) (pb_dec_fixed32 E f d)
    (\<lambda>_. owns (ahead base stop m) W h0) (owns buffered W h0)"
  unfolding pb_dec_fixed32_def pb_decode_fixed32_def
  by (rule hoare_bind [OF hoare_pre [OF hoare_object_store_u32 [OF assms(2,3)]] hoare_read_ahead [OF assms(1)]])
     simp_all

lemma hoare_dec_fixed64:
  assumes "input_ok h0 base stop" "object h0 W d (unat (data_size f))" "8 \<le> unat (data_size f)"
  shows "hoare (owns (within base stop m) W h0) (pb_dec_fixed64 E f d)
    (\<lambda>_. owns (ahead base stop m) W h0) (owns buffered W h0)"
  unfolding pb_dec_fixed64_def pb_decode_fixed64_def
  by (rule hoare_bind [OF hoare_pre [OF hoare_object_store [OF assms(2)]] hoare_read_ahead [OF assms(1)]])
     (use assms(3) in simp_all)

lemma hoare_read_to:
  assumes "input_ok h0 base stop" "object h0 W d S" "unat n \<le> S"
  shows "hoare (owns (ahead base stop m) W h0) (pb_read_to E d n)
    (\<lambda>_. owns (ahead base stop m) W h0) (owns buffered W h0)"
  unfolding pb_read_to_def
proof (rule hoare_bind [OF _ hoare_ahead_read [OF assms(1)]])
  fix bs :: "byte list"
  show "hoare (\<lambda>st. (True \<longrightarrow> length bs = unat n) \<and> owns (ahead base stop m) W h0 st) (storeC d bs)
    (\<lambda>_. owns (ahead base stop m) W h0) (owns buffered W h0)"
  proof (cases "length bs = unat n")
    case True
    then show ?thesis using hoare_object_store [OF assms(2), of bs "ahead base stop m"] assms(3) by simp
  qed (simp add: hoare_def)
qed

lemma allocsize:
  "unat (PB_BYTES_ARRAY_T_ALLOCSIZE sz) = unat sz + 4" "unat (ucast (n :: u32) :: size_t) = unat n"
proof -
  show u: "unat (ucast (n :: u32) :: size_t) = unat n" for n
    using unsigned_less [of n, where 'a = nat] by (simp add: unsigned_ucast_eq take_bit_nat_eq_self)
  have "unat (ucast sz + of_nat 4 :: size_t) = unat (ucast sz :: size_t) + 4"
    using unsigned_less [of sz, where 'a = nat] by (intro unat_add_of_nat) (simp add: u)
  then show "unat (PB_BYTES_ARRAY_T_ALLOCSIZE sz) = unat sz + 4"
    by (simp add: PB_BYTES_ARRAY_T_ALLOCSIZE_def u)
qed

lemma hoare_dec_bytes:
  assumes "input_ok h0 base stop" "object h0 W d (unat (data_size f))"
    "PB_ATYPE (ftype f) = PB_ATYPE_STATIC"
  shows "hoare (owns (within base stop m) W h0) (pb_dec_bytes E f d)
    (\<lambda>_. owns (ahead base stop m) W h0) (owns buffered W h0)"
  unfolding pb_dec_bytes_def Let_def
proof (rule hoare_bind [OF _ hoare_varint32_ahead [OF assms(1)]], intro hoare_if hoare_ahead_error)
  fix sz :: u32
  let ?I = "owns (ahead base stop m) W h0" and ?B = "owns buffered W h0"
  have "hoare ?I (if PB_BYTES_ARRAY_T_ALLOCSIZE sz > ucast (data_size f) then i_error ''bytes overflow'' else returnC d)
      (\<lambda>bdest st. ?I st \<and> bdest = d \<and> unat sz + 4 \<le> unat (data_size f)) ?B"
    by (rule hoare_if) (auto intro: hoare_ahead_error hoare_returnI simp: word_less_nat_alt allocsize)
  moreover have "hoare (\<lambda>st. ?I st \<and> bdest = d \<and> unat sz + 4 \<le> unat (data_size f))
      (bindC (store_u32 bdest sz) (\<lambda>_. pb_read_to E (bdest + 4) (ucast sz))) (\<lambda>_. ?I) ?B" for bdest
  proof (cases "bdest = d \<and> unat sz + 4 \<le> unat (data_size f)")
    case True
    then have "object h0 W (d + of_nat 4) (unat sz)"
      by (intro object_part [OF assms(2)]) simp
    then have obj: "object h0 W (d + 4) (unat sz)" by simp
    have "hoare ?I (bindC (store_u32 d sz) (\<lambda>_. pb_read_to E (d + 4) (ucast sz))) (\<lambda>_. ?I) ?B"
      by (rule hoare_bind [OF hoare_read_to [OF assms(1) obj] hoare_object_store_u32 [OF assms(2)]])
         (use True in \<open>simp_all add: allocsize\<close>)
    with True show ?thesis by simp
  next
    case False
    then show ?thesis by (auto simp: hoare_def)
  qed
  ultimately show "hoare ?I
      (bindC (if PB_ATYPE (ftype f) = PB_ATYPE_POINTER then
            (\<lambda>(s, h). if bytes_left s < ucast sz then i_error ''end-of-stream'' (s, h)
              else bindC (allocate_field E d (PB_BYTES_ARRAY_T_ALLOCSIZE sz) 1) (\<lambda>_. load_ptr d) (s, h))
          else if PB_BYTES_ARRAY_T_ALLOCSIZE sz > ucast (data_size f) then i_error ''bytes overflow''
          else returnC d) (\<lambda>bdest.
       bindC (store_u32 bdest sz) (\<lambda>_. pb_read_to E (bdest + 4) (ucast sz)))) (\<lambda>_. ?I) ?B"
    using assms(3) by (simp only:) (rule hoare_bind, simp_all)
qed

lemma hoare_dec_fixed_length_bytes:
  assumes "input_ok h0 base stop" "object h0 W d (unat (data_size f))"
  shows "hoare (owns (within base stop m) W h0) (pb_dec_fixed_length_bytes E f d)
    (\<lambda>_. owns (ahead base stop m) W h0) (owns buffered W h0)"
  unfolding pb_dec_fixed_length_bytes_def
  by (rule hoare_bind [OF _ hoare_varint32_ahead [OF assms(1)]], intro hoare_if hoare_ahead_error
        hoare_object_memset0 [OF assms(2)] hoare_read_to [OF assms])
     (simp_all add: allocsize)

lemma hoare_dec_string:
  assumes "input_ok h0 base stop" "object h0 W d (unat (data_size f))"
    "PB_ATYPE (ftype f) = PB_ATYPE_STATIC"
  shows "hoare (owns (within base stop m) W h0) (pb_dec_string E f d)
    (\<lambda>_. owns (ahead base stop m) W h0) (owns buffered W h0)"
  unfolding pb_dec_string_def Let_def
proof (rule hoare_bind [OF _ hoare_varint32_ahead [OF assms(1)]], intro hoare_if hoare_ahead_error)
  fix sz :: u32
  let ?I = "owns (ahead base stop m) W h0" and ?B = "owns buffered W h0"
  assume nov: "\<not> (ucast (sz + 1) :: size_t) < ucast sz"
  have one: "unat (sz + 1) = unat sz + 1"
  proof (cases "unat sz + 1 < 2 ^ 32")
    case True
    then show ?thesis by (simp add: unat_word_ariths)
  next
    case False
    then have "unat sz = 4294967295" using unsigned_less [of sz, where 'a = nat] by simp
    then have "unat (sz + 1) = 0" by (simp add: unat_word_ariths)
    then show ?thesis using nov False by (simp add: word_less_nat_alt allocsize)
  qed
  have "hoare ?I (if (ucast (sz + 1) :: size_t) > ucast (data_size f) then i_error ''string overflow'' else returnC d)
      (\<lambda>d' st. ?I st \<and> d' = d \<and> unat sz + 1 \<le> unat (data_size f)) ?B"
    by (rule hoare_if) (auto intro: hoare_ahead_error hoare_returnI simp: word_less_nat_alt allocsize one)
  moreover have "hoare (\<lambda>st. ?I st \<and> d' = d \<and> unat sz + 1 \<le> unat (data_size f))
      (bindC (catchC (pb_read_to E d' (ucast sz))) (\<lambda>status.
       bindC (storeC (d' + ucast sz) [0]) (\<lambda>_. if status = None then failC else returnC ()))) (\<lambda>_. ?I) ?B" for d'
  proof (cases "d' = d \<and> unat sz + 1 \<le> unat (data_size f)")
    case True
    then have nul: "object h0 W (d + ucast sz) 1"
      by (intro object_at [OF assms(2)]) (simp add: allocsize)
    have rd: "hoare ?I (catchC (pb_read_to E d (ucast sz)))
        (\<lambda>r st. case r of None \<Rightarrow> ?B st | Some _ \<Rightarrow> ?I st) ?B"
      by (rule hoare_catch)
         (use True in \<open>simp add: hoare_read_to [OF assms(1,2)] allocsize\<close>)
    have "hoare (\<lambda>st. case r of None \<Rightarrow> ?B st | Some _ \<Rightarrow> ?I st)
        (bindC (storeC (d + ucast sz) [0]) (\<lambda>_. if r = None then failC else returnC ())) (\<lambda>_. ?I) ?B"
      for r :: "unit option"
    proof (cases r)
      case None
      have "hoare ?B (bindC (storeC (d + ucast sz) [0]) (\<lambda>_. failC)) (\<lambda>_. ?I) ?B"
        by (rule hoare_bind [OF hoare_fail hoare_object_store [OF nul]]) simp
      with None show ?thesis by simp
    next
      case (Some u)
      have "hoare ?I (bindC (storeC (d + ucast sz) [0]) (\<lambda>_. returnC ())) (\<lambda>_. ?I) ?B"
        by (rule hoare_bind [OF hoare_returnI hoare_object_store [OF nul]]) simp_all
      with Some show ?thesis by simp
    qed
    from hoare_bind [OF this rd] True show ?thesis by simp
  next
    case False
    then show ?thesis by (auto simp: hoare_def)
  qed
  ultimately show "hoare ?I
      (bindC (if PB_ATYPE (ftype f) = PB_ATYPE_POINTER then
            (\<lambda>(s, h). if bytes_left s < ucast sz then i_error ''end-of-stream'' (s, h)
              else bindC (allocate_field E d (ucast (sz + 1)) 1) (\<lambda>_. load_ptr d) (s, h))
          else if (ucast (sz + 1) :: size_t) > ucast (data_size f) then i_error ''string overflow''
          else returnC d) (\<lambda>d'.
       bindC (catchC (pb_read_to E d' (ucast sz))) (\<lambda>status.
       bindC (storeC (d' + ucast sz) [0]) (\<lambda>_. if status = None then failC else returnC ())))) (\<lambda>_. ?I) ?B"
    using assms(3) by (simp only:) (rule hoare_bind, simp_all)
qed

section \<open>Places and counts\<close>

text \<open>An iterator that differs at most in the local counter of a fixed-count array.\<close>

definition same_place :: "pb_field_iter \<Rightarrow> pb_field_iter \<Rightarrow> bool" where
  "same_place it it' \<longleftrightarrow> it' = it\<lparr>fixed_count := fixed_count it'\<rparr>"

lemma same_place_refl [simp]: "same_place it it"
  by (simp add: same_place_def)

lemma same_place_sel:
  assumes "same_place it it'"
  shows "cur it' = cur it" "pData it' = pData it" "pSize it' = pSize it" "start it' = start it"
    "pos it' = pos it" "dest_struct it' = dest_struct it" "required_field_index it' = required_field_index it"
proof -
  have "it' = it\<lparr>fixed_count := fixed_count it'\<rparr>" using assms by (simp add: same_place_def)
  then obtain c where it': "it' = it\<lparr>fixed_count := c\<rparr>" by blast
  show "cur it' = cur it" "pData it' = pData it" "pSize it' = pSize it" "start it' = start it"
    "pos it' = pos it" "dest_struct it' = dest_struct it" "required_field_index it' = required_field_index it"
    by (simp_all add: it' cur_def)
qed

lemma same_place_over: "same_place it it' \<Longrightarrow> over fs dest it \<Longrightarrow> over fs dest it'"
  by (auto simp: over_def iter_good_def iter_ok_def own_size_def same_place_sel)

lemma same_place_trans: "same_place a b \<Longrightarrow> same_place b c \<Longrightarrow> same_place a c"
  unfolding same_place_def by (metis (no_types, lifting) pb_field_iter.unfold_congs(7) pb_field_iter.update_convs(7) pb_field_iter.surjective)

lemma hoare_set_size_place:
  assumes "over fs dest it" "desc_ok E (Suc r) fs S" "object h0 W dest S"
    "PB_HTYPE (ftype (cur it)) = PB_HTYPE_REPEATED \<or> PB_HTYPE (ftype (cur it)) = PB_HTYPE_ONEOF"
  shows "hoare (owns P W h0) (set_size it v) (\<lambda>it' st. same_place it it' \<and> owns P W h0 st) R"
    "hoare (owns P W h0) (get_size it) (\<lambda>_. owns P W h0) R"
proof -
  have sz: "pSize it = Fixed_count \<or> (\<exists>a. pSize it = At a \<and> object h0 W a 4)"
    using over_field(3,5) [OF assms(1-3)] assms(4) by auto
  then show "hoare (owns P W h0) (get_size it) (\<lambda>_. owns P W h0) R" by (rule hoare_get_size)
  show "hoare (owns P W h0) (set_size it v) (\<lambda>it' st. same_place it it' \<and> owns P W h0 st) R"
    by (rule hoare_conseq [OF hoare_set_size [OF sz]]) (auto simp: same_place_def)
qed

text \<open>An array entry lies inside the array: the 32-bit product does not wrap.\<close>

lemma object_item:
  assumes "static_ok E ok f off soff S" "PB_HTYPE (ftype f) = PB_HTYPE_REPEATED"
    "object h0 W d (data_span f)" "i < array_size f"
  shows "object h0 W (item_addr d f i) (unat (data_size f))"
proof -
  have span: "data_span f = unat (data_size f) * unat (array_size f)" "data_span f < 2 ^ 32"
    using assms(1,2) by (simp_all add: data_span_def static_ok_def)
  have i: "unat i < unat (array_size f)" using assms(4) by (simp add: word_less_nat_alt)
  then have "unat (data_size f) * Suc (unat i) \<le> data_span f" unfolding span(1) by (intro mult_le_mono2) simp
  then have le: "unat (data_size f) * unat i + unat (data_size f) \<le> data_span f" by simp
  then have "unat (data_size f * i) = unat (data_size f) * unat i" using span(2) by (simp add: unat_word_ariths)
  then show ?thesis unfolding item_addr_def using le
    by (intro object_at [OF assms(3)]) (simp add: allocsize)
qed

section \<open>Messages, given a decoder for submessages\<close>

text \<open>
  What the field decoders rely on when they decode a submessage: the decoder they call is safe for
  every object whose descriptors nest less than \<open>n\<close> deep.
\<close>

locale submessage_decoder =
  fixes E :: env and n :: nat and sub :: sub_decoder
  assumes sub_safe: "desc_ok E q fs S \<Longrightarrow> q < n \<Longrightarrow> object h0 W d S \<Longrightarrow> input_ok h0 base stop \<Longrightarrow>
    hoare (owns (within base stop m) W h0) (sub init fs d)
      (\<lambda>_. owns (within base stop m) W h0) (owns buffered W h0)"
begin

lemma hoare_dec_submessage:
  assumes "input_ok h0 base stop" "object h0 W d (unat (data_size f))"
    "ptr f = Submsg i" "desc_ok E q (descs E i) (unat (data_size f))" "q < n"
  shows "hoare (owns (within base stop m) W h0) (pb_dec_submessage E sub f d)
    (\<lambda>_. owns (ahead base stop m) W h0) (owns buffered W h0)"
proof -
  let ?init = "PB_HTYPE (ftype f) = PB_HTYPE_REPEATED"
  have body: "hoare (owns (within base stop' (m - 1)) W h0) (sub ?init (descs E i) d)
      (\<lambda>a st. True \<and> owns buffered W h0 st \<and> (True \<longrightarrow> owns (within base stop' (m - 1)) W h0 st)) (owns buffered W h0)"
    if "stop' \<le> stop" for stop'
  proof -
    have "input_ok h0 base stop'" using assms(1) that by (auto simp: input_ok_def intro: readable_mono)
    from sub_safe [OF assms(4,5,2) this] show ?thesis by (rule hoare_conseq) (auto intro: owns_buffered)
  qed
  have fin: "hoare (used base stop m W h0 (\<lambda>_. True) (\<lambda>_. True) status sub')
      (bindC (pb_close_string_substream E sub') (\<lambda>_. if status = None then failC else returnC ()))
      (\<lambda>_. owns (ahead base stop m) W h0) (owns buffered W h0)" for status :: "unit option" and sub'
    by (rule hoare_bind [OF _ hoare_close_substream]) (auto simp: hoare_def failC_def returnC_def)
  show ?thesis unfolding pb_dec_submessage_def
  proof (rule hoare_bind [OF _ hoare_weaken [OF hoare_make_substream [OF assms(1)]]])
    fix substream
    have "hoare (made base stop m W h0 substream)
        (bindC (on_substream substream (sub ?init (descs E i) d)) (\<lambda>(status, substream).
           bindC (pb_close_string_substream E substream) (\<lambda>_. if status = None then failC else returnC ())))
        (\<lambda>_. owns (ahead base stop m) W h0) (owns buffered W h0)"
      by (rule hoare_bind [OF _ hoare_on_substream [OF body]]) (auto intro: fin)
    then show "hoare (made base stop m W h0 substream)
       (if ptr f = Null then i_error ''invalid field descriptor''
        else bindC (liftC (submsg_fields E (ptr f))) (\<lambda>fs.
          bindC (on_substream substream (sub ?init fs d)) (\<lambda>(status, substream).
           bindC (pb_close_string_substream E substream) (\<lambda>_. if status = None then failC else returnC ()))))
       (\<lambda>_. owns (ahead base stop m) W h0) (owns buffered W h0)"
      by (simp add: assms(3) submsg_fields_def liftC_def)
  qed
qed

text \<open>The decoder of a field's data type, on an object of the field's size.\<close>

lemma ltype_cases:
  "PB_LTYPE t \<le> 8 \<or> PB_LTYPE t = 10 \<Longrightarrow> PB_LTYPE t \<in> {0, 1, 2, 3, 4, 5, 6, 7, 8, 10}"
proof -
  have "b \<le> 8 \<or> b = 10 \<longrightarrow> b = 0 \<or> b = 1 \<or> b = 2 \<or> b = 3 \<or> b = 4 \<or> b = 5 \<or> b = 6 \<or> b = 7 \<or> b = 8 \<or> b = (10 :: byte)" for b
    by (rule all_bytes) simp
  then show "PB_LTYPE t \<le> 8 \<or> PB_LTYPE t = 10 \<Longrightarrow> ?thesis" by blast
qed

lemma hoare_decoder:
  assumes "input_ok h0 base stop" "object h0 W d (unat (data_size f))"
    "static_ok E (desc_ok E q) f off soff S" "q < n"
  shows "hoare (owns (within base stop m) W h0) (PB_DECODERS E sub (PB_LTYPE (ftype f)) f d)
    (\<lambda>_. owns (ahead base stop m) W h0) (owns buffered W h0)"
proof -
  have st: "PB_ATYPE (ftype f) = PB_ATYPE_STATIC" and w: "width_ok f"
    using assms(3) by (simp_all add: static_ok_def)
  from w consider "PB_LTYPE (ftype f) = 8" | "PB_LTYPE (ftype f) \<in> {0, 1, 2, 3, 4, 5, 6, 7, 10}"
    using ltype_cases [of "ftype f"] by (auto simp: width_ok_def Let_def)
  then show ?thesis
  proof cases
    case 1
    then obtain i where "ptr f = Submsg i" "desc_ok E q (descs E i) (unat (data_size f))"
      using assms(3) by (auto simp: static_ok_def split: field_ptr.splits)
    with hoare_dec_submessage [OF assms(1,2) this assms(4)] 1 show ?thesis
      by (simp add: PB_DECODERS_def)
  next
    case 2
    then show ?thesis using w
      by (auto simp: PB_DECODERS_def width_ok_def Let_def
          intro: hoare_dec_bool [OF assms(1,2)] hoare_dec_varint [OF assms(1,2)] hoare_dec_uvarint [OF assms(1,2)]
            hoare_dec_svarint [OF assms(1,2)] hoare_dec_fixed32 [OF assms(1,2)] hoare_dec_fixed64 [OF assms(1,2)]
            hoare_dec_bytes [OF assms(1,2) st] hoare_dec_string [OF assms(1,2) st]
            hoare_dec_fixed_length_bytes [OF assms(1,2)])
  qed
qed

text \<open>The loop over a packed array; \<open>k\<close> rounds are enough for fewer than \<open>k\<close> bytes.\<close>

lemma hoare_packed_static:
  assumes "input_ok h0 base stop" "over fs dest it" "desc_ok E (Suc q) fs S" "object h0 W dest S" "q < n"
    "PB_HTYPE (ftype (cur it)) = PB_HTYPE_REPEATED" "m < k"
  shows "hoare (owns (within base stop m) W h0)
    (packed_static_loop (PB_DECODERS E sub (PB_LTYPE (ftype (cur it)))) it k)
    (\<lambda>(it', status) st. same_place it it' \<and> owns buffered W h0 st
       \<and> (status \<longrightarrow> owns (within base stop m) W h0 st)) R"
  using assms(2,6,7)
proof (induction k arbitrary: it m)
  case (Suc k)
  let ?f = "cur it" and ?func = "PB_DECODERS E sub (PB_LTYPE (ftype (cur it)))"
  let ?I = "owns (within base stop m) W h0" and ?A = "owns (ahead base stop m) W h0" and ?B = "owns buffered W h0"
  let ?Q = "\<lambda>(it', status) st. same_place it it' \<and> ?B st \<and> (status \<longrightarrow> ?I st)"
  note fld = over_field [OF Suc.prems(1) assms(3,4)]
  note get = hoare_set_size_place(2) [OF Suc.prems(1) assms(3,4) disjI1 [OF Suc.prems(2)]]
  note set = hoare_set_size_place(1) [OF Suc.prems(1) assms(3,4) disjI1 [OF Suc.prems(2)]]
  have done_ok: "hoare ?I (returnC (it, True)) ?Q R"
    by (rule hoare_returnI) (auto intro: owns_buffered)
  have rest: "hoare (\<lambda>st. case r of None \<Rightarrow> ?B st | Some _ \<Rightarrow> ?A st)
      (if r = None then returnC (it, False)
       else bindC (get_size it) (\<lambda>sz'. bindC (set_size it (sz' + 1)) (\<lambda>it'. packed_static_loop ?func it' k))) ?Q R"
    for r :: "unit option"
  proof (cases r)
    case None
    then show ?thesis by (auto intro: hoare_returnI)
  next
    case (Some u)
    have next_round: "hoare (\<lambda>st. same_place it it' \<and> ?A st) (packed_static_loop ?func it' k) ?Q R" for it'
    proof (cases "same_place it it' \<and> 0 < m")
      case True
      then have sp: "same_place it it'" and m: "m - 1 < k" "0 < m" using Suc.prems(3) by auto
      have same: "cur it' = cur it" using sp by (rule same_place_sel)
      show ?thesis
        by (rule hoare_conseq [OF Suc.IH [OF same_place_over [OF sp Suc.prems(1)] _ m(1), unfolded same]])
           (use sp Suc.prems(2) in \<open>auto simp: owns_ahead intro: same_place_trans owns_within_mono\<close>)
    next
      case False
      then show ?thesis by (auto simp: hoare_def owns_ahead)
    qed
    show ?thesis unfolding Some by (simp, intro hoare_bind [OF hoare_bind [OF next_round set] get])
  qed
  have item: "hoare ?I (bindC (catchC (?func ?f (item_addr (pData it) ?f sz))) (\<lambda>r.
      if r = None then returnC (it, False)
      else bindC (get_size it) (\<lambda>sz'. bindC (set_size it (sz' + 1)) (\<lambda>it'. packed_static_loop ?func it' k)))) ?Q R"
    if "sz < array_size ?f" for sz
  proof (rule hoare_bind [OF rest])
    have "object h0 W (item_addr (pData it) ?f sz) (unat (data_size ?f))"
      by (rule object_item [OF fld(1) Suc.prems(2) fld(2) that])
    from hoare_decoder [OF assms(1) this fld(1) assms(5)]
    show "hoare ?I (catchC (?func ?f (item_addr (pData it) ?f sz)))
        (\<lambda>r st. case r of None \<Rightarrow> ?B st | Some _ \<Rightarrow> ?A st) R"
      by (intro hoare_catch) simp
  qed
  have round: "hoare ?I (bindC (get_size it) (\<lambda>sz.
      if \<not> sz < array_size ?f then returnC (it, True)
      else bindC (catchC (?func ?f (item_addr (pData it) ?f sz))) (\<lambda>r.
           if r = None then returnC (it, False)
           else bindC (get_size it) (\<lambda>sz'. bindC (set_size it (sz' + 1)) (\<lambda>it'.
             packed_static_loop ?func it' k))))) ?Q R"
    by (rule hoare_bind [OF _ get]) (auto intro: hoare_if done_ok item)
  show ?case unfolding packed_static_loop.simps
    using done_ok round by (fastforce simp: hoare_def split: if_splits)
qed simp

lemma input_ok_less: "input_ok h base stop \<Longrightarrow> stop' \<le> stop \<Longrightarrow> input_ok h base stop'"
  by (auto simp: input_ok_def intro: readable_mono)

lemma hoare_static_repeated:
  assumes "input_ok h0 base stop" "over fs dest it" "desc_ok E (Suc q) fs S" "object h0 W dest S" "q < n"
    "PB_HTYPE (ftype (cur it)) = PB_HTYPE_REPEATED"
  shows "hoare (owns (within base stop m) W h0) (decode_static_field E n sub wt it)
    (\<lambda>it' st. over fs dest it' \<and> owns (ahead base stop m) W h0 st) (owns buffered W h0)"
proof -
  let ?f = "cur it" and ?func = "PB_DECODERS E sub (PB_LTYPE (ftype (cur it)))"
  let ?I = "owns (within base stop m) W h0" and ?A = "owns (ahead base stop m) W h0" and ?B = "owns buffered W h0"
  let ?Q = "\<lambda>it' st. over fs dest it' \<and> ?A st"
  note fld = over_field [OF assms(2-4)]
  note get = hoare_set_size_place(2) [OF assms(2-4) disjI1 [OF assms(6)]]
  note set = hoare_set_size_place(1) [OF assms(2-4) disjI1 [OF assms(6)]]
  let ?good = "\<lambda>(it' :: pb_field_iter, status). status"
  have loop: "hoare (owns (within base stop' (m - 1)) W h0) (input_bound (packed_static_loop ?func) it)
      (\<lambda>a st. (case a of (it', status) \<Rightarrow> same_place it it') \<and> ?B st
        \<and> (?good a \<longrightarrow> owns (within base stop' (m - 1)) W h0 st)) (\<lambda>_. False)" if "stop' \<le> stop" for stop'
  proof (rule hoare_input_bound)
    fix k assume "k \<le> m - 1"
    then show "hoare (owns (within base stop' k) W h0) (packed_static_loop ?func it (Suc k))
      (\<lambda>a st. (case a of (it', status) \<Rightarrow> same_place it it') \<and> ?B st
        \<and> (?good a \<longrightarrow> owns (within base stop' (m - 1)) W h0 st)) (\<lambda>_. False)"
      by (intro hoare_conseq [OF hoare_packed_static [OF input_ok_less [OF assms(1) that] assms(2-6)]])
         (auto intro: owns_within_mono)
  qed
  have close: "hoare (used base stop m W h0 (\<lambda>(it', status). same_place it it') ?good r sub')
      (case r of None \<Rightarrow> ubC
        | Some (it', status) \<Rightarrow>
            if bytes_left sub' \<noteq> 0 then i_error ''array overflow''
            else bindC (pb_close_string_substream E sub') (\<lambda>_. if status then returnC it' else failC)) ?Q ?B"
    if "r \<noteq> None" for r :: "(pb_field_iter \<times> bool) option" and sub'
  proof -
    from that obtain it' status where r: "r = Some (it', status)" by (cases r) auto
    have err: "hoare (used base stop m W h0 (\<lambda>(it', status). same_place it it') ?good r sub')
        (i_error ''array overflow'') ?Q ?B"
      by (rule hoare_pre [OF hoare_i_error_buffered']) (rule used_buffered)
    have "hoare (used base stop m W h0 (\<lambda>(it', status). same_place it it') ?good r sub')
        (bindC (pb_close_string_substream E sub') (\<lambda>_. if status then returnC it' else failC)) ?Q ?B"
      by (rule hoare_bind [OF _ hoare_close_substream])
         (auto simp: hoare_def returnC_def failC_def r dest: same_place_over [OF _ assms(2)])
    with err show ?thesis unfolding r by (auto intro: hoare_if)
  qed
  show ?thesis
  proof (cases "wt = PB_WT_STRING \<and> PB_LTYPE (ftype ?f) \<le> PB_LTYPE_LAST_PACKABLE")
    case True
    have "hoare ?I (bindC (pb_make_string_substream E) (\<lambda>substream.
          bindC (on_substream substream (input_bound (packed_static_loop ?func) it)) (\<lambda>(r, substream).
            case r of None \<Rightarrow> ubC
            | Some (it', status) \<Rightarrow>
                if bytes_left substream \<noteq> 0 then i_error ''array overflow''
                else bindC (pb_close_string_substream E substream) (\<lambda>_.
                  if status then returnC it' else failC)))) ?Q ?B"
    proof (rule hoare_bind [OF _ hoare_weaken [OF hoare_make_substream [OF assms(1)]]])
      fix substream
      show "hoare (made base stop m W h0 substream)
         (bindC (on_substream substream (input_bound (packed_static_loop ?func) it)) (\<lambda>(r, substream).
            case r of None \<Rightarrow> ubC
            | Some (it', status) \<Rightarrow>
                if bytes_left substream \<noteq> 0 then i_error ''array overflow''
                else bindC (pb_close_string_substream E substream) (\<lambda>_.
                  if status then returnC it' else failC))) ?Q ?B"
      proof (rule hoare_bind [OF _ hoare_on_substream_total [OF loop]])
        fix a :: "(pb_field_iter \<times> bool) option \<times> pb_istream"
        show "hoare ((\<lambda>(r, sub') st. r \<noteq> None \<and> used base stop m W h0 (\<lambda>(it', status). same_place it it') ?good r sub' st) a)
           (case a of (r, substream) \<Rightarrow> case r of None \<Rightarrow> ubC
            | Some (it', status) \<Rightarrow>
                if bytes_left substream \<noteq> 0 then i_error ''array overflow''
                else bindC (pb_close_string_substream E substream) (\<lambda>_.
                  if status then returnC it' else failC)) ?Q ?B"
          using close [of "fst a" "snd a"] by (cases "fst a") (auto simp: case_prod_unfold hoare_def)
      qed
    qed
    then show ?thesis using True assms(6) by (simp add: decode_static_field_def Let_def)
  next
    case False
    have "hoare ?I (bindC (get_size it) (\<lambda>sz. bindC (set_size it (sz + 1)) (\<lambda>it'.
          if sz \<ge> array_size ?f then i_error ''array overflow''
          else bindC (?func ?f (item_addr (pData it) ?f sz)) (\<lambda>_. returnC it')))) ?Q ?B"
    proof (rule hoare_bind [OF _ get], rule hoare_bind [OF _ set])
      fix sz it'
      have "hoare ?I (?func ?f (item_addr (pData it) ?f sz)) (\<lambda>_. ?A) ?B" if "sz < array_size ?f"
        by (rule hoare_decoder [OF assms(1) object_item [OF fld(1) assms(6) fld(2) that] fld(1) assms(5)])
      then have "hoare ?I (bindC (?func ?f (item_addr (pData it) ?f sz)) (\<lambda>_. returnC it')) ?Q ?B"
        if "sz < array_size ?f" "same_place it it'"
        using that same_place_over [OF that(2) assms(2)] by (intro hoare_bind [OF hoare_returnI]) auto
      then show "hoare (\<lambda>st. same_place it it' \<and> ?I st) (if sz \<ge> array_size ?f then i_error ''array overflow''
          else bindC (?func ?f (item_addr (pData it) ?f sz)) (\<lambda>_. returnC it')) ?Q ?B"
        using hoare_i_error_buffered [of base stop m W h0 "''array overflow''" ?Q]
        by (cases "same_place it it'") (auto simp: not_le intro: hoare_if)
    qed
    with False show ?thesis using assms(6) by (auto simp: decode_static_field_def Let_def)
  qed
qed

lemma hoare_static_oneof:
  assumes "input_ok h0 base stop" "over fs dest it" "desc_ok E (Suc q) fs S" "object h0 W dest S" "q < n"
    "PB_HTYPE (ftype (cur it)) = PB_HTYPE_ONEOF"
  shows "hoare (owns (within base stop m) W h0) (decode_static_field E n sub wt it)
    (\<lambda>it' st. over fs dest it' \<and> owns (ahead base stop m) W h0 st) (owns buffered W h0)"
proof -
  let ?f = "cur it" and ?func = "PB_DECODERS E sub (PB_LTYPE (ftype (cur it)))"
  let ?I = "owns (within base stop m) W h0" and ?A = "owns (ahead base stop m) W h0" and ?B = "owns buffered W h0"
  let ?Q = "\<lambda>it' st. over fs dest it' \<and> ?A st"
  note fld = over_field [OF assms(2-4)]
  note get = hoare_set_size_place(2) [OF assms(2-4) disjI2 [OF assms(6)]]
  note set = hoare_set_size_place(1) [OF assms(2-4) disjI2 [OF assms(6)]]
  have obj: "object h0 W (pData it) (unat (data_size ?f))"
    using fld(2) assms(6) by (simp add: data_span_def)
  have fresh: "hoare ?I (if PB_LTYPE (ftype ?f) = PB_LTYPE_SUBMESSAGE
      then bindC (get_size it) (\<lambda>which. returnC (which \<noteq> tag ?f)) else returnC False)
      (\<lambda>b st. ?I st \<and> (b \<longrightarrow> PB_LTYPE (ftype ?f) = PB_LTYPE_SUBMESSAGE)) ?B"
    by (auto intro!: hoare_if hoare_returnI hoare_bind [OF hoare_returnI get])
  have init: "hoare (\<lambda>st. ?I st \<and> (b \<longrightarrow> PB_LTYPE (ftype ?f) = PB_LTYPE_SUBMESSAGE))
      (if b then bindC (memset0 (pData it) (unat (data_size ?f))) (\<lambda>_.
                 bindC (liftC (submsg_fields E (ptr ?f))) (\<lambda>fs. pb_message_set_to_defaults E n fs (pData it)))
       else returnC ()) (\<lambda>_. ?I) ?B" for b
  proof (cases "b \<and> PB_LTYPE (ftype ?f) = PB_LTYPE_SUBMESSAGE")
    case True
    then obtain i where i: "ptr ?f = Submsg i" "desc_ok E q (descs E i) (unat (data_size ?f))"
      using fld(1) by (auto simp: static_ok_def split: field_ptr.splits)
    have "hoare ?I (pb_message_set_to_defaults E n (descs E i) (pData it)) (\<lambda>_. ?I) ?B"
      using assms(5) by (intro defaults_safe [OF i(2) _ obj]) simp
    then have "hoare ?I (bindC (memset0 (pData it) (unat (data_size ?f))) (\<lambda>_.
        bindC (liftC (submsg_fields E (ptr ?f))) (\<lambda>fs. pb_message_set_to_defaults E n fs (pData it)))) (\<lambda>_. ?I) ?B"
      by (intro hoare_bind [OF _ hoare_object_memset0 [OF obj]]) (simp_all add: i submsg_fields_def liftC_def)
    with True show ?thesis by simp
  next
    case False
    then show ?thesis by (cases b) (auto intro: hoare_returnI)
  qed
  have dec: "hoare (\<lambda>st. same_place it it' \<and> ?I st) (bindC (?func ?f (pData it)) (\<lambda>_. returnC it')) ?Q ?B" for it'
  proof (cases "same_place it it'")
    case True
    have "hoare ?I (bindC (?func ?f (pData it)) (\<lambda>_. returnC it')) ?Q ?B"
      using same_place_over [OF True assms(2)]
      by (intro hoare_bind [OF hoare_returnI hoare_decoder [OF assms(1) obj fld(1) assms(5)]]) simp
    with True show ?thesis by simp
  qed simp
  have "hoare ?I
       (bindC (if PB_LTYPE (ftype ?f) = PB_LTYPE_SUBMESSAGE
              then bindC (get_size it) (\<lambda>which. returnC (which \<noteq> tag ?f)) else returnC False) (\<lambda>fresh.
       bindC (if fresh
              then bindC (memset0 (pData it) (unat (data_size ?f))) (\<lambda>_.
                   bindC (liftC (submsg_fields E (ptr ?f))) (\<lambda>fs.
                     pb_message_set_to_defaults E n fs (pData it)))
              else returnC ()) (\<lambda>_.
       bindC (set_size it (tag ?f)) (\<lambda>it'.
       bindC (?func ?f (pData it)) (\<lambda>_. returnC it'))))) ?Q ?B"
    by (rule hoare_bind [OF hoare_bind [OF hoare_bind [OF dec set] init] fresh])
  then show ?thesis using assms(6) by (simp add: decode_static_field_def Let_def)
qed

lemma hoare_static:
  assumes "input_ok h0 base stop" "over fs dest it" "desc_ok E (Suc q) fs S" "object h0 W dest S" "q < n"
  shows "hoare (owns (within base stop m) W h0) (decode_static_field E n sub wt it)
    (\<lambda>it' st. over fs dest it' \<and> owns (ahead base stop m) W h0 st) (owns buffered W h0)"
proof -
  let ?f = "cur it" and ?func = "PB_DECODERS E sub (PB_LTYPE (ftype (cur it)))"
  let ?I = "owns (within base stop m) W h0" and ?A = "owns (ahead base stop m) W h0" and ?B = "owns buffered W h0"
  let ?Q = "\<lambda>it' st. over fs dest it' \<and> ?A st"
  note fld = over_field [OF assms(2-4)]
  have dec: "hoare ?I (bindC (?func ?f (pData it)) (\<lambda>_. returnC it)) ?Q ?B"
    if "PB_HTYPE (ftype ?f) \<noteq> PB_HTYPE_REPEATED"
  proof -
    have obj: "object h0 W (pData it) (unat (data_size ?f))" using fld(2) that by (simp add: data_span_def)
    show ?thesis using assms(2)
      by (intro hoare_bind [OF hoare_returnI hoare_decoder [OF assms(1) obj fld(1) assms(5)]]) simp
  qed
  show ?thesis
  proof (cases rule: htype_cases [of "ftype ?f"])
    case 1
    then show ?thesis using dec by (simp add: decode_static_field_def Let_def)
  next
    case 2
    then obtain a where a: "pSize it = At a" "a = pData it \<or> object h0 W a 1" using fld(4) by auto
    have has: "hoare ?I (if pSize it \<noteq> At (pData it) then set_has it True else returnC ()) (\<lambda>_. ?I) ?B"
    proof (rule hoare_if)
      assume "pSize it \<noteq> At (pData it)"
      with a have "object h0 W a 1" by simp
      then show "hoare ?I (set_has it True) (\<lambda>_. ?I) ?B"
        by (simp add: set_has_def a(1) hoare_object_store_bool)
    qed (simp add: hoare_returnI)
    have "hoare ?I (bindC (if pSize it \<noteq> At (pData it) then set_has it True else returnC ()) (\<lambda>_.
       bindC (?func ?f (pData it)) (\<lambda>_. returnC it))) ?Q ?B"
      using dec 2 by (intro hoare_bind [OF _ has]) simp
    with 2 show ?thesis by (simp add: decode_static_field_def Let_def)
  next
    case 3
    then show ?thesis by (rule hoare_static_repeated [OF assms])
  next
    case 4
    then show ?thesis by (rule hoare_static_oneof [OF assms])
  qed
qed

text \<open>Changing the member of a union releases the old one first.\<close>

lemma find_over:
  assumes "over fs dest it"
  obtains b it' where "pb_field_iter_find it t = Some (b, it')" "over fs dest it'"
proof -
  from assms have ok: "iter_ok it" and good: "iter_good it" by (simp_all add: over_def iter_good_def)
  obtain b it' where f: "pb_field_iter_find it t = Some (b, it')" "start it' = start it" "dest_struct it' = dest_struct it"
    by (rule pb_field_iter_find_cases [OF ok, of t]) blast+
  have "iter_good it'"
    using f(1) good unfolding pb_field_iter_find_def by (rule search_invariant) (rule iter_good_next)
  with f assms that show thesis by (simp add: over_def)
qed

lemma hoare_release_union:
  assumes "over fs dest it" "desc_ok E (Suc q) fs S" "object h0 W dest S" "q < n"
    "PB_HTYPE (ftype (cur it)) = PB_HTYPE_ONEOF"
  shows "hoare (owns (within base stop m) W h0) (pb_release_union_field E n it)
    (\<lambda>it' st. over fs dest it' \<and> owns (within base stop m) W h0 st) (owns buffered W h0)"
proof -
  let ?I = "owns (within base stop m) W h0" and ?B = "owns buffered W h0"
  let ?Q = "\<lambda>it' st. over fs dest it' \<and> ?I st"
  note get = hoare_set_size_place(2) [OF assms(1-3) disjI2 [OF assms(5)]]
  have keep: "hoare ?I (returnC it') ?Q ?B" if "over fs dest it'" for it'
    using that by (simp add: hoare_returnI)
  show ?thesis unfolding pb_release_union_field_def Let_def
  proof (rule hoare_bind [OF _ get], intro hoare_if keep [OF assms(1)])
    fix old
    obtain b it1 where f1: "pb_field_iter_find it old = Some (b, it1)" "over fs dest it1"
      using find_over [OF assms(1)] by blast
    obtain c it2 where f2: "pb_field_iter_find it1 (tag (cur it)) = Some (c, it2)" "over fs dest it2"
      using find_over [OF f1(2)] by blast
    have static: "PB_ATYPE (ftype (cur it2)) = PB_ATYPE_STATIC"
      using over_field(1) [OF f2(2) assms(2,3)] by (simp add: static_ok_def)
    have rel: "hoare ?I (pb_release_single_field E n it1) (\<lambda>_. ?I) ?B"
      using assms(4) by (intro release_field_safe [OF f1(2) assms(2) _ assms(3)]) simp
    have rest: "hoare ?I (bindC (liftC (pb_field_iter_find it1 (tag (cur it)))) (\<lambda>(found, it2).
             if \<not> found then i_error ''iterator error''
             else if PB_ATYPE (ftype (cur it2)) = PB_ATYPE_POINTER
             then bindC (store_ptr (pData it2) 0) (\<lambda>_. returnC it2)
             else returnC it2)) ?Q ?B"
      using keep [OF f2(2)] static by (auto simp: f2(1) liftC_def intro: hoare_i_error_buffered)
    have "hoare ?I (bindC (pb_release_single_field E n it1) (\<lambda>_.
           bindC (liftC (pb_field_iter_find it1 (tag (cur it)))) (\<lambda>(found, it2).
             if \<not> found then i_error ''iterator error''
             else if PB_ATYPE (ftype (cur it2)) = PB_ATYPE_POINTER
             then bindC (store_ptr (pData it2) 0) (\<lambda>_. returnC it2)
             else returnC it2))) ?Q ?B"
      by (rule hoare_bind [OF rest rel])
    then show "hoare ?I (bindC (liftC (pb_field_iter_find it old)) (\<lambda>(found, it1).
         if \<not> found then i_error ''invalid union tag''
         else bindC (pb_release_single_field E n it1) (\<lambda>_.
           bindC (liftC (pb_field_iter_find it1 (tag (cur it)))) (\<lambda>(found, it2).
             if \<not> found then i_error ''iterator error''
             else if PB_ATYPE (ftype (cur it2)) = PB_ATYPE_POINTER
             then bindC (store_ptr (pData it2) 0) (\<lambda>_. returnC it2)
             else returnC it2)))) ?Q ?B"
      by (simp add: f1(1) liftC_def hoare_i_error_buffered)
  qed
qed

lemma hoare_decode_field:
  assumes "input_ok h0 base stop" "over fs dest it" "desc_ok E (Suc q) fs S" "object h0 W dest S" "q < n"
  shows "hoare (owns (within base stop m) W h0) (decode_field E n sub wt it)
    (\<lambda>it' st. over fs dest it' \<and> owns (within base stop m) W h0 st) (owns buffered W h0)"
proof -
  let ?I = "owns (within base stop m) W h0" and ?B = "owns buffered W h0"
  let ?Q = "\<lambda>it' st. over fs dest it' \<and> ?I st"
  have first: "hoare ?I (if PB_HTYPE (ftype (cur it)) = PB_HTYPE_ONEOF then pb_release_union_field E n it
      else returnC it) ?Q ?B"
    using assms by (intro hoare_if hoare_release_union hoare_returnI) simp_all
  have second: "hoare (\<lambda>st. over fs dest it' \<and> ?I st) (let at = PB_ATYPE (ftype (cur it')) in
       if at = PB_ATYPE_STATIC then decode_static_field E n sub wt it'
       else if at = PB_ATYPE_POINTER then decode_pointer_field E n sub wt it'
       else if at = PB_ATYPE_CALLBACK then decode_callback_field E n wt it'
       else i_error ''invalid field type'') ?Q ?B" for it'
  proof (cases "over fs dest it'")
    case True
    have "PB_ATYPE (ftype (cur it')) = PB_ATYPE_STATIC"
      using over_field(1) [OF True assms(3,4)] by (simp add: static_ok_def)
    with True hoare_conseq [OF hoare_static [OF assms(1) True assms(3-5), of m wt], of ?I ?Q ?B]
    show ?thesis by (auto intro: ahead_within)
  qed simp
  show ?thesis unfolding decode_field_def by (rule hoare_bind [OF second first])
qed

lemma find_extension_none:
  assumes "over fs dest it" "desc_ok E (Suc q) fs S"
  obtains it' where "find_extension_field it = Some (False, it')" "over fs dest it'"
proof -
  let ?P = "\<lambda>f. PB_LTYPE (ftype f) = PB_LTYPE_EXTENSION"
  from assms have ok: "iter_ok it" and good: "iter_good it" and st: "start it = fs" "dest_struct it = dest"
    by (simp_all add: over_def iter_good_def)
  have none: "\<not> ?P (fs ! i)" if "i < length fs" for i
  proof -
    have "static_ok E (desc_ok E q) (fs ! i) (unat (field_off fs i)) (unat (size_off fs i)) S"
      using assms(2) that by (simp add: list_all_length)
    then show ?thesis by (rule static_not_extension)
  qed
  show thesis
  proof (rule field_search [OF ok, of ?P])
    fix it' assume "iter_ok it'" "start it' = start it" "?P (start it ! pos it')"
    then show thesis using none [of "pos it'"] st by (simp add: iter_ok_def)
  next
    fix it' assume f: "search (Suc (length (start it))) (\<lambda>it. snd (pb_field_iter_next it)) pos
        (\<lambda>it. ?P (cur it)) (pos it) it = Some (False, it')" "start it' = start it" "dest_struct it' = dest_struct it"
    have "iter_good it'" using f(1) good by (rule search_invariant) (rule iter_good_next)
    with f st show thesis by (intro that [of it']) (simp_all add: find_extension_field_def over_def)
  qed
qed

lemma hoare_unknown:
  assumes "input_ok h0 base stop" "over fs dest (d_iter l)" "desc_ok E (Suc q) fs S" "t < 0x20000000"
  shows "hoare (owns (within base stop m) W h0) (decode_unknown E n sub t wt l)
    (\<lambda>l' st. over fs dest (d_iter l') \<and> owns (within base stop m) W h0 st) (owns buffered W h0)"
proof -
  let ?I = "owns (within base stop m) W h0" and ?B = "owns buffered W h0"
  obtain it' where f: "find_extension_field (d_iter l) = Some (False, it')" "over fs dest it'"
    using find_extension_none [OF assms(2,3)] .
  have "\<not> (0xFFFFFFFF :: u32) \<le> t" using assms(4) by (simp add: word_le_nat_alt word_less_nat_alt)
  moreover have skip: "hoare ?I (bindC (pb_skip_field E wt) (\<lambda>_. returnC l'))
      (\<lambda>l' st. over fs dest (d_iter l') \<and> ?I st) ?B" if "over fs dest (d_iter l')" for l'
    using that by (intro hoare_bind [OF hoare_returnI hoare_weaken [OF hoare_skip_field [OF assms(1)]]]) simp
  ultimately show ?thesis using assms(2) f
    by (auto simp: decode_unknown_def liftC_def Let_def intro!: hoare_if skip)
qed

lemma hoare_track:
  assumes "over fs dest (d_iter l)"
  shows "hoare (owns (within base stop m) W h0) (track_fixed_count l)
    (\<lambda>l' st. over fs dest (d_iter l') \<and> owns (within base stop m) W h0 st) (owns buffered W h0)"
proof -
  have fixed: "over fs dest (d_iter l\<lparr>fixed_count := c, pSize := Fixed_count\<rparr>)" "over fs dest (d_iter l\<lparr>pSize := Fixed_count\<rparr>)"
    if "PB_HTYPE (ftype (cur (d_iter l))) = PB_HTYPE_REPEATED" for c
    using assms that by (auto simp: over_def iter_good_def iter_ok_def cur_def)
  then show ?thesis using assms unfolding track_fixed_count_def Let_def
    by (auto intro!: hoare_if hoare_option hoare_returnI hoare_i_error_buffered)
qed

lemma mark_required_iter [simp]: "d_iter (mark_required l) = d_iter l"
  by (simp add: mark_required_def Let_def)

lemma hoare_step:
  assumes "input_ok h0 base stop" "over fs dest (d_iter l)" "desc_ok E (Suc q) fs S" "object h0 W dest S" "q < n"
  shows "hoare (owns (within base stop m) W h0) (decode_step E n sub l)
    (\<lambda>(again, l') st. over fs dest (d_iter l') \<and> owns (within base stop m) W h0 st
       \<and> (again \<longrightarrow> owns (ahead base stop m) W h0 st)) (owns buffered W h0)"
  unfolding decode_step_def
proof (rule hoare_bind [OF _ hoare_decode_tag [OF assms(1)]])
  fix a :: "bool \<times> u32 \<times> u32 \<times> bool"
  let ?I = "owns (within base stop m) W h0" and ?B = "owns buffered W h0" and ?A = "owns (ahead base stop m) W h0"
  let ?Q = "\<lambda>(again, l') st. over fs dest (d_iter l') \<and> ?I st \<and> (again \<longrightarrow> ?A st)"
  obtain ok wt t eof where [simp]: "a = (ok, wt, t, eof)" by (cases a) auto
  obtain b it where f: "pb_field_iter_find (d_iter l) t = Some (b, it)" "over fs dest it"
    using find_over [OF assms(2)] .
  let ?J = "owns (within base stop (m - 1)) W h0"
  let ?l = "l\<lparr>d_iter := it\<rparr>"
  have fin: "hoare (\<lambda>st. over fs dest (d_iter l') \<and> ?J st) (returnC (True, l')) ?Q ?B" if "0 < m" for l'
    using that by (auto intro!: hoare_returnI simp: owns_ahead intro: owns_within_mono)
  have field: "hoare ?J (bindC (track_fixed_count ?l) (\<lambda>l. let l = mark_required l in
           bindC (decode_field E n sub wt (d_iter l)) (\<lambda>it. returnC (True, l\<lparr>d_iter := it\<rparr>)))) ?Q ?B" if "0 < m"
  proof (rule hoare_bind [OF _ hoare_track])
    show "over fs dest (d_iter ?l)" using f by simp
    fix l'
    show "hoare (\<lambda>st. over fs dest (d_iter l') \<and> ?J st) (let l = mark_required l' in
           bindC (decode_field E n sub wt (d_iter l)) (\<lambda>it. returnC (True, l\<lparr>d_iter := it\<rparr>))) ?Q ?B"
    proof (cases "over fs dest (d_iter l')")
      case True
      have ret: "hoare (\<lambda>st. over fs dest it' \<and> ?J st) (returnC (True, mark_required l'\<lparr>d_iter := it'\<rparr>)) ?Q ?B" for it'
        using \<open>0 < m\<close> by (auto intro!: hoare_returnI simp: owns_ahead intro: owns_within_mono)
      show ?thesis using True hoare_bind [OF ret hoare_decode_field [OF assms(1) True assms(3-5), of "m - 1" wt]]
        by (simp add: Let_def)
    qed simp
  qed
  have body: "hoare ?J (let l = ?l in
         if \<not> b then bindC (decode_unknown E n sub t wt l) (\<lambda>l. returnC (True, l))
         else bindC (track_fixed_count l) (\<lambda>l. let l = mark_required l in
           bindC (decode_field E n sub wt (d_iter l)) (\<lambda>it. returnC (True, l\<lparr>d_iter := it\<rparr>)))) ?Q ?B"
    if "0 < m" "t < 0x20000000"
  proof (cases b)
    case True
    with field that show ?thesis by (simp add: Let_def)
  next
    case False
    have "over fs dest (d_iter ?l)" using f by simp
    from hoare_bind [OF fin [OF that(1)] hoare_unknown [OF assms(1) this assms(3) that(2), of "m - 1"]] False
    show ?thesis by (simp add: Let_def)
  qed
  show "hoare ((\<lambda>(ok, wt, t, eof) st. ?I st \<and> (ok \<longrightarrow> 0 < m \<and> ?J st \<and> t < 0x20000000)) a)
     (case a of (ok, wire_type, t, eof) \<Rightarrow>
       if \<not> ok then (if eof then returnC (False, l) else failC)
       else bindC (liftC (pb_field_iter_find (d_iter l) t)) (\<lambda>(found, it).
         let l = l\<lparr>d_iter := it\<rparr> in
         if \<not> found then bindC (decode_unknown E n sub t wire_type l) (\<lambda>l. returnC (True, l))
         else bindC (track_fixed_count l) (\<lambda>l. let l = mark_required l in
           bindC (decode_field E n sub wire_type (d_iter l)) (\<lambda>it.
             returnC (True, l\<lparr>d_iter := it\<rparr>))))) ?Q ?B"
  proof (cases ok)
    case False
    then show ?thesis using assms(2)
      by (auto simp: hoare_def failC_def returnC_def intro: owns_buffered)
  next
    case True
    show ?thesis
    proof (cases "0 < m \<and> t < 0x20000000")
      case pos: True
      have "hoare ?J (bindC (liftC (pb_field_iter_find (d_iter l) t)) (\<lambda>(found, it).
         let l = l\<lparr>d_iter := it\<rparr> in
         if \<not> found then bindC (decode_unknown E n sub t wt l) (\<lambda>l. returnC (True, l))
         else bindC (track_fixed_count l) (\<lambda>l. let l = mark_required l in
           bindC (decode_field E n sub wt (d_iter l)) (\<lambda>it.
             returnC (True, l\<lparr>d_iter := it\<rparr>))))) ?Q ?B"
        using body pos by (simp add: f(1) liftC_def)
      with True pos show ?thesis by (auto intro: hoare_pre)
    next
      case False
      with True show ?thesis by (auto simp: hoare_def)
    qed
  qed
qed

lemma hoare_loop:
  assumes "input_ok h0 base stop" "desc_ok E (Suc q) fs S" "object h0 W dest S" "q < n"
  shows "over fs dest (d_iter l) \<Longrightarrow> m < k \<Longrightarrow>
    hoare (owns (within base stop m) W h0) (decode_loop E n sub l k)
      (\<lambda>l' st. over fs dest (d_iter l') \<and> owns (within base stop m) W h0 st) (owns buffered W h0)"
proof (induction k arbitrary: l m)
  case (Suc k)
  let ?I = "owns (within base stop m) W h0" and ?B = "owns buffered W h0" and ?A = "owns (ahead base stop m) W h0"
  let ?Q = "\<lambda>l' st. over fs dest (d_iter l') \<and> ?I st"
  have again: "hoare (\<lambda>st. over fs dest (d_iter l') \<and> ?I st \<and> (again \<longrightarrow> ?A st))
      (if again then decode_loop E n sub l' k else returnC l') ?Q ?B" for again l'
  proof (cases "again \<and> over fs dest (d_iter l') \<and> 0 < m")
    case True
    with Suc.prems have "m - 1 < k" by linarith
    with Suc.IH [of l' "m - 1"] True
    have "hoare (owns (within base stop (m - 1)) W h0) (decode_loop E n sub l' k)
      (\<lambda>l' st. over fs dest (d_iter l') \<and> owns (within base stop (m - 1)) W h0 st) ?B" by simp
    then have "hoare (\<lambda>st. ?I st \<and> ?A st) (decode_loop E n sub l' k) ?Q ?B"
      by (rule hoare_conseq) (auto simp: owns_ahead intro: owns_within_mono)
    with True show ?thesis by simp
  next
    case False
    then show ?thesis by (cases again) (auto simp: hoare_def owns_ahead returnC_def)
  qed
  have step: "hoare ?I (bindC (decode_step E n sub l) (\<lambda>(again, l').
         if again then decode_loop E n sub l' k else returnC l')) ?Q ?B"
    by (rule hoare_bind [OF _ hoare_step [OF assms(1) Suc.prems(1) assms(2-4)]]) (auto intro: again)
  have stop: "hoare ?I (returnC l) ?Q ?B" using Suc.prems(1) by (simp add: hoare_returnI)
  show ?case unfolding decode_loop.simps
    using step stop by (fastforce simp: hoare_def split: if_splits)
qed simp

lemma seek_end_some: "over fs dest it \<Longrightarrow> length fs - pos it < k \<Longrightarrow> seek_end k it \<noteq> None"
proof (induction k arbitrary: it)
  case (Suc k)
  obtain again it' where nxt: "pb_field_iter_next it = (again, it')" by (cases "pb_field_iter_next it")
  have ok: "iter_ok it" "start it = fs" using Suc.prems(1) by (simp_all add: over_def iter_good_def)
  show ?case
  proof (cases again)
    case True
    then have lt: "Suc (pos it) < length fs"
      using iter_next_wrap(1) [OF ok(1)] nxt ok by (cases "Suc (pos it) = length (start it)") (auto simp: iter_ok_def)
    then have "pos it' = Suc (pos it)" using iter_next_step(3) [OF ok(1)] nxt ok(2) by simp
    with Suc.prems lt have "length fs - pos it' < k" by simp
    with Suc.IH over_next [OF Suc.prems(1)] nxt True show ?thesis by simp
  qed (simp add: nxt)
qed simp

lemma hoare_body:
  assumes "input_ok h0 base stop" "desc_ok E r fs S" "object h0 W dest S" "r \<le> n"
  shows "hoare (owns (within base stop m) W h0) (decode_noinit_body E n sub fs dest)
    (\<lambda>_. owns (within base stop m) W h0) (owns buffered W h0)"
proof -
  let ?I = "owns (within base stop m) W h0" and ?B = "owns buffered W h0"
  from assms(2,4) obtain q where r: "r = Suc q" "q < n" by (cases r) auto
  note desc = assms(2) [unfolded r(1)]
  let ?l = "\<lparr>d_iter = snd (pb_field_iter_begin iter0 fs dest), fields_seen = [0, 0],
        extension_range_start = 0, fixed_count_field = None\<rparr>"
  have dest: "dest \<noteq> 0" using assms(3) by (simp add: object_def)
  have begin_over: "over fs dest (d_iter ?l)"
    using over_begin(1) [OF desc_ok_tags [OF desc] dest, of iter0] by simp
  have loop: "hoare ?I (input_bound (decode_loop E n sub) ?l)
      (\<lambda>l' st. over fs dest (d_iter l') \<and> ?I st) ?B"
  proof (rule hoare_input_bound)
    fix k assume "k \<le> m"
    then show "hoare (owns (within base stop k) W h0) (decode_loop E n sub ?l (Suc k))
      (\<lambda>l' st. over fs dest (d_iter l') \<and> ?I st) ?B"
      by (intro hoare_conseq [OF hoare_loop [OF assms(1) desc assms(3) r(2) begin_over, of k "Suc k"]])
         (auto intro: owns_within_mono)
  qed
  have rest: "hoare (\<lambda>st. over fs dest (d_iter l) \<and> ?I st) (let it = d_iter l in
     if (case fixed_count_field l of None \<Rightarrow> False
         | Some i \<Rightarrow> fixed_count it \<noteq> array_size (field_at (start it) i))
     then i_error ''wrong size for fixed count field''
     else bindC (liftC (required_count it)) (\<lambda>c.
       if required_seen (fields_seen l) c then returnC () else i_error ''missing required field'')) (\<lambda>_. ?I) ?B" for l
  proof (cases "over fs dest (d_iter l)")
    case True
    have "seek_end (Suc (length (start (d_iter l)))) (d_iter l) \<noteq> None"
      using True by (intro seek_end_some) (auto simp: over_def)
    then obtain c where "required_count (d_iter l) = Some c"
      by (auto simp: required_count_def Let_def split: option.splits)
    then show ?thesis using True
      by (auto simp: Let_def liftC_def intro!: hoare_if hoare_returnI hoare_i_error_buffered)
  qed simp
  show ?thesis unfolding decode_noinit_body_def by (rule hoare_bind [OF rest loop])
qed

end

section \<open>The message decoder\<close>

lemma hoare_init_and_decode:
  assumes "desc_ok E r fs S" "r \<le> n" "object h0 W dest S"
    "hoare (owns (within base stop m) W h0) (noinit fs dest) (\<lambda>_. owns (within base stop m) W h0) (owns buffered W h0)"
  shows "hoare (owns (within base stop m) W h0) (init_and_decode E n noinit fs dest)
    (\<lambda>_. owns (within base stop m) W h0) (owns buffered W h0)"
proof -
  let ?I = "owns (within base stop m) W h0" and ?B = "owns buffered W h0"
  have dec: "hoare ?I (catchC (noinit fs dest)) (\<lambda>r st. case r of None \<Rightarrow> ?B st | Some _ \<Rightarrow> ?I st) ?B"
    by (rule hoare_catch) (simp add: assms(4))
  have fin: "hoare (\<lambda>st. case r of None \<Rightarrow> ?B st | Some _ \<Rightarrow> ?I st)
      (if r = None then bindC (pb_release E n fs dest) (\<lambda>_. failC) else returnC ()) (\<lambda>_. ?I) ?B" for r :: "unit option"
  proof (cases r)
    case None
    have "hoare ?B (bindC (pb_release E n fs dest) (\<lambda>_. failC)) (\<lambda>_. ?I) ?B"
      by (rule hoare_bind [OF hoare_fail release_safe [OF assms(1-3)]])
    with None show ?thesis by simp
  qed (simp add: hoare_returnI)
  show ?thesis unfolding init_and_decode_def
    by (rule hoare_bind [OF hoare_bind [OF fin dec] defaults_safe [OF assms(1-3)]])
qed

lemma noinit_safe:
  "desc_ok E q fs S \<Longrightarrow> q < n \<Longrightarrow> object h0 W dest S \<Longrightarrow> input_ok h0 base stop \<Longrightarrow>
    hoare (owns (within base stop m) W h0) (pb_decode_noinit E n fs dest)
      (\<lambda>_. owns (within base stop m) W h0) (owns buffered W h0)"
proof (induction n arbitrary: q fs S W dest base stop m h0)
  case (Suc n)
  have "submessage_decoder E n (\<lambda>init fs' d. if init then init_and_decode E n (pb_decode_noinit E n) fs' d
      else pb_decode_noinit E n fs' d)"
  proof (rule submessage_decoder.intro)
    fix q fs S h0 W d base stop m init
    assume a: "desc_ok E q fs S" "q < n" "object h0 W d S" "input_ok h0 base stop"
    note noinit = Suc.IH [OF a]
    show "hoare (owns (within base stop m) W h0)
      (if init then init_and_decode E n (pb_decode_noinit E n) fs d else pb_decode_noinit E n fs d)
      (\<lambda>_. owns (within base stop m) W h0) (owns buffered W h0)"
      using noinit [of m] hoare_init_and_decode [where noinit = "pb_decode_noinit E n" and n = n, OF a(1) _ a(3) noinit [of m]] a(2)
      by simp
  qed
  from submessage_decoder.hoare_body [OF this Suc.prems(4,1,3)] Suc.prems(2) show ?case by simp
qed simp

interpretation nested: submessage_decoder E n
  "\<lambda>init fs d. if init then init_and_decode E n (pb_decode_noinit E n) fs d else pb_decode_noinit E n fs d"
proof
  fix q fs S h0 W d base stop m init
  assume a: "desc_ok E q fs S" "q < n" "object h0 W d S" "input_ok h0 base stop"
  note noinit = noinit_safe [OF a]
  show "hoare (owns (within base stop m) W h0)
    (if init then init_and_decode E n (pb_decode_noinit E n) fs d else pb_decode_noinit E n fs d)
    (\<lambda>_. owns (within base stop m) W h0) (owns buffered W h0)"
    using noinit [of m] hoare_init_and_decode [where noinit = "pb_decode_noinit E n" and n = n, OF a(1) _ a(3) noinit [of m]] a(2)
      by simp
qed

end
