(* ===== verification/CStruct.thy ===== *)
theory CStruct
  imports PbCommon
begin

text \<open>
  How a C compiler for the iOS targets (LP64) lays out a structure, and the macros of \<open>pb.h\<close> that turn
  a structure and the name of one of its members into a field descriptor. The token pasting of
  \<open>PB_FIELD\<close> is a case distinction over the tokens.
\<close>

section \<open>Structure layout\<close>

datatype ctype = Scalar nat | Pointer ctype | Array ctype nat | Struct cmembers | Union cmembers
and cmembers = End | Member string ctype cmembers

definition c_struct :: "(string \<times> ctype) list \<Rightarrow> ctype" where
  "c_struct ms = Struct (foldr (\<lambda>(n, t) rest. Member n t rest) ms End)"

text \<open>A union's members, and the unnamed member of a structure that is such a union.\<close>

definition c_union :: "(string \<times> ctype) list \<Rightarrow> ctype" where
  "c_union ms = Union (foldr (\<lambda>(n, t) rest. Member n t rest) ms End)"

definition anonymous :: string where "anonymous = []"

definition round_up :: "nat \<Rightarrow> nat \<Rightarrow> nat" where
  "round_up n a = (n + a - 1) div a * a"

primrec calign :: "ctype \<Rightarrow> nat" and caligns :: "cmembers \<Rightarrow> nat" where
  "calign (Scalar n) = n"
| "calign (Pointer t) = 8"
| "calign (Array t k) = calign t"
| "calign (Struct ms) = caligns ms"
| "calign (Union ms) = caligns ms"
| "caligns End = 1"
| "caligns (Member n t ms) = max (calign t) (caligns ms)"

fun csize :: "ctype \<Rightarrow> nat" and members_end :: "cmembers \<Rightarrow> nat \<Rightarrow> nat" and largest :: "cmembers \<Rightarrow> nat" where
  "csize (Scalar n) = n"
| "csize (Pointer t) = 8"
| "csize (Array t k) = csize t * k"
| "csize (Struct ms) = round_up (members_end ms 0) (caligns ms)"
| "csize (Union ms) = round_up (largest ms) (caligns ms)"
| "members_end End off = off"
| "members_end (Member n t ms) off = members_end ms (round_up off (calign t) + csize t)"
| "largest End = 0"
| "largest (Member n t ms) = max (csize t) (largest ms)"

text \<open>
  A member's offset and type; the members of an unnamed union are members of the structure, each at the
  union's place. Naming a member that is not there does not compile.
\<close>

fun type_in :: "cmembers \<Rightarrow> string \<Rightarrow> ctype option" where
  "type_in End m = None"
| "type_in (Member n t ms) m = (if n = m then Some t else type_in ms m)"

fun type_under :: "string \<Rightarrow> ctype \<Rightarrow> string \<Rightarrow> ctype option" where
  "type_under n (Union ms) m = (if n = m then Some (Union ms) else if n = anonymous then type_in ms m else None)"
| "type_under n t m = (if n = m then Some t else None)"

fun member :: "cmembers \<Rightarrow> nat \<Rightarrow> string \<Rightarrow> (nat \<times> ctype) option" where
  "member End off m = None"
| "member (Member n t ms) off m = (case type_under n t m of
       Some t' \<Rightarrow> Some (round_up off (calign t), t')
     | None \<Rightarrow> member ms (round_up off (calign t) + csize t) m)"

fun members :: "ctype \<Rightarrow> cmembers" where
  "members (Struct ms) = ms"
| "members _ = End"

definition offsetof :: "ctype \<Rightarrow> string \<Rightarrow> nat" where
  "offsetof st m = fst (the (member (members st) 0 m))"

definition typeof :: "ctype \<Rightarrow> string \<Rightarrow> ctype" where
  "typeof st m = snd (the (member (members st) 0 m))"

text \<open>\<open>m[0]\<close>: the first element of an array, or what a pointer points to.\<close>

fun element :: "ctype \<Rightarrow> ctype" where
  "element (Array t k) = t"
| "element (Pointer t) = t"
| "element t = t"

definition pb_membersize :: "ctype \<Rightarrow> string \<Rightarrow> size_t" where
  "pb_membersize st m = of_nat (csize (typeof st m))"

definition pb_elemsize :: "ctype \<Rightarrow> string \<Rightarrow> size_t" where
  "pb_elemsize st m = of_nat (csize (element (typeof st m)))"

definition pb_arraysize :: "ctype \<Rightarrow> string \<Rightarrow> size_t" where
  "pb_arraysize st m = pb_membersize st m div pb_elemsize st m"

text \<open>\<open>(int)offsetof(st, m1) - (int)offsetof(st, m2)\<close>\<close>

definition pb_delta :: "ctype \<Rightarrow> string \<Rightarrow> string \<Rightarrow> u32" where
  "pb_delta st m1 m2 = of_nat (offsetof st m1) - of_nat (offsetof st m2)"

definition PB_DATAOFFSET_FIRST :: "ctype \<Rightarrow> string \<Rightarrow> string \<Rightarrow> size_t" where
  "PB_DATAOFFSET_FIRST st m1 m2 = of_nat (offsetof st m1)"

definition PB_DATAOFFSET_OTHER :: "ctype \<Rightarrow> string \<Rightarrow> string \<Rightarrow> size_t" where
  "PB_DATAOFFSET_OTHER st m1 m2 = of_nat (offsetof st m1) - of_nat (offsetof st m2) - pb_membersize st m2"

definition PB_DATAOFFSET_UNION :: "ctype \<Rightarrow> string \<Rightarrow> string \<Rightarrow> size_t" where
  "PB_DATAOFFSET_UNION st m1 m2 = ucast PB_SIZE_MAX"

definition PB_DATAOFFSET_CHOOSE :: "ctype \<Rightarrow> string \<Rightarrow> string \<Rightarrow> size_t" where
  "PB_DATAOFFSET_CHOOSE st m1 m2 = scast (ucast (if offsetof st m1 = offsetof st m2
     then PB_DATAOFFSET_FIRST st m1 m2 else PB_DATAOFFSET_OTHER st m1 m2) :: u32)"

section \<open>Descriptor macros\<close>

datatype rules = REQUIRED | OPTIONAL | SINGULAR | REPEATED | OPTEXT
datatype allocation = STATIC | POINTER | CALLBACK
datatype placement = FIRST | OTHER | UNION | CHOOSE
datatype proto_type = BOOL | BYTES | DOUBLE | ENUM | UENUM | FIXED32 | FIXED64 | FLOAT | INT32 | INT64
  | MESSAGE | SFIXED32 | SFIXED64 | SINT32 | SINT64 | STRING | UINT32 | UINT64 | EXTENSION
  | FIXED_LENGTH_BYTES

fun PB_LTYPE_MAP :: "proto_type \<Rightarrow> byte" where
  "PB_LTYPE_MAP BOOL = PB_LTYPE_BOOL"
| "PB_LTYPE_MAP BYTES = PB_LTYPE_BYTES"
| "PB_LTYPE_MAP DOUBLE = PB_LTYPE_FIXED64"
| "PB_LTYPE_MAP ENUM = PB_LTYPE_VARINT"
| "PB_LTYPE_MAP UENUM = PB_LTYPE_UVARINT"
| "PB_LTYPE_MAP FIXED32 = PB_LTYPE_FIXED32"
| "PB_LTYPE_MAP FIXED64 = PB_LTYPE_FIXED64"
| "PB_LTYPE_MAP FLOAT = PB_LTYPE_FIXED32"
| "PB_LTYPE_MAP INT32 = PB_LTYPE_VARINT"
| "PB_LTYPE_MAP INT64 = PB_LTYPE_VARINT"
| "PB_LTYPE_MAP MESSAGE = PB_LTYPE_SUBMESSAGE"
| "PB_LTYPE_MAP SFIXED32 = PB_LTYPE_FIXED32"
| "PB_LTYPE_MAP SFIXED64 = PB_LTYPE_FIXED64"
| "PB_LTYPE_MAP SINT32 = PB_LTYPE_SVARINT"
| "PB_LTYPE_MAP SINT64 = PB_LTYPE_SVARINT"
| "PB_LTYPE_MAP STRING = PB_LTYPE_STRING"
| "PB_LTYPE_MAP UINT32 = PB_LTYPE_UVARINT"
| "PB_LTYPE_MAP UINT64 = PB_LTYPE_UVARINT"
| "PB_LTYPE_MAP EXTENSION = PB_LTYPE_EXTENSION"
| "PB_LTYPE_MAP FIXED_LENGTH_BYTES = PB_LTYPE_FIXED_LENGTH_BYTES"

definition PB_REQUIRED_STATIC :: "u32 \<Rightarrow> ctype \<Rightarrow> string \<Rightarrow> size_t \<Rightarrow> byte \<Rightarrow> field_ptr \<Rightarrow> pb_field" where
  "PB_REQUIRED_STATIC t st m fd lt p =
     \<lparr>tag = t, ftype = PB_ATYPE_STATIC OR PB_HTYPE_REQUIRED OR lt, data_offset = ucast fd,
      size_offset = 0, data_size = ucast (pb_membersize st m), array_size = 0, ptr = p\<rparr>"

definition PB_OPTIONAL_STATIC :: "u32 \<Rightarrow> ctype \<Rightarrow> string \<Rightarrow> size_t \<Rightarrow> byte \<Rightarrow> field_ptr \<Rightarrow> pb_field" where
  "PB_OPTIONAL_STATIC t st m fd lt p =
     \<lparr>tag = t, ftype = PB_ATYPE_STATIC OR PB_HTYPE_OPTIONAL OR lt, data_offset = ucast fd,
      size_offset = pb_delta st (''has_'' @ m) m, data_size = ucast (pb_membersize st m),
      array_size = 0, ptr = p\<rparr>"

definition PB_SINGULAR_STATIC :: "u32 \<Rightarrow> ctype \<Rightarrow> string \<Rightarrow> size_t \<Rightarrow> byte \<Rightarrow> field_ptr \<Rightarrow> pb_field" where
  "PB_SINGULAR_STATIC t st m fd lt p =
     \<lparr>tag = t, ftype = PB_ATYPE_STATIC OR PB_HTYPE_OPTIONAL OR lt, data_offset = ucast fd,
      size_offset = 0, data_size = ucast (pb_membersize st m), array_size = 0, ptr = p\<rparr>"

definition PB_REPEATED_STATIC :: "u32 \<Rightarrow> ctype \<Rightarrow> string \<Rightarrow> size_t \<Rightarrow> byte \<Rightarrow> field_ptr \<Rightarrow> pb_field" where
  "PB_REPEATED_STATIC t st m fd lt p =
     \<lparr>tag = t, ftype = PB_ATYPE_STATIC OR PB_HTYPE_REPEATED OR lt, data_offset = ucast fd,
      size_offset = pb_delta st (m @ ''_count'') m, data_size = ucast (pb_elemsize st m),
      array_size = ucast (pb_arraysize st m), ptr = p\<rparr>"

text \<open>An allocated field carries the size of the data, not of the pointer.\<close>

definition PB_REQUIRED_POINTER :: "u32 \<Rightarrow> ctype \<Rightarrow> string \<Rightarrow> size_t \<Rightarrow> byte \<Rightarrow> field_ptr \<Rightarrow> pb_field" where
  "PB_REQUIRED_POINTER t st m fd lt p =
     \<lparr>tag = t, ftype = PB_ATYPE_POINTER OR PB_HTYPE_REQUIRED OR lt, data_offset = ucast fd,
      size_offset = 0, data_size = ucast (pb_elemsize st m), array_size = 0, ptr = p\<rparr>"

definition PB_OPTIONAL_POINTER :: "u32 \<Rightarrow> ctype \<Rightarrow> string \<Rightarrow> size_t \<Rightarrow> byte \<Rightarrow> field_ptr \<Rightarrow> pb_field" where
  "PB_OPTIONAL_POINTER t st m fd lt p =
     \<lparr>tag = t, ftype = PB_ATYPE_POINTER OR PB_HTYPE_OPTIONAL OR lt, data_offset = ucast fd,
      size_offset = 0, data_size = ucast (pb_elemsize st m), array_size = 0, ptr = p\<rparr>"

definition PB_SINGULAR_POINTER :: "u32 \<Rightarrow> ctype \<Rightarrow> string \<Rightarrow> size_t \<Rightarrow> byte \<Rightarrow> field_ptr \<Rightarrow> pb_field" where
  "PB_SINGULAR_POINTER t st m fd lt p =
     \<lparr>tag = t, ftype = PB_ATYPE_POINTER OR PB_HTYPE_OPTIONAL OR lt, data_offset = ucast fd,
      size_offset = 0, data_size = ucast (pb_elemsize st m), array_size = 0, ptr = p\<rparr>"

definition PB_REPEATED_POINTER :: "u32 \<Rightarrow> ctype \<Rightarrow> string \<Rightarrow> size_t \<Rightarrow> byte \<Rightarrow> field_ptr \<Rightarrow> pb_field" where
  "PB_REPEATED_POINTER t st m fd lt p =
     \<lparr>tag = t, ftype = PB_ATYPE_POINTER OR PB_HTYPE_REPEATED OR lt, data_offset = ucast fd,
      size_offset = pb_delta st (m @ ''_count'') m, data_size = ucast (pb_elemsize st m),
      array_size = 0, ptr = p\<rparr>"

definition PB_REQUIRED_CALLBACK :: "u32 \<Rightarrow> ctype \<Rightarrow> string \<Rightarrow> size_t \<Rightarrow> byte \<Rightarrow> field_ptr \<Rightarrow> pb_field" where
  "PB_REQUIRED_CALLBACK t st m fd lt p =
     \<lparr>tag = t, ftype = PB_ATYPE_CALLBACK OR PB_HTYPE_REQUIRED OR lt, data_offset = ucast fd,
      size_offset = 0, data_size = ucast (pb_membersize st m), array_size = 0, ptr = p\<rparr>"

definition PB_OPTIONAL_CALLBACK :: "u32 \<Rightarrow> ctype \<Rightarrow> string \<Rightarrow> size_t \<Rightarrow> byte \<Rightarrow> field_ptr \<Rightarrow> pb_field" where
  "PB_OPTIONAL_CALLBACK t st m fd lt p =
     \<lparr>tag = t, ftype = PB_ATYPE_CALLBACK OR PB_HTYPE_OPTIONAL OR lt, data_offset = ucast fd,
      size_offset = 0, data_size = ucast (pb_membersize st m), array_size = 0, ptr = p\<rparr>"

definition PB_SINGULAR_CALLBACK :: "u32 \<Rightarrow> ctype \<Rightarrow> string \<Rightarrow> size_t \<Rightarrow> byte \<Rightarrow> field_ptr \<Rightarrow> pb_field" where
  "PB_SINGULAR_CALLBACK t st m fd lt p =
     \<lparr>tag = t, ftype = PB_ATYPE_CALLBACK OR PB_HTYPE_OPTIONAL OR lt, data_offset = ucast fd,
      size_offset = 0, data_size = ucast (pb_membersize st m), array_size = 0, ptr = p\<rparr>"

definition PB_REPEATED_CALLBACK :: "u32 \<Rightarrow> ctype \<Rightarrow> string \<Rightarrow> size_t \<Rightarrow> byte \<Rightarrow> field_ptr \<Rightarrow> pb_field" where
  "PB_REPEATED_CALLBACK t st m fd lt p =
     \<lparr>tag = t, ftype = PB_ATYPE_CALLBACK OR PB_HTYPE_REPEATED OR lt, data_offset = ucast fd,
      size_offset = 0, data_size = ucast (pb_membersize st m), array_size = 0, ptr = p\<rparr>"

definition PB_OPTEXT_STATIC :: "u32 \<Rightarrow> ctype \<Rightarrow> string \<Rightarrow> size_t \<Rightarrow> byte \<Rightarrow> field_ptr \<Rightarrow> pb_field" where
  "PB_OPTEXT_STATIC t st m fd lt p =
     \<lparr>tag = t, ftype = PB_ATYPE_STATIC OR PB_HTYPE_REQUIRED OR lt, data_offset = 0,
      size_offset = 0, data_size = ucast (pb_membersize st m), array_size = 0, ptr = p\<rparr>"

definition PB_OPTEXT_POINTER :: "u32 \<Rightarrow> ctype \<Rightarrow> string \<Rightarrow> size_t \<Rightarrow> byte \<Rightarrow> field_ptr \<Rightarrow> pb_field" where
  "PB_OPTEXT_POINTER = PB_OPTIONAL_POINTER"

definition PB_OPTEXT_CALLBACK :: "u32 \<Rightarrow> ctype \<Rightarrow> string \<Rightarrow> size_t \<Rightarrow> byte \<Rightarrow> field_ptr \<Rightarrow> pb_field" where
  "PB_OPTEXT_CALLBACK = PB_OPTIONAL_CALLBACK"

fun PB_DATAOFFSET :: "placement \<Rightarrow> ctype \<Rightarrow> string \<Rightarrow> string \<Rightarrow> size_t" where
  "PB_DATAOFFSET FIRST = PB_DATAOFFSET_FIRST"
| "PB_DATAOFFSET OTHER = PB_DATAOFFSET_OTHER"
| "PB_DATAOFFSET UNION = PB_DATAOFFSET_UNION"
| "PB_DATAOFFSET CHOOSE = PB_DATAOFFSET_CHOOSE"

fun field_macro :: "rules \<Rightarrow> allocation \<Rightarrow> u32 \<Rightarrow> ctype \<Rightarrow> string \<Rightarrow> size_t \<Rightarrow> byte \<Rightarrow> field_ptr \<Rightarrow> pb_field" where
  "field_macro REQUIRED STATIC = PB_REQUIRED_STATIC"
| "field_macro OPTIONAL STATIC = PB_OPTIONAL_STATIC"
| "field_macro SINGULAR STATIC = PB_SINGULAR_STATIC"
| "field_macro REPEATED STATIC = PB_REPEATED_STATIC"
| "field_macro OPTEXT STATIC = PB_OPTEXT_STATIC"
| "field_macro REQUIRED POINTER = PB_REQUIRED_POINTER"
| "field_macro OPTIONAL POINTER = PB_OPTIONAL_POINTER"
| "field_macro SINGULAR POINTER = PB_SINGULAR_POINTER"
| "field_macro REPEATED POINTER = PB_REPEATED_POINTER"
| "field_macro OPTEXT POINTER = PB_OPTEXT_POINTER"
| "field_macro REQUIRED CALLBACK = PB_REQUIRED_CALLBACK"
| "field_macro OPTIONAL CALLBACK = PB_OPTIONAL_CALLBACK"
| "field_macro SINGULAR CALLBACK = PB_SINGULAR_CALLBACK"
| "field_macro REPEATED CALLBACK = PB_REPEATED_CALLBACK"
| "field_macro OPTEXT CALLBACK = PB_OPTEXT_CALLBACK"

definition PB_FIELD :: "u32 \<Rightarrow> proto_type \<Rightarrow> rules \<Rightarrow> allocation \<Rightarrow> placement \<Rightarrow> ctype \<Rightarrow> string \<Rightarrow> string
    \<Rightarrow> field_ptr \<Rightarrow> pb_field" where
  "PB_FIELD t ty rules alloc place msg field prevfield p =
     field_macro rules alloc t msg field (PB_DATAOFFSET place msg field prevfield) (PB_LTYPE_MAP ty) p"

text \<open>The members of an unnamed union, whose tag is the member \<open>which_\<close> of the structure.\<close>

definition PB_ANONYMOUS_ONEOF_STATIC :: "string \<Rightarrow> u32 \<Rightarrow> ctype \<Rightarrow> string \<Rightarrow> size_t \<Rightarrow> byte \<Rightarrow> field_ptr \<Rightarrow> pb_field" where
  "PB_ANONYMOUS_ONEOF_STATIC u t st m fd lt p =
     \<lparr>tag = t, ftype = PB_ATYPE_STATIC OR PB_HTYPE_ONEOF OR lt, data_offset = ucast fd,
      size_offset = pb_delta st (''which_'' @ u) m, data_size = ucast (pb_membersize st m), array_size = 0, ptr = p\<rparr>"

definition PB_ANONYMOUS_ONEOF_POINTER :: "string \<Rightarrow> u32 \<Rightarrow> ctype \<Rightarrow> string \<Rightarrow> size_t \<Rightarrow> byte \<Rightarrow> field_ptr \<Rightarrow> pb_field" where
  "PB_ANONYMOUS_ONEOF_POINTER u t st m fd lt p =
     \<lparr>tag = t, ftype = PB_ATYPE_POINTER OR PB_HTYPE_ONEOF OR lt, data_offset = ucast fd,
      size_offset = pb_delta st (''which_'' @ u) m, data_size = ucast (pb_elemsize st m), array_size = 0, ptr = p\<rparr>"

text \<open>A oneof is static or allocated; there is no macro for a callback.\<close>

definition PB_ANONYMOUS_ONEOF_FIELD :: "string \<Rightarrow> u32 \<Rightarrow> proto_type \<Rightarrow> bool \<Rightarrow> placement \<Rightarrow> ctype \<Rightarrow> string \<Rightarrow> string
    \<Rightarrow> field_ptr \<Rightarrow> pb_field" where
  "PB_ANONYMOUS_ONEOF_FIELD u t ty static place msg field prevfield p =
     (if static then PB_ANONYMOUS_ONEOF_STATIC else PB_ANONYMOUS_ONEOF_POINTER)
       u t msg field (PB_DATAOFFSET place msg field prevfield) (PB_LTYPE_MAP ty) p"

definition PB_REPEATED_FIXED_COUNT :: "u32 \<Rightarrow> proto_type \<Rightarrow> placement \<Rightarrow> ctype \<Rightarrow> string \<Rightarrow> string
    \<Rightarrow> field_ptr \<Rightarrow> pb_field" where
  "PB_REPEATED_FIXED_COUNT t ty place msg field prevfield p =
     \<lparr>tag = t, ftype = PB_ATYPE_STATIC OR PB_HTYPE_REPEATED OR PB_LTYPE_MAP ty,
      data_offset = ucast (PB_DATAOFFSET place msg field prevfield), size_offset = 0,
      data_size = ucast (pb_elemsize msg field), array_size = ucast (pb_arraysize msg field), ptr = p\<rparr>"

end
