(* ===== verification/PbTables.thy ===== *)
theory PbTables
  imports CStruct PbObject
begin

text \<open>
  The telemetry messages of the app: the generated structures and descriptor arrays of \<open>cct.nanopb\<close>,
  \<open>client_metrics.nanopb\<close>, \<open>compliance.nanopb\<close>, \<open>external_*_context.nanopb\<close> (GoogleDataTransport) and
  \<open>me.nanopb\<close> (FirebaseMessaging).
\<close>

section \<open>Member types\<close>

definition c_bool :: ctype where "c_bool = Scalar 1"
definition c_int32 :: ctype where "c_int32 = Scalar 4"
definition c_int64 :: ctype where "c_int64 = Scalar 8"
definition c_pb_size_t :: ctype where "c_pb_size_t = Scalar 4"
definition c_enum :: ctype where "c_enum = Scalar 4"

definition pb_bytes_array_t :: ctype where
  "pb_bytes_array_t = c_struct [(''size'', c_pb_size_t), (''bytes'', Array (Scalar 1) 1)]"

definition enum_value :: "(string \<times> int) list \<Rightarrow> string \<Rightarrow> int" where
  "enum_value e n = the (map_of e n)"

section \<open>Enumerations\<close>

text \<open>An enumeration is the list of its constants (without the common prefix) and their values.\<close>

definition gdt_cct_ComplianceData_ProductIdOrigin :: "(string \<times> int) list" where
  "gdt_cct_ComplianceData_ProductIdOrigin = [(''NOT_SET'', 0), (''EVENT_OVERRIDE'', 5)]"

definition gdt_cct_NetworkConnectionInfo_NetworkType :: "(string \<times> int) list" where
  "gdt_cct_NetworkConnectionInfo_NetworkType = [(''NONE'', -1), (''MOBILE'', 0), (''WIFI'', 1),
     (''MOBILE_MMS'', 2), (''MOBILE_SUPL'', 3), (''MOBILE_DUN'', 4), (''MOBILE_HIPRI'', 5),
     (''WIMAX'', 6), (''BLUETOOTH'', 7), (''DUMMY'', 8), (''ETHERNET'', 9), (''MOBILE_FOTA'', 10),
     (''MOBILE_IMS'', 11), (''MOBILE_CBS'', 12), (''WIFI_P2P'', 13), (''MOBILE_IA'', 14),
     (''MOBILE_EMERGENCY'', 15), (''PROXY'', 16), (''VPN'', 17)]"

definition gdt_cct_NetworkConnectionInfo_MobileSubtype :: "(string \<times> int) list" where
  "gdt_cct_NetworkConnectionInfo_MobileSubtype = [(''UNKNOWN_MOBILE_SUBTYPE'', 0), (''GPRS'', 1),
     (''EDGE'', 2), (''UMTS'', 3), (''CDMA'', 4), (''EVDO_0'', 5), (''EVDO_A'', 6), (''RTT'', 7),
     (''HSDPA'', 8), (''HSUPA'', 9), (''HSPA'', 10), (''IDEN'', 11), (''EVDO_B'', 12), (''LTE'', 13),
     (''EHRPD'', 14), (''HSPAP'', 15), (''GSM'', 16), (''TD_SCDMA'', 17), (''IWLAN'', 18),
     (''LTE_CA'', 19), (''COMBINED'', 100)]"

definition gdt_cct_ClientInfo_ClientType :: "(string \<times> int) list" where
  "gdt_cct_ClientInfo_ClientType = [(''CLIENT_UNKNOWN'', 0), (''IOS_FIREBASE'', 15)]"

definition gdt_cct_QosTierConfiguration_QosTier :: "(string \<times> int) list" where
  "gdt_cct_QosTierConfiguration_QosTier = [(''DEFAULT'', 0), (''UNMETERED_ONLY'', 1),
     (''UNMETERED_OR_DAILY'', 2), (''FAST_IF_RADIO_AWAKE'', 3), (''NEVER'', 4)]"

definition gdt_client_metrics_LogEventDropped_Reason :: "(string \<times> int) list" where
  "gdt_client_metrics_LogEventDropped_Reason = [(''REASON_UNKNOWN'', 0), (''MESSAGE_TOO_OLD'', 1),
     (''CACHE_FULL'', 2), (''PAYLOAD_TOO_BIG'', 3), (''MAX_RETRIES_REACHED'', 4),
     (''INVALID_PAYLOD'', 5), (''SERVER_ERROR'', 6)]"

definition fm_MessagingClientEvent_MessageType :: "(string \<times> int) list" where
  "fm_MessagingClientEvent_MessageType = [(''UNKNOWN'', 0), (''DATA_MESSAGE'', 1), (''TOPIC'', 2),
     (''DISPLAY_NOTIFICATION'', 3)]"

definition fm_MessagingClientEvent_SDKPlatform :: "(string \<times> int) list" where
  "fm_MessagingClientEvent_SDKPlatform = [(''UNKNOWN_OS'', 0), (''ANDROID'', 1), (''IOS'', 2),
     (''WEB'', 3)]"

definition fm_MessagingClientEvent_Event :: "(string \<times> int) list" where
  "fm_MessagingClientEvent_Event = [(''UNKNOWN_EVENT'', 0), (''MESSAGE_DELIVERED'', 1),
     (''MESSAGE_OPEN'', 2)]"

section \<open>Structures\<close>

definition privacy_context_external_ExternalPRequestContext :: ctype where
  "privacy_context_external_ExternalPRequestContext = c_struct [
     (''has_origin_associated_product_id'', c_bool), (''origin_associated_product_id'', c_int32)]"

definition privacy_context_external_ExternalPrivacyContext :: ctype where
  "privacy_context_external_ExternalPrivacyContext = c_struct [(''has_prequest'', c_bool),
     (''prequest'', privacy_context_external_ExternalPRequestContext)]"

definition gdt_cct_ComplianceData :: ctype where
  "gdt_cct_ComplianceData = c_struct [(''has_privacy_context'', c_bool),
     (''privacy_context'', privacy_context_external_ExternalPrivacyContext),
     (''has_product_id_origin'', c_bool), (''product_id_origin'', c_enum)]"

definition gdt_cct_IosClientInfo :: ctype where
  "gdt_cct_IosClientInfo = c_struct [(''os_major_version'', Pointer pb_bytes_array_t),
     (''os_full_version'', Pointer pb_bytes_array_t), (''application_build'', Pointer pb_bytes_array_t),
     (''country'', Pointer pb_bytes_array_t), (''model'', Pointer pb_bytes_array_t),
     (''language_code'', Pointer pb_bytes_array_t),
     (''application_bundle_id'', Pointer pb_bytes_array_t)]"

definition gdt_cct_MacClientInfo :: ctype where
  "gdt_cct_MacClientInfo = c_struct [(''os_major_version'', Pointer pb_bytes_array_t),
     (''os_full_version'', Pointer pb_bytes_array_t), (''application_build'', Pointer pb_bytes_array_t),
     (''application_bundle_id'', Pointer pb_bytes_array_t)]"

definition gdt_cct_ClientInfo :: ctype where
  "gdt_cct_ClientInfo = c_struct [(''has_client_type'', c_bool), (''client_type'', c_enum),
     (''has_ios_client_info'', c_bool), (''ios_client_info'', gdt_cct_IosClientInfo),
     (''has_mac_client_info'', c_bool), (''mac_client_info'', gdt_cct_MacClientInfo)]"

definition gdt_cct_NetworkConnectionInfo :: ctype where
  "gdt_cct_NetworkConnectionInfo = c_struct [(''has_network_type'', c_bool), (''network_type'', c_enum),
     (''has_mobile_subtype'', c_bool), (''mobile_subtype'', c_enum)]"

definition gdt_cct_LogEvent :: ctype where
  "gdt_cct_LogEvent = c_struct [(''has_event_time_ms'', c_bool), (''event_time_ms'', c_int64),
     (''source_extension'', Pointer pb_bytes_array_t), (''has_event_code'', c_bool),
     (''event_code'', c_int32), (''has_timezone_offset_seconds'', c_bool),
     (''timezone_offset_seconds'', c_int64), (''has_event_uptime_ms'', c_bool),
     (''event_uptime_ms'', c_int64), (''has_network_connection_info'', c_bool),
     (''network_connection_info'', gdt_cct_NetworkConnectionInfo), (''has_compliance_data'', c_bool),
     (''compliance_data'', gdt_cct_ComplianceData)]"

definition gdt_cct_LogRequest :: ctype where
  "gdt_cct_LogRequest = c_struct [(''has_client_info'', c_bool), (''client_info'', gdt_cct_ClientInfo),
     (''has_log_source'', c_bool), (''log_source'', c_int32), (''log_event_count'', c_pb_size_t),
     (''log_event'', Pointer gdt_cct_LogEvent), (''has_request_time_ms'', c_bool),
     (''request_time_ms'', c_int64), (''has_request_uptime_ms'', c_bool),
     (''request_uptime_ms'', c_int64), (''has_qos_tier'', c_bool), (''qos_tier'', c_enum)]"

definition gdt_cct_BatchedLogRequest :: ctype where
  "gdt_cct_BatchedLogRequest = c_struct [(''log_request_count'', c_pb_size_t),
     (''log_request'', Pointer gdt_cct_LogRequest)]"

definition gdt_cct_QosTierConfiguration :: ctype where
  "gdt_cct_QosTierConfiguration = c_struct [(''has_qos_tier'', c_bool), (''qos_tier'', c_enum),
     (''has_log_source'', c_bool), (''log_source'', c_int32)]"

definition gdt_cct_QosTiersOverride :: ctype where
  "gdt_cct_QosTiersOverride = c_struct [(''qos_tier_configuration_count'', c_pb_size_t),
     (''qos_tier_configuration'', Pointer gdt_cct_QosTierConfiguration),
     (''has_qos_tier_fingerprint'', c_bool), (''qos_tier_fingerprint'', c_int64)]"

definition gdt_cct_LogResponse :: ctype where
  "gdt_cct_LogResponse = c_struct [(''has_next_request_wait_millis'', c_bool),
     (''next_request_wait_millis'', c_int64), (''has_qos_tier'', c_bool),
     (''qos_tier'', gdt_cct_QosTiersOverride)]"

definition gdt_client_metrics_LogEventDropped :: ctype where
  "gdt_client_metrics_LogEventDropped = c_struct [(''events_dropped_count'', c_int64),
     (''reason'', c_enum)]"

definition gdt_client_metrics_LogSourceMetrics :: ctype where
  "gdt_client_metrics_LogSourceMetrics = c_struct [(''log_source'', Pointer pb_bytes_array_t),
     (''log_event_dropped_count'', c_pb_size_t),
     (''log_event_dropped'', Pointer gdt_client_metrics_LogEventDropped)]"

definition gdt_client_metrics_StorageMetrics :: ctype where
  "gdt_client_metrics_StorageMetrics = c_struct [(''current_cache_size_bytes'', c_int64),
     (''max_cache_size_bytes'', c_int64)]"

definition gdt_client_metrics_TimeWindow :: ctype where
  "gdt_client_metrics_TimeWindow = c_struct [(''start_ms'', c_int64), (''end_ms'', c_int64)]"

definition gdt_client_metrics_GlobalMetrics :: ctype where
  "gdt_client_metrics_GlobalMetrics = c_struct [
     (''storage_metrics'', gdt_client_metrics_StorageMetrics)]"

definition gdt_client_metrics_ClientMetrics :: ctype where
  "gdt_client_metrics_ClientMetrics = c_struct [(''window'', gdt_client_metrics_TimeWindow),
     (''log_source_metrics_count'', c_pb_size_t),
     (''log_source_metrics'', Pointer gdt_client_metrics_LogSourceMetrics),
     (''global_metrics'', gdt_client_metrics_GlobalMetrics),
     (''app_namespace'', Pointer pb_bytes_array_t)]"

definition fm_MessagingClientEvent :: ctype where
  "fm_MessagingClientEvent = c_struct [(''project_number'', c_int64),
     (''message_id'', Pointer pb_bytes_array_t), (''instance_id'', Pointer pb_bytes_array_t),
     (''message_type'', c_enum), (''sdk_platform'', c_enum),
     (''package_name'', Pointer pb_bytes_array_t), (''event'', c_enum),
     (''analytics_label'', Pointer pb_bytes_array_t), (''campaign_id'', c_int64),
     (''composer_label'', Pointer pb_bytes_array_t)]"

definition fm_MessagingClientEventExtension :: ctype where
  "fm_MessagingClientEventExtension = c_struct [
     (''messaging_client_event'', Pointer fm_MessagingClientEvent)]"

section \<open>Default values\<close>

definition gdt_cct_ComplianceData_product_id_origin_default :: "byte list" where
  "gdt_cct_ComplianceData_product_id_origin_default = le_bytes 4 (of_int (enum_value gdt_cct_ComplianceData_ProductIdOrigin ''NOT_SET'') :: u32)"

definition gdt_cct_NetworkConnectionInfo_network_type_default :: "byte list" where
  "gdt_cct_NetworkConnectionInfo_network_type_default = le_bytes 4 (of_int (enum_value gdt_cct_NetworkConnectionInfo_NetworkType ''NONE'') :: u32)"

definition gdt_cct_NetworkConnectionInfo_mobile_subtype_default :: "byte list" where
  "gdt_cct_NetworkConnectionInfo_mobile_subtype_default = le_bytes 4 (of_int (enum_value gdt_cct_NetworkConnectionInfo_MobileSubtype ''UNKNOWN_MOBILE_SUBTYPE'') :: u32)"

definition gdt_cct_LogRequest_qos_tier_default :: "byte list" where
  "gdt_cct_LogRequest_qos_tier_default = le_bytes 4 (of_int (enum_value gdt_cct_QosTierConfiguration_QosTier ''DEFAULT'') :: u32)"

definition gdt_cct_QosTierConfiguration_log_source_default :: "byte list" where
  "gdt_cct_QosTierConfiguration_log_source_default = le_bytes 4 (0 :: u32)"

section \<open>Descriptor arrays\<close>

text \<open>The numbers of the arrays, for the descriptors that point to one.\<close>

definition privacy_context_external_ExternalPRequestContext_no :: nat where [simp]: "privacy_context_external_ExternalPRequestContext_no = 0"
definition privacy_context_external_ExternalPrivacyContext_no :: nat where [simp]: "privacy_context_external_ExternalPrivacyContext_no = 1"
definition gdt_cct_ComplianceData_no :: nat where [simp]: "gdt_cct_ComplianceData_no = 2"
definition gdt_cct_IosClientInfo_no :: nat where [simp]: "gdt_cct_IosClientInfo_no = 3"
definition gdt_cct_MacClientInfo_no :: nat where [simp]: "gdt_cct_MacClientInfo_no = 4"
definition gdt_cct_ClientInfo_no :: nat where [simp]: "gdt_cct_ClientInfo_no = 5"
definition gdt_cct_NetworkConnectionInfo_no :: nat where [simp]: "gdt_cct_NetworkConnectionInfo_no = 6"
definition gdt_cct_LogEvent_no :: nat where [simp]: "gdt_cct_LogEvent_no = 7"
definition gdt_cct_LogRequest_no :: nat where [simp]: "gdt_cct_LogRequest_no = 8"
definition gdt_cct_BatchedLogRequest_no :: nat where [simp]: "gdt_cct_BatchedLogRequest_no = 9"
definition gdt_cct_QosTierConfiguration_no :: nat where [simp]: "gdt_cct_QosTierConfiguration_no = 10"
definition gdt_cct_QosTiersOverride_no :: nat where [simp]: "gdt_cct_QosTiersOverride_no = 11"
definition gdt_cct_LogResponse_no :: nat where [simp]: "gdt_cct_LogResponse_no = 12"
definition gdt_client_metrics_LogEventDropped_no :: nat where [simp]: "gdt_client_metrics_LogEventDropped_no = 13"
definition gdt_client_metrics_LogSourceMetrics_no :: nat where [simp]: "gdt_client_metrics_LogSourceMetrics_no = 14"
definition gdt_client_metrics_StorageMetrics_no :: nat where [simp]: "gdt_client_metrics_StorageMetrics_no = 15"
definition gdt_client_metrics_TimeWindow_no :: nat where [simp]: "gdt_client_metrics_TimeWindow_no = 16"
definition gdt_client_metrics_GlobalMetrics_no :: nat where [simp]: "gdt_client_metrics_GlobalMetrics_no = 17"
definition gdt_client_metrics_ClientMetrics_no :: nat where [simp]: "gdt_client_metrics_ClientMetrics_no = 18"
definition fm_MessagingClientEvent_no :: nat where [simp]: "fm_MessagingClientEvent_no = 19"
definition fm_MessagingClientEventExtension_no :: nat where [simp]: "fm_MessagingClientEventExtension_no = 20"

definition privacy_context_external_ExternalPRequestContext_fields :: "pb_field list" where
  "privacy_context_external_ExternalPRequestContext_fields = [
    PB_FIELD 13 INT32 OPTIONAL STATIC FIRST privacy_context_external_ExternalPRequestContext ''origin_associated_product_id''
      ''origin_associated_product_id'' Null]"

definition privacy_context_external_ExternalPrivacyContext_fields :: "pb_field list" where
  "privacy_context_external_ExternalPrivacyContext_fields = [
    PB_FIELD 2 MESSAGE OPTIONAL STATIC FIRST privacy_context_external_ExternalPrivacyContext ''prequest''
      ''prequest'' (Submsg privacy_context_external_ExternalPRequestContext_no)]"

definition gdt_cct_ComplianceData_fields :: "pb_field list" where
  "gdt_cct_ComplianceData_fields = [
    PB_FIELD 1 MESSAGE OPTIONAL STATIC FIRST gdt_cct_ComplianceData ''privacy_context''
      ''privacy_context'' (Submsg privacy_context_external_ExternalPrivacyContext_no),
    PB_FIELD 2 UENUM OPTIONAL STATIC OTHER gdt_cct_ComplianceData ''product_id_origin''
      ''privacy_context'' (Default gdt_cct_ComplianceData_product_id_origin_default)]"

definition gdt_cct_IosClientInfo_fields :: "pb_field list" where
  "gdt_cct_IosClientInfo_fields = [
    PB_FIELD 3 BYTES OPTIONAL POINTER FIRST gdt_cct_IosClientInfo ''os_major_version''
      ''os_major_version'' Null,
    PB_FIELD 4 BYTES OPTIONAL POINTER OTHER gdt_cct_IosClientInfo ''os_full_version''
      ''os_major_version'' Null,
    PB_FIELD 5 BYTES OPTIONAL POINTER OTHER gdt_cct_IosClientInfo ''application_build''
      ''os_full_version'' Null,
    PB_FIELD 6 BYTES OPTIONAL POINTER OTHER gdt_cct_IosClientInfo ''country''
      ''application_build'' Null,
    PB_FIELD 7 BYTES OPTIONAL POINTER OTHER gdt_cct_IosClientInfo ''model''
      ''country'' Null,
    PB_FIELD 8 BYTES OPTIONAL POINTER OTHER gdt_cct_IosClientInfo ''language_code''
      ''model'' Null,
    PB_FIELD 11 BYTES OPTIONAL POINTER OTHER gdt_cct_IosClientInfo ''application_bundle_id''
      ''language_code'' Null]"

definition gdt_cct_MacClientInfo_fields :: "pb_field list" where
  "gdt_cct_MacClientInfo_fields = [
    PB_FIELD 1 BYTES OPTIONAL POINTER FIRST gdt_cct_MacClientInfo ''os_major_version''
      ''os_major_version'' Null,
    PB_FIELD 2 BYTES OPTIONAL POINTER OTHER gdt_cct_MacClientInfo ''os_full_version''
      ''os_major_version'' Null,
    PB_FIELD 3 BYTES OPTIONAL POINTER OTHER gdt_cct_MacClientInfo ''application_build''
      ''os_full_version'' Null,
    PB_FIELD 7 BYTES OPTIONAL POINTER OTHER gdt_cct_MacClientInfo ''application_bundle_id''
      ''application_build'' Null]"

definition gdt_cct_ClientInfo_fields :: "pb_field list" where
  "gdt_cct_ClientInfo_fields = [
    PB_FIELD 1 UENUM OPTIONAL STATIC FIRST gdt_cct_ClientInfo ''client_type''
      ''client_type'' Null,
    PB_FIELD 4 MESSAGE OPTIONAL STATIC OTHER gdt_cct_ClientInfo ''ios_client_info''
      ''client_type'' (Submsg gdt_cct_IosClientInfo_no),
    PB_FIELD 13 MESSAGE OPTIONAL STATIC OTHER gdt_cct_ClientInfo ''mac_client_info''
      ''ios_client_info'' (Submsg gdt_cct_MacClientInfo_no)]"

definition gdt_cct_NetworkConnectionInfo_fields :: "pb_field list" where
  "gdt_cct_NetworkConnectionInfo_fields = [
    PB_FIELD 1 ENUM OPTIONAL STATIC FIRST gdt_cct_NetworkConnectionInfo ''network_type''
      ''network_type'' (Default gdt_cct_NetworkConnectionInfo_network_type_default),
    PB_FIELD 2 UENUM OPTIONAL STATIC OTHER gdt_cct_NetworkConnectionInfo ''mobile_subtype''
      ''network_type'' (Default gdt_cct_NetworkConnectionInfo_mobile_subtype_default)]"

definition gdt_cct_LogEvent_fields :: "pb_field list" where
  "gdt_cct_LogEvent_fields = [
    PB_FIELD 1 INT64 OPTIONAL STATIC FIRST gdt_cct_LogEvent ''event_time_ms''
      ''event_time_ms'' Null,
    PB_FIELD 6 BYTES OPTIONAL POINTER OTHER gdt_cct_LogEvent ''source_extension''
      ''event_time_ms'' Null,
    PB_FIELD 11 INT32 OPTIONAL STATIC OTHER gdt_cct_LogEvent ''event_code''
      ''source_extension'' Null,
    PB_FIELD 15 SINT64 OPTIONAL STATIC OTHER gdt_cct_LogEvent ''timezone_offset_seconds''
      ''event_code'' Null,
    PB_FIELD 17 INT64 OPTIONAL STATIC OTHER gdt_cct_LogEvent ''event_uptime_ms''
      ''timezone_offset_seconds'' Null,
    PB_FIELD 23 MESSAGE OPTIONAL STATIC OTHER gdt_cct_LogEvent ''network_connection_info''
      ''event_uptime_ms'' (Submsg gdt_cct_NetworkConnectionInfo_no),
    PB_FIELD 33 MESSAGE OPTIONAL STATIC OTHER gdt_cct_LogEvent ''compliance_data''
      ''network_connection_info'' (Submsg gdt_cct_ComplianceData_no)]"

definition gdt_cct_LogRequest_fields :: "pb_field list" where
  "gdt_cct_LogRequest_fields = [
    PB_FIELD 1 MESSAGE OPTIONAL STATIC FIRST gdt_cct_LogRequest ''client_info''
      ''client_info'' (Submsg gdt_cct_ClientInfo_no),
    PB_FIELD 2 INT32 OPTIONAL STATIC OTHER gdt_cct_LogRequest ''log_source''
      ''client_info'' Null,
    PB_FIELD 3 MESSAGE REPEATED POINTER OTHER gdt_cct_LogRequest ''log_event''
      ''log_source'' (Submsg gdt_cct_LogEvent_no),
    PB_FIELD 4 INT64 OPTIONAL STATIC OTHER gdt_cct_LogRequest ''request_time_ms''
      ''log_event'' Null,
    PB_FIELD 8 INT64 OPTIONAL STATIC OTHER gdt_cct_LogRequest ''request_uptime_ms''
      ''request_time_ms'' Null,
    PB_FIELD 9 UENUM OPTIONAL STATIC OTHER gdt_cct_LogRequest ''qos_tier''
      ''request_uptime_ms'' (Default gdt_cct_LogRequest_qos_tier_default)]"

definition gdt_cct_BatchedLogRequest_fields :: "pb_field list" where
  "gdt_cct_BatchedLogRequest_fields = [
    PB_FIELD 1 MESSAGE REPEATED POINTER FIRST gdt_cct_BatchedLogRequest ''log_request''
      ''log_request'' (Submsg gdt_cct_LogRequest_no)]"

definition gdt_cct_QosTierConfiguration_fields :: "pb_field list" where
  "gdt_cct_QosTierConfiguration_fields = [
    PB_FIELD 2 UENUM OPTIONAL STATIC FIRST gdt_cct_QosTierConfiguration ''qos_tier''
      ''qos_tier'' Null,
    PB_FIELD 3 INT32 OPTIONAL STATIC OTHER gdt_cct_QosTierConfiguration ''log_source''
      ''qos_tier'' (Default gdt_cct_QosTierConfiguration_log_source_default)]"

definition gdt_cct_QosTiersOverride_fields :: "pb_field list" where
  "gdt_cct_QosTiersOverride_fields = [
    PB_FIELD 1 MESSAGE REPEATED POINTER FIRST gdt_cct_QosTiersOverride ''qos_tier_configuration''
      ''qos_tier_configuration'' (Submsg gdt_cct_QosTierConfiguration_no),
    PB_FIELD 2 INT64 OPTIONAL STATIC OTHER gdt_cct_QosTiersOverride ''qos_tier_fingerprint''
      ''qos_tier_configuration'' Null]"

definition gdt_cct_LogResponse_fields :: "pb_field list" where
  "gdt_cct_LogResponse_fields = [
    PB_FIELD 1 INT64 OPTIONAL STATIC FIRST gdt_cct_LogResponse ''next_request_wait_millis''
      ''next_request_wait_millis'' Null,
    PB_FIELD 3 MESSAGE OPTIONAL STATIC OTHER gdt_cct_LogResponse ''qos_tier''
      ''next_request_wait_millis'' (Submsg gdt_cct_QosTiersOverride_no)]"

definition gdt_client_metrics_LogEventDropped_fields :: "pb_field list" where
  "gdt_client_metrics_LogEventDropped_fields = [
    PB_FIELD 1 INT64 SINGULAR STATIC FIRST gdt_client_metrics_LogEventDropped ''events_dropped_count''
      ''events_dropped_count'' Null,
    PB_FIELD 3 UENUM SINGULAR STATIC OTHER gdt_client_metrics_LogEventDropped ''reason''
      ''events_dropped_count'' Null]"

definition gdt_client_metrics_LogSourceMetrics_fields :: "pb_field list" where
  "gdt_client_metrics_LogSourceMetrics_fields = [
    PB_FIELD 1 BYTES SINGULAR POINTER FIRST gdt_client_metrics_LogSourceMetrics ''log_source''
      ''log_source'' Null,
    PB_FIELD 2 MESSAGE REPEATED POINTER OTHER gdt_client_metrics_LogSourceMetrics ''log_event_dropped''
      ''log_source'' (Submsg gdt_client_metrics_LogEventDropped_no)]"

definition gdt_client_metrics_StorageMetrics_fields :: "pb_field list" where
  "gdt_client_metrics_StorageMetrics_fields = [
    PB_FIELD 1 INT64 SINGULAR STATIC FIRST gdt_client_metrics_StorageMetrics ''current_cache_size_bytes''
      ''current_cache_size_bytes'' Null,
    PB_FIELD 2 INT64 SINGULAR STATIC OTHER gdt_client_metrics_StorageMetrics ''max_cache_size_bytes''
      ''current_cache_size_bytes'' Null]"

definition gdt_client_metrics_TimeWindow_fields :: "pb_field list" where
  "gdt_client_metrics_TimeWindow_fields = [
    PB_FIELD 1 INT64 SINGULAR STATIC FIRST gdt_client_metrics_TimeWindow ''start_ms''
      ''start_ms'' Null,
    PB_FIELD 2 INT64 SINGULAR STATIC OTHER gdt_client_metrics_TimeWindow ''end_ms''
      ''start_ms'' Null]"

definition gdt_client_metrics_GlobalMetrics_fields :: "pb_field list" where
  "gdt_client_metrics_GlobalMetrics_fields = [
    PB_FIELD 1 MESSAGE SINGULAR STATIC FIRST gdt_client_metrics_GlobalMetrics ''storage_metrics''
      ''storage_metrics'' (Submsg gdt_client_metrics_StorageMetrics_no)]"

definition gdt_client_metrics_ClientMetrics_fields :: "pb_field list" where
  "gdt_client_metrics_ClientMetrics_fields = [
    PB_FIELD 1 MESSAGE SINGULAR STATIC FIRST gdt_client_metrics_ClientMetrics ''window''
      ''window'' (Submsg gdt_client_metrics_TimeWindow_no),
    PB_FIELD 2 MESSAGE REPEATED POINTER OTHER gdt_client_metrics_ClientMetrics ''log_source_metrics''
      ''window'' (Submsg gdt_client_metrics_LogSourceMetrics_no),
    PB_FIELD 3 MESSAGE SINGULAR STATIC OTHER gdt_client_metrics_ClientMetrics ''global_metrics''
      ''log_source_metrics'' (Submsg gdt_client_metrics_GlobalMetrics_no),
    PB_FIELD 4 BYTES SINGULAR POINTER OTHER gdt_client_metrics_ClientMetrics ''app_namespace''
      ''global_metrics'' Null]"

definition fm_MessagingClientEvent_fields :: "pb_field list" where
  "fm_MessagingClientEvent_fields = [
    PB_FIELD 1 INT64 SINGULAR STATIC FIRST fm_MessagingClientEvent ''project_number''
      ''project_number'' Null,
    PB_FIELD 2 BYTES SINGULAR POINTER OTHER fm_MessagingClientEvent ''message_id''
      ''project_number'' Null,
    PB_FIELD 3 BYTES SINGULAR POINTER OTHER fm_MessagingClientEvent ''instance_id''
      ''message_id'' Null,
    PB_FIELD 4 UENUM SINGULAR STATIC OTHER fm_MessagingClientEvent ''message_type''
      ''instance_id'' Null,
    PB_FIELD 5 UENUM SINGULAR STATIC OTHER fm_MessagingClientEvent ''sdk_platform''
      ''message_type'' Null,
    PB_FIELD 6 BYTES SINGULAR POINTER OTHER fm_MessagingClientEvent ''package_name''
      ''sdk_platform'' Null,
    PB_FIELD 12 UENUM SINGULAR STATIC OTHER fm_MessagingClientEvent ''event''
      ''package_name'' Null,
    PB_FIELD 13 BYTES SINGULAR POINTER OTHER fm_MessagingClientEvent ''analytics_label''
      ''event'' Null,
    PB_FIELD 14 INT64 SINGULAR STATIC OTHER fm_MessagingClientEvent ''campaign_id''
      ''analytics_label'' Null,
    PB_FIELD 15 BYTES SINGULAR POINTER OTHER fm_MessagingClientEvent ''composer_label''
      ''campaign_id'' Null]"

definition fm_MessagingClientEventExtension_fields :: "pb_field list" where
  "fm_MessagingClientEventExtension_fields = [
    PB_FIELD 1 MESSAGE SINGULAR POINTER FIRST fm_MessagingClientEventExtension ''messaging_client_event''
      ''messaging_client_event'' (Submsg fm_MessagingClientEvent_no)]"

text \<open>Every telemetry message type: its structure, its descriptor array, and the members the entries describe.\<close>

definition telemetry_messages :: "(ctype \<times> pb_field list \<times> string list) list" where
  "telemetry_messages = [
    (privacy_context_external_ExternalPRequestContext, privacy_context_external_ExternalPRequestContext_fields,
      [''origin_associated_product_id'']),
    (privacy_context_external_ExternalPrivacyContext, privacy_context_external_ExternalPrivacyContext_fields,
      [''prequest'']),
    (gdt_cct_ComplianceData, gdt_cct_ComplianceData_fields,
      [''privacy_context'', ''product_id_origin'']),
    (gdt_cct_IosClientInfo, gdt_cct_IosClientInfo_fields,
      [''os_major_version'', ''os_full_version'', ''application_build'', ''country'', ''model'', ''language_code'', ''application_bundle_id'']),
    (gdt_cct_MacClientInfo, gdt_cct_MacClientInfo_fields,
      [''os_major_version'', ''os_full_version'', ''application_build'', ''application_bundle_id'']),
    (gdt_cct_ClientInfo, gdt_cct_ClientInfo_fields,
      [''client_type'', ''ios_client_info'', ''mac_client_info'']),
    (gdt_cct_NetworkConnectionInfo, gdt_cct_NetworkConnectionInfo_fields,
      [''network_type'', ''mobile_subtype'']),
    (gdt_cct_LogEvent, gdt_cct_LogEvent_fields,
      [''event_time_ms'', ''source_extension'', ''event_code'', ''timezone_offset_seconds'', ''event_uptime_ms'', ''network_connection_info'', ''compliance_data'']),
    (gdt_cct_LogRequest, gdt_cct_LogRequest_fields,
      [''client_info'', ''log_source'', ''log_event'', ''request_time_ms'', ''request_uptime_ms'', ''qos_tier'']),
    (gdt_cct_BatchedLogRequest, gdt_cct_BatchedLogRequest_fields,
      [''log_request'']),
    (gdt_cct_QosTierConfiguration, gdt_cct_QosTierConfiguration_fields,
      [''qos_tier'', ''log_source'']),
    (gdt_cct_QosTiersOverride, gdt_cct_QosTiersOverride_fields,
      [''qos_tier_configuration'', ''qos_tier_fingerprint'']),
    (gdt_cct_LogResponse, gdt_cct_LogResponse_fields,
      [''next_request_wait_millis'', ''qos_tier'']),
    (gdt_client_metrics_LogEventDropped, gdt_client_metrics_LogEventDropped_fields,
      [''events_dropped_count'', ''reason'']),
    (gdt_client_metrics_LogSourceMetrics, gdt_client_metrics_LogSourceMetrics_fields,
      [''log_source'', ''log_event_dropped'']),
    (gdt_client_metrics_StorageMetrics, gdt_client_metrics_StorageMetrics_fields,
      [''current_cache_size_bytes'', ''max_cache_size_bytes'']),
    (gdt_client_metrics_TimeWindow, gdt_client_metrics_TimeWindow_fields,
      [''start_ms'', ''end_ms'']),
    (gdt_client_metrics_GlobalMetrics, gdt_client_metrics_GlobalMetrics_fields,
      [''storage_metrics'']),
    (gdt_client_metrics_ClientMetrics, gdt_client_metrics_ClientMetrics_fields,
      [''window'', ''log_source_metrics'', ''global_metrics'', ''app_namespace'']),
    (fm_MessagingClientEvent, fm_MessagingClientEvent_fields,
      [''project_number'', ''message_id'', ''instance_id'', ''message_type'', ''sdk_platform'', ''package_name'', ''event'', ''analytics_label'', ''campaign_id'', ''composer_label'']),
    (fm_MessagingClientEventExtension, fm_MessagingClientEventExtension_fields,
      [''messaging_client_event''])]"

section \<open>The descriptors as the compiler evaluates them\<close>

lemma privacy_context_external_ExternalPRequestContext_eval [code]:
  "privacy_context_external_ExternalPRequestContext_fields = [
    \<lparr>tag = 13, ftype = 0x11, data_offset = 4, size_offset = - 4, data_size = 4, array_size = 0, ptr = Null\<rparr>]"
  by code_simp

lemma privacy_context_external_ExternalPrivacyContext_eval [code]:
  "privacy_context_external_ExternalPrivacyContext_fields = [
    \<lparr>tag = 2, ftype = 0x18, data_offset = 4, size_offset = - 4, data_size = 8, array_size = 0, ptr = Submsg 0\<rparr>]"
  by code_simp

lemma gdt_cct_ComplianceData_eval [code]:
  "gdt_cct_ComplianceData_fields = [
    \<lparr>tag = 1, ftype = 0x18, data_offset = 4, size_offset = - 4, data_size = 12, array_size = 0, ptr = Submsg 1\<rparr>,
    \<lparr>tag = 2, ftype = 0x12, data_offset = 4, size_offset = - 4, data_size = 4, array_size = 0, ptr = Default gdt_cct_ComplianceData_product_id_origin_default\<rparr>]"
  by code_simp

lemma gdt_cct_IosClientInfo_eval [code]:
  "gdt_cct_IosClientInfo_fields = [
    \<lparr>tag = 3, ftype = 0x96, data_offset = 0, size_offset = 0, data_size = 8, array_size = 0, ptr = Null\<rparr>,
    \<lparr>tag = 4, ftype = 0x96, data_offset = 0, size_offset = 0, data_size = 8, array_size = 0, ptr = Null\<rparr>,
    \<lparr>tag = 5, ftype = 0x96, data_offset = 0, size_offset = 0, data_size = 8, array_size = 0, ptr = Null\<rparr>,
    \<lparr>tag = 6, ftype = 0x96, data_offset = 0, size_offset = 0, data_size = 8, array_size = 0, ptr = Null\<rparr>,
    \<lparr>tag = 7, ftype = 0x96, data_offset = 0, size_offset = 0, data_size = 8, array_size = 0, ptr = Null\<rparr>,
    \<lparr>tag = 8, ftype = 0x96, data_offset = 0, size_offset = 0, data_size = 8, array_size = 0, ptr = Null\<rparr>,
    \<lparr>tag = 11, ftype = 0x96, data_offset = 0, size_offset = 0, data_size = 8, array_size = 0, ptr = Null\<rparr>]"
  by code_simp

lemma gdt_cct_MacClientInfo_eval [code]:
  "gdt_cct_MacClientInfo_fields = [
    \<lparr>tag = 1, ftype = 0x96, data_offset = 0, size_offset = 0, data_size = 8, array_size = 0, ptr = Null\<rparr>,
    \<lparr>tag = 2, ftype = 0x96, data_offset = 0, size_offset = 0, data_size = 8, array_size = 0, ptr = Null\<rparr>,
    \<lparr>tag = 3, ftype = 0x96, data_offset = 0, size_offset = 0, data_size = 8, array_size = 0, ptr = Null\<rparr>,
    \<lparr>tag = 7, ftype = 0x96, data_offset = 0, size_offset = 0, data_size = 8, array_size = 0, ptr = Null\<rparr>]"
  by code_simp

lemma gdt_cct_ClientInfo_eval [code]:
  "gdt_cct_ClientInfo_fields = [
    \<lparr>tag = 1, ftype = 0x12, data_offset = 4, size_offset = - 4, data_size = 4, array_size = 0, ptr = Null\<rparr>,
    \<lparr>tag = 4, ftype = 0x18, data_offset = 8, size_offset = - 8, data_size = 56, array_size = 0, ptr = Submsg 3\<rparr>,
    \<lparr>tag = 13, ftype = 0x18, data_offset = 8, size_offset = - 8, data_size = 32, array_size = 0, ptr = Submsg 4\<rparr>]"
  by code_simp

lemma gdt_cct_NetworkConnectionInfo_eval [code]:
  "gdt_cct_NetworkConnectionInfo_fields = [
    \<lparr>tag = 1, ftype = 0x11, data_offset = 4, size_offset = - 4, data_size = 4, array_size = 0, ptr = Default gdt_cct_NetworkConnectionInfo_network_type_default\<rparr>,
    \<lparr>tag = 2, ftype = 0x12, data_offset = 4, size_offset = - 4, data_size = 4, array_size = 0, ptr = Default gdt_cct_NetworkConnectionInfo_mobile_subtype_default\<rparr>]"
  by code_simp

lemma gdt_cct_LogEvent_eval [code]:
  "gdt_cct_LogEvent_fields = [
    \<lparr>tag = 1, ftype = 0x11, data_offset = 8, size_offset = - 8, data_size = 8, array_size = 0, ptr = Null\<rparr>,
    \<lparr>tag = 6, ftype = 0x96, data_offset = 0, size_offset = 0, data_size = 8, array_size = 0, ptr = Null\<rparr>,
    \<lparr>tag = 11, ftype = 0x11, data_offset = 4, size_offset = - 4, data_size = 4, array_size = 0, ptr = Null\<rparr>,
    \<lparr>tag = 15, ftype = 0x13, data_offset = 8, size_offset = - 8, data_size = 8, array_size = 0, ptr = Null\<rparr>,
    \<lparr>tag = 17, ftype = 0x11, data_offset = 8, size_offset = - 8, data_size = 8, array_size = 0, ptr = Null\<rparr>,
    \<lparr>tag = 23, ftype = 0x18, data_offset = 4, size_offset = - 4, data_size = 16, array_size = 0, ptr = Submsg 6\<rparr>,
    \<lparr>tag = 33, ftype = 0x18, data_offset = 4, size_offset = - 4, data_size = 24, array_size = 0, ptr = Submsg 2\<rparr>]"
  by code_simp

lemma gdt_cct_LogRequest_eval [code]:
  "gdt_cct_LogRequest_fields = [
    \<lparr>tag = 1, ftype = 0x18, data_offset = 8, size_offset = - 8, data_size = 112, array_size = 0, ptr = Submsg 5\<rparr>,
    \<lparr>tag = 2, ftype = 0x11, data_offset = 4, size_offset = - 4, data_size = 4, array_size = 0, ptr = Null\<rparr>,
    \<lparr>tag = 3, ftype = 0xA8, data_offset = 8, size_offset = - 8, data_size = 112, array_size = 0, ptr = Submsg 7\<rparr>,
    \<lparr>tag = 4, ftype = 0x11, data_offset = 8, size_offset = - 8, data_size = 8, array_size = 0, ptr = Null\<rparr>,
    \<lparr>tag = 8, ftype = 0x11, data_offset = 8, size_offset = - 8, data_size = 8, array_size = 0, ptr = Null\<rparr>,
    \<lparr>tag = 9, ftype = 0x12, data_offset = 4, size_offset = - 4, data_size = 4, array_size = 0, ptr = Default gdt_cct_LogRequest_qos_tier_default\<rparr>]"
  by code_simp

lemma gdt_cct_BatchedLogRequest_eval [code]:
  "gdt_cct_BatchedLogRequest_fields = [
    \<lparr>tag = 1, ftype = 0xA8, data_offset = 8, size_offset = - 8, data_size = 184, array_size = 0, ptr = Submsg 8\<rparr>]"
  by code_simp

lemma gdt_cct_QosTierConfiguration_eval [code]:
  "gdt_cct_QosTierConfiguration_fields = [
    \<lparr>tag = 2, ftype = 0x12, data_offset = 4, size_offset = - 4, data_size = 4, array_size = 0, ptr = Null\<rparr>,
    \<lparr>tag = 3, ftype = 0x11, data_offset = 4, size_offset = - 4, data_size = 4, array_size = 0, ptr = Default gdt_cct_QosTierConfiguration_log_source_default\<rparr>]"
  by code_simp

lemma gdt_cct_QosTiersOverride_eval [code]:
  "gdt_cct_QosTiersOverride_fields = [
    \<lparr>tag = 1, ftype = 0xA8, data_offset = 8, size_offset = - 8, data_size = 16, array_size = 0, ptr = Submsg 10\<rparr>,
    \<lparr>tag = 2, ftype = 0x11, data_offset = 8, size_offset = - 8, data_size = 8, array_size = 0, ptr = Null\<rparr>]"
  by code_simp

lemma gdt_cct_LogResponse_eval [code]:
  "gdt_cct_LogResponse_fields = [
    \<lparr>tag = 1, ftype = 0x11, data_offset = 8, size_offset = - 8, data_size = 8, array_size = 0, ptr = Null\<rparr>,
    \<lparr>tag = 3, ftype = 0x18, data_offset = 8, size_offset = - 8, data_size = 32, array_size = 0, ptr = Submsg 11\<rparr>]"
  by code_simp

lemma gdt_client_metrics_LogEventDropped_eval [code]:
  "gdt_client_metrics_LogEventDropped_fields = [
    \<lparr>tag = 1, ftype = 0x11, data_offset = 0, size_offset = 0, data_size = 8, array_size = 0, ptr = Null\<rparr>,
    \<lparr>tag = 3, ftype = 0x12, data_offset = 0, size_offset = 0, data_size = 4, array_size = 0, ptr = Null\<rparr>]"
  by code_simp

lemma gdt_client_metrics_LogSourceMetrics_eval [code]:
  "gdt_client_metrics_LogSourceMetrics_fields = [
    \<lparr>tag = 1, ftype = 0x96, data_offset = 0, size_offset = 0, data_size = 8, array_size = 0, ptr = Null\<rparr>,
    \<lparr>tag = 2, ftype = 0xA8, data_offset = 8, size_offset = - 8, data_size = 16, array_size = 0, ptr = Submsg 13\<rparr>]"
  by code_simp

lemma gdt_client_metrics_StorageMetrics_eval [code]:
  "gdt_client_metrics_StorageMetrics_fields = [
    \<lparr>tag = 1, ftype = 0x11, data_offset = 0, size_offset = 0, data_size = 8, array_size = 0, ptr = Null\<rparr>,
    \<lparr>tag = 2, ftype = 0x11, data_offset = 0, size_offset = 0, data_size = 8, array_size = 0, ptr = Null\<rparr>]"
  by code_simp

lemma gdt_client_metrics_TimeWindow_eval [code]:
  "gdt_client_metrics_TimeWindow_fields = [
    \<lparr>tag = 1, ftype = 0x11, data_offset = 0, size_offset = 0, data_size = 8, array_size = 0, ptr = Null\<rparr>,
    \<lparr>tag = 2, ftype = 0x11, data_offset = 0, size_offset = 0, data_size = 8, array_size = 0, ptr = Null\<rparr>]"
  by code_simp

lemma gdt_client_metrics_GlobalMetrics_eval [code]:
  "gdt_client_metrics_GlobalMetrics_fields = [
    \<lparr>tag = 1, ftype = 0x18, data_offset = 0, size_offset = 0, data_size = 16, array_size = 0, ptr = Submsg 15\<rparr>]"
  by code_simp

lemma gdt_client_metrics_ClientMetrics_eval [code]:
  "gdt_client_metrics_ClientMetrics_fields = [
    \<lparr>tag = 1, ftype = 0x18, data_offset = 0, size_offset = 0, data_size = 16, array_size = 0, ptr = Submsg 16\<rparr>,
    \<lparr>tag = 2, ftype = 0xA8, data_offset = 8, size_offset = - 8, data_size = 24, array_size = 0, ptr = Submsg 14\<rparr>,
    \<lparr>tag = 3, ftype = 0x18, data_offset = 0, size_offset = 0, data_size = 16, array_size = 0, ptr = Submsg 17\<rparr>,
    \<lparr>tag = 4, ftype = 0x96, data_offset = 0, size_offset = 0, data_size = 8, array_size = 0, ptr = Null\<rparr>]"
  by code_simp

lemma fm_MessagingClientEvent_eval [code]:
  "fm_MessagingClientEvent_fields = [
    \<lparr>tag = 1, ftype = 0x11, data_offset = 0, size_offset = 0, data_size = 8, array_size = 0, ptr = Null\<rparr>,
    \<lparr>tag = 2, ftype = 0x96, data_offset = 0, size_offset = 0, data_size = 8, array_size = 0, ptr = Null\<rparr>,
    \<lparr>tag = 3, ftype = 0x96, data_offset = 0, size_offset = 0, data_size = 8, array_size = 0, ptr = Null\<rparr>,
    \<lparr>tag = 4, ftype = 0x12, data_offset = 0, size_offset = 0, data_size = 4, array_size = 0, ptr = Null\<rparr>,
    \<lparr>tag = 5, ftype = 0x12, data_offset = 0, size_offset = 0, data_size = 4, array_size = 0, ptr = Null\<rparr>,
    \<lparr>tag = 6, ftype = 0x96, data_offset = 0, size_offset = 0, data_size = 8, array_size = 0, ptr = Null\<rparr>,
    \<lparr>tag = 12, ftype = 0x12, data_offset = 0, size_offset = 0, data_size = 4, array_size = 0, ptr = Null\<rparr>,
    \<lparr>tag = 13, ftype = 0x96, data_offset = 4, size_offset = 0, data_size = 8, array_size = 0, ptr = Null\<rparr>,
    \<lparr>tag = 14, ftype = 0x11, data_offset = 0, size_offset = 0, data_size = 8, array_size = 0, ptr = Null\<rparr>,
    \<lparr>tag = 15, ftype = 0x96, data_offset = 0, size_offset = 0, data_size = 8, array_size = 0, ptr = Null\<rparr>]"
  by code_simp

lemma fm_MessagingClientEventExtension_eval [code]:
  "fm_MessagingClientEventExtension_fields = [
    \<lparr>tag = 1, ftype = 0x98, data_offset = 0, size_offset = 0, data_size = 72, array_size = 0, ptr = Submsg 19\<rparr>]"
  by code_simp

end
