(* ===== verification/PbFirestore.thy ===== *)
theory PbFirestore
  imports PbTables
begin

text \<open>
  The message types of Firestore that hold no pointer, however deep, and have a field: their generated structures and
  descriptor arrays, two of them with a oneof (\<open>timestamp.nanopb\<close>, \<open>latlng.nanopb\<close>, \<open>wrappers.nanopb\<close>, \<open>common.nanopb\<close>, \<open>query.nanopb\<close>
  and \<open>target.nanopb\<close> under \<open>FirebaseFirestoreInternal/Firestore/Protos/nanopb\<close>; the structures are C++, with
  functions that print them but no virtual ones, so that they are laid out as in C). The list of the modelled
  messages, the telemetry ones and these, and the proof that the iterator finds their members where the
  structures have them.
\<close>

section \<open>Member types\<close>

definition c_uint32 :: ctype where "c_uint32 = Scalar 4"
definition c_uint64 :: ctype where "c_uint64 = Scalar 8"
definition c_float :: ctype where "c_float = Scalar 4"
definition c_double :: ctype where "c_double = Scalar 8"

section \<open>Structures\<close>

definition google_protobuf_Timestamp :: ctype where
  "google_protobuf_Timestamp = c_struct [(''seconds'', c_int64), (''nanos'', c_int32)]"

definition google_type_LatLng :: ctype where
  "google_type_LatLng = c_struct [(''latitude'', c_double), (''longitude'', c_double)]"

definition google_protobuf_DoubleValue :: ctype where
  "google_protobuf_DoubleValue = c_struct [(''value'', c_double)]"

definition google_protobuf_FloatValue :: ctype where
  "google_protobuf_FloatValue = c_struct [(''value'', c_float)]"

definition google_protobuf_Int64Value :: ctype where
  "google_protobuf_Int64Value = c_struct [(''value'', c_int64)]"

definition google_protobuf_UInt64Value :: ctype where
  "google_protobuf_UInt64Value = c_struct [(''value'', c_uint64)]"

definition google_protobuf_Int32Value :: ctype where
  "google_protobuf_Int32Value = c_struct [(''value'', c_int32)]"

definition google_protobuf_UInt32Value :: ctype where
  "google_protobuf_UInt32Value = c_struct [(''value'', c_uint32)]"

definition google_protobuf_BoolValue :: ctype where
  "google_protobuf_BoolValue = c_struct [(''value'', c_bool)]"

definition google_firestore_v1_Precondition :: ctype where
  "google_firestore_v1_Precondition = c_struct [(''which_condition_type'', c_pb_size_t),
     (anonymous, c_union [(''exists'', c_bool), (''update_time'', google_protobuf_Timestamp)])]"

definition google_firestore_v1_TransactionOptions_ReadOnly :: ctype where
  "google_firestore_v1_TransactionOptions_ReadOnly = c_struct [(''which_consistency_selector'', c_pb_size_t),
     (anonymous, c_union [(''read_time'', google_protobuf_Timestamp)])]"

definition google_firestore_v1_StructuredAggregationQuery_Aggregation_Count :: ctype where
  "google_firestore_v1_StructuredAggregationQuery_Aggregation_Count = c_struct [(''up_to'', google_protobuf_Int64Value)]"

definition firestore_client_TargetGlobal :: ctype where
  "firestore_client_TargetGlobal = c_struct [(''highest_target_id'', c_int32),
     (''highest_listen_sequence_number'', c_int64),
     (''last_remote_snapshot_version'', google_protobuf_Timestamp),
     (''target_count'', c_int32)]"

section \<open>Descriptor arrays\<close>

text \<open>The numbers of the arrays, behind those of the telemetry messages.\<close>

definition google_protobuf_Timestamp_no :: nat where [simp]: "google_protobuf_Timestamp_no = 21"
definition google_type_LatLng_no :: nat where [simp]: "google_type_LatLng_no = 22"
definition google_protobuf_DoubleValue_no :: nat where [simp]: "google_protobuf_DoubleValue_no = 23"
definition google_protobuf_FloatValue_no :: nat where [simp]: "google_protobuf_FloatValue_no = 24"
definition google_protobuf_Int64Value_no :: nat where [simp]: "google_protobuf_Int64Value_no = 25"
definition google_protobuf_UInt64Value_no :: nat where [simp]: "google_protobuf_UInt64Value_no = 26"
definition google_protobuf_Int32Value_no :: nat where [simp]: "google_protobuf_Int32Value_no = 27"
definition google_protobuf_UInt32Value_no :: nat where [simp]: "google_protobuf_UInt32Value_no = 28"
definition google_protobuf_BoolValue_no :: nat where [simp]: "google_protobuf_BoolValue_no = 29"
definition google_firestore_v1_Precondition_no :: nat where [simp]: "google_firestore_v1_Precondition_no = 30"
definition google_firestore_v1_TransactionOptions_ReadOnly_no :: nat where [simp]: "google_firestore_v1_TransactionOptions_ReadOnly_no = 31"
definition google_firestore_v1_StructuredAggregationQuery_Aggregation_Count_no :: nat where [simp]: "google_firestore_v1_StructuredAggregationQuery_Aggregation_Count_no = 32"
definition firestore_client_TargetGlobal_no :: nat where [simp]: "firestore_client_TargetGlobal_no = 33"

definition google_protobuf_Timestamp_fields :: "pb_field list" where
  "google_protobuf_Timestamp_fields = [
    PB_FIELD 1 INT64 SINGULAR STATIC FIRST google_protobuf_Timestamp ''seconds''
      ''seconds'' Null,
    PB_FIELD 2 INT32 SINGULAR STATIC OTHER google_protobuf_Timestamp ''nanos''
      ''seconds'' Null]"

definition google_type_LatLng_fields :: "pb_field list" where
  "google_type_LatLng_fields = [
    PB_FIELD 1 DOUBLE SINGULAR STATIC FIRST google_type_LatLng ''latitude''
      ''latitude'' Null,
    PB_FIELD 2 DOUBLE SINGULAR STATIC OTHER google_type_LatLng ''longitude''
      ''latitude'' Null]"

definition google_protobuf_DoubleValue_fields :: "pb_field list" where
  "google_protobuf_DoubleValue_fields = [
    PB_FIELD 1 DOUBLE SINGULAR STATIC FIRST google_protobuf_DoubleValue ''value''
      ''value'' Null]"

definition google_protobuf_FloatValue_fields :: "pb_field list" where
  "google_protobuf_FloatValue_fields = [
    PB_FIELD 1 FLOAT SINGULAR STATIC FIRST google_protobuf_FloatValue ''value''
      ''value'' Null]"

definition google_protobuf_Int64Value_fields :: "pb_field list" where
  "google_protobuf_Int64Value_fields = [
    PB_FIELD 1 INT64 SINGULAR STATIC FIRST google_protobuf_Int64Value ''value''
      ''value'' Null]"

definition google_protobuf_UInt64Value_fields :: "pb_field list" where
  "google_protobuf_UInt64Value_fields = [
    PB_FIELD 1 UINT64 SINGULAR STATIC FIRST google_protobuf_UInt64Value ''value''
      ''value'' Null]"

definition google_protobuf_Int32Value_fields :: "pb_field list" where
  "google_protobuf_Int32Value_fields = [
    PB_FIELD 1 INT32 SINGULAR STATIC FIRST google_protobuf_Int32Value ''value''
      ''value'' Null]"

definition google_protobuf_UInt32Value_fields :: "pb_field list" where
  "google_protobuf_UInt32Value_fields = [
    PB_FIELD 1 UINT32 SINGULAR STATIC FIRST google_protobuf_UInt32Value ''value''
      ''value'' Null]"

definition google_protobuf_BoolValue_fields :: "pb_field list" where
  "google_protobuf_BoolValue_fields = [
    PB_FIELD 1 BOOL SINGULAR STATIC FIRST google_protobuf_BoolValue ''value''
      ''value'' Null]"

definition google_firestore_v1_Precondition_fields :: "pb_field list" where
  "google_firestore_v1_Precondition_fields = [
    PB_ANONYMOUS_ONEOF_FIELD ''condition_type'' 1 BOOL True FIRST google_firestore_v1_Precondition ''exists''
      ''exists'' Null,
    PB_ANONYMOUS_ONEOF_FIELD ''condition_type'' 2 MESSAGE True UNION google_firestore_v1_Precondition ''update_time''
      ''update_time'' (Submsg google_protobuf_Timestamp_no)]"

definition google_firestore_v1_TransactionOptions_ReadOnly_fields :: "pb_field list" where
  "google_firestore_v1_TransactionOptions_ReadOnly_fields = [
    PB_ANONYMOUS_ONEOF_FIELD ''consistency_selector'' 2 MESSAGE True FIRST google_firestore_v1_TransactionOptions_ReadOnly ''read_time''
      ''read_time'' (Submsg google_protobuf_Timestamp_no)]"

definition google_firestore_v1_StructuredAggregationQuery_Aggregation_Count_fields :: "pb_field list" where
  "google_firestore_v1_StructuredAggregationQuery_Aggregation_Count_fields = [
    PB_FIELD 1 MESSAGE SINGULAR STATIC FIRST google_firestore_v1_StructuredAggregationQuery_Aggregation_Count ''up_to''
      ''up_to'' (Submsg google_protobuf_Int64Value_no)]"

definition firestore_client_TargetGlobal_fields :: "pb_field list" where
  "firestore_client_TargetGlobal_fields = [
    PB_FIELD 1 INT32 SINGULAR STATIC FIRST firestore_client_TargetGlobal ''highest_target_id''
      ''highest_target_id'' Null,
    PB_FIELD 2 INT64 SINGULAR STATIC OTHER firestore_client_TargetGlobal ''highest_listen_sequence_number''
      ''highest_target_id'' Null,
    PB_FIELD 3 MESSAGE SINGULAR STATIC OTHER firestore_client_TargetGlobal ''last_remote_snapshot_version''
      ''highest_listen_sequence_number'' (Submsg google_protobuf_Timestamp_no),
    PB_FIELD 4 INT32 SINGULAR STATIC OTHER firestore_client_TargetGlobal ''target_count''
      ''last_remote_snapshot_version'' Null]"

text \<open>
  Every modelled message type: its structure, its descriptor array, and for each entry the member it describes and
  the member with its count, its \<open>has_\<close> flag or the tag of its oneof. A member without one of these (\<open>SINGULAR\<close>, or an
  optional pointer) stands there itself, which is how the library recognises the case.
\<close>

definition firestore_messages :: "(ctype \<times> pb_field list \<times> (string \<times> string) list) list" where
  "firestore_messages = [
    (google_protobuf_Timestamp, google_protobuf_Timestamp_fields,
      [(''seconds'', ''seconds''), (''nanos'', ''nanos'')]),
    (google_type_LatLng, google_type_LatLng_fields,
      [(''latitude'', ''latitude''), (''longitude'', ''longitude'')]),
    (google_protobuf_DoubleValue, google_protobuf_DoubleValue_fields,
      [(''value'', ''value'')]),
    (google_protobuf_FloatValue, google_protobuf_FloatValue_fields,
      [(''value'', ''value'')]),
    (google_protobuf_Int64Value, google_protobuf_Int64Value_fields,
      [(''value'', ''value'')]),
    (google_protobuf_UInt64Value, google_protobuf_UInt64Value_fields,
      [(''value'', ''value'')]),
    (google_protobuf_Int32Value, google_protobuf_Int32Value_fields,
      [(''value'', ''value'')]),
    (google_protobuf_UInt32Value, google_protobuf_UInt32Value_fields,
      [(''value'', ''value'')]),
    (google_protobuf_BoolValue, google_protobuf_BoolValue_fields,
      [(''value'', ''value'')]),
    (google_firestore_v1_Precondition, google_firestore_v1_Precondition_fields,
      [(''exists'', ''which_condition_type''), (''update_time'', ''which_condition_type'')]),
    (google_firestore_v1_TransactionOptions_ReadOnly, google_firestore_v1_TransactionOptions_ReadOnly_fields,
      [(''read_time'', ''which_consistency_selector'')]),
    (google_firestore_v1_StructuredAggregationQuery_Aggregation_Count, google_firestore_v1_StructuredAggregationQuery_Aggregation_Count_fields,
      [(''up_to'', ''up_to'')]),
    (firestore_client_TargetGlobal, firestore_client_TargetGlobal_fields,
      [(''highest_target_id'', ''highest_target_id''),
       (''highest_listen_sequence_number'', ''highest_listen_sequence_number''),
       (''last_remote_snapshot_version'', ''last_remote_snapshot_version''), (''target_count'', ''target_count'')])]"

definition flag_name :: "ctype \<Rightarrow> string \<Rightarrow> string" where
  "flag_name st m = (if member (members st) 0 (''has_'' @ m) \<noteq> None then ''has_'' @ m
     else if member (members st) 0 (m @ ''_count'') \<noteq> None then m @ ''_count'' else m)"

definition app_messages :: "(ctype \<times> pb_field list \<times> (string \<times> string) list) list" where
  "app_messages = map (\<lambda>(st, fs, ms). (st, fs, map (\<lambda>m. (m, flag_name st m)) ms)) telemetry_messages @ firestore_messages"

text \<open>The descriptor arrays by their numbers.\<close>

definition app_descs :: "nat \<Rightarrow> pb_field list" where
  "app_descs i = (map (\<lambda>(st, fs, ms). fs) telemetry_messages @ map (\<lambda>(st, fs, ms). fs) firestore_messages) ! i"

section \<open>The descriptors as the compiler evaluates them\<close>


lemma google_protobuf_Timestamp_eval [code]:
  "google_protobuf_Timestamp_fields = [
    \<lparr>tag = 1, ftype = 0x11, data_offset = 0, size_offset = 0, data_size = 8, array_size = 0, ptr = Null\<rparr>,
    \<lparr>tag = 2, ftype = 0x11, data_offset = 0, size_offset = 0, data_size = 4, array_size = 0, ptr = Null\<rparr>]"
  by code_simp

lemma google_type_LatLng_eval [code]:
  "google_type_LatLng_fields = [
    \<lparr>tag = 1, ftype = 0x15, data_offset = 0, size_offset = 0, data_size = 8, array_size = 0, ptr = Null\<rparr>,
    \<lparr>tag = 2, ftype = 0x15, data_offset = 0, size_offset = 0, data_size = 8, array_size = 0, ptr = Null\<rparr>]"
  by code_simp

lemma google_protobuf_DoubleValue_eval [code]:
  "google_protobuf_DoubleValue_fields = [
    \<lparr>tag = 1, ftype = 0x15, data_offset = 0, size_offset = 0, data_size = 8, array_size = 0, ptr = Null\<rparr>]"
  by code_simp

lemma google_protobuf_FloatValue_eval [code]:
  "google_protobuf_FloatValue_fields = [
    \<lparr>tag = 1, ftype = 0x14, data_offset = 0, size_offset = 0, data_size = 4, array_size = 0, ptr = Null\<rparr>]"
  by code_simp

lemma google_protobuf_Int64Value_eval [code]:
  "google_protobuf_Int64Value_fields = [
    \<lparr>tag = 1, ftype = 0x11, data_offset = 0, size_offset = 0, data_size = 8, array_size = 0, ptr = Null\<rparr>]"
  by code_simp

lemma google_protobuf_UInt64Value_eval [code]:
  "google_protobuf_UInt64Value_fields = [
    \<lparr>tag = 1, ftype = 0x12, data_offset = 0, size_offset = 0, data_size = 8, array_size = 0, ptr = Null\<rparr>]"
  by code_simp

lemma google_protobuf_Int32Value_eval [code]:
  "google_protobuf_Int32Value_fields = [
    \<lparr>tag = 1, ftype = 0x11, data_offset = 0, size_offset = 0, data_size = 4, array_size = 0, ptr = Null\<rparr>]"
  by code_simp

lemma google_protobuf_UInt32Value_eval [code]:
  "google_protobuf_UInt32Value_fields = [
    \<lparr>tag = 1, ftype = 0x12, data_offset = 0, size_offset = 0, data_size = 4, array_size = 0, ptr = Null\<rparr>]"
  by code_simp

lemma google_protobuf_BoolValue_eval [code]:
  "google_protobuf_BoolValue_fields = [
    \<lparr>tag = 1, ftype = 0x10, data_offset = 0, size_offset = 0, data_size = 1, array_size = 0, ptr = Null\<rparr>]"
  by code_simp

lemma google_firestore_v1_Precondition_eval [code]:
  "google_firestore_v1_Precondition_fields = [
    \<lparr>tag = 1, ftype = 0x30, data_offset = 8, size_offset = - 8, data_size = 1, array_size = 0, ptr = Null\<rparr>,
    \<lparr>tag = 2, ftype = 0x38, data_offset = 0xFFFFFFFF, size_offset = - 8, data_size = 16, array_size = 0, ptr = Submsg 21\<rparr>]"
  by code_simp

lemma google_firestore_v1_TransactionOptions_ReadOnly_eval [code]:
  "google_firestore_v1_TransactionOptions_ReadOnly_fields = [
    \<lparr>tag = 2, ftype = 0x38, data_offset = 8, size_offset = - 8, data_size = 16, array_size = 0, ptr = Submsg 21\<rparr>]"
  by code_simp

lemma google_firestore_v1_StructuredAggregationQuery_Aggregation_Count_eval [code]:
  "google_firestore_v1_StructuredAggregationQuery_Aggregation_Count_fields = [
    \<lparr>tag = 1, ftype = 0x18, data_offset = 0, size_offset = 0, data_size = 8, array_size = 0, ptr = Submsg 25\<rparr>]"
  by code_simp

lemma firestore_client_TargetGlobal_eval [code]:
  "firestore_client_TargetGlobal_fields = [
    \<lparr>tag = 1, ftype = 0x11, data_offset = 0, size_offset = 0, data_size = 4, array_size = 0, ptr = Null\<rparr>,
    \<lparr>tag = 2, ftype = 0x11, data_offset = 4, size_offset = 0, data_size = 8, array_size = 0, ptr = Null\<rparr>,
    \<lparr>tag = 3, ftype = 0x18, data_offset = 0, size_offset = 0, data_size = 16, array_size = 0, ptr = Submsg 21\<rparr>,
    \<lparr>tag = 4, ftype = 0x11, data_offset = 0, size_offset = 0, data_size = 4, array_size = 0, ptr = Null\<rparr>]"
  by code_simp

section \<open>The descriptors agree with the structures\<close>

definition describes :: "pb_field list \<Rightarrow> ctype \<Rightarrow> (string \<times> string) list \<Rightarrow> bool" where
  "describes fs st ms \<longleftrightarrow> tags_ok fs \<and> length ms = length fs
     \<and> list_all (\<lambda>i. field_off fs i = of_nat (offsetof st (fst (ms ! i)))
          \<and> size_off fs i = of_nat (offsetof st (snd (ms ! i)))
          \<and> (if PB_ATYPE (ftype (fs ! i)) = PB_ATYPE_POINTER then csize (typeof st (fst (ms ! i))) = 8
             else csize (typeof st (fst (ms ! i))) = unat (data_size (fs ! i)))
          \<and> offsetof st (fst (ms ! i)) + csize (typeof st (fst (ms ! i))) \<le> csize st) [0..<length fs]"

lemma app_described: "list_all (\<lambda>(st, fs, ms). describes fs st ms) app_messages"
  by code_simp

text \<open>C31: For every modelled message type (the telemetry messages and the pointer-free ones of Firestore) the iterator of the library, run over the generated descriptors on a structure at any address, stands after any number of steps on the entry of the next member, round and round, with \<open>pData\<close> and \<open>pSize\<close> at the places where the compiler puts that member and its count, \<open>has_\<close> flag or oneof tag, and the member lies inside the structure; a member that is not a pointer has the size of its descriptor.
\<close>

theorem app_layout:
  assumes "(st, fs, ms) \<in> set app_messages" "dest \<noteq> 0"
  shows "let it = ((\<lambda>it. snd (pb_field_iter_next it)) ^^ k) (snd (pb_field_iter_begin iter0 fs dest));
           (m, flag) = ms ! (k mod length fs)
         in cur it = fs ! (k mod length fs) \<and> pData it = dest + of_nat (offsetof st m) \<and> pSize it = At (dest + of_nat (offsetof st flag))
           \<and> offsetof st m + csize (typeof st m) \<le> csize st
           \<and> (PB_ATYPE (ftype (cur it)) \<noteq> PB_ATYPE_POINTER \<longrightarrow> csize (typeof st m) = unat (data_size (cur it)))"
proof -
  have d: "describes fs st ms" using app_described assms(1) by (auto simp: list_all_iff)
  then have t: "tags_ok fs" by (simp add: describes_def)
  then have i: "k mod length fs < length fs" by (simp add: tags_ok_def)
  note s = after_steps [OF t assms(2), of k]
  have "cur (after_steps k fs dest) = fs ! (k mod length fs)" using cur_iter [OF s(1)] s(3,4) by simp
  moreover have "pData (after_steps k fs dest) = dest + field_off fs (k mod length fs)"
    "pSize (after_steps k fs dest) = At (dest + size_off fs (k mod length fs))"
    using s by (simp_all add: iter_ok_def own_size_def)
  ultimately show ?thesis using d i by (auto simp: describes_def list_all_length Let_def split: prod.split)
qed

lemma app_layout_witness:
  "let it = ((\<lambda>it. snd (pb_field_iter_next it)) ^^ 1) (snd (pb_field_iter_begin iter0 google_firestore_v1_Precondition_fields 0x1000));
       (m, flag) = [(''exists'', ''which_condition_type''), (''update_time'', ''which_condition_type'')] ! (1 mod length google_firestore_v1_Precondition_fields)
   in cur it = google_firestore_v1_Precondition_fields ! (1 mod length google_firestore_v1_Precondition_fields) \<and>
     pData it = 0x1000 + of_nat (offsetof google_firestore_v1_Precondition m) \<and> pSize it = At (0x1000 + of_nat (offsetof google_firestore_v1_Precondition flag))
     \<and> offsetof google_firestore_v1_Precondition m + csize (typeof google_firestore_v1_Precondition m) \<le> csize google_firestore_v1_Precondition
     \<and> (PB_ATYPE (ftype (cur it)) \<noteq> PB_ATYPE_POINTER \<longrightarrow> csize (typeof google_firestore_v1_Precondition m) = unat (data_size (cur it)))"
  by (rule app_layout) (simp_all add: app_messages_def firestore_messages_def)

end
