(* ===== verification/PbMessage.thy ===== *)
theory PbMessage
  imports PbSafe PbFirestore
begin

text \<open>
  Decoding as a whole: the memory safety and termination of \<open>pb_decode\<close> and its variants on every
  input, for message types whose fields are static, and the message types of the telemetry and of Firestore
  that are of that kind.
\<close>

section \<open>The static message types\<close>

text \<open>
  Nesting depth, structure and descriptors of the types that hold no pointer: nine of the telemetry messages, and
  thirteen of Firestore's. (Firestore's one other type without a pointer, \<open>google_protobuf_Empty\<close>, has no fields.)
\<close>

definition static_messages :: "(nat \<times> ctype \<times> pb_field list) list" where
  "static_messages = [
     (1, privacy_context_external_ExternalPRequestContext, privacy_context_external_ExternalPRequestContext_fields),
     (2, privacy_context_external_ExternalPrivacyContext, privacy_context_external_ExternalPrivacyContext_fields),
     (3, gdt_cct_ComplianceData, gdt_cct_ComplianceData_fields),
     (1, gdt_cct_NetworkConnectionInfo, gdt_cct_NetworkConnectionInfo_fields),
     (1, gdt_cct_QosTierConfiguration, gdt_cct_QosTierConfiguration_fields),
     (1, gdt_client_metrics_LogEventDropped, gdt_client_metrics_LogEventDropped_fields),
     (1, gdt_client_metrics_StorageMetrics, gdt_client_metrics_StorageMetrics_fields),
     (1, gdt_client_metrics_TimeWindow, gdt_client_metrics_TimeWindow_fields),
     (2, gdt_client_metrics_GlobalMetrics, gdt_client_metrics_GlobalMetrics_fields),
     (1, google_protobuf_Timestamp, google_protobuf_Timestamp_fields),
     (1, google_type_LatLng, google_type_LatLng_fields),
     (1, google_protobuf_DoubleValue, google_protobuf_DoubleValue_fields),
     (1, google_protobuf_FloatValue, google_protobuf_FloatValue_fields),
     (1, google_protobuf_Int64Value, google_protobuf_Int64Value_fields),
     (1, google_protobuf_UInt64Value, google_protobuf_UInt64Value_fields),
     (1, google_protobuf_Int32Value, google_protobuf_Int32Value_fields),
     (1, google_protobuf_UInt32Value, google_protobuf_UInt32Value_fields),
     (1, google_protobuf_BoolValue, google_protobuf_BoolValue_fields),
     (2, google_firestore_v1_Precondition, google_firestore_v1_Precondition_fields),
     (2, google_firestore_v1_TransactionOptions_ReadOnly, google_firestore_v1_TransactionOptions_ReadOnly_fields),
     (2, google_firestore_v1_StructuredAggregationQuery_Aggregation_Count, google_firestore_v1_StructuredAggregationQuery_Aggregation_Count_fields),
     (2, firestore_client_TargetGlobal, firestore_client_TargetGlobal_fields)]"

lemma app_descs_static:
  "app_descs 0 = privacy_context_external_ExternalPRequestContext_fields"
  "app_descs (Suc 0) = privacy_context_external_ExternalPrivacyContext_fields"
  "app_descs 15 = gdt_client_metrics_StorageMetrics_fields"
  "app_descs 21 = google_protobuf_Timestamp_fields"
  "app_descs 25 = google_protobuf_Int64Value_fields"
  by (simp_all add: app_descs_def telemetry_messages_def firestore_messages_def)

lemma default_lengths:
  "length gdt_cct_ComplianceData_product_id_origin_default = 4"
  "length gdt_cct_NetworkConnectionInfo_network_type_default = 4"
  "length gdt_cct_NetworkConnectionInfo_mobile_subtype_default = 4"
  "length gdt_cct_QosTierConfiguration_log_source_default = 4"
  by (simp_all add: gdt_cct_ComplianceData_product_id_origin_default_def
      gdt_cct_NetworkConnectionInfo_network_type_default_def gdt_cct_NetworkConnectionInfo_mobile_subtype_default_def
      gdt_cct_QosTierConfiguration_log_source_default_def)

lemmas desc_eval = static_ok_def width_ok_def Let_def data_span_def PB_LTYPE_def PB_HTYPE_def PB_ATYPE_def
  tags_ok_def same_union_def struct_size_def upt_rec app_descs_static default_lengths

lemma desc_R: "desc_ok E (Suc 0) privacy_context_external_ExternalPRequestContext_fields 8"
  by (subst desc_ok.simps) (simp add: privacy_context_external_ExternalPRequestContext_eval desc_eval  del: desc_ok.simps)

lemma desc_V: "descs E = app_descs \<Longrightarrow> desc_ok E (Suc (Suc 0)) privacy_context_external_ExternalPrivacyContext_fields 12"
  by (subst desc_ok.simps) (simp add: privacy_context_external_ExternalPrivacyContext_eval desc_eval desc_R del: desc_ok.simps)

lemma desc_C: "descs E = app_descs \<Longrightarrow> desc_ok E (Suc (Suc (Suc 0))) gdt_cct_ComplianceData_fields 24"
  by (subst desc_ok.simps) (simp add: gdt_cct_ComplianceData_eval desc_eval desc_V del: desc_ok.simps)

lemma desc_N: "desc_ok E (Suc 0) gdt_cct_NetworkConnectionInfo_fields 16"
  by (subst desc_ok.simps) (simp add: gdt_cct_NetworkConnectionInfo_eval desc_eval  del: desc_ok.simps)

lemma desc_Q: "desc_ok E (Suc 0) gdt_cct_QosTierConfiguration_fields 16"
  by (subst desc_ok.simps) (simp add: gdt_cct_QosTierConfiguration_eval desc_eval  del: desc_ok.simps)

lemma desc_D: "desc_ok E (Suc 0) gdt_client_metrics_LogEventDropped_fields 16"
  by (subst desc_ok.simps) (simp add: gdt_client_metrics_LogEventDropped_eval desc_eval  del: desc_ok.simps)

lemma desc_S: "desc_ok E (Suc 0) gdt_client_metrics_StorageMetrics_fields 16"
  by (subst desc_ok.simps) (simp add: gdt_client_metrics_StorageMetrics_eval desc_eval  del: desc_ok.simps)

lemma desc_T: "desc_ok E (Suc 0) gdt_client_metrics_TimeWindow_fields 16"
  by (subst desc_ok.simps) (simp add: gdt_client_metrics_TimeWindow_eval desc_eval  del: desc_ok.simps)

lemma desc_G: "descs E = app_descs \<Longrightarrow> desc_ok E (Suc (Suc 0)) gdt_client_metrics_GlobalMetrics_fields 16"
  by (subst desc_ok.simps) (simp add: gdt_client_metrics_GlobalMetrics_eval desc_eval desc_S del: desc_ok.simps)

lemma desc_TS: "desc_ok E (Suc 0) google_protobuf_Timestamp_fields 16"
  by (subst desc_ok.simps) (simp add: google_protobuf_Timestamp_eval desc_eval  del: desc_ok.simps)

lemma desc_LL: "desc_ok E (Suc 0) google_type_LatLng_fields 16"
  by (subst desc_ok.simps) (simp add: google_type_LatLng_eval desc_eval  del: desc_ok.simps)

lemma desc_DV: "desc_ok E (Suc 0) google_protobuf_DoubleValue_fields 8"
  by (subst desc_ok.simps) (simp add: google_protobuf_DoubleValue_eval desc_eval  del: desc_ok.simps)

lemma desc_FV: "desc_ok E (Suc 0) google_protobuf_FloatValue_fields 4"
  by (subst desc_ok.simps) (simp add: google_protobuf_FloatValue_eval desc_eval  del: desc_ok.simps)

lemma desc_IV: "desc_ok E (Suc 0) google_protobuf_Int64Value_fields 8"
  by (subst desc_ok.simps) (simp add: google_protobuf_Int64Value_eval desc_eval  del: desc_ok.simps)

lemma desc_UV: "desc_ok E (Suc 0) google_protobuf_UInt64Value_fields 8"
  by (subst desc_ok.simps) (simp add: google_protobuf_UInt64Value_eval desc_eval  del: desc_ok.simps)

lemma desc_I3: "desc_ok E (Suc 0) google_protobuf_Int32Value_fields 4"
  by (subst desc_ok.simps) (simp add: google_protobuf_Int32Value_eval desc_eval  del: desc_ok.simps)

lemma desc_U3: "desc_ok E (Suc 0) google_protobuf_UInt32Value_fields 4"
  by (subst desc_ok.simps) (simp add: google_protobuf_UInt32Value_eval desc_eval  del: desc_ok.simps)

lemma desc_BV: "desc_ok E (Suc 0) google_protobuf_BoolValue_fields 1"
  by (subst desc_ok.simps) (simp add: google_protobuf_BoolValue_eval desc_eval  del: desc_ok.simps)

lemma desc_PC: "descs E = app_descs \<Longrightarrow> desc_ok E (Suc (Suc 0)) google_firestore_v1_Precondition_fields 24"
  by (subst desc_ok.simps) (simp add: google_firestore_v1_Precondition_eval desc_eval desc_TS del: desc_ok.simps)

lemma desc_RO: "descs E = app_descs \<Longrightarrow> desc_ok E (Suc (Suc 0)) google_firestore_v1_TransactionOptions_ReadOnly_fields 24"
  by (subst desc_ok.simps) (simp add: google_firestore_v1_TransactionOptions_ReadOnly_eval desc_eval desc_TS del: desc_ok.simps)

lemma desc_AC: "descs E = app_descs \<Longrightarrow> desc_ok E (Suc (Suc 0)) google_firestore_v1_StructuredAggregationQuery_Aggregation_Count_fields 8"
  by (subst desc_ok.simps) (simp add: google_firestore_v1_StructuredAggregationQuery_Aggregation_Count_eval desc_eval desc_IV del: desc_ok.simps)

lemma desc_TG: "descs E = app_descs \<Longrightarrow> desc_ok E (Suc (Suc 0)) firestore_client_TargetGlobal_fields 40"
  by (subst desc_ok.simps) (simp add: firestore_client_TargetGlobal_eval desc_eval desc_TS del: desc_ok.simps)

lemma static_sizes: "map (\<lambda>(r, st, fs). csize st) static_messages = [8, 12, 24, 16, 16, 16, 16, 16, 16, 16, 16, 8, 4, 8, 8, 4, 4, 1, 24, 24, 8, 40]"
  by code_simp

lemma static_messages_ok:
  assumes "descs E = app_descs" "(r, st, fs) \<in> set static_messages"
  shows "desc_ok E r fs (csize st)" "r \<le> 3" "csize st \<le> 40"
  using assms static_sizes desc_R [of E] desc_V [of E] desc_C [of E] desc_N [of E] desc_Q [of E] desc_D [of E]
    desc_S [of E] desc_T [of E] desc_G [of E]
    desc_TS [of E] desc_LL [of E] desc_DV [of E] desc_FV [of E] desc_IV [of E] desc_UV [of E] desc_I3 [of E] desc_U3 [of E] desc_BV [of E] desc_PC [of E] desc_RO [of E] desc_AC [of E] desc_TG [of E]
  by (auto simp: static_messages_def numeral_2_eq_2 numeral_3_eq_3 simp del: desc_ok.simps)

section \<open>Delimited messages\<close>

lemma hoare_delimited:
  fixes body :: "unit dec"
  assumes "input_ok h0 base stop"
    "\<And>stop'. stop' \<le> stop \<Longrightarrow> hoare (owns (within base stop' (m - 1)) W h0) body
       (\<lambda>_. owns (within base stop' (m - 1)) W h0) (owns buffered W h0)"
  shows "hoare (owns (within base stop m) W h0)
    (bindC (pb_make_string_substream E) (\<lambda>substream.
     bindC (on_substream substream body) (\<lambda>(status, substream).
     bindC (pb_close_string_substream E substream) (\<lambda>_.
       if status = None then failC else returnC ()))))
    (\<lambda>_. owns (within base stop m) W h0) (owns buffered W h0)"
proof -
  have fin: "hoare (used base stop m W h0 (\<lambda>_. True) (\<lambda>_. True) status sub')
      (bindC (pb_close_string_substream E sub') (\<lambda>_. if status = None then failC else returnC ()))
      (\<lambda>_. owns (within base stop m) W h0) (owns buffered W h0)" for status :: "unit option" and sub'
    by (rule hoare_bind [OF _ hoare_close_substream])
      (auto simp: hoare_def failC_def returnC_def intro: ahead_within)
  have body: "hoare (owns (within base stop' (m - 1)) W h0) body
      (\<lambda>a st. True \<and> owns buffered W h0 st \<and> (True \<longrightarrow> owns (within base stop' (m - 1)) W h0 st)) (owns buffered W h0)"
    if "stop' \<le> stop" for stop'
    using assms(2) [OF that] by (rule hoare_conseq) (auto intro: owns_buffered)
  have "hoare (made base stop m W h0 sub)
      (bindC (on_substream sub body) (\<lambda>(status, sub').
        bindC (pb_close_string_substream E sub') (\<lambda>_. if status = None then failC else returnC ())))
      (\<lambda>_. owns (within base stop m) W h0) (owns buffered W h0)" for sub
    by (rule hoare_bind [OF _ hoare_on_substream [OF body]]) (auto intro: fin)
  then show ?thesis by (rule hoare_bind [OF _ hoare_weaken [OF hoare_make_substream [OF assms(1)]]])
qed

section \<open>Decoding any input\<close>

text \<open>The five ways to decode a message.\<close>

datatype decode_mode = Plain | Noinit | Delimited | Delimited_noinit | Nullterminated

fun decode_with :: "decode_mode \<Rightarrow> env \<Rightarrow> nat \<Rightarrow> pb_field list \<Rightarrow> addr \<Rightarrow> unit dec" where
  "decode_with Plain = pb_decode"
| "decode_with Noinit = pb_decode_noinit"
| "decode_with Delimited = pb_decode_delimited"
| "decode_with Delimited_noinit = pb_decode_delimited_noinit"
| "decode_with Nullterminated = pb_decode_nullterminated"

lemma hoare_decode_with:
  assumes "desc_ok E r fs S" "r < n" "object h0 W dest S" "input_ok h0 base stop"
  shows "hoare (owns (within base stop m) W h0) (decode_with mode E n fs dest)
    (\<lambda>_. owns (within base stop m) W h0) (owns buffered W h0)"
proof -
  have noinit: "hoare (owns (within base stop' m) W h0) (pb_decode_noinit E n fs dest)
      (\<lambda>_. owns (within base stop' m) W h0) (owns buffered W h0)" if "stop' \<le> stop" for stop' m
    using noinit_safe [OF assms(1-3) nested.input_ok_less [OF assms(4) that]] .
  have full: "hoare (owns (within base stop' m) W h0) (pb_decode E n fs dest)
      (\<lambda>_. owns (within base stop' m) W h0) (owns buffered W h0)" if "stop' \<le> stop" for stop' m
    unfolding pb_decode_def using hoare_init_and_decode [where noinit = "pb_decode_noinit E n" and n = n, OF assms(1) _ assms(3) noinit [OF that]] assms(2)
    by simp
  show ?thesis
    using noinit [of stop m] full [of stop m] hoare_delimited [OF assms(4) noinit] hoare_delimited [OF assms(4) full]
    by (cases mode)
       (simp_all add: pb_decode_nullterminated_def pb_decode_delimited_def pb_decode_delimited_noinit_def)
qed

text \<open>
  \<open>decoded_safely\<close>: the call returned, wrote nothing outside the structure, freed and allocated
  nothing, and where it succeeded the stream stands inside the input.
\<close>

definition decoded_safely :: "addr set \<Rightarrow> addr \<Rightarrow> nat \<Rightarrow> heap \<Rightarrow> (unit option \<times> pb_istream \<times> heap) option \<Rightarrow> bool" where
  "decoded_safely W buf len h res \<longleftrightarrow> (case res of
       None \<Rightarrow> False
     | Some (ok, s, h') \<Rightarrow> frame W h h' \<and> (ok \<noteq> None \<longrightarrow>
         unat (bytes_left s) \<le> len \<and> i_state s = buf + of_nat (len - unat (bytes_left s))))"

lemma hoare_decoded_safely:
  assumes "hoare (owns (within buf len len) W h) f (\<lambda>_. owns (within buf len len) W h) (owns buffered W h)"
    "len < 2 ^ 64"
  shows "decoded_safely W buf len h (f (pb_istream_from_buffer buf (of_nat len), h))"
proof -
  have "owns (within buf len len) W h (pb_istream_from_buffer buf (of_nat len), h)"
    using assms(2) by (simp add: owns_def within_def pb_istream_from_buffer_def unat_of_nat_64)
  with assms(1) show ?thesis
    by (cases rule: hoareD) (auto simp: decoded_safely_def owns_def within_def split: prod.splits)
qed

section \<open>Properties\<close>

text \<open>C1: Whatever the input bytes are, decoding a message whose fields are static returns, reads only
  the input and the message structure, writes only the structure, allocates and frees nothing, and
  when it succeeds leaves the stream inside the input; in all five ways of decoding.\<close>

theorem pb_decode_safe:
  assumes "desc_ok E r fs S" "r < n" "dest \<noteq> 0" "unat dest + S < 2 ^ 64" "readable h dest S"
    "readable h buf len" "len < 2 ^ 64"
  shows "decoded_safely (region dest S) buf len h
    (decode_with mode E n fs dest (pb_istream_from_buffer buf (of_nat len), h))"
proof (rule hoare_decoded_safely [OF hoare_decode_with [OF assms(1,2)] assms(7)])
  show "object h (region dest S) dest S" using assms(3-5) by (simp add: object_def)
  show "input_ok h buf len" using assms(6,7) by (simp add: input_ok_def)
qed

theorem pb_decode_safe_witness:
  "decoded_safely (region 0x1000 16) 0x2000 9 zero_memory
    (decode_with Delimited (plain_env app_descs) 3 gdt_client_metrics_GlobalMetrics_fields 0x1000
      (pb_istream_from_buffer 0x2000 (of_nat 9), zero_memory))"
proof (rule pb_decode_safe)
  show "desc_ok (plain_env app_descs) (Suc (Suc 0)) gdt_client_metrics_GlobalMetrics_fields 16"
    by (rule desc_G) (simp add: plain_env_def)
qed simp_all

text \<open>C3: The message types of the telemetry libraries and of Firestore that hold no pointer (nine and thirteen, two of them with a oneof) are of that kind: a program that has the generated descriptor arrays decodes each of them safely from any input into a structure of its size, with a nesting bound of four, in all five ways of decoding.\<close>

theorem app_messages_decode_safely:
  assumes "descs E = app_descs" "(r, st, fs) \<in> set static_messages" "unat dest + csize st < 2 ^ 64" "dest \<noteq> 0"
    "readable h dest (csize st)" "readable h buf len" "len < 2 ^ 64"
  shows "decoded_safely (region dest (csize st)) buf len h
    (decode_with mode E 4 fs dest (pb_istream_from_buffer buf (of_nat len), h))"
proof (rule hoare_decoded_safely [OF hoare_decode_with assms(7)])
  show "desc_ok E r fs (csize st)" "r < 4" using static_messages_ok [OF assms(1,2)] by simp_all
  show "object h (region dest (csize st)) dest (csize st)" using assms(3-5) by (simp add: object_def)
  show "input_ok h buf len" using assms(6,7) by (simp add: input_ok_def)
qed

theorem app_messages_decode_safely_witness:
  "decoded_safely (region 0x1000 (csize google_firestore_v1_Precondition)) 0x2000 5 zero_memory
    (decode_with Plain (plain_env app_descs) 4 google_firestore_v1_Precondition_fields 0x1000
      (pb_istream_from_buffer 0x2000 (of_nat 5), zero_memory))"
proof (rule app_messages_decode_safely)
  show m: "(2, google_firestore_v1_Precondition, google_firestore_v1_Precondition_fields) \<in> set static_messages"
    by (simp add: static_messages_def)
  show "descs (plain_env app_descs) = app_descs" by (simp add: plain_env_def)
  from static_messages_ok(3) [OF this m] show "unat (0x1000 :: addr) + csize google_firestore_v1_Precondition < 2 ^ 64" by simp
qed simp_all

end
