(* ===== verification/PbOstream.thy ===== *)
theory PbOstream
  imports PbTypes
begin

text \<open>
  Output streams and the wire-level writers of \<open>pb_encode.c\<close>. A stream whose callback is null only
  counts bytes; \<open>buf_write\<close> copies into memory at the stream's \<open>state\<close>; other callbacks come from the
  environment. The bytes written are either a local buffer of the C function, bytes in memory, or
  nothing but a number of them (a null buffer, which only a counting stream accepts).
\<close>

section \<open>Writing bytes\<close>

datatype source = No_bytes | Local "byte list" | Memory addr

definition source_bytes :: "source \<Rightarrow> size_t \<Rightarrow> heap \<Rightarrow> byte list option" where
  "source_bytes src count h = (case src of
     No_bytes \<Rightarrow> None
   | Local bs \<Rightarrow> if unat count \<le> length bs then Some (take (unat count) bs) else None
   | Memory a \<Rightarrow> load_bytes h a (unat count))"

text \<open>\<open>for (i = 0; i < count; i++) dest[i] = buf[i];\<close> with \<open>buf\<close> in memory: one byte at a time.\<close>

fun copy_bytes :: "heap \<Rightarrow> addr \<Rightarrow> addr \<Rightarrow> nat \<Rightarrow> heap option" where
  "copy_bytes h d a 0 = Some h"
| "copy_bytes h d a (Suc n) = (case load_bytes h a 1 of
     None \<Rightarrow> None
   | Some bs \<Rightarrow> (case store_bytes h d bs of
       None \<Rightarrow> None
     | Some h' \<Rightarrow> copy_bytes h' (d + 1) (a + 1) n))"

definition buf_write :: "source \<Rightarrow> size_t \<Rightarrow> unit enc" where
  "buf_write src count = (\<lambda>(s, h).
     case (case src of
             Memory a \<Rightarrow> copy_bytes h (o_state s) a (unat count)
           | _ \<Rightarrow> (case source_bytes src count h of
               None \<Rightarrow> None | Some bs \<Rightarrow> store_bytes h (o_state s) bs)) of
       None \<Rightarrow> None
     | Some h' \<Rightarrow> Some (Some (), (s\<lparr>o_state := o_state s + count\<rparr>, h')))"

definition pb_ostream_from_buffer :: "addr \<Rightarrow> size_t \<Rightarrow> pb_ostream" where
  "pb_ostream_from_buffer buf bufsize =
     \<lparr>o_callback = Buf_write, o_state = buf, max_size = bufsize, bytes_written = 0, o_errmsg = None\<rparr>"

definition PB_OSTREAM_SIZING :: pb_ostream where
  "PB_OSTREAM_SIZING =
     \<lparr>o_callback = Null_write, o_state = 0, max_size = 0, bytes_written = 0, o_errmsg = None\<rparr>"

text \<open>\<open>stream->callback(stream, buf, count)\<close>\<close>

definition stream_write :: "env \<Rightarrow> source \<Rightarrow> size_t \<Rightarrow> unit enc" where
  "stream_write E src count = (\<lambda>(s, h). case o_callback s of
     Null_write \<Rightarrow> None
   | Buf_write \<Rightarrow> buf_write src count (s, h)
   | Custom_write k \<Rightarrow> (case source_bytes src count h of
       None \<Rightarrow> None
     | Some bs \<Rightarrow> (case custom_write E k bs ((o_state s, o_errmsg s), h) of
         None \<Rightarrow> None
       | Some (r, ((st, e), h')) \<Rightarrow> Some (r, (s\<lparr>o_state := st, o_errmsg := e\<rparr>, h')))))"

definition pb_write :: "env \<Rightarrow> source \<Rightarrow> size_t \<Rightarrow> unit enc" where
  "pb_write E src count = (\<lambda>(s, h).
     let add = (\<lambda>(s, h). Some (Some (), (s\<lparr>bytes_written := bytes_written s + count\<rparr>, h))) in
     if 0 < count \<and> o_callback s \<noteq> Null_write then
       if bytes_written s + count < bytes_written s \<or> bytes_written s + count > max_size s
       then o_error ''stream full'' (s, h)
       else bindC (catchC (stream_write E src count)) (\<lambda>r. case r of
           None \<Rightarrow> o_error ''io error''
         | Some _ \<Rightarrow> add) (s, h)
     else add (s, h))"

section \<open>Integers, tags and strings on the wire\<close>

text \<open>
  The loop of \<open>pb_encode_varint\<close> that fills its buffer of 10 bytes: writing past the buffer is
  undefined. After the loop the top bit of the last byte is cleared.
\<close>

function varint_buffer :: "u64 \<Rightarrow> byte list \<Rightarrow> byte list option" where
  "varint_buffer value buf =
     (if value = 0 then Some buf
      else if 10 \<le> length buf then None
      else varint_buffer (drop_bit 7 value) (buf @ [ucast (value AND 0x7F) OR 0x80]))"
  by pat_completeness auto
termination by (relation "measure (\<lambda>(value, buf). 10 - length buf)") auto

declare varint_buffer.simps [simp del]

definition pb_encode_varint :: "env \<Rightarrow> u64 \<Rightarrow> unit enc" where
  "pb_encode_varint E value =
     (if value \<le> 0x7F then pb_write E (Local [ucast value]) 1
      else bindC (liftC (varint_buffer value [])) (\<lambda>buffer.
        let i = length buffer; buffer' = buffer[i - 1 := (buffer ! (i - 1)) AND 0x7F]
        in pb_write E (Local buffer') (of_nat i)))"

definition pb_encode_svarint :: "env \<Rightarrow> u64 \<Rightarrow> unit enc" where
  "pb_encode_svarint E value =
     (let zigzagged = (if sint value < 0 then NOT (push_bit 1 value) else push_bit 1 value)
      in pb_encode_varint E zigzagged)"

definition pb_encode_fixed32 :: "env \<Rightarrow> addr \<Rightarrow> unit enc" where
  "pb_encode_fixed32 E value =
     bindC (load_u32 value) (\<lambda>val.
       pb_write E (Local [ucast (val AND 0xFF), ucast (drop_bit 8 val AND 0xFF),
         ucast (drop_bit 16 val AND 0xFF), ucast (drop_bit 24 val AND 0xFF)]) 4)"

definition pb_encode_fixed64 :: "env \<Rightarrow> addr \<Rightarrow> unit enc" where
  "pb_encode_fixed64 E value =
     bindC (loadC value 8) (\<lambda>bs. let val = le_word bs :: u64 in
       pb_write E (Local [ucast (val AND 0xFF), ucast (drop_bit 8 val AND 0xFF),
         ucast (drop_bit 16 val AND 0xFF), ucast (drop_bit 24 val AND 0xFF),
         ucast (drop_bit 32 val AND 0xFF), ucast (drop_bit 40 val AND 0xFF),
         ucast (drop_bit 48 val AND 0xFF), ucast (drop_bit 56 val AND 0xFF)]) 8)"

definition pb_encode_tag :: "env \<Rightarrow> u32 \<Rightarrow> u32 \<Rightarrow> unit enc" where
  "pb_encode_tag E wiretype field_number =
     pb_encode_varint E (push_bit 3 (ucast field_number) OR ucast wiretype)"

definition pb_encode_tag_for_field :: "env \<Rightarrow> pb_field \<Rightarrow> unit enc" where
  "pb_encode_tag_for_field E f =
     (let lt = PB_LTYPE (ftype f) in
      if lt = PB_LTYPE_BOOL \<or> lt = PB_LTYPE_VARINT \<or> lt = PB_LTYPE_UVARINT \<or> lt = PB_LTYPE_SVARINT
      then pb_encode_tag E PB_WT_VARINT (tag f)
      else if lt = PB_LTYPE_FIXED32 then pb_encode_tag E PB_WT_32BIT (tag f)
      else if lt = PB_LTYPE_FIXED64 then pb_encode_tag E PB_WT_64BIT (tag f)
      else if lt = PB_LTYPE_BYTES \<or> lt = PB_LTYPE_STRING \<or> lt = PB_LTYPE_SUBMESSAGE
              \<or> lt = PB_LTYPE_FIXED_LENGTH_BYTES
      then pb_encode_tag E PB_WT_STRING (tag f)
      else o_error ''invalid field type'')"

definition pb_encode_string :: "env \<Rightarrow> source \<Rightarrow> size_t \<Rightarrow> unit enc" where
  "pb_encode_string E buffer sz =
     bindC (pb_encode_varint E sz) (\<lambda>_. pb_write E buffer sz)"

end
