(* ===== verification/PbOutput.thy ===== *)
theory PbOutput
  imports PbOstream PbInput
begin

text \<open>
  What writing does. \<open>emitted bs\<close> relates the states before and after an operation that has output
  exactly \<open>bs\<close>: a counting stream has counted them, a buffer stream holds them. \<open>has_room n\<close> says
  that \<open>n\<close> more bytes fit.
\<close>

section \<open>Output\<close>

definition wrote :: "nat \<Rightarrow> pb_ostream \<Rightarrow> pb_ostream" where
  "wrote n s = s\<lparr>o_state := (if o_callback s = Null_write then o_state s else o_state s + of_nat n),
                 bytes_written := bytes_written s + of_nat n\<rparr>"

definition emitted :: "byte list \<Rightarrow> pb_ostream \<times> heap \<Rightarrow> pb_ostream \<times> heap \<Rightarrow> bool" where
  "emitted bs = (\<lambda>(s, h) (s', h'). s' = wrote (length bs) s \<and>
     (case o_callback s of
        Null_write \<Rightarrow> h' = h
      | Buf_write \<Rightarrow> store_bytes h (o_state s) bs = Some h'
      | Custom_write k \<Rightarrow> False))"

definition has_room :: "nat \<Rightarrow> pb_ostream \<times> heap \<Rightarrow> bool" where
  "has_room n = (\<lambda>(s, h). case o_callback s of
     Null_write \<Rightarrow> True
   | Buf_write \<Rightarrow> unat (bytes_written s) + n \<le> unat (max_size s) \<and> readable h (o_state s) n
   | Custom_write k \<Rightarrow> False)"

lemma wrote_sel [simp]:
  "o_callback (wrote n s) = o_callback s" "max_size (wrote n s) = max_size s"
  "o_errmsg (wrote n s) = o_errmsg s" "bytes_written (wrote n s) = bytes_written s + of_nat n"
  by (simp_all add: wrote_def)

lemma wrote_0 [simp]: "wrote 0 s = s"
  by (simp add: wrote_def)

lemma wrote_wrote [simp]: "wrote n (wrote m s) = wrote (m + n) s"
  by (simp add: wrote_def ac_simps)

lemma store_bytes_append:
  "store_bytes h a (bs @ cs) = (case store_bytes h a bs of
     None \<Rightarrow> None | Some h' \<Rightarrow> store_bytes h' (a + of_nat (length bs)) cs)"
  by (induction bs arbitrary: h a) (auto simp: ac_simps split: option.split)

lemma emitted_append:
  assumes "emitted bs st st1" "emitted cs st1 st2"
  shows "emitted (bs @ cs) st st2"
  using assms
  by (auto simp: emitted_def store_bytes_append wrote_def split: prod.splits write_callback.splits)

lemma has_room_less: "has_room n st \<Longrightarrow> m \<le> n \<Longrightarrow> has_room m st"
  by (auto simp: has_room_def split: write_callback.splits intro: readable_mono)

lemma has_room_after:
  assumes "has_room (m + n) (s, h)" "emitted bs (s, h) st" "length bs = m"
  shows "has_room n st"
proof (cases "o_callback s")
  case Null_write
  then show ?thesis using assms by (auto simp: has_room_def emitted_def split: prod.splits)
next
  case Buf_write
  obtain s' h' where [simp]: "st = (s', h')" by (cases st)
  from assms Buf_write have s': "s' = wrote m s" and h': "store_bytes h (o_state s) bs = Some h'"
    and room: "unat (bytes_written s) + (m + n) \<le> unat (max_size s)" "readable h (o_state s) (m + n)"
    by (auto simp: has_room_def emitted_def)
  have "readable h' (o_state s + of_nat m) n"
    using frame_readable [OF store_bytes_frame [OF h']] readable_offset [OF room(2), of m n] by simp
  moreover have "unat (bytes_written s + of_nat m) = unat (bytes_written s) + m"
    using room(1) unat_less_64 [of "max_size s"] by (intro unat_add_of_nat) linarith
  ultimately show ?thesis using Buf_write room(1)
    by (simp add: has_room_def s' add.assoc) (simp add: wrote_def)
next
  case Custom_write
  then show ?thesis using assms(1) by (simp add: has_room_def)
qed

lemma pb_write_emits:
  assumes "has_room (length bs) (s, h)"
  obtains s' h' where "pb_write E (Local bs) (of_nat (length bs)) (s, h) = Some (Some (), (s', h'))"
    "emitted bs (s, h) (s', h')"
proof (cases "o_callback s")
  case Null_write
  then show ?thesis
    by (intro that [of "wrote (length bs) s" h]) (auto simp: pb_write_def emitted_def wrote_def)
next
  case Buf_write
  with assms have room: "unat (bytes_written s) + length bs \<le> unat (max_size s)"
    and "readable h (o_state s) (length bs)" by (auto simp: has_room_def)
  then obtain h' where h': "store_bytes h (o_state s) bs = Some h'"
    using store_bytes_readable by blast
  have len: "unat (of_nat (length bs) :: size_t) = length bs"
    using room unat_less_64 [of "max_size s"] by (intro unat_of_nat_64) linarith
  have sum: "unat (bytes_written s + of_nat (length bs)) = unat (bytes_written s) + length bs"
    using room unat_less_64 [of "max_size s"] by (intro unat_add_of_nat) linarith
  have "pb_write E (Local bs) (of_nat (length bs)) (s, h) = Some (Some (), (wrote (length bs) s, h'))"
  proof (cases "bs = []")
    case True
    then show ?thesis using h' by (simp add: pb_write_def)
  next
    case False
    then have "0 < (of_nat (length bs) :: size_t)" by (simp add: word_less_nat_alt len)
    moreover have "\<not> (bytes_written s + of_nat (length bs) < bytes_written s
        \<or> max_size s < bytes_written s + of_nat (length bs))"
      using room by (simp add: word_less_nat_alt sum)
    ultimately show ?thesis using Buf_write h'
      by (simp add: pb_write_def stream_write_def buf_write_def source_bytes_def len bindC_def
          catchC_def wrote_def)
  qed
  moreover have "emitted bs (s, h) (wrote (length bs) s, h')"
    using Buf_write h' by (simp add: emitted_def)
  ultimately show ?thesis by (rule that)
next
  case Custom_write
  then show ?thesis using assms by (simp add: has_room_def)
qed

lemma pb_write_full:
  assumes "o_callback s \<noteq> Null_write" "0 < n" "unat (max_size s) < unat (bytes_written s) + unat n"
  shows "pb_write E src n (s, h) = Some (None, (set_o_error ''stream full'' s, h))"
proof -
  have "unat (bytes_written s + n) < unat (bytes_written s) \<or> unat (max_size s) < unat (bytes_written s + n)"
  proof (cases "unat (bytes_written s) + unat n < 2 ^ 64")
    case True
    then have "unat (bytes_written s + n) = unat (bytes_written s) + unat n"
      by (simp add: unat_word_ariths)
    then show ?thesis using assms(3) by linarith
  next
    case False
    then have "unat (bytes_written s + n) = unat (bytes_written s) + unat n - 2 ^ 64"
      using unat_less_64 [of "bytes_written s"] unat_less_64 [of n]
      by (simp add: unat_word_ariths mod_if)
    then show ?thesis using unat_less_64 [of n] False by simp linarith
  qed
  then have "bytes_written s + n < bytes_written s \<or> bytes_written s + n > max_size s"
    by (simp add: word_less_nat_alt)
  then show ?thesis using assms(1,2) by (auto simp: pb_write_def o_error_def)
qed

text \<open>What was written to a buffer is what a stream over the same buffer reads.\<close>

lemma emitted_feeds:
  assumes "emitted bs (pb_ostream_from_buffer a n, h) (s', h')" "length bs < 2 ^ 64"
  shows "feeds bs (pb_istream_from_buffer a (bytes_written s')) h'"
  using assms load_store_same [of h a bs h']
  by (auto simp: emitted_def pb_ostream_from_buffer_def pb_istream_from_buffer_def feeds_def unat_of_nat)

section \<open>What a write to a buffer touches\<close>

lemma copy_bytes_frame: "copy_bytes h d a n = Some h' \<Longrightarrow> frame (region d n) h h'"
proof (induction n arbitrary: h d a)
  case (Suc n)
  from Suc.prems obtain bs h1 where bs: "load_bytes h a 1 = Some bs" "store_bytes h d bs = Some h1"
    "copy_bytes h1 (d + 1) (a + 1) n = Some h'" by (auto split: option.splits)
  have "length bs = 1" using bs(1) by (rule load_bytes_length)
  then have "frame (region d 1) h h1" using store_bytes_frame [OF bs(2)] by simp
  moreover have "region d 1 \<subseteq> region d (Suc n)" by (rule region_mono) simp
  moreover have "region (d + of_nat 1) n \<subseteq> region d (Suc n)" by (rule region_offset) simp
  ultimately show ?case using Suc.IH [OF bs(3)] by (auto intro: frame_trans frame_mono)
qed simp

lemma source_bytes_length: "source_bytes src n h = Some bs \<Longrightarrow> length bs = unat n"
  by (auto simp: source_bytes_def load_bytes_length split: source.splits if_splits)

lemma buf_write_frame:
  assumes "buf_write src n (s, h) = Some (r, (s', h'))"
  shows "r = Some ()" "s' = s\<lparr>o_state := o_state s + n\<rparr>" "frame (region (o_state s) (unat n)) h h'"
  using assms
  by (auto simp: buf_write_def dest: copy_bytes_frame split: option.splits source.splits)
    (metis source_bytes_length store_bytes_frame)+

end
