(* ===== verification/PbVarint.thy ===== *)
theory PbVarint
  imports PbOutput
begin

text \<open>
  Varints, tags and fixed-width integers: what the readers of \<open>pb_decode.c\<close> and the writers of
  \<open>pb_encode.c\<close> do on buffers, and that each reader inverts the writer.
\<close>

section \<open>Reading a varint\<close>

lemma varint_join:
  assumes "7 < LENGTH('a::len)"
  shows "ucast (b AND 0x7F) OR push_bit 7 (of_nat v) = (of_nat (unat (b AND 0x7F :: byte) + 128 * v) :: 'a word)"
proof -
  have "(2::nat) ^ 7 \<le> 2 ^ LENGTH('a)" using assms by (intro power_increasing) simp_all
  then have "unat (ucast (b AND 0x7F) :: 'a word) < 2 ^ 7"
    using seven_bits [of b] by (simp add: unsigned_ucast_eq take_bit_nat_eq_self)
  from or_shifted [OF this] show ?thesis by (simp add: push_bit_eq_mult mult.commute)
qed

lemma varint_push:
  assumes "7 < LENGTH('a::len)"
  shows "(r OR push_bit k (ucast (b AND 0x7F))) OR push_bit (k + 7) (of_nat v) =
    r OR push_bit k (of_nat (unat (b AND 0x7F :: byte) + 128 * v) :: 'a word)"
proof -
  have "push_bit k (ucast (b AND 0x7F)) OR push_bit (k + 7) (of_nat v :: 'a word)
      = push_bit k (ucast (b AND 0x7F) OR push_bit 7 (of_nat v))"
    by (simp only: push_bit_or push_bit_push_bit)
  then show ?thesis by (simp only: or.assoc varint_join [OF assms])
qed

text \<open>The outcome of reading a varint after \<open>k\<close> bytes of it, when at most \<open>10\<close> are allowed.\<close>

definition varint_outcome :: "byte list \<Rightarrow> nat \<Rightarrow> u64 \<Rightarrow> pb_istream \<times> heap
    \<Rightarrow> (u64 option \<times> (pb_istream \<times> heap)) option" where
  "varint_outcome bs k r st = (case st of (s, h) \<Rightarrow> (case varint_group bs of
     Some (g, rest) \<Rightarrow>
       if k + length g \<le> 10
       then Some (Some (r OR push_bit (7 * k) (of_nat (varint_value g))), (advance (length g) s, h))
       else Some (None, (set_i_error ''varint overflow'' (advance (10 - k) s), h))
   | None \<Rightarrow>
       if 10 \<le> k + length bs
       then Some (None, (set_i_error ''varint overflow'' (advance (10 - k) s), h))
       else Some (None, (set_i_error ''end-of-stream'' (advance (length bs) s), h))))"

lemma bitpos_limit: "k \<le> 10 \<Longrightarrow> (64 \<le> (of_nat (7 * k) :: byte)) = (k = 10)"
  by (simp add: word_le_nat_alt unat_of_nat del: of_nat_mult) linarith

lemma varint_loop_spec:
  assumes "feeds bs s h" "k \<le> 10" "length bs < n"
  shows "varint_loop E r (of_nat (7 * k)) n (s, h) = varint_outcome bs k r (s, h)"
  using assms
proof (induction bs arbitrary: s k n r)
  case Nil
  then obtain n' where [simp]: "n = Suc n'" by (cases n) auto
  have "(64 \<le> (of_nat (7 * k) :: byte)) = (k = 10)"
    using bitpos_limit [OF Nil.prems(2)] .
  then show ?case using Nil.prems
    by (auto simp: varint_outcome_def i_error_def bind_readbyte_Nil)
next
  case (Cons b bs)
  then obtain n' where [simp]: "n = Suc n'" by (cases n) auto
  have bp: "(64 \<le> (of_nat (7 * k) :: byte)) = (k = 10)"
    using bitpos_limit [OF Cons.prems(2)] .
  show ?case
  proof (cases "k = 10")
    case True
    with bp show ?thesis
      by (auto simp: varint_outcome_def i_error_def split: option.splits)
  next
    case False
    with Cons.prems have k: "k \<le> 9" "Suc k \<le> 10" by auto
    then have pos: "unat (of_nat (7 * k) :: byte) = 7 * k"
      by (simp add: unat_of_nat del: of_nat_mult)
    have less: "Suc (9 - k) = 10 - k" using k by simp
    have nxt: "(of_nat (7 * k) + 7 :: byte) = of_nat (7 * Suc k)" by simp
    show ?thesis
    proof (cases "b AND 0x80 = 0")
      case True
      then show ?thesis using bp False k pos
        by (simp add: varint_outcome_def bind_readbyte_Cons [OF Cons.prems(1)] Let_def returnC_def del: of_nat_mult)
    next
      case hi: False
      let ?r = "r OR push_bit (7 * k) (ucast (b AND 0x7F))"
      have "varint_loop E r (of_nat (7 * k)) n (s, h)
          = varint_loop E ?r (of_nat (7 * Suc k)) n' (advance 1 s, h)"
        using bp False hi pos by (simp add: bind_readbyte_Cons [OF Cons.prems(1)] Let_def nxt del: of_nat_mult)
      also have "\<dots> = varint_outcome bs (Suc k) ?r (advance 1 s, h)"
        using Cons.IH [OF feeds_Cons [OF Cons.prems(1)] k(2)] Cons.prems(3) by simp
      also have "\<dots> = varint_outcome (b # bs) k r (s, h)"
        using k hi by (auto simp: varint_outcome_def varint_push less add.commute [of 7] Suc_diff_le
            simp del: of_nat_add of_nat_mult split: option.splits)
      finally show ?thesis .
    qed
  qed
qed

lemma pb_decode_varint_spec:
  "feeds bs s h \<Longrightarrow> pb_decode_varint E (s, h) = varint_outcome bs 0 0 (s, h)"
  using varint_loop_spec [of bs s h 0 "Suc (length bs)" E 0]
  by (simp add: pb_decode_varint_def input_bound_eq del: varint_loop.simps)

lemma pb_decode_varint_feeds:
  assumes "feeds bs s h" "varint_group bs = Some (g, rest)" "length g \<le> 10"
  shows "pb_decode_varint E (s, h) = Some (Some (of_nat (varint_value g)), (advance (length g) s, h))"
  using pb_decode_varint_spec [OF assms(1), of E] assms(2,3) by (simp add: varint_outcome_def)

section \<open>Writing a varint\<close>

text \<open>The bytes of a varint: seven bits each, the lowest first, the top bit set on all but the last.\<close>

fun varint_bytes :: "nat \<Rightarrow> byte list" where
  "varint_bytes n = (if n < 128 then [of_nat n]
     else (of_nat (n mod 128) OR 0x80) # varint_bytes (n div 128))"

declare varint_bytes.simps [simp del]

lemma byte_of_nat: "n < 128 \<Longrightarrow> (of_nat n :: byte) < 0x80" "n < 128 \<Longrightarrow> unat (of_nat n :: byte) = n"
  by (simp_all add: word_less_nat_alt unat_of_nat)

lemma varint_bytes_nonempty [simp]: "varint_bytes n \<noteq> []"
  by (simp add: varint_bytes.simps [of n])

lemma varint_group_bytes: "varint_group (varint_bytes n @ rest) = Some (varint_bytes n, rest)"
proof (induction n rule: varint_bytes.induct)
  case (1 n)
  then show ?case
    by (cases "n < 128") (simp_all add: varint_bytes.simps [of n] byte_top byte_of_nat)
qed

lemma varint_value_bytes [simp]: "varint_value (varint_bytes n) = n"
proof (induction n rule: varint_bytes.induct)
  case (1 n)
  then show ?case
    by (cases "n < 128") (simp_all add: varint_bytes.simps [of n] byte_low_id byte_of_nat)
qed

lemma length_varint_bytes: "n < 128 ^ Suc k \<Longrightarrow> length (varint_bytes n) \<le> Suc k"
proof (induction n arbitrary: k rule: varint_bytes.induct)
  case (1 n)
  show ?case
  proof (cases "n < 128")
    case False
    with 1(2) obtain j where [simp]: "k = Suc j" by (cases k) auto
    have "n div 128 < 128 ^ Suc j" using 1(2) by (simp add: less_mult_imp_div_less mult.commute)
    with 1(1) False show ?thesis by (simp add: varint_bytes.simps [of n])
  qed (simp add: varint_bytes.simps [of n])
qed

lemma length_varint_bytes_64: "length (varint_bytes (unat (v :: u64))) \<le> 10"
proof -
  have "unat v < 128 ^ Suc 9" using unat_less_64 [of v] by simp
  from length_varint_bytes [OF this] show ?thesis by simp
qed

lemma nat_and_127: "n AND 127 = (n :: nat) mod 128"
proof -
  have "n AND mask 7 = take_bit 7 n" by (simp add: take_bit_eq_mask)
  then show ?thesis by (simp add: mask_eq_exp_minus_1 take_bit_eq_mod)
qed

text \<open>The loop over the buffer, before the top bit of its last byte is cleared.\<close>

lemma varint_buffer_spec:
  assumes "unat v < 128 ^ (10 - length buf)" "v \<noteq> 0"
  shows "\<exists>ys y. varint_bytes (unat v) = ys @ [y] \<and> y < 0x80
    \<and> varint_buffer v buf = Some (buf @ ys @ [y OR 0x80])"
  using assms
proof (induction v buf rule: varint_buffer.induct)
  case (1 v buf)
  let ?b = "ucast (v AND 0x7F) OR 0x80 :: byte"
  have len: "length buf < 10" using 1(2,3) by (cases "10 \<le> length buf") (simp_all add: unat_eq_0)
  have step: "varint_buffer v buf = varint_buffer (drop_bit 7 v) (buf @ [?b])"
    using 1(3) len by (simp add: varint_buffer.simps [of v buf])
  have low: "(ucast (v AND 0x7F) :: byte) = of_nat (unat v mod 128)"
    by (simp add: word_unat_eq_iff unsigned_ucast_eq unat_of_nat take_bit_eq_mod unsigned_and_eq
        nat_and_127 mod_mod_cancel)
  have high: "unat (drop_bit 7 v) = unat v div 128"
    by (simp add: drop_bit_eq_div unat_div)
  show ?case
  proof (cases "unat v < 128")
    case True
    then have "drop_bit 7 v = 0" using high by (simp add: word_unat_eq_iff)
    then have "varint_buffer v buf = Some (buf @ [?b])" using len 1(3) by (simp add: step varint_buffer.simps [of 0])
    moreover have "varint_bytes (unat v) = [of_nat (unat v)]" using True by (simp add: varint_bytes.simps)
    ultimately show ?thesis using True low byte_of_nat(1) [OF True]
      by (intro exI [of _ "[]"] exI [of _ "of_nat (unat v)"]) simp
  next
    case False
    then have nz: "drop_bit 7 v \<noteq> 0" using high by (auto simp: word_unat_eq_iff)
    have "10 - length buf = Suc (10 - length (buf @ [?b]))" using len by simp
    with 1(2) have "unat (drop_bit 7 v) < 128 ^ (10 - length (buf @ [?b]))"
      by (simp add: high less_mult_imp_div_less mult.commute)
    from 1(1) [OF 1(3) _ this nz] len obtain ys y where
      "varint_bytes (unat v div 128) = ys @ [y]" "y < 0x80"
      "varint_buffer (drop_bit 7 v) (buf @ [?b]) = Some (buf @ [?b] @ ys @ [y OR 0x80])"
      by (auto simp: high)
    then show ?thesis using False low
      by (intro exI [of _ "?b # ys"] exI [of _ y]) (simp add: step varint_bytes.simps [of "unat v"])
  qed
qed

lemma pb_encode_varint_eq:
  "pb_encode_varint E v = (let bs = varint_bytes (unat v) in pb_write E (Local bs) (of_nat (length bs)))"
proof (cases "v \<le> 0x7F")
  case True
  then have "unat v < 128" by (simp add: word_le_nat_alt)
  then have "varint_bytes (unat v) = [ucast v]" by (simp add: varint_bytes.simps)
  with True show ?thesis by (simp add: pb_encode_varint_def)
next
  case False
  then have "v \<noteq> 0" by auto
  moreover have "unat v < 128 ^ (10 - length [])" using unat_less_64 [of v] by simp
  ultimately obtain ys y where *: "varint_bytes (unat v) = ys @ [y]" "y < 0x80"
    "varint_buffer v [] = Some (ys @ [y OR 0x80])"
    using varint_buffer_spec [of v "[]"] by auto
  then show ?thesis using False
    by (simp add: pb_encode_varint_def liftC_def Let_def nth_append list_update_append byte_low_id)
qed

end
