(* ===== verification/PbWire.thy ===== *)
theory PbWire
  imports PbVarint
begin

text \<open>
  The rest of the wire format on buffers: the 32-bit varint reader, zigzag integers, fixed-width
  integers, tags, skipping, and substreams.
\<close>

section \<open>Skipping a varint\<close>

lemma skip_varint_loop_spec:
  assumes "feeds bs s h" "length bs < n"
  shows "skip_varint_loop E n (s, h) = (case varint_group bs of
      Some (g, rest) \<Rightarrow> Some (Some (), (advance (length g) s, h))
    | None \<Rightarrow> Some (None, (set_i_error ''end-of-stream'' (advance (length bs) s), h)))"
  using assms
proof (induction bs arbitrary: s n)
  case Nil
  then obtain n' where [simp]: "n = Suc n'" by (cases n) auto
  show ?case using bind_read_short [OF Nil.prems(1), of 1] by simp
next
  case (Cons b bs)
  then obtain n' where [simp]: "n = Suc n'" by (cases n) auto
  have "unat (1 :: size_t) \<le> length (b # bs)" by simp
  note rd = bind_read_buf [OF Cons.prems(1) this]
  show ?case
  proof (cases "b AND 0x80 = 0")
    case True
    then show ?thesis by (simp add: rd returnC_def)
  next
    case False
    then show ?thesis using Cons.IH [OF feeds_Cons [OF Cons.prems(1)], of n'] Cons.prems(2)
      by (auto simp: rd split: option.splits)
  qed
qed

lemma pb_skip_varint_spec:
  "feeds bs s h \<Longrightarrow> pb_skip_varint E (s, h) = (case varint_group bs of
      Some (g, rest) \<Rightarrow> Some (Some (), (advance (length g) s, h))
    | None \<Rightarrow> Some (None, (set_i_error ''end-of-stream'' (advance (length bs) s), h)))"
  unfolding pb_skip_varint_def
  by (subst input_bound_eq, assumption, rule skip_varint_loop_spec) simp_all

section \<open>The 32-bit reader\<close>

text \<open>Whether the reader accepts the bytes \<open>g\<close> of a varint after \<open>k\<close> of them gave \<open>r\<close>.\<close>

fun accepts32 :: "u32 \<Rightarrow> nat \<Rightarrow> byte list \<Rightarrow> bool" where
  "accepts32 r k [] = True"
| "accepts32 r k (b # g) =
     ((5 \<le> k \<and> b AND 0x7F \<noteq> 0 \<longrightarrow> bit r 31 \<and> b = (if k < 9 then 0xFF else 0x01))
      \<and> accepts32 (r OR push_bit (7 * k) (ucast (b AND 0x7F))) (Suc k) g)"

lemma bit_31: "(drop_bit 31 (r :: u32) = 0) \<longleftrightarrow> \<not> bit r 31"
proof -
  have "drop_bit 31 r = of_bool (bit r 31)"
  proof (rule bit_word_eqI)
    fix n show "bit (drop_bit 31 r) n = bit (of_bool (bit r 31) :: u32) n"
      using bit_imp_le_length [of r "31 + n"] by (cases n) (auto simp: bit_drop_bit_eq bit_of_bool_iff)
  qed
  then show ?thesis by simp
qed

lemma bitpos_32:
  assumes "k < 10"
  shows "(32 \<le> (of_nat (7 * k) :: byte)) = (5 \<le> k)" "((of_nat (7 * k) :: byte) < 63) = (k < 9)"
    "unat (of_nat (7 * k) :: byte) = 7 * k"
  using assms by (simp_all add: word_le_nat_alt word_less_nat_alt unat_of_nat del: of_nat_mult) linarith+

lemma push_bit_32: "5 \<le> k \<Longrightarrow> push_bit (7 * k) (x :: u32) = 0"
  by (rule bit_word_eqI) (auto simp: bit_push_bit_iff)

lemma varint32_loop_spec:
  assumes "feeds bs s h" "varint_group bs = Some (g, rest)" "k + length g \<le> 10" "length bs < n"
  shows "(accepts32 r k g \<longrightarrow> varint32_loop E r (of_nat (7 * k)) n (s, h) =
      Some (Some (r OR push_bit (7 * k) (of_nat (varint_value g)), of_nat (7 * (k + length g)), last g),
            (advance (length g) s, h)))
    \<and> (\<not> accepts32 r k g \<longrightarrow>
      (\<exists>j \<le> length g. varint32_loop E r (of_nat (7 * k)) n (s, h) =
         Some (None, (set_i_error ''varint overflow'' (advance j s), h))))"
  using assms
proof (induction bs arbitrary: s k n r g)
  case (Cons b bs)
  then obtain n' where n: "n = Suc n'" by (cases n) auto
  have gne: "g \<noteq> []" "length g > 0" using Cons.prems(2) varint_group_append by fastforce+
  then have k: "k < 10" using Cons.prems(3) by linarith
  note rd = bind_readbyte_Cons [OF Cons.prems(1)] and bp = bitpos_32 [OF k]
  let ?r = "r OR push_bit (7 * k) (ucast (b AND 0x7F))"
  have same: "(if 5 \<le> k then r else ?r) = ?r"
    using push_bit_32 [of k "ucast (b AND 0x7F)"] by auto
  have nxt: "(of_nat (7 * k) + 7 :: byte) = of_nat (7 * Suc k)" by simp
  have step: "varint32_loop E r (of_nat (7 * k)) (Suc n') (s, h) =
    (if 5 \<le> k \<and> b AND 0x7F \<noteq> 0 \<and> \<not> (bit r 31 \<and> b = (if k < 9 then 0xFF else 0x01))
     then Some (None, (set_i_error ''varint overflow'' (advance 1 s), h))
     else if b AND 0x80 \<noteq> 0 then varint32_loop E ?r (of_nat (7 * Suc k)) n' (advance 1 s, h)
     else Some (Some (?r, of_nat (7 * Suc k), b), (advance 1 s, h)))"
    unfolding varint32_loop.simps(2) rd
    by (simp only: Let_def bp same nxt bit_31 de_Morgan_conj not_not if_distribR i_error_def returnC_def prod.case)
  show ?case
  proof (cases "b AND 0x80 = 0")
    case True
    then have "g = [b]" using Cons.prems(2) by simp
    then show ?thesis using True
      by (auto simp: n step simp del: of_nat_mult varint32_loop.simps intro!: exI [of _ 1])
  next
    case False
    then obtain g' where g: "g = b # g'" "varint_group bs = Some (g', rest)"
      using Cons.prems(2) by (auto split: option.splits)
    then have "g' \<noteq> []" using varint_group_append by blast
    have IH: "(accepts32 ?r (Suc k) g' \<longrightarrow> varint32_loop E ?r (of_nat (7 * Suc k)) n' (advance 1 s, h) =
      Some (Some (?r OR push_bit (7 * Suc k) (of_nat (varint_value g')), of_nat (7 * (Suc k + length g')), last g'),
            (advance (length g') (advance 1 s), h)))
    \<and> (\<not> accepts32 ?r (Suc k) g' \<longrightarrow>
      (\<exists>j \<le> length g'. varint32_loop E ?r (of_nat (7 * Suc k)) n' (advance 1 s, h) =
         Some (None, (set_i_error ''varint overflow'' (advance j (advance 1 s)), h))))"
      using Cons.prems(3,4) g n by (intro Cons.IH [OF feeds_Cons [OF Cons.prems(1)] g(2)]) simp_all
    have val: "?r OR push_bit (7 * Suc k) (of_nat (varint_value g')) = r OR push_bit (7 * k) (of_nat (varint_value g))"
      using varint_push [of r "7 * k" b "varint_value g'"] g by (simp add: add.commute [of 7] del: of_nat_add of_nat_mult)
    show ?thesis
    proof (intro conjI impI)
      assume a: "accepts32 r k g"
      with g have "accepts32 ?r (Suc k) g'" by simp
      with IH a g \<open>g' \<noteq> []\<close> False show "varint32_loop E r (of_nat (7 * k)) n (s, h) =
        Some (Some (r OR push_bit (7 * k) (of_nat (varint_value g)), of_nat (7 * (k + length g)), last g),
            (advance (length g) s, h))"
        unfolding n step val [symmetric] by auto
    next
      assume a: "\<not> accepts32 r k g"
      show "\<exists>j \<le> length g. varint32_loop E r (of_nat (7 * k)) n (s, h) =
         Some (None, (set_i_error ''varint overflow'' (advance j s), h))"
      proof (cases "accepts32 ?r (Suc k) g'")
        case True
        with a g have "5 \<le> k \<and> b AND 0x7F \<noteq> 0 \<and> \<not> (bit r 31 \<and> b = (if k < 9 then 0xFF else 0x01))"
          by auto
        then show ?thesis unfolding n step using gne(2) by (intro exI [of _ 1]) (auto simp: Suc_le_eq simp del: length_greater_0_conv)
      next
        case False': False
        with IH obtain j where "j \<le> length g'" "varint32_loop E ?r (of_nat (7 * Suc k)) n' (advance 1 s, h) =
         Some (None, (set_i_error ''varint overflow'' (advance (Suc j) s), h))" by auto
        then show ?thesis unfolding n step using gne g False
          by (cases "5 \<le> k \<and> b AND 0x7F \<noteq> 0 \<and> \<not> (bit r 31 \<and> b = (if k < 9 then 0xFF else 0x01))")
             (auto intro: exI [of _ 1] exI [of _ "Suc j"])
      qed
    qed
  qed
qed simp

lemma pb_decode_varint32_eof_Nil:
  "feeds [] s h \<Longrightarrow> pb_decode_varint32_eof E (s, h) =
     Some (Some (None, True), (set_i_error ''end-of-stream'' s, h))"
  by (simp add: pb_decode_varint32_eof_def bindC_def catchC_def readbyte_Nil feeds_left)

text \<open>Which varints of at most ten bytes the 32-bit reader takes.\<close>

definition varint32_ok :: "byte list \<Rightarrow> bool" where
  "varint32_ok g \<longleftrightarrow> (length g = 5 \<longrightarrow> last g AND 0x70 = 0) \<and> accepts32 0 0 g"

lemma pb_decode_varint32_eof_spec:
  assumes "feeds bs s h" "varint_group bs = Some (g, rest)" "length g \<le> 10"
  shows "(varint32_ok g \<longrightarrow> pb_decode_varint32_eof E (s, h) =
      Some (Some (Some (of_nat (varint_value g)), False), (advance (length g) s, h)))
    \<and> (\<not> varint32_ok g \<longrightarrow> (\<exists>j \<le> length g. pb_decode_varint32_eof E (s, h) =
      Some (Some (None, False), (set_i_error ''varint overflow'' (advance j s), h))))"
proof -
  obtain b bs' where [simp]: "bs = b # bs'" using assms(2) by (cases bs) auto
  have rd: "bindC (catchC (pb_readbyte E)) f (s, h) = f (Some b) (advance 1 s, h)" for f :: "byte option \<Rightarrow> 'c dec"
    using assms(1) by (simp add: bindC_def catchC_def readbyte_Cons)
  note fd = feeds_Cons [OF assms(1) [simplified]]
  show ?thesis
  proof (cases "b AND 0x80 = 0")
    case True
    then have "g = [b]" using assms(2) by simp
    moreover have "b AND 0x7F = b" using True by (simp add: byte_top byte_low_id)
    ultimately show ?thesis using True
      by (simp add: varint32_ok_def pb_decode_varint32_eof_def rd) (simp add: cm_defs)
  next
    case False
    then obtain g' where g: "g = b # g'" "varint_group bs' = Some (g', rest)"
      using assms(2) by (auto split: option.splits)
    then have g': "g' \<noteq> []" using varint_group_append by blast
    let ?r = "ucast (b AND 0x7F) :: u32"
    have loop: "(accepts32 ?r 1 g' \<longrightarrow> varint32_loop E ?r 7 (Suc (length bs')) (advance 1 s, h) =
        Some (Some (?r OR push_bit 7 (of_nat (varint_value g')), of_nat (7 * (1 + length g')), last g'),
              (advance (length g') (advance 1 s), h)))
      \<and> (\<not> accepts32 ?r 1 g' \<longrightarrow> (\<exists>j \<le> length g'. varint32_loop E ?r 7 (Suc (length bs')) (advance 1 s, h) =
        Some (None, (set_i_error ''varint overflow'' (advance j (advance 1 s)), h))))"
      using varint32_loop_spec [OF fd g(2), of 1 "Suc (length bs')" ?r E] assms(3) g by simp
    have acc: "accepts32 0 0 (b # g') \<longleftrightarrow> accepts32 ?r (Suc 0) g'" by simp
    have val: "?r OR push_bit 7 (of_nat (varint_value g')) = of_nat (varint_value g)"
      using g varint_join [of b "varint_value g'", where 'a = 32] by simp
    have len: "((of_nat (7 * (1 + length g')) :: byte) = 35) = (length g = 5)"
    proof -
      have "length g' < 10" using assms(3) g by simp
      then have "((of_nat (7 * (1 + length g')) :: byte) = of_nat (7 * 5)) = (7 * (1 + length g') = 7 * 5)"
        by (simp add: word_unat_eq_iff unat_of_nat del: of_nat_mult of_nat_add of_nat_Suc)
      then show ?thesis using g by simp
    qed
    have dec: "pb_decode_varint32_eof E (s, h) = bindC (catchC (bindC (\<lambda>st. varint32_loop E ?r 7 (Suc (length bs')) st)
        (\<lambda>(result, bitpos, b). if bitpos = 35 \<and> b AND 0x70 \<noteq> 0 then i_error ''varint overflow'' else returnC result)))
      (\<lambda>v. returnC (v, False)) (advance 1 s, h)"
      using False
      by (simp add: pb_decode_varint32_eof_def rd del: varint32_loop.simps One_nat_def)
        (simp add: bindC_def catchC_def input_bound_eq [OF fd] del: varint32_loop.simps One_nat_def)
    show ?thesis
    proof (cases "accepts32 ?r 1 g'")
      case True
      with loop val len g' g assms show ?thesis
        by (auto simp: dec varint32_ok_def acc bindC_def catchC_def returnC_def i_error_def
            simp del: varint32_loop.simps accepts32.simps intro!: exI [of _ "Suc (length g')"])
    next
      case ac: False
      with loop obtain j where "j \<le> length g'" "varint32_loop E ?r 7 (Suc (length bs')) (advance 1 s, h) =
        Some (None, (set_i_error ''varint overflow'' (advance (Suc j) s), h))" by auto
      with ac g show ?thesis
        by (auto simp: dec varint32_ok_def acc bindC_def catchC_def returnC_def
            simp del: varint32_loop.simps accepts32.simps intro!: exI [of _ "Suc j"])
    qed
  qed
qed

lemma pb_decode_varint32_feeds:
  assumes "feeds bs s h" "varint_group bs = Some (g, rest)" "length g \<le> 10" "varint32_ok g"
  shows "pb_decode_varint32 E (s, h) = Some (Some (of_nat (varint_value g)), (advance (length g) s, h))"
  using pb_decode_varint32_eof_spec [OF assms(1-3), of E] assms(4)
  by (simp add: pb_decode_varint32_def bindC_def returnC_def)

text \<open>A value below \<open>2 ^ 32\<close> is accepted, in whatever length of at most ten bytes.\<close>

lemma accepts32_zero:
  "(\<And>i. i < length g \<Longrightarrow> 5 \<le> k + i \<Longrightarrow> g ! i AND 0x7F = 0) \<Longrightarrow> accepts32 r k g"
proof (induction g arbitrary: r k)
  case (Cons b g)
  have "accepts32 (r OR push_bit (7 * k) (ucast (b AND 0x7F))) (Suc k) g"
  proof (rule Cons.IH)
    fix i assume "i < length g" "5 \<le> Suc k + i"
    then show "g ! i AND 0x7F = 0" using Cons.prems [of "Suc i"] by simp
  qed
  moreover have "5 \<le> k \<longrightarrow> b AND 0x7F = 0" using Cons.prems [of 0] by simp
  ultimately show ?case by auto
qed simp

lemma varint_value_nth:
  "i < length g \<Longrightarrow> unat (g ! i AND 0x7F) * 128 ^ i \<le> varint_value g"
proof (induction g arbitrary: i)
  case (Cons b g)
  show ?case
  proof (cases i)
    case (Suc j)
    then have "unat (g ! j AND 0x7F) * 128 ^ j \<le> varint_value g" using Cons by simp
    then have "128 * (unat (g ! j AND 0x7F) * 128 ^ j) \<le> 128 * varint_value g" by (rule mult_le_mono2)
    with Suc show ?thesis by (simp add: ac_simps)
  qed simp
qed simp

lemma varint32_ok_small:
  assumes "varint_value g < 2 ^ 32"
  shows "varint32_ok g"
proof -
  have dig: "unat (g ! i AND 0x7F) * 128 ^ i < 4294967296" if "i < length g" for i
    using varint_value_nth [OF that] assms by simp
  have "g ! i AND 0x7F = 0" if "i < length g" "5 \<le> 0 + i" for i
  proof -
    have "(128::nat) ^ 5 \<le> 128 ^ i" using that by (intro power_increasing) simp_all
    moreover have "unat (g ! i AND 0x7F) * 128 ^ 5 \<le> unat (g ! i AND 0x7F) * 128 ^ i"
      using calculation by (rule mult_le_mono2)
    ultimately have "unat (g ! i AND 0x7F) * 128 ^ 5 < 4294967296" using dig [OF that(1)] by linarith
    then have "unat (g ! i AND 0x7F) = 0" by simp
    then show ?thesis by (simp add: unat_eq_0)
  qed
  then have "accepts32 0 0 g" by (rule accepts32_zero)
  moreover have "last g AND 0x70 = 0" if "length g = 5"
  proof -
    have "unat (g ! 4 AND 0x7F) < 16" using dig [of 4] that by simp
    then have "g ! 4 AND 0x7F < 16" by (simp add: word_less_nat_alt)
    moreover have "b AND 0x7F < 16 \<longrightarrow> b AND 0x70 = 0" for b :: byte
      by (rule all_bytes) simp
    moreover have "last g = g ! 4" using that by (cases g) (auto simp: last_conv_nth)
    ultimately show ?thesis by simp
  qed
  ultimately show ?thesis by (simp add: varint32_ok_def)
qed

text \<open>So is a negative 32-bit number that was sign-extended to 64 bits and takes ten bytes.\<close>

lemma varint32_ok_negative:
  assumes "2 ^ 64 - 2 ^ 31 \<le> n" "n < (2::nat) ^ 64"
  shows "varint32_ok (varint_bytes n)"
proof -
  define d where "d k = n div 128 ^ k" for k
  have step: "varint_bytes (d k) = (of_nat (d k mod 128) OR 0x80) # varint_bytes (d j)" if "128 \<le> d k" "j = Suc k" for j k
    using that by (subst varint_bytes.simps) (simp add: d_def div_mult2_eq power_Suc2 del: power_Suc)
  have "(2 ^ 64 - 2 ^ 31) div 128 ^ k \<le> d k" for k
    using assms(1) by (simp add: d_def div_le_mono)
  from this [of 0] this [of 1] this [of 2] this [of 3] this [of 4]
  have big: "128 \<le> d 0" "128 \<le> d 1" "128 \<le> d 2" "128 \<le> d 3" "128 \<le> d 4" by simp_all
  have d5: "d 5 = 536870911" using assms by (simp add: d_def)
  have "d 4 div 8 = 8589934591" using assms by (simp add: d_def div_mult2_eq [symmetric])
  then have d4: "d 4 mod 128 = 120 + d 4 mod 8" "d 4 mod 8 < 8"
    using mod_mult2_eq [of "d 4" 8 16] by simp_all
  have tail: "varint_bytes 536870911 = [0xFF, 0xFF, 0xFF, 0xFF, 0x01]"
    by (simp add: varint_bytes.simps)
  have g: "varint_bytes n = [of_nat (d 0 mod 128) OR 0x80, of_nat (d 1 mod 128) OR 0x80, of_nat (d 2 mod 128) OR 0x80,
      of_nat (d 3 mod 128) OR 0x80, of_nat (d 4 mod 128) OR 0x80, 0xFF, 0xFF, 0xFF, 0xFF, 0x01]"
  proof -
    have "varint_bytes n = varint_bytes (d 0)" by (simp add: d_def)
    moreover have "varint_bytes (d 0) = (of_nat (d 0 mod 128) OR 0x80) # varint_bytes (d 1)"
      by (rule step [OF big(1)]) simp
    moreover have "varint_bytes (d 1) = (of_nat (d 1 mod 128) OR 0x80) # varint_bytes (d 2)"
      by (rule step [OF big(2)]) simp
    moreover have "varint_bytes (d 2) = (of_nat (d 2 mod 128) OR 0x80) # varint_bytes (d 3)"
      by (rule step [OF big(3)]) simp
    moreover have "varint_bytes (d 3) = (of_nat (d 3 mod 128) OR 0x80) # varint_bytes (d 4)"
      by (rule step [OF big(4)]) simp
    moreover have "varint_bytes (d 4) = (of_nat (d 4 mod 128) OR 0x80) # varint_bytes (d 5)"
      by (rule step [OF big(5)]) simp
    ultimately show ?thesis by (simp only: d5 tail)
  qed
  note d4(1)
  moreover have "list_all (\<lambda>j. bit (push_bit 28 (ucast ((of_nat (120 + j) OR 0x80) AND 0x7F :: byte) :: u32)) 31) [0..<8]"
    by code_simp
  then have "bit (push_bit 28 (ucast ((of_nat (120 + d 4 mod 8) OR 0x80) AND 0x7F :: byte) :: u32)) 31"
    using d4(2) by (simp only: list_all_iff set_upt) force
  ultimately have "bit (push_bit 28 (ucast ((of_nat (d 4 mod 128) OR 0x80) AND 0x7F :: byte) :: u32)) 31"
    by simp
  then show ?thesis
    by (simp add: varint32_ok_def g bit_or_iff)
qed

text \<open>A run of \<open>0x80\<close> bytes moves \<open>bitpos\<close> on and leaves the result alone.\<close>

lemma varint32_loop_pad:
  assumes "feeds (replicate m 0x80 @ bs) s h"
  shows "varint32_loop E r bp (m + n) (s, h) = varint32_loop E r (bp + of_nat (7 * m)) n (advance m s, h)"
  using assms
proof (induction m arbitrary: s bp)
  case (Suc m)
  then have f: "feeds (0x80 # replicate m 0x80 @ bs) s h" by simp
  have "varint32_loop E r bp (Suc m + n) (s, h) = varint32_loop E r (bp + 7) (m + n) (advance 1 s, h)"
    by (simp add: bind_readbyte_Cons [OF f] Let_def)
  with Suc.IH [OF feeds_Cons [OF f]] show ?case by (simp add: ac_simps del: varint32_loop.simps)
qed simp

section \<open>Tags\<close>

lemma pb_decode_tag_feeds:
  assumes "feeds bs s h" "varint_group bs = Some (g, rest)" "length g \<le> 10" "varint32_ok g"
    "of_nat (varint_value g) \<noteq> (0 :: u32)"
  shows "pb_decode_tag E (s, h) = Some (Some (True, of_nat (varint_value g) AND 7,
    drop_bit 3 (of_nat (varint_value g)), False), (advance (length g) s, h))"
  using pb_decode_varint32_eof_spec [OF assms(1-3), of E] assms(4,5)
  by (simp add: pb_decode_tag_def bindC_def returnC_def)

lemma pb_decode_tag_Nil:
  "feeds [] s h \<Longrightarrow> pb_decode_tag E (s, h) =
     Some (Some (False, 0, 0, True), (set_i_error ''end-of-stream'' s, h))"
  by (simp add: pb_decode_tag_def bindC_def returnC_def pb_decode_varint32_eof_Nil)

end
