(* ===== verification/PbTransport.thy ===== *)
theory PbTransport
  imports PbWire
begin

text \<open>
  What each wire-level writer emits, what each reader makes of it, and the properties of the wire
  format: every writer is inverted by its reader, and skipping a value goes exactly past it.
\<close>

section \<open>Writers\<close>

lemma pb_encode_varint_emits:
  assumes "has_room (length (varint_bytes (unat v))) (s, h)"
  obtains s' h' where "pb_encode_varint E v (s, h) = Some (Some (), (s', h'))"
    "emitted (varint_bytes (unat v)) (s, h) (s', h')"
  using pb_write_emits [OF assms, of E] by (auto simp: pb_encode_varint_eq Let_def)

lemma room_for_buffer:
  "readable h a n \<Longrightarrow> m \<le> n \<Longrightarrow> n < 2 ^ 64 \<Longrightarrow> has_room m (pb_ostream_from_buffer a (of_nat n), h)"
  by (simp add: has_room_def pb_ostream_from_buffer_def unat_of_nat_64 readable_mono)

lemma emitted_buffer_count:
  "emitted bs (pb_ostream_from_buffer a n, h) (s', h') \<Longrightarrow> bytes_written s' = of_nat (length bs)"
  by (simp add: emitted_def pb_ostream_from_buffer_def)

definition zigzag :: "u64 \<Rightarrow> u64" where
  "zigzag v = (if sint v < 0 then NOT (push_bit 1 v) else push_bit 1 v)"

definition unzigzag :: "u64 \<Rightarrow> u64" where
  "unzigzag z = (if z AND 1 \<noteq> 0 then NOT (drop_bit 1 z) else drop_bit 1 z)"

lemma pb_encode_svarint_eq: "pb_encode_svarint E v = pb_encode_varint E (zigzag v)"
  by (simp add: pb_encode_svarint_def zigzag_def)

lemma pb_decode_svarint_eq:
  "pb_decode_svarint E = bindC (pb_decode_varint E) (\<lambda>z. returnC (unzigzag z))"
  by (simp add: pb_decode_svarint_def unzigzag_def)

lemma unzigzag_zigzag [simp]: "unzigzag (zigzag v) = v"
proof -
  have neg: "sint v < 0 \<longleftrightarrow> bit v 63"
    using bit_last_iff [of v] by simp
  have odd: "(z AND 1 \<noteq> 0) = bit z 0" for z :: u64
    by (simp add: and_one_eq bit_0 even_iff_mod_2_eq_zero)
  show ?thesis
  proof (cases "sint v < 0")
    case True
    then have z: "zigzag v = NOT (push_bit 1 v)" by (simp add: zigzag_def)
    then have "bit (zigzag v) 0" by (simp add: bit_not_iff bit_0)
    then have u: "unzigzag (zigzag v) = NOT (drop_bit 1 (zigzag v))" by (simp only: unzigzag_def odd if_True)
    show ?thesis unfolding u unfolding z
    proof (rule bit_word_eqI)
      fix i assume "i < LENGTH(64)"
      then show "bit (NOT (drop_bit 1 (NOT (push_bit 1 v)))) i = bit v i"
        using True neg
        by (cases "i = 63") (auto simp: bit_not_iff bit_drop_bit_eq bit_push_bit_iff simp del: push_bit_Suc drop_bit_Suc)
    qed
  next
    case False
    then have z: "zigzag v = push_bit 1 v" by (simp add: zigzag_def)
    then have "\<not> bit (zigzag v) 0" by (simp add: bit_0)
    then have u: "unzigzag (zigzag v) = drop_bit 1 (zigzag v)" by (simp only: unzigzag_def odd if_False)
    show ?thesis unfolding u unfolding z
    proof (rule bit_word_eqI)
      fix i assume "i < LENGTH(64)"
      then show "bit (drop_bit 1 (push_bit 1 v)) i = bit v i"
        using False neg
        by (cases "i = 63") (auto simp: bit_drop_bit_eq bit_push_bit_iff simp del: push_bit_Suc drop_bit_Suc)
    qed
  qed
qed

lemma ucast_and_255 [simp]: "(ucast (w AND 0xFF) :: byte) = ucast (w :: 'a::len word)"
proof -
  have "w AND 0xFF = take_bit 8 w" by (simp add: take_bit_eq_mask mask_eq_exp_minus_1)
  then show ?thesis
    by (intro bit_word_eqI) (auto simp: bit_ucast_iff bit_take_bit_iff dest: bit_imp_le_length)
qed

lemma le_bytes_4: "le_bytes 4 (w :: u32) =
    [ucast w, ucast (drop_bit 8 w), ucast (drop_bit 16 w), ucast (drop_bit 24 w)]"
  by (simp add: le_bytes_def upt_rec numeral_eq_Suc)

lemma le_bytes_8: "le_bytes 8 (w :: u64) =
    [ucast w, ucast (drop_bit 8 w), ucast (drop_bit 16 w), ucast (drop_bit 24 w),
     ucast (drop_bit 32 w), ucast (drop_bit 40 w), ucast (drop_bit 48 w), ucast (drop_bit 56 w)]"
  by (simp add: le_bytes_def upt_rec numeral_eq_Suc)

lemma length_4_cases: "length bs = 4 \<Longrightarrow> \<exists>a b c d. bs = [a, b, c, d]"
  by (auto simp: length_Suc_conv numeral_eq_Suc)

lemma length_8_cases: "length bs = 8 \<Longrightarrow> \<exists>a b c d e f g h. bs = [a, b, c, d, e, f, g, h]"
  by (auto simp: length_Suc_conv numeral_eq_Suc)

lemma pb_encode_fixed32_eq:
  assumes "load_bytes h a 4 = Some bs"
  shows "pb_encode_fixed32 E a (s, h) = pb_write E (Local bs) (of_nat (length bs)) (s, h)"
proof -
  have len: "length bs = 4" using assms by (rule load_bytes_length)
  then have "le_bytes 4 (le_word bs :: u32) = bs" using le_bytes_le_word [of bs, where 'a = 32] by simp
  then show ?thesis using assms len
    by (simp add: pb_encode_fixed32_def load_u32_def loadC_def bindC_def returnC_def le_bytes_4)
qed

lemma pb_encode_fixed64_eq:
  assumes "load_bytes h a 8 = Some bs"
  shows "pb_encode_fixed64 E a (s, h) = pb_write E (Local bs) (of_nat (length bs)) (s, h)"
proof -
  have len: "length bs = 8" using assms by (rule load_bytes_length)
  then have "le_bytes 8 (le_word bs :: u64) = bs" using le_bytes_le_word [of bs, where 'a = 64] by simp
  then show ?thesis using assms len
    by (simp add: pb_encode_fixed64_def loadC_def bindC_def returnC_def Let_def le_bytes_8)
qed

lemma pb_decode_fixed32_eq:
  assumes "feeds (bs @ rest) s h" "length bs = 4"
  shows "pb_decode_fixed32 E dest (s, h) = storeC dest bs (advance 4 s, h)"
proof -
  obtain a b c d where bs: "bs = [a, b, c, d]" using length_4_cases [OF assms(2)] by blast
  have "push_bit 0 (ucast a) OR push_bit 8 (ucast b) OR push_bit 16 (ucast c) OR push_bit 24 (ucast d)
      = (le_word bs :: u32)"
    by (simp add: bs push_bit_or push_bit_push_bit)
  moreover have "le_bytes 4 (le_word bs :: u32) = bs"
    using le_bytes_le_word [of bs, where 'a = 32] assms(2) by simp
  moreover have "pb_read E True 4 (s, h) = Some (Some bs, (advance 4 s, h))"
    using pb_read_buf [OF assms(1), of 4 E True] assms(2) by simp
  ultimately show ?thesis
    by (simp add: pb_decode_fixed32_def bindC_def store_u32_def bs)
qed

lemma pb_decode_fixed64_eq:
  assumes "feeds (bs @ rest) s h" "length bs = 8"
  shows "pb_decode_fixed64 E dest (s, h) = storeC dest bs (advance 8 s, h)"
proof -
  obtain a b c d e f g i where bs: "bs = [a, b, c, d, e, f, g, i]" using length_8_cases [OF assms(2)] by blast
  have "push_bit 0 (ucast a) OR push_bit 8 (ucast b) OR push_bit 16 (ucast c) OR push_bit 24 (ucast d)
      OR push_bit 32 (ucast e) OR push_bit 40 (ucast f) OR push_bit 48 (ucast g) OR push_bit 56 (ucast i)
      = (le_word bs :: u64)"
    by (simp add: bs push_bit_or push_bit_push_bit)
  moreover have "le_bytes 8 (le_word bs :: u64) = bs"
    using le_bytes_le_word [of bs, where 'a = 64] assms(2) by simp
  moreover have "pb_read E True 8 (s, h) = Some (Some bs, (advance 8 s, h))"
    using pb_read_buf [OF assms(1), of 8 E True] assms(2) by simp
  ultimately show ?thesis
    by (simp add: pb_decode_fixed64_def bindC_def bs)
qed

section \<open>Wire values\<close>

text \<open>
  The four kinds of value the format has, their bytes, and the wire type that announces them; this is
  the format as the protobuf documentation gives it, independent of how nanopb reads and writes it.
\<close>

datatype wire_value = W_varint nat | W_64bit "byte list" | W_string "byte list" | W_32bit "byte list"

fun wire_ok :: "wire_value \<Rightarrow> bool" where
  "wire_ok (W_varint n) = (n < 2 ^ 64)"
| "wire_ok (W_64bit bs) = (length bs = 8)"
| "wire_ok (W_string bs) = (length bs < 2 ^ 32)"
| "wire_ok (W_32bit bs) = (length bs = 4)"

fun wire_bytes :: "wire_value \<Rightarrow> byte list" where
  "wire_bytes (W_varint n) = varint_bytes n"
| "wire_bytes (W_64bit bs) = bs"
| "wire_bytes (W_string bs) = varint_bytes (length bs) @ bs"
| "wire_bytes (W_32bit bs) = bs"

fun wire_type_of :: "wire_value \<Rightarrow> u32" where
  "wire_type_of (W_varint n) = 0"
| "wire_type_of (W_64bit bs) = 1"
| "wire_type_of (W_string bs) = 2"
| "wire_type_of (W_32bit bs) = 5"

lemma varint32_bytes_feeds:
  assumes "feeds (varint_bytes n @ rest) s h" "n < 2 ^ 32"
  shows "pb_decode_varint32 E (s, h) = Some (Some (of_nat n), (advance (length (varint_bytes n)) s, h))"
proof -
  have "length (varint_bytes n) \<le> Suc 9" using assms(2) by (intro length_varint_bytes) simp
  moreover have "varint32_ok (varint_bytes n)" using assms(2) by (intro varint32_ok_small) simp
  ultimately show ?thesis
    using pb_decode_varint32_feeds [OF assms(1) varint_group_bytes] by simp
qed

lemma varint_bytes_feeds:
  assumes "feeds (varint_bytes (unat v) @ rest) s h"
  shows "pb_decode_varint E (s, h) = Some (Some v, (advance (length (varint_bytes (unat v))) s, h))"
  using pb_decode_varint_feeds [OF assms varint_group_bytes length_varint_bytes_64] by simp

lemma pb_read_append:
  assumes "feeds (xs @ ys) s h" "unat n = length xs"
  shows "pb_read E w n (s, h) = Some (Some (if w then xs else []), (advance (length xs) s, h))"
  using pb_read_buf [OF assms(1), of n E w] assms(2) by simp

lemma pb_skip_string_feeds:
  assumes "feeds (varint_bytes (length xs) @ xs @ rest) s h" "length xs < 2 ^ 32"
  shows "pb_skip_string E (s, h) = Some (Some (), (advance (length (varint_bytes (length xs) @ xs)) s, h))"
proof -
  have "unat (ucast (of_nat (length xs) :: u32) :: size_t) = length xs"
    using assms(2) by (simp add: unsigned_ucast_eq unat_of_nat take_bit_nat_eq_self)
  from pb_read_append [OF feeds_advance [OF assms(1)] this, of E False] show ?thesis
    by (simp add: pb_skip_string_def bindC_def varint32_bytes_feeds [OF assms] returnC_def)
qed

lemma pb_skip_field_feeds:
  assumes "feeds (wire_bytes v @ rest) s h" "wire_ok v"
  shows "pb_skip_field E (wire_type_of v) (s, h) = Some (Some (), (advance (length (wire_bytes v)) s, h))"
proof (cases v)
  case (W_varint n)
  then show ?thesis using pb_skip_varint_spec [of "varint_bytes n @ rest" s h E] assms(1)
    by (simp add: pb_skip_field_def varint_group_bytes)
next
  case (W_64bit bs)
  then show ?thesis using pb_read_append [of bs rest s h 8 E False] assms
    by (simp add: pb_skip_field_def bindC_def returnC_def)
next
  case (W_string bs)
  then show ?thesis using pb_skip_string_feeds [of bs rest s h E] assms
    by (simp add: pb_skip_field_def)
next
  case (W_32bit bs)
  then show ?thesis using pb_read_append [of bs rest s h 4 E False] assms
    by (simp add: pb_skip_field_def bindC_def returnC_def)
qed

section \<open>Tags\<close>

definition tag_number :: "u32 \<Rightarrow> u32 \<Rightarrow> nat" where
  "tag_number wt t = 8 * unat t + unat wt"

lemma encode_tag_value:
  assumes "wt < 8" "t < 0x20000000"
  shows "push_bit 3 (ucast t) OR ucast wt = (of_nat (tag_number wt t) :: u64)"
    "of_nat (tag_number wt t) AND 7 = wt" "drop_bit 3 (of_nat (tag_number wt t)) = t"
    "tag_number wt t < 2 ^ 32"
proof -
  have n: "unat wt < 8" "unat t < 536870912" using assms by (simp_all add: word_less_nat_alt)
  then show lt: "tag_number wt t < 2 ^ 32" by (simp add: tag_number_def)
  have "unat (ucast wt :: u64) < 2 ^ 3"
    using n by (simp add: unsigned_ucast_eq take_bit_nat_eq_self)
  from or_shifted [OF this, of "ucast t"] show "push_bit 3 (ucast t) OR ucast wt = (of_nat (tag_number wt t) :: u64)"
    by (simp add: or.commute tag_number_def push_bit_eq_mult)
  have u: "unat (of_nat (tag_number wt t) :: u32) = tag_number wt t"
    using lt by (simp add: unat_of_nat)
  have "(of_nat (tag_number wt t) :: u32) AND 7 = take_bit 3 (of_nat (tag_number wt t))"
    by (simp add: take_bit_eq_mask mask_eq_exp_minus_1)
  then have "unat ((of_nat (tag_number wt t) :: u32) AND 7) = tag_number wt t mod 8"
    using u by (simp only: take_bit_eq_mod unat_mod) simp
  also have "\<dots> = unat wt" using n by (simp add: tag_number_def)
  finally show "of_nat (tag_number wt t) AND 7 = wt" by (simp only: word_unat_eq_iff)
  have "unat (drop_bit 3 (of_nat (tag_number wt t) :: u32)) = tag_number wt t div 8"
    using u by (simp add: drop_bit_eq_div unat_div del: of_nat_add of_nat_mult)
  also have "\<dots> = unat t" using n by (simp add: tag_number_def)
  finally show "drop_bit 3 (of_nat (tag_number wt t)) = t" by (simp only: word_unat_eq_iff)
qed

lemma pb_encode_tag_eq:
  "wt < 8 \<Longrightarrow> t < 0x20000000 \<Longrightarrow> pb_encode_tag E wt t = pb_encode_varint E (of_nat (tag_number wt t))"
  by (simp add: pb_encode_tag_def encode_tag_value)

lemma pb_decode_tag_bytes:
  assumes "feeds (varint_bytes (tag_number wt t) @ rest) s h" "wt < 8" "t < 0x20000000" "tag_number wt t \<noteq> 0"
  shows "pb_decode_tag E (s, h) = Some (Some (True, wt, t, False),
           (advance (length (varint_bytes (tag_number wt t))) s, h))"
proof -
  note tv = encode_tag_value [OF assms(2,3)]
  have "length (varint_bytes (tag_number wt t)) \<le> Suc 9" using tv(4) by (intro length_varint_bytes) simp
  moreover have "varint32_ok (varint_bytes (tag_number wt t))" using tv(4) by (intro varint32_ok_small) simp
  moreover have "(of_nat (tag_number wt t) :: u32) \<noteq> 0"
    using tv(4) assms(4) by (simp add: word_unat_eq_iff unat_of_nat)
  ultimately show ?thesis
    using pb_decode_tag_feeds [OF assms(1) varint_group_bytes, of E] tv by simp
qed

section \<open>Substreams\<close>

lemma make_substream_feeds:
  assumes "feeds (varint_bytes (length xs) @ xs @ ys) s h" "length xs < 2 ^ 32"
  defines "s1 \<equiv> advance (length (varint_bytes (length xs))) s"
  shows "pb_make_string_substream E (s, h) = Some (Some (s1\<lparr>bytes_left := of_nat (length xs)\<rparr>),
      (s1\<lparr>bytes_left := of_nat (length ys)\<rparr>, h))"
    "feeds xs (s1\<lparr>bytes_left := of_nat (length xs)\<rparr>) h"
proof -
  have s1: "feeds (xs @ ys) s1 h" unfolding s1_def by (rule feeds_advance [OF assms(1)])
  have len: "(ucast (of_nat (length xs) :: u32) :: size_t) = of_nat (length xs)"
    using assms(2) by (simp add: word_unat_eq_iff unsigned_ucast_eq unat_of_nat take_bit_nat_eq_self)
  have left: "bytes_left s1 = of_nat (length xs) + of_nat (length ys)"
    using feeds_left [OF s1] by simp
  have "unat (of_nat (length xs) :: size_t) = length xs" using assms(2) by (simp add: unat_of_nat_64)
  then have enough: "\<not> bytes_left s1 < of_nat (length xs)"
    using feeds_unat [OF s1] by (simp add: word_less_nat_alt)
  show "pb_make_string_substream E (s, h) = Some (Some (s1\<lparr>bytes_left := of_nat (length xs)\<rparr>),
      (s1\<lparr>bytes_left := of_nat (length ys)\<rparr>, h))"
    using enough left
    by (simp add: pb_make_string_substream_def bindC_def varint32_bytes_feeds [OF assms(1,2)] len s1_def [symmetric])
  show "feeds xs (s1\<lparr>bytes_left := of_nat (length xs)\<rparr>) h"
    using feeds_split(1) [OF s1] feeds_buf [OF s1] assms(2) by (simp add: feeds_def unat_of_nat_64)
qed

text \<open>Closing a substream skips what was not read of it.\<close>

lemma close_substream_advance:
  assumes "i_callback sub = Buf_read" "bytes_left sub = of_nat n" "k \<le> n" "n < 2 ^ 64"
  shows "pb_close_string_substream E (advance k sub) (s, h) =
    Some (Some (), (s\<lparr>i_state := i_state sub + of_nat n, i_errmsg := i_errmsg sub\<rparr>, h))"
proof -
  have left: "bytes_left (advance k sub) = of_nat (n - k)"
    using assms(2,3) by simp
  show ?thesis
  proof (cases "k = n")
    case True
    then show ?thesis using left
      by (simp add: pb_close_string_substream_def bindC_def returnC_def)
  next
    case False
    have "unat (of_nat (n - k) :: size_t) = n - k" using assms(4) by (intro unat_of_nat_64) simp
    then have nz: "(of_nat (n - k) :: size_t) \<noteq> 0" using False assms(3) by (auto simp: word_unat_eq_iff)
    have st: "i_state sub + of_nat k + of_nat (n - k) = i_state sub + of_nat n"
      using assms(3) by simp
    show ?thesis using left nz assms(1) st
      by (simp add: pb_close_string_substream_def bindC_def on_substream_def pb_read_def
          read_checked_def catchC_def stream_read_buf buf_read_def del: of_nat_diff)
  qed
qed

lemma emitted_feeds_window:
  assumes "emitted bs (pb_ostream_from_buffer a w, h) (s', h')" "readable h a m" "length bs \<le> m" "m < 2 ^ 64"
  shows "\<exists>rest. feeds (bs @ rest) (pb_istream_from_buffer a (of_nat m)) h'"
proof -
  have st: "store_bytes h a bs = Some h'" using assms(1) by (simp add: emitted_def pb_ostream_from_buffer_def)
  have "readable h' a m"
    using frame_readable [OF store_bytes_frame [OF st]] assms(2) by blast
  then obtain cs where cs: "load_bytes h' (a + of_nat (length bs)) (m - length bs) = Some cs"
    using readable_offset [of h' a m "length bs" "m - length bs"] assms(3) by (auto simp: load_bytes_readable)
  moreover have "load_bytes h' a (length bs) = Some bs" using load_store_same [OF st] assms(3,4) by simp
  ultimately have "load_bytes h' a m = Some (bs @ cs)"
    using load_bytes_append [of h' a "length bs" "m - length bs"] assms(3) by simp
  moreover from this have "length (bs @ cs) = m" by (rule load_bytes_length)
  ultimately have "feeds (bs @ cs) (pb_istream_from_buffer a (of_nat m)) h'"
    using assms(4) by (simp add: feeds_def pb_istream_from_buffer_def unat_of_nat_64)
  then show ?thesis ..
qed

section \<open>Writers and the readers that invert them\<close>

text \<open>
  A writer of values and a reader belong together when the writer emits \<open>bytes v\<close> for a value \<open>v\<close> it
  accepts and the reader, standing before \<open>bytes v\<close>, delivers \<open>v\<close> and moves just past it.
\<close>

locale codec =
  fixes write_value :: "'v \<Rightarrow> unit enc" and read_value :: "'v dec"
    and bytes :: "'v \<Rightarrow> byte list" and ok :: "'v \<Rightarrow> bool"
  assumes writes: "ok v \<Longrightarrow> has_room (length (bytes v)) (s, h) \<Longrightarrow>
      \<exists>s' h'. write_value v (s, h) = Some (Some (), (s', h')) \<and> emitted (bytes v) (s, h) (s', h')"
    and reads: "ok v \<Longrightarrow> feeds (bytes v @ rest) t k \<Longrightarrow>
      read_value (t, k) = Some (Some v, (advance (length (bytes v)) t, k))"
begin

primrec write_all :: "'v list \<Rightarrow> unit enc" where
  "write_all [] = returnC ()"
| "write_all (v # vs) = bindC (write_value v) (\<lambda>_. write_all vs)"

primrec read_all :: "nat \<Rightarrow> 'v list dec" where
  "read_all 0 = returnC []"
| "read_all (Suc n) = bindC read_value (\<lambda>v. bindC (read_all n) (\<lambda>vs. returnC (v # vs)))"

lemma write_all_emits:
  assumes "list_all ok vs" "has_room (length (concat (map bytes vs))) (s, h)"
  shows "\<exists>s' h'. write_all vs (s, h) = Some (Some (), (s', h')) \<and> emitted (concat (map bytes vs)) (s, h) (s', h')"
  using assms
proof (induction vs arbitrary: s h)
  case Nil
  then show ?case
    by (auto simp: returnC_def emitted_def has_room_def split: write_callback.splits)
next
  case (Cons v vs)
  have "has_room (length (bytes v)) (s, h)" using Cons.prems(2) by (rule has_room_less) simp
  with writes [of v s h] Cons.prems(1) obtain s1 h1 where w: "write_value v (s, h) = Some (Some (), (s1, h1))"
    "emitted (bytes v) (s, h) (s1, h1)" by auto
  have "has_room (length (concat (map bytes vs))) (s1, h1)"
    using has_room_after [OF _ w(2)] Cons.prems(2) by simp
  with Cons.IH [of s1 h1] Cons.prems(1) obtain s2 h2 where "write_all vs (s1, h1) = Some (Some (), (s2, h2))"
    "emitted (concat (map bytes vs)) (s1, h1) (s2, h2)" by auto
  with w show ?case by (auto simp: bindC_def intro: emitted_append)
qed

lemma read_all_feeds:
  assumes "list_all ok vs" "feeds (concat (map bytes vs) @ rest) t k"
  shows "read_all (length vs) (t, k) = Some (Some vs, (advance (length (concat (map bytes vs))) t, k))"
  using assms
proof (induction vs arbitrary: t)
  case Nil
  then show ?case by (simp add: returnC_def)
next
  case (Cons v vs)
  then have f: "feeds (bytes v @ concat (map bytes vs) @ rest) t k" by simp
  from reads [OF _ f] Cons.IH [OF _ feeds_advance [OF f]] Cons.prems(1)
  show ?case by (simp add: bindC_def returnC_def)
qed

text \<open>
  Write into a buffer, then read from that buffer through a window that ends anywhere between the end
  of what was written and the end of the memory: the bytes behind what was written are arbitrary.
\<close>

lemma roundtrip_all:
  assumes "list_all ok vs" "readable h a n" "length (concat (map bytes vs)) \<le> w" "w \<le> n" "n < 2 ^ 64"
  shows "\<exists>s' h'. write_all vs (pb_ostream_from_buffer a (of_nat w), h) = Some (Some (), (s', h'))
    \<and> unat (bytes_written s') = length (concat (map bytes vs))
    \<and> (\<forall>m. unat (bytes_written s') \<le> m \<and> m \<le> n \<longrightarrow> (\<exists>t.
          read_all (length vs) (pb_istream_from_buffer a (of_nat m), h') = Some (Some vs, (t, h'))
          \<and> i_state t = a + bytes_written s' \<and> unat (bytes_left t) = m - unat (bytes_written s')))"
proof -
  let ?bs = "concat (map bytes vs)"
  have "has_room (length ?bs) (pb_ostream_from_buffer a (of_nat w), h)"
    using readable_mono [OF assms(2,4)] assms(3-5) by (intro room_for_buffer) simp_all
  with write_all_emits [OF assms(1)] obtain s' h' where
    w: "write_all vs (pb_ostream_from_buffer a (of_nat w), h) = Some (Some (), (s', h'))"
    and em: "emitted ?bs (pb_ostream_from_buffer a (of_nat w), h) (s', h')" by blast
  have cnt: "bytes_written s' = of_nat (length ?bs)" by (rule emitted_buffer_count [OF em])
  have u: "unat (bytes_written s') = length ?bs" using cnt assms(3-5) by (simp add: unat_of_nat_64)
  have "\<exists>t. read_all (length vs) (pb_istream_from_buffer a (of_nat m), h') = Some (Some vs, (t, h'))
      \<and> i_state t = a + bytes_written s' \<and> unat (bytes_left t) = m - unat (bytes_written s')"
    if "unat (bytes_written s') \<le> m" "m \<le> n" for m
  proof -
    from that u assms(5) have m: "length ?bs \<le> m" "m < 2 ^ 64" by simp_all
    have rd: "readable h a m" using assms(2) that(2) by (rule readable_mono)
    obtain rest where "feeds (?bs @ rest) (pb_istream_from_buffer a (of_nat m)) h'"
      using emitted_feeds_window [OF em rd m] by blast
    from read_all_feeds [OF assms(1) this] m u cnt show ?thesis
      by (simp add: pb_istream_from_buffer_def unat_of_nat_64 flip: of_nat_diff)
  qed
  with w u show ?thesis by blast
qed

lemma roundtrip_window:
  assumes "ok v" "readable h a n" "length (bytes v) \<le> w" "w \<le> n" "n < 2 ^ 64"
  shows "\<exists>s' h'. write_value v (pb_ostream_from_buffer a (of_nat w), h) = Some (Some (), (s', h'))
    \<and> unat (bytes_written s') = length (bytes v)
    \<and> (\<forall>m. unat (bytes_written s') \<le> m \<and> m \<le> n \<longrightarrow> (\<exists>t.
          read_value (pb_istream_from_buffer a (of_nat m), h') = Some (Some v, (t, h'))
          \<and> i_state t = a + bytes_written s' \<and> unat (bytes_left t) = m - unat (bytes_written s')))"
proof -
  have one: "read_all (Suc 0) (t, k) = Some (Some [v], u) \<Longrightarrow> read_value (t, k) = Some (Some v, u)" for t k u
    by (auto simp: bindC_def returnC_def split: option.splits prod.splits)
  have "list_all ok [v]" "length (concat (map bytes [v])) \<le> w" using assms by simp_all
  from roundtrip_all [OF this(1) assms(2) this(2) assms(4,5)] obtain s' h' where
    w: "write_all [v] (pb_ostream_from_buffer a (of_nat w), h) = Some (Some (), (s', h'))"
    "unat (bytes_written s') = length (concat (map bytes [v]))"
    and r: "\<And>m. unat (bytes_written s') \<le> m \<Longrightarrow> m \<le> n \<Longrightarrow> \<exists>t.
      read_all (length [v]) (pb_istream_from_buffer a (of_nat m), h') = Some (Some [v], (t, h'))
      \<and> i_state t = a + bytes_written s' \<and> unat (bytes_left t) = m - unat (bytes_written s')" by blast
  have "write_value v (pb_ostream_from_buffer a (of_nat w), h) = Some (Some (), (s', h'))"
    using w(1) by (auto simp: bindC_def returnC_def split: option.splits prod.splits)
  moreover have "\<exists>t. read_value (pb_istream_from_buffer a (of_nat m), h') = Some (Some v, (t, h'))
      \<and> i_state t = a + bytes_written s' \<and> unat (bytes_left t) = m - unat (bytes_written s')"
    if "unat (bytes_written s') \<le> m" "m \<le> n" for m
    using r [OF that] one by auto
  ultimately show ?thesis using w(2) by auto
qed

lemma roundtrip:
  assumes "ok v" "readable h a n" "length (bytes v) \<le> n" "n < 2 ^ 64"
  shows "\<exists>s' h' t. write_value v (pb_ostream_from_buffer a (of_nat n), h) = Some (Some (), (s', h'))
    \<and> unat (bytes_written s') = length (bytes v)
    \<and> read_value (pb_istream_from_buffer a (bytes_written s'), h') = Some (Some v, (t, h'))
    \<and> bytes_left t = 0"
proof -
  obtain s' h' where w: "write_value v (pb_ostream_from_buffer a (of_nat n), h) = Some (Some (), (s', h'))"
    "unat (bytes_written s') = length (bytes v)"
    and r: "\<And>m. unat (bytes_written s') \<le> m \<Longrightarrow> m \<le> n \<Longrightarrow> \<exists>t.
      read_value (pb_istream_from_buffer a (of_nat m), h') = Some (Some v, (t, h'))
      \<and> i_state t = a + bytes_written s' \<and> unat (bytes_left t) = m - unat (bytes_written s')"
    using roundtrip_window [OF assms(1-3) le_refl assms(4)] by blast
  have "length (bytes v) \<le> n" "of_nat (unat (bytes_written s')) = bytes_written s'" using assms(3) by simp_all
  with r [of "unat (bytes_written s')"] w obtain t where
    "read_value (pb_istream_from_buffer a (bytes_written s'), h') = Some (Some v, (t, h'))" "bytes_left t = 0"
    by (metis diff_self_eq_0 order_refl unat_eq_zero)
  with w show ?thesis by blast
qed

end

interpretation varint: codec "pb_encode_varint E" "pb_decode_varint E'" "\<lambda>v. varint_bytes (unat v)" "\<lambda>_. True"
proof
  fix v :: u64 and s h assume "has_room (length (varint_bytes (unat v))) (s, h)"
  then show "\<exists>s' h'. pb_encode_varint E v (s, h) = Some (Some (), (s', h'))
      \<and> emitted (varint_bytes (unat v)) (s, h) (s', h')"
    by (rule pb_encode_varint_emits [of v s h E]) blast
qed (rule varint_bytes_feeds)

interpretation svarint: codec "pb_encode_svarint E" "pb_decode_svarint E'"
  "\<lambda>v. varint_bytes (unat (zigzag v))" "\<lambda>_. True"
proof
  fix v :: u64 and s h assume "has_room (length (varint_bytes (unat (zigzag v)))) (s, h)"
  then show "\<exists>s' h'. pb_encode_svarint E v (s, h) = Some (Some (), (s', h'))
      \<and> emitted (varint_bytes (unat (zigzag v))) (s, h) (s', h')"
    using varint.writes [of "zigzag v" s h E] by (simp add: pb_encode_svarint_eq)
next
  fix v :: u64 and rest t k assume "feeds (varint_bytes (unat (zigzag v)) @ rest) t k"
  from varint_bytes_feeds [OF this, of E']
  show "pb_decode_svarint E' (t, k) = Some (Some v, (advance (length (varint_bytes (unat (zigzag v)))) t, k))"
    by (simp add: pb_decode_svarint_eq bindC_def returnC_def)
qed

text \<open>A tag is read back with its four out-parameters.\<close>

interpretation tag: codec "\<lambda>(ok, wt, t, eof). pb_encode_tag E wt t" "pb_decode_tag E'"
  "\<lambda>(ok, wt, t, eof). varint_bytes (tag_number wt t)"
  "\<lambda>(ok, wt, t, eof). ok \<and> \<not> eof \<and> wt < 8 \<and> t < 0x20000000 \<and> tag_number wt t \<noteq> 0"
proof
  fix v :: "bool \<times> u32 \<times> u32 \<times> bool" and s h
  assume "case v of (ok, wt, t, eof) \<Rightarrow> ok \<and> \<not> eof \<and> wt < 8 \<and> t < 0x20000000 \<and> tag_number wt t \<noteq> 0"
    and "has_room (length (case v of (ok, wt, t, eof) \<Rightarrow> varint_bytes (tag_number wt t))) (s, h)"
  then obtain wt t where v: "v = (True, wt, t, False)" "wt < 8" "t < 0x20000000"
    and room: "has_room (length (varint_bytes (tag_number wt t))) (s, h)" by auto
  have "unat (of_nat (tag_number wt t) :: u64) = tag_number wt t"
    using encode_tag_value(4) [OF v(2,3)] by (intro unat_of_nat_64) simp
  with varint.writes [of "of_nat (tag_number wt t)" s h E] room
  show "\<exists>s' h'. (case v of (ok, wt, t, eof) \<Rightarrow> pb_encode_tag E wt t) (s, h) = Some (Some (), (s', h'))
      \<and> emitted (case v of (ok, wt, t, eof) \<Rightarrow> varint_bytes (tag_number wt t)) (s, h) (s', h')"
    using v by (simp add: pb_encode_tag_eq)
next
  fix v :: "bool \<times> u32 \<times> u32 \<times> bool" and rest t k
  assume "case v of (ok, wt, t, eof) \<Rightarrow> ok \<and> \<not> eof \<and> wt < 8 \<and> t < 0x20000000 \<and> tag_number wt t \<noteq> 0"
    and "feeds ((case v of (ok, wt, t, eof) \<Rightarrow> varint_bytes (tag_number wt t)) @ rest) t k"
  then show "pb_decode_tag E' (t, k)
      = Some (Some v, (advance (length (case v of (ok, wt, t, eof) \<Rightarrow> varint_bytes (tag_number wt t))) t, k))"
    by (auto simp: pb_decode_tag_bytes)
qed

section \<open>Properties\<close>

text \<open>C6: A varint that \<open>pb_encode_varint\<close> has written into a buffer of at least ten bytes is read
  back by \<open>pb_decode_varint\<close> as the same 64-bit value, whatever follows it: the reader's input may
  end anywhere from the last byte written to the end of the readable memory, and the reader stands just
  behind what was written afterwards, with the rest of the input left.\<close>

theorem varint_roundtrip:
  assumes "readable h a n" "10 \<le> w" "w \<le> n" "n < 2 ^ 64"
  shows "\<exists>s' h'. pb_encode_varint E v (pb_ostream_from_buffer a (of_nat w), h) = Some (Some (), (s', h'))
    \<and> unat (bytes_written s') \<le> 10
    \<and> (\<forall>m. unat (bytes_written s') \<le> m \<and> m \<le> n \<longrightarrow> (\<exists>t.
          pb_decode_varint E' (pb_istream_from_buffer a (of_nat m), h') = Some (Some v, (t, h'))
          \<and> i_state t = a + bytes_written s' \<and> unat (bytes_left t) = m - unat (bytes_written s')))"
  using varint.roundtrip_window [where v = v and E = E and E' = E', OF TrueI assms(1) _ assms(3,4)]
    order_trans [OF length_varint_bytes_64 [of v] assms(2)] length_varint_bytes_64 [of v] by metis

theorem varint_roundtrip_witness:
  "\<exists>s' h'. pb_encode_varint (plain_env (\<lambda>_. [])) 300 (pb_ostream_from_buffer 0x1000 (of_nat 10), zero_memory) = Some (Some (), (s', h'))
    \<and> unat (bytes_written s') \<le> 10
    \<and> (\<forall>m. unat (bytes_written s') \<le> m \<and> m \<le> 16 \<longrightarrow> (\<exists>t.
          pb_decode_varint (plain_env (\<lambda>_. [])) (pb_istream_from_buffer 0x1000 (of_nat m), h') = Some (Some 300, (t, h'))
          \<and> i_state t = 0x1000 + bytes_written s' \<and> unat (bytes_left t) = m - unat (bytes_written s')))"
  by (rule varint_roundtrip) simp_all

text \<open>Zigzag integers: a signed 64-bit value that \<open>pb_encode_svarint\<close> has written is read back by
  \<open>pb_decode_svarint\<close> as the same value.\<close>

theorem svarint_roundtrip:
  assumes "readable h a 10"
  shows "\<exists>s' h' t. pb_encode_svarint E v (pb_ostream_from_buffer a 10, h) = Some (Some (), (s', h'))
    \<and> pb_decode_svarint E' (pb_istream_from_buffer a (bytes_written s'), h') = Some (Some v, (t, h'))
    \<and> bytes_left t = 0"
  using svarint.roundtrip [where v = v and E = E and E' = E', OF TrueI assms length_varint_bytes_64] by auto

theorem svarint_roundtrip_witness:
  "\<exists>s' h' t. pb_encode_svarint (plain_env (\<lambda>_. [])) (- 5) (pb_ostream_from_buffer 0x1000 10, zero_memory) = Some (Some (), (s', h'))
    \<and> pb_decode_svarint (plain_env (\<lambda>_. [])) (pb_istream_from_buffer 0x1000 (bytes_written s'), h') = Some (Some (- 5), (t, h'))
    \<and> bytes_left t = 0"
  by (rule svarint_roundtrip) simp

text \<open>Tags: for every wire type and field number of the format the tag that \<open>pb_encode_tag\<close> writes
  is taken apart by \<open>pb_decode_tag\<close> into the same wire type and field number.\<close>

theorem tag_roundtrip:
  assumes "readable h a 10" "wt < 8" "0 < t" "t < 0x20000000"
  shows "\<exists>s' h' u. pb_encode_tag E wt t (pb_ostream_from_buffer a 10, h) = Some (Some (), (s', h'))
    \<and> pb_decode_tag E' (pb_istream_from_buffer a (bytes_written s'), h') = Some (Some (True, wt, t, False), (u, h'))
    \<and> bytes_left u = 0"
proof -
  have "unat t \<noteq> 0" using assms(3) by (simp add: word_less_nat_alt)
  then have "tag_number wt t \<noteq> 0" by (simp add: tag_number_def)
  moreover have "length (varint_bytes (tag_number wt t)) \<le> Suc 9"
    using encode_tag_value(4) [OF assms(2,4)] by (intro length_varint_bytes) simp
  ultimately show ?thesis
    using tag.roundtrip [where v = "(True, wt, t, False)" and h = h and a = a and n = 10 and E = E and E' = E'] assms by auto
qed

theorem tag_roundtrip_witness:
  "\<exists>s' h' u. pb_encode_tag (plain_env (\<lambda>_. [])) 2 1000 (pb_ostream_from_buffer 0x1000 10, zero_memory) = Some (Some (), (s', h'))
    \<and> pb_decode_tag (plain_env (\<lambda>_. [])) (pb_istream_from_buffer 0x1000 (bytes_written s'), h') = Some (Some (True, 2, 1000, False), (u, h'))
    \<and> bytes_left u = 0"
  by (rule tag_roundtrip) simp_all

text \<open>C33: What \<open>pb_decode_varint\<close> does on every input buffer: with a complete varint of at most ten
  bytes it delivers the value modulo \<open>2 ^ 64\<close> and moves past it; a longer one is refused after ten
  bytes; input that ends inside a varint is refused at its end.\<close>

theorem pb_decode_varint_total:
  assumes "feeds bs s h"
  shows "pb_decode_varint E (s, h) = (case varint_group bs of
      Some (g, rest) \<Rightarrow>
        if length g \<le> 10 then Some (Some (of_nat (varint_value g)), (advance (length g) s, h))
        else Some (None, (set_i_error ''varint overflow'' (advance 10 s), h))
    | None \<Rightarrow>
        if 10 \<le> length bs then Some (None, (set_i_error ''varint overflow'' (advance 10 s), h))
        else Some (None, (set_i_error ''end-of-stream'' (advance (length bs) s), h)))"
  using pb_decode_varint_spec [OF assms, of E]
  by (auto simp: varint_outcome_def split: option.split)

lemma zero_memory_feeds: "feeds [0, 0] (pb_istream_from_buffer 0x1000 2) zero_memory"
  by (simp add: feeds_def pb_istream_from_buffer_def zero_memory_def)

theorem pb_decode_varint_total_witness:
  "pb_decode_varint (plain_env (\<lambda>_. [])) (pb_istream_from_buffer 0x1000 2, zero_memory) =
     Some (Some 0, (advance 1 (pb_istream_from_buffer 0x1000 2), zero_memory))"
  using pb_decode_varint_total [where E = "plain_env (\<lambda>_. [])", OF zero_memory_feeds]
  by simp

lemma low_half: "(ucast (of_nat n :: u64) :: u32) = of_nat n"
  by (rule bit_word_eqI) (simp add: bit_ucast_iff bit_of_nat_iff)

text \<open>The 32-bit reader agrees with the 64-bit one: whenever it accepts a varint of at most ten
  bytes, its value is the low half of the 64-bit value and it stops at the same place; and it accepts
  every varint whose value fits in 32 bits.\<close>

theorem varint32_agrees:
  assumes "feeds bs s h" "varint_group bs = Some (g, rest)" "length g \<le> 10"
  shows "(pb_decode_varint32 E (s, h) = Some (Some w, st) \<longrightarrow>
      (\<exists>v. pb_decode_varint E (s, h) = Some (Some v, st) \<and> w = ucast v))
    \<and> (varint_value g < 2 ^ 32 \<longrightarrow>
      pb_decode_varint32 E (s, h) = Some (Some (of_nat (varint_value g)), (advance (length g) s, h)))"
proof (cases "varint32_ok g")
  case True
  then show ?thesis
    using pb_decode_varint32_feeds [OF assms True, of E] pb_decode_varint_feeds [OF assms, of E]
    by (auto simp: low_half)
next
  case False
  then have "pb_decode_varint32 E (s, h) \<noteq> Some (Some w, st)"
    using pb_decode_varint32_eof_spec [OF assms, of E]
    by (auto simp: pb_decode_varint32_def bindC_def failC_def)
  with False show ?thesis using varint32_ok_small by blast
qed

theorem varint32_agrees_witness:
  "\<exists>st. pb_decode_varint32 (plain_env (\<lambda>_. [])) (pb_istream_from_buffer 0x1000 2, zero_memory) = Some (Some 0, st)"
  using varint32_agrees [where g = "[0]" and rest = "[0]" and E = "plain_env (\<lambda>_. [])", OF zero_memory_feeds]
  by simp

text \<open>A 32-bit signed number that was sign-extended and written as a 64-bit varint is read back by
  the 32-bit reader; this is how a peer's negative \<open>int32\<close> or \<open>enum\<close> reaches a 32-bit reader.\<close>

theorem int32_varint_roundtrip:
  assumes "readable h a 10"
  shows "\<exists>s' h' t. pb_encode_varint E (scast (w :: u32)) (pb_ostream_from_buffer a 10, h) = Some (Some (), (s', h'))
    \<and> pb_decode_varint32 E' (pb_istream_from_buffer a (bytes_written s'), h') = Some (Some w, (t, h'))
    \<and> bytes_left t = 0"
proof -
  let ?v = "scast w :: u64"
  let ?g = "varint_bytes (unat ?v)"
  obtain s' h' t where enc: "pb_encode_varint E ?v (pb_ostream_from_buffer a 10, h) = Some (Some (), (s', h'))"
    "unat (bytes_written s') = length ?g"
    using varint.roundtrip [where v = ?v and E = E and E' = E', OF TrueI assms length_varint_bytes_64] by auto
  have "has_room (length ?g) (pb_ostream_from_buffer a 10, h)"
    using room_for_buffer [OF assms length_varint_bytes_64] by simp
  then have em: "emitted ?g (pb_ostream_from_buffer a 10, h) (s', h')"
    using pb_encode_varint_emits [of ?v "pb_ostream_from_buffer a 10" h E] enc by auto
  have len: "length ?g \<le> 10" by (rule length_varint_bytes_64)
  then have fd: "feeds (?g @ []) (pb_istream_from_buffer a (bytes_written s')) h'"
    using emitted_feeds [OF em] by simp
  have cnt: "bytes_written s' = of_nat (length ?g)" by (rule emitted_buffer_count [OF em])
  have "unat ?v < 2 ^ 32 \<or> 2 ^ 64 - 2 ^ 31 \<le> unat ?v"
  proof (cases "bit w 31")
    case True
    then have "sint w < 0" using bit_last_iff [of w] by simp
    moreover have "- (2 ^ 31) \<le> sint w" using sint_greater_eq [of w] by simp
    moreover have "int (unat ?v) = sint w mod 2 ^ 64"
    proof -
      have "?v = word_of_int (sint w)" by simp
      then have "uint ?v = sint w mod 2 ^ 64" by (simp only: unsigned_of_int take_bit_eq_mod) simp
      then show ?thesis by simp
    qed
    moreover have "(sint w + 2 ^ 64) mod 2 ^ 64 = sint w mod 2 ^ 64" by simp
    moreover have "(sint w + 2 ^ 64) mod 2 ^ 64 = sint w + 2 ^ 64"
      using calculation(1,2) by (intro mod_pos_pos_trivial) simp_all
    ultimately have "int (unat ?v) = sint w + 2 ^ 64" by linarith
    then have "int (2 ^ 64 - 2 ^ 31) \<le> int (unat ?v)" using \<open>- (2 ^ 31) \<le> sint w\<close> by simp
    then have "2 ^ 64 - 2 ^ 31 \<le> unat ?v" by (simp only: of_nat_le_iff)
    then show ?thesis ..
  next
    case False
    then have "?v = ucast w"
    proof (intro bit_word_eqI)
      fix n assume "n < LENGTH(64)"
      with False show "bit ?v n = bit (ucast w :: u64) n"
        using bit_imp_le_length [of w n]
        by (cases "n < 31"; cases "n = 31") (auto simp: bit_signed_iff bit_ucast_iff min_def)
    qed
    then show ?thesis using unsigned_less [of w, where 'a = nat] by (simp add: unsigned_ucast_eq take_bit_nat_eq_self)
  qed
  then have ok: "varint32_ok ?g"
    using varint32_ok_small [of ?g] varint32_ok_negative [of "unat ?v"] unat_less_64 [of ?v] by auto
  have "(of_nat (unat ?v) :: u32) = ucast ?v" by simp
  also have "\<dots> = w"
    by (rule bit_word_eqI) (simp add: bit_ucast_iff bit_signed_iff)
  finally have w: "(of_nat (unat ?v) :: u32) = w" .
  from pb_decode_varint32_feeds [OF fd varint_group_bytes len ok, of E'] enc(1) cnt w
  show ?thesis by (auto simp: pb_istream_from_buffer_def)
qed

theorem int32_varint_roundtrip_witness:
  "\<exists>s' h' t. pb_encode_varint (plain_env (\<lambda>_. [])) (scast (- 7 :: u32)) (pb_ostream_from_buffer 0x1000 10, zero_memory) = Some (Some (), (s', h'))
    \<and> pb_decode_varint32 (plain_env (\<lambda>_. [])) (pb_istream_from_buffer 0x1000 (bytes_written s'), h') = Some (Some (- 7), (t, h'))
    \<and> bytes_left t = 0"
  by (rule int32_varint_roundtrip) simp

text \<open>C40: The 32-bit reader has no limit on the length of a varint. In a varint of 38 bytes the 8-bit
  \<open>bitpos\<close> has wrapped around to 3, so the last byte is shifted in at bit 3 and the number is accepted;
  the 64-bit reader refuses the same bytes.\<close>

theorem varint32_overlong:
  assumes "b < 0x80" "feeds (replicate 37 0x80 @ [b]) s h"
  shows "pb_decode_varint32 E (s, h) = Some (Some (push_bit 3 (ucast b)), (advance 38 s, h))
    \<and> pb_decode_varint E (s, h) = Some (None, (set_i_error ''varint overflow'' (advance 10 s), h))"
proof -
  have f: "feeds (0x80 # replicate 36 0x80 @ [b]) s h"
    using assms(2) by (simp add: numeral_eq_Suc)
  note f1 = feeds_Cons [OF f]
  have f37: "feeds [b] (advance 36 (advance 1 s)) h"
    using feeds_advance [OF f1] by simp
  have len: "length (replicate 36 (0x80 :: byte) @ [b]) = 36 + 1" by simp
  have "input_bound (\<lambda>(res, bp). varint32_loop E res bp) (0, 7) (advance 1 s, h)
      = varint32_loop E 0 7 (36 + Suc 1) (advance 1 s, h)"
    unfolding input_bound_eq [OF f1] by (simp del: varint32_loop.simps)
  also have "\<dots> = varint32_loop E 0 3 (Suc 1) (advance 36 (advance 1 s), h)"
  proof -
    have "(7 + of_nat (7 * 36) :: byte) = 3" by code_simp
    then show ?thesis unfolding varint32_loop_pad [OF f1] by (simp only:)
  qed
  also have "\<dots> = Some (Some (push_bit 3 (ucast b), 10, b), (advance 38 s, h))"
    using assms(1)
    by (simp add: bind_readbyte_Cons [OF f37 [simplified]] byte_top byte_low_id returnC_def)
  finally have loop: "input_bound (\<lambda>(res, bp). varint32_loop E res bp) (0, 7) (advance 1 s, h)
      = Some (Some (push_bit 3 (ucast b), 10, b), (advance 38 s, h))" .
  have "pb_decode_varint32 E (s, h) = Some (Some (push_bit 3 (ucast b)), (advance 38 s, h))"
    using loop readbyte_Cons [OF f, of E]
    by (simp add: pb_decode_varint32_def pb_decode_varint32_eof_def bindC_def catchC_def returnC_def)
  moreover have "varint_group (replicate n 0x80 @ [b]) = Some (replicate n 0x80 @ [b], [])" for n
    using assms(1) by (induction n) (simp_all add: byte_top)
  then have "pb_decode_varint E (s, h) = Some (None, (set_i_error ''varint overflow'' (advance 10 s), h))"
    using pb_decode_varint_spec [OF assms(2), of E] by (simp add: varint_outcome_def)
  ultimately show ?thesis ..
qed

theorem varint32_overlong_witness:
  "pb_decode_varint32 (plain_env (\<lambda>_. [])) (pb_istream_from_buffer 0x1000 38, memory_of 0x1000 (replicate 37 0x80 @ [1]))
    = Some (Some 8, (advance 38 (pb_istream_from_buffer 0x1000 38), memory_of 0x1000 (replicate 37 0x80 @ [1])))"
  using varint32_overlong [of 1 "pb_istream_from_buffer 0x1000 38" "memory_of 0x1000 (replicate 37 0x80 @ [1])"
      "plain_env (\<lambda>_. [])"] memory_of_feeds [of "replicate 37 0x80 @ [1]" "0x1000"]
  by simp

text \<open>Fixed-width integers: the eight bytes of a \<open>fixed64\<close> value in a message, and the four of a
  \<open>fixed32\<close> value, go through the stream unchanged and arrive at the reader's destination.\<close>

theorem fixed_roundtrip:
  assumes "load_bytes h src n = Some bs" "n = 4 \<or> n = 8" "readable h a n" "readable h dest n"
  shows "\<exists>s' h' t h''.
      (if n = 4 then pb_encode_fixed32 E src else pb_encode_fixed64 E src) (pb_ostream_from_buffer a (of_nat n), h)
        = Some (Some (), (s', h'))
    \<and> (if n = 4 then pb_decode_fixed32 E' dest else pb_decode_fixed64 E' dest)
        (pb_istream_from_buffer a (bytes_written s'), h') = Some (Some (), (t, h''))
    \<and> bytes_left t = 0 \<and> load_bytes h'' dest n = Some bs"
proof -
  have len: "length bs = n" using assms(1) by (rule load_bytes_length)
  have "has_room (length bs) (pb_ostream_from_buffer a (of_nat n), h)"
    using assms(2,3) len by (intro room_for_buffer) auto
  then obtain s' h' where w: "pb_write E (Local bs) (of_nat (length bs)) (pb_ostream_from_buffer a (of_nat n), h)
      = Some (Some (), (s', h'))" and em: "emitted bs (pb_ostream_from_buffer a (of_nat n), h) (s', h')"
    by (rule pb_write_emits)
  have fd: "feeds (bs @ []) (pb_istream_from_buffer a (bytes_written s')) h'"
    using emitted_feeds [OF em] len assms(2) by auto
  have cnt: "bytes_written s' = of_nat n" using emitted_buffer_count [OF em] len by simp
  have "readable h' dest n"
    using em assms(4) frame_readable [OF store_bytes_frame]
    by (auto simp: emitted_def pb_ostream_from_buffer_def)
  then obtain h'' where st: "store_bytes h' dest bs = Some h''" using store_bytes_readable len by blast
  then have "load_bytes h'' dest n = Some bs" using load_store_same [OF st] len assms(2) by auto
  then show ?thesis
    using assms(1,2) len w cnt st pb_encode_fixed32_eq [of h src bs E] pb_encode_fixed64_eq [of h src bs E]
      pb_decode_fixed32_eq [OF fd, of E' dest] pb_decode_fixed64_eq [OF fd, of E' dest]
    by (auto simp: storeC_def pb_istream_from_buffer_def)
qed

theorem fixed_roundtrip_witness:
  "\<exists>s' h' t h''.
      pb_encode_fixed64 (plain_env (\<lambda>_. [])) 0x2000 (pb_ostream_from_buffer 0x1000 8, zero_memory) = Some (Some (), (s', h'))
    \<and> pb_decode_fixed64 (plain_env (\<lambda>_. [])) 0x3000 (pb_istream_from_buffer 0x1000 (bytes_written s'), h') = Some (Some (), (t, h''))
    \<and> bytes_left t = 0 \<and> load_bytes h'' 0x3000 8 = Some [0, 0, 0, 0, 0, 0, 0, 0]"
  using fixed_roundtrip [of zero_memory "0x2000" 8 "[0, 0, 0, 0, 0, 0, 0, 0]" "0x1000" "0x3000"
      "plain_env (\<lambda>_. [])" "plain_env (\<lambda>_. [])"]
  by (simp add: zero_memory_def readable_def numeral_eq_Suc)

text \<open>C32: Skipping: \<open>pb_skip_field\<close>, told the wire type of a value, moves exactly past the value, whatever
  follows it, and leaves memory alone.\<close>

theorem skip_field_exact:
  assumes "wire_ok v" "feeds (wire_bytes v @ rest) s h"
  shows "pb_skip_field E (wire_type_of v) (s, h) = Some (Some (), (advance (length (wire_bytes v)) s, h))"
  using assms by (intro pb_skip_field_feeds)

theorem skip_field_exact_witness:
  "pb_skip_field (plain_env (\<lambda>_. [])) 2 (pb_istream_from_buffer 0x1000 4, memory_of 0x1000 [2, 65, 66, 7])
    = Some (Some (), (advance 3 (pb_istream_from_buffer 0x1000 4), memory_of 0x1000 [2, 65, 66, 7]))"
  using skip_field_exact [of "W_string [65, 66]" "[7]" "pb_istream_from_buffer 0x1000 4"
      "memory_of 0x1000 [2, 65, 66, 7]" "plain_env (\<lambda>_. [])"] memory_of_feeds [of "[2, 65, 66, 7]" "0x1000"]
  by (simp add: varint_bytes.simps)

text \<open>C30: A write to a buffer stays inside what the stream has left of its buffer, and keeps its count:
  a write that succeeds moves position and count on together, one that is refused touches nothing.\<close>

theorem pb_write_bounded:
  assumes "o_callback s = Buf_write" "bytes_written s \<le> max_size s"
    and "pb_write E src n (s, h) = Some (r, (s', h'))"
  shows "frame (region (o_state s) (unat (max_size s) - unat (bytes_written s))) h h'
    \<and> bytes_written s' \<le> max_size s
    \<and> (r = Some () \<longrightarrow> o_state s' = o_state s + n \<and> bytes_written s' = bytes_written s + n
          \<and> unat (bytes_written s') = unat (bytes_written s) + unat n)
    \<and> (r = None \<longrightarrow> h' = h \<and> s' = set_o_error ''stream full'' s)"
proof (cases "n = 0")
  case True
  then show ?thesis using assms by (auto simp: pb_write_def)
next
  case nz: False
  show ?thesis
  proof (cases "unat (max_size s) < unat (bytes_written s) + unat n")
    case True
    then show ?thesis using assms nz pb_write_full [of s n E src h]
      by (auto simp: unat_gt_0 word_gt_0)
  next
    case False
    then have sum: "unat (bytes_written s + n) = unat (bytes_written s) + unat n"
      using unat_less_64 [of "max_size s"] by (simp add: unat_word_ariths)
    with False have "\<not> (bytes_written s + n < bytes_written s \<or> max_size s < bytes_written s + n)"
      by (simp add: word_less_nat_alt)
    with assms nz obtain s1 h1 where bw: "buf_write src n (s, h) = Some (Some (), (s1, h1))"
      and res: "r = Some ()" "s' = s1\<lparr>bytes_written := bytes_written s1 + n\<rparr>" "h' = h1"
      by (auto simp: pb_write_def bindC_def catchC_def stream_write_def word_gt_0
          dest: buf_write_frame(1) split: option.splits)
    have "region (o_state s) (unat n) \<subseteq> region (o_state s) (unat (max_size s) - unat (bytes_written s))"
      using False by (intro region_mono) simp
    then have "frame (region (o_state s) (unat (max_size s) - unat (bytes_written s))) h h'"
      using buf_write_frame(3) [OF bw] res(3) by (auto intro: frame_mono)
    then show ?thesis using buf_write_frame(2) [OF bw] res sum False
      by (simp add: word_le_nat_alt)
  qed
qed

theorem pb_write_bounded_witness:
  "frame (region 0x1000 4) zero_memory zero_memory
    \<and> pb_write (plain_env (\<lambda>_. [])) (Local [1, 2, 3, 4, 5]) 5 (pb_ostream_from_buffer 0x1000 4, zero_memory)
       = Some (None, (set_o_error ''stream full'' (pb_ostream_from_buffer 0x1000 4), zero_memory))"
proof -
  have "pb_write (plain_env (\<lambda>_. [])) (Local [1, 2, 3, 4, 5]) 5 (pb_ostream_from_buffer 0x1000 4, zero_memory)
       = Some (None, (set_o_error ''stream full'' (pb_ostream_from_buffer 0x1000 4), zero_memory))"
    by (simp add: pb_write_def pb_ostream_from_buffer_def o_error_def)
  from pb_write_bounded [OF _ _ this] this show ?thesis by (simp add: pb_ostream_from_buffer_def)
qed

end
