(* ===== verification/PbEncode.thy ===== *)
theory PbEncode
  imports PbDefaults PbOstream
begin

text \<open>
  The field encoders and the message walk of \<open>pb_encode.c\<close>. As in the decoder, the field encoders take
  the message encoder as an argument (\<open>sub\<close>) and \<open>pb_encode\<close> ties the knot with a bound \<open>n\<close> on the
  nesting depth, which also bounds the walks over extension lists. The size of packed arrays and of
  submessages is found by a first pass over a stream that only counts.
\<close>

type_synonym sub_encoder = "pb_field list \<Rightarrow> addr \<Rightarrow> unit enc"

section \<open>Values in memory\<close>

definition safe_read_bool :: "addr \<Rightarrow> ('s \<times> heap, bool) cm" where
  "safe_read_bool a = bindC (loadC a 1) (\<lambda>p. returnC (list_ex (\<lambda>b. b \<noteq> 0) p))"

text \<open>Run an encoder on another stream: its result and the stream it leaves.\<close>

definition on_ostream :: "pb_ostream \<Rightarrow> 'a enc \<Rightarrow> ('a option \<times> pb_ostream) enc" where
  "on_ostream sub m = (\<lambda>(s, h). case m (sub, h) of
     None \<Rightarrow> None
   | Some (r, (sub', h')) \<Rightarrow> Some (Some (r, sub'), (s, h')))"

definition is_sizing :: "bool enc" where
  "is_sizing = (\<lambda>(s, h). Some (Some (o_callback s = Null_write), (s, h)))"

section \<open>Arrays\<close>

definition encode_array :: "env \<Rightarrow> pb_field \<Rightarrow> addr \<Rightarrow> size_t \<Rightarrow> (pb_field \<Rightarrow> addr \<Rightarrow> unit enc)
    \<Rightarrow> unit enc" where
  "encode_array E f pdata count func = (let lt = PB_LTYPE (ftype f);
       pointer = (PB_ATYPE (ftype f) = PB_ATYPE_POINTER); step = ucast (data_size f) in
     if count = 0 then returnC ()
     else if \<not> pointer \<and> count > ucast (array_size f) then o_error ''array max size exceeded''
     else if lt \<le> PB_LTYPE_LAST_PACKABLE then
       bindC (pb_encode_tag E PB_WT_STRING (tag f)) (\<lambda>_.
       bindC (if lt = PB_LTYPE_FIXED32 then returnC (4 * count)
              else if lt = PB_LTYPE_FIXED64 then returnC (8 * count)
              else bindC (on_ostream PB_OSTREAM_SIZING (repeat_items (unat count) step (func f) pdata))
                (\<lambda>(r, sizestream). if r = None then failC else returnC (bytes_written sizestream)))
         (\<lambda>sz.
       bindC (pb_encode_varint E sz) (\<lambda>_.
       bindC is_sizing (\<lambda>sizing.
         if sizing then pb_write E No_bytes sz
         else repeat_items (unat count) step (func f) pdata))))
     else
       repeat_items (unat count) step
         (\<lambda>p. bindC (pb_encode_tag_for_field E f) (\<lambda>_.
            if pointer \<and> (lt = PB_LTYPE_STRING \<or> lt = PB_LTYPE_BYTES)
            then bindC (load_ptr p) (\<lambda>q. func f q)
            else func f p)) pdata)"

section \<open>The proto3 check for a zero value\<close>

text \<open>The byte-per-byte comparison; it stops at the first byte that is not zero.\<close>

fun all_zero :: "addr \<Rightarrow> nat \<Rightarrow> ('s \<times> heap, bool) cm" where
  "all_zero p 0 = returnC True"
| "all_zero p (Suc k) =
     bindC (loadC p 1) (\<lambda>bs. if hd bs \<noteq> 0 then returnC False else all_zero (p + 1) k)"

text \<open>\<open>do { if (!check(iter)) return false; } while (next); return true;\<close>\<close>

fun all_fields :: "nat \<Rightarrow> (pb_field_iter \<Rightarrow> ('s, bool) cm) \<Rightarrow> pb_field_iter \<Rightarrow> ('s, bool) cm" where
  "all_fields 0 check it = ubC"
| "all_fields (Suc k) check it =
     bindC (check it) (\<lambda>ok. if \<not> ok then returnC False
       else case pb_field_iter_next it of (again, it') \<Rightarrow>
         if again then all_fields k check it' else returnC True)"

text \<open>What is left when the repetition rule does not decide (lines 276-338).\<close>

definition singular_is_zero :: "env \<Rightarrow> (pb_field \<Rightarrow> addr \<Rightarrow> ('s \<times> heap, bool) cm) \<Rightarrow> pb_field \<Rightarrow> addr
    \<Rightarrow> ('s \<times> heap, bool) cm" where
  "singular_is_zero E check f pdata = (let t = ftype f; lt = PB_LTYPE t in
     if PB_ATYPE t = PB_ATYPE_STATIC \<and> lt = PB_LTYPE_BYTES then
       bindC (load_u32 pdata) (\<lambda>sz. returnC (sz = 0))
     else if PB_ATYPE t = PB_ATYPE_STATIC \<and> lt = PB_LTYPE_STRING then
       bindC (loadC pdata 1) (\<lambda>bs. returnC (bs = [0]))
     else if PB_ATYPE t = PB_ATYPE_STATIC \<and> lt = PB_LTYPE_FIXED_LENGTH_BYTES then
       returnC (data_size f = 0)
     else if PB_ATYPE t = PB_ATYPE_STATIC \<and> lt = PB_LTYPE_SUBMESSAGE then
       bindC (liftC (submsg_fields E (ptr f))) (\<lambda>fs.
         case pb_field_iter_begin iter0 fs pdata of (nonempty, it) \<Rightarrow>
           if nonempty then all_fields (Suc (length fs)) (\<lambda>it. check (cur it) (pData it)) it
           else returnC True)
     else if PB_ATYPE t = PB_ATYPE_POINTER \<and> lt > PB_LTYPE_LAST_PACKABLE then
       bindC (load_ptr pdata) (\<lambda>p. returnC (p = 0))
     else all_zero pdata (unat (data_size f)))"

fun pb_check_proto3_default_value :: "env \<Rightarrow> nat \<Rightarrow> pb_field \<Rightarrow> addr \<Rightarrow> ('s \<times> heap, bool) cm" where
  "pb_check_proto3_default_value E 0 f pdata = ubC"
| "pb_check_proto3_default_value E (Suc n) f pdata = (let t = ftype f; psize = pdata + scast (size_offset f) in
     if PB_HTYPE t = PB_HTYPE_REQUIRED then returnC False
     else if PB_HTYPE t = PB_HTYPE_REPEATED \<and> size_offset f \<noteq> 0 then
       bindC (load_u32 psize) (\<lambda>sz. returnC (sz = 0))
     else if PB_HTYPE t = PB_HTYPE_REPEATED \<and> PB_ATYPE t = PB_ATYPE_STATIC then returnC False
     else if PB_HTYPE t = PB_HTYPE_ONEOF then bindC (load_u32 psize) (\<lambda>sz. returnC (sz = 0))
     else if PB_HTYPE t = PB_HTYPE_OPTIONAL \<and> size_offset f \<noteq> 0 then
       bindC (safe_read_bool psize) (\<lambda>has. returnC (has = False))
     else singular_is_zero E (pb_check_proto3_default_value E n) f pdata)"

section \<open>Submessages\<close>

definition pb_encode_submessage_with :: "env \<Rightarrow> sub_encoder \<Rightarrow> pb_field list \<Rightarrow> addr \<Rightarrow> unit enc" where
  "pb_encode_submessage_with E encode fs src =
     bindC (on_ostream PB_OSTREAM_SIZING (encode fs src)) (\<lambda>(r, substream).
     if r = None then (\<lambda>(s, h). Some (None, (s\<lparr>o_errmsg := o_errmsg substream\<rparr>, h)))
     else let sz = bytes_written substream in
     bindC (pb_encode_varint E sz) (\<lambda>_. (\<lambda>(s, h).
       if o_callback s = Null_write then pb_write E No_bytes sz (s, h)
       else if bytes_written s + sz > max_size s then o_error ''stream full'' (s, h)
       else bindC (on_ostream \<lparr>o_callback = o_callback s, o_state = o_state s, max_size = sz,
                               bytes_written = 0, o_errmsg = None\<rparr> (encode fs src))
         (\<lambda>(status, substream). (\<lambda>(s, h). let s' = s\<lparr>bytes_written := bytes_written s + bytes_written substream,
               o_state := o_state substream, o_errmsg := o_errmsg substream\<rparr> in
            if bytes_written substream \<noteq> sz then o_error ''submsg size changed'' (s', h)
            else if status = None then failC (s', h) else returnC () (s', h))) (s, h))))"

section \<open>Field encoders\<close>

definition pb_enc_bool :: "env \<Rightarrow> pb_field \<Rightarrow> addr \<Rightarrow> unit enc" where
  "pb_enc_bool E f src =
     bindC (safe_read_bool src) (\<lambda>b. pb_encode_varint E (if b then 1 else 0))"

text \<open>The value is read at the width of the field and extended to 64 bits.\<close>

definition pb_enc_varint :: "env \<Rightarrow> pb_field \<Rightarrow> addr \<Rightarrow> unit enc" where
  "pb_enc_varint E f src =
     bindC (if data_size f = 1 then bindC (loadC src 1) (\<lambda>bs. returnC (scast (le_word bs :: byte)))
            else if data_size f = 2 then bindC (loadC src 2) (\<lambda>bs. returnC (scast (le_word bs :: 16 word)))
            else if data_size f = 4 then bindC (loadC src 4) (\<lambda>bs. returnC (scast (le_word bs :: u32)))
            else if data_size f = 8 then bindC (loadC src 8) (\<lambda>bs. returnC (le_word bs :: u64))
            else o_error ''invalid data_size'') (\<lambda>value.
       pb_encode_varint E value)"

definition pb_enc_uvarint :: "env \<Rightarrow> pb_field \<Rightarrow> addr \<Rightarrow> unit enc" where
  "pb_enc_uvarint E f src =
     bindC (if data_size f = 1 then bindC (loadC src 1) (\<lambda>bs. returnC (ucast (le_word bs :: byte)))
            else if data_size f = 2 then bindC (loadC src 2) (\<lambda>bs. returnC (ucast (le_word bs :: 16 word)))
            else if data_size f = 4 then bindC (loadC src 4) (\<lambda>bs. returnC (ucast (le_word bs :: u32)))
            else if data_size f = 8 then bindC (loadC src 8) (\<lambda>bs. returnC (le_word bs :: u64))
            else o_error ''invalid data_size'') (\<lambda>value.
       pb_encode_varint E value)"

definition pb_enc_svarint :: "env \<Rightarrow> pb_field \<Rightarrow> addr \<Rightarrow> unit enc" where
  "pb_enc_svarint E f src =
     bindC (if data_size f = 1 then bindC (loadC src 1) (\<lambda>bs. returnC (scast (le_word bs :: byte)))
            else if data_size f = 2 then bindC (loadC src 2) (\<lambda>bs. returnC (scast (le_word bs :: 16 word)))
            else if data_size f = 4 then bindC (loadC src 4) (\<lambda>bs. returnC (scast (le_word bs :: u32)))
            else if data_size f = 8 then bindC (loadC src 8) (\<lambda>bs. returnC (le_word bs :: u64))
            else o_error ''invalid data_size'') (\<lambda>value.
       pb_encode_svarint E value)"

definition pb_enc_fixed64 :: "env \<Rightarrow> pb_field \<Rightarrow> addr \<Rightarrow> unit enc" where
  "pb_enc_fixed64 E f src = pb_encode_fixed64 E src"

definition pb_enc_fixed32 :: "env \<Rightarrow> pb_field \<Rightarrow> addr \<Rightarrow> unit enc" where
  "pb_enc_fixed32 E f src = pb_encode_fixed32 E src"

definition pb_enc_bytes :: "env \<Rightarrow> pb_field \<Rightarrow> addr \<Rightarrow> unit enc" where
  "pb_enc_bytes E f src =
     (if src = 0 then pb_encode_string E No_bytes 0
      else bindC (load_u32 src) (\<lambda>sz.
        if PB_ATYPE (ftype f) = PB_ATYPE_STATIC \<and> ucast sz > (ucast (data_size f) - 4 :: size_t)
        then o_error ''bytes size exceeded''
        else pb_encode_string E (Memory (src + 4)) (ucast sz)))"

text \<open>\<open>while (size < max_size && *p != '\0') { size++; p++; }\<close>\<close>

function strnlen :: "heap \<Rightarrow> addr \<Rightarrow> nat \<Rightarrow> nat \<Rightarrow> nat option" where
  "strnlen h p mx sz =
     (if sz < mx then
        (case mem h p of
           None \<Rightarrow> None
         | Some c \<Rightarrow> if c \<noteq> 0 then strnlen h (p + 1) mx (sz + 1) else Some sz)
      else Some sz)"
  by pat_completeness auto
termination by (relation "measure (\<lambda>(h, p, mx, sz). mx - sz)") auto

declare strnlen.simps [simp del]

definition pb_enc_string :: "env \<Rightarrow> pb_field \<Rightarrow> addr \<Rightarrow> unit enc" where
  "pb_enc_string E f src = (\<lambda>(s, h).
     let mx = (if PB_ATYPE (ftype f) = PB_ATYPE_POINTER then 0xFFFFFFFFFFFFFFFF
               else unat (data_size f)) in
     if src = 0 then pb_encode_string E No_bytes 0 (s, h)
     else case strnlen h src mx 0 of
         None \<Rightarrow> None
       | Some sz \<Rightarrow> pb_encode_string E (Memory src) (of_nat sz) (s, h))"

definition pb_enc_submessage :: "env \<Rightarrow> sub_encoder \<Rightarrow> pb_field \<Rightarrow> addr \<Rightarrow> unit enc" where
  "pb_enc_submessage E sub f src =
     (if ptr f = Null then o_error ''invalid field descriptor''
      else bindC (liftC (submsg_fields E (ptr f))) (\<lambda>fs. pb_encode_submessage_with E sub fs src))"

definition pb_enc_fixed_length_bytes :: "env \<Rightarrow> pb_field \<Rightarrow> addr \<Rightarrow> unit enc" where
  "pb_enc_fixed_length_bytes E f src = pb_encode_string E (Memory src) (ucast (data_size f))"

definition PB_ENCODERS :: "env \<Rightarrow> sub_encoder \<Rightarrow> byte \<Rightarrow> pb_field \<Rightarrow> addr \<Rightarrow> unit enc" where
  "PB_ENCODERS E sub lt =
     (if lt = PB_LTYPE_BOOL then pb_enc_bool E
      else if lt = PB_LTYPE_VARINT then pb_enc_varint E
      else if lt = PB_LTYPE_UVARINT then pb_enc_uvarint E
      else if lt = PB_LTYPE_SVARINT then pb_enc_svarint E
      else if lt = PB_LTYPE_FIXED32 then pb_enc_fixed32 E
      else if lt = PB_LTYPE_FIXED64 then pb_enc_fixed64 E
      else if lt = PB_LTYPE_BYTES then pb_enc_bytes E
      else if lt = PB_LTYPE_STRING then pb_enc_string E
      else if lt = PB_LTYPE_SUBMESSAGE then pb_enc_submessage E sub
      else if lt = PB_LTYPE_FIXED_LENGTH_BYTES then pb_enc_fixed_length_bytes E
      else (\<lambda>_ _. ubC))"

section \<open>Fields\<close>

text \<open>
  The local \<open>implicit_has\<close> and the pointer \<open>pSize\<close> of \<open>encode_basic_field\<close>, which points to that
  local when the descriptor has no size field: \<open>has_flag\<close> reads the flag, \<open>count_at\<close> a count, through
  it. A count read from the one-byte local is undefined.
\<close>

definition has_flag :: "pb_field \<Rightarrow> addr \<Rightarrow> bool \<Rightarrow> ('s \<times> heap, bool) cm" where
  "has_flag f pdata implicit_has =
     (if size_offset f \<noteq> 0 then safe_read_bool (pdata + scast (size_offset f)) else returnC implicit_has)"

definition count_at :: "pb_field \<Rightarrow> addr \<Rightarrow> ('s \<times> heap, u32) cm" where
  "count_at f pdata =
     (if size_offset f \<noteq> 0 then load_u32 (pdata + scast (size_offset f)) else ubC)"

definition encode_basic_field :: "env \<Rightarrow> nat \<Rightarrow> sub_encoder \<Rightarrow> pb_field \<Rightarrow> addr \<Rightarrow> unit enc" where
  "encode_basic_field E n sub f pdata0 = (let t = ftype f; func = PB_ENCODERS E sub (PB_LTYPE t) in
     bindC (if size_offset f = 0 \<and> PB_HTYPE t = PB_HTYPE_OPTIONAL
            then bindC (pb_check_proto3_default_value E n f pdata0) (\<lambda>z. returnC (\<not> z))
            else returnC True) (\<lambda>implicit_has.
     bindC (if PB_ATYPE t = PB_ATYPE_POINTER then load_ptr pdata0 else returnC pdata0) (\<lambda>pdata.
     let implicit_has = (if PB_ATYPE t = PB_ATYPE_POINTER then pdata \<noteq> 0 else implicit_has);
         emit = bindC (pb_encode_tag_for_field E f) (\<lambda>_. func f pdata) in
     if PB_HTYPE t = PB_HTYPE_REQUIRED then
       (if pdata = 0 then o_error ''missing required field'' else emit)
     else if PB_HTYPE t = PB_HTYPE_OPTIONAL then
       bindC (has_flag f pdata0 implicit_has) (\<lambda>has. if has then emit else returnC ())
     else if PB_HTYPE t = PB_HTYPE_REPEATED then
       bindC (if size_offset f \<noteq> 0 then count_at f pdata0 else returnC (array_size f)) (\<lambda>count.
         encode_array E f pdata (ucast count) func)
     else
       bindC (count_at f pdata0) (\<lambda>which. if which = tag f then emit else returnC ()))))"

definition encode_callback_field :: "env \<Rightarrow> pb_field \<Rightarrow> addr \<Rightarrow> unit enc" where
  "encode_callback_field E f pdata =
     bindC (load_ptr pdata) (\<lambda>fptr.
       if fptr \<noteq> 0 then bindC (catchC (cb_encode E fptr f (pdata + 8))) (\<lambda>r.
           if r = None then o_error ''callback error'' else returnC ())
       else returnC ())"

definition encode_field :: "env \<Rightarrow> nat \<Rightarrow> sub_encoder \<Rightarrow> pb_field \<Rightarrow> addr \<Rightarrow> unit enc" where
  "encode_field E n sub f pdata = (let at = PB_ATYPE (ftype f) in
     if at = PB_ATYPE_STATIC \<or> at = PB_ATYPE_POINTER then encode_basic_field E n sub f pdata
     else if at = PB_ATYPE_CALLBACK then encode_callback_field E f pdata
     else o_error ''invalid field type'')"

definition default_extension_encoder :: "env \<Rightarrow> nat \<Rightarrow> sub_encoder \<Rightarrow> ext_type \<Rightarrow> addr \<Rightarrow> unit enc" where
  "default_extension_encoder E n sub et ext = (let f = field_at (et_arg et) 0 in
     if PB_ATYPE (ftype f) = PB_ATYPE_POINTER then encode_field E n sub f (ext + 8)
     else bindC (ext_dest ext) (\<lambda>d. encode_field E n sub f d))"

definition encode_extension_field :: "env \<Rightarrow> nat \<Rightarrow> sub_encoder \<Rightarrow> addr \<Rightarrow> unit enc" where
  "encode_extension_field E n sub pdata =
     bindC (load_ptr pdata) (\<lambda>extension.
       each_extension n (\<lambda>ext. bindC (ext_type_of E ext) (\<lambda>et.
         case et_encode et of
           Some enc \<Rightarrow> enc ext
         | None \<Rightarrow> default_extension_encoder E n sub et ext)) extension)"

section \<open>Messages\<close>

fun pb_encode :: "env \<Rightarrow> nat \<Rightarrow> pb_field list \<Rightarrow> addr \<Rightarrow> unit enc" where
  "pb_encode E 0 fs src = ubC"
| "pb_encode E (Suc n) fs src =
     (case pb_field_iter_begin iter0 fs src of (nonempty, it) \<Rightarrow>
        if \<not> nonempty then returnC ()
        else each_field (Suc (length fs))
          (\<lambda>it. if PB_LTYPE (ftype (cur it)) = PB_LTYPE_EXTENSION
             then encode_extension_field E n (pb_encode E n) (pData it)
             else encode_field E n (pb_encode E n) (cur it) (pData it)) it)"

definition pb_encode_submessage :: "env \<Rightarrow> nat \<Rightarrow> pb_field list \<Rightarrow> addr \<Rightarrow> unit enc" where
  "pb_encode_submessage E n fs src = pb_encode_submessage_with E (pb_encode E n) fs src"

definition pb_encode_delimited :: "env \<Rightarrow> nat \<Rightarrow> pb_field list \<Rightarrow> addr \<Rightarrow> unit enc" where
  "pb_encode_delimited E n fs src = pb_encode_submessage E n fs src"

definition pb_encode_nullterminated :: "env \<Rightarrow> nat \<Rightarrow> pb_field list \<Rightarrow> addr \<Rightarrow> unit enc" where
  "pb_encode_nullterminated E n fs src =
     bindC (pb_encode E n fs src) (\<lambda>_. pb_write E (Local [0]) 1)"

text \<open>The size, or None where C returns false.\<close>

definition pb_get_encoded_size :: "env \<Rightarrow> nat \<Rightarrow> pb_field list \<Rightarrow> addr \<Rightarrow> size_t enc" where
  "pb_get_encoded_size E n fs src =
     bindC (on_ostream PB_OSTREAM_SIZING (pb_encode E n fs src)) (\<lambda>(r, stream).
       if r = None then failC else returnC (bytes_written stream))"

end
