(* ===== verification/PbProduce.thy ===== *)
theory PbProduce
  imports PbTransport PbEncode
begin

text \<open>
  Encoders as producers of bytes. \<open>produces h0 m r\<close> says that \<open>m\<close>, reading only the memory \<open>h0\<close>, either
  fails (\<open>r = None\<close>) or answers a value and produces bytes: a counting stream counts exactly these, a
  buffer outside of \<open>h0\<close> with room for them holds them, and with less room the writer fails without having
  touched anything outside of the buffer.
\<close>

section \<open>Memory an encoder reads\<close>

definition part_of :: "heap \<Rightarrow> heap \<Rightarrow> bool" where
  "part_of h0 h \<longleftrightarrow> mem h0 \<subseteq>\<^sub>m mem h"

lemma part_of_refl [simp]: "part_of h h"
  by (simp add: part_of_def)

lemma part_mem: "part_of h0 h \<Longrightarrow> mem h0 a = Some b \<Longrightarrow> mem h a = Some b"
  by (auto simp: part_of_def map_le_def dom_def)

lemma part_load: "part_of h0 h \<Longrightarrow> load_bytes h0 a n = Some bs \<Longrightarrow> load_bytes h a n = Some bs"
  by (induction n arbitrary: a bs) (auto simp: part_mem split: option.splits)

lemma part_frame: "part_of h0 h \<Longrightarrow> frame W h h' \<Longrightarrow> W \<inter> dom (mem h0) = {} \<Longrightarrow> part_of h0 h'"
proof -
  assume p: "part_of h0 h" and f: "frame W h h'" and d: "W \<inter> dom (mem h0) = {}"
  have "mem h0 x = mem h' x" if "x \<in> dom (mem h0)" for x
  proof -
    have "x \<notin> W" using d that by blast
    with p f that show ?thesis by (simp add: part_of_def map_le_def frame_def)
  qed
  then show ?thesis by (simp add: part_of_def map_le_def)
qed

definition bytes_in :: "heap \<Rightarrow> addr \<Rightarrow> nat \<Rightarrow> byte list" where
  "bytes_in h a n = (case load_bytes h a n of Some bs \<Rightarrow> bs | None \<Rightarrow> [])"

definition u32_in :: "heap \<Rightarrow> addr \<Rightarrow> u32" where
  "u32_in h a = le_word (bytes_in h a 4)"

definition ptr_in :: "heap \<Rightarrow> addr \<Rightarrow> addr" where
  "ptr_in h a = le_word (bytes_in h a 8)"

lemma bytes_in: "readable h a n \<Longrightarrow> load_bytes h a n = Some (bytes_in h a n)"
  by (auto simp: bytes_in_def load_bytes_readable)

lemma length_bytes_in [simp]: "readable h a n \<Longrightarrow> length (bytes_in h a n) = n"
  by (metis bytes_in load_bytes_length)

section \<open>Where the bytes go\<close>

definition area :: "pb_ostream \<Rightarrow> addr set" where
  "area s = (if o_callback s = Null_write then {} else region (o_state s) (unat (max_size s) - unat (bytes_written s)))"

definition sink :: "heap \<Rightarrow> pb_ostream \<times> heap \<Rightarrow> bool" where
  "sink h0 = (\<lambda>(s, h). part_of h0 h \<and> o_errmsg s = None \<and>
     (case o_callback s of
        Null_write \<Rightarrow> True
      | Buf_write \<Rightarrow> unat (bytes_written s) \<le> unat (max_size s) \<and> unat (max_size s) < 2 ^ 63
          \<and> readable h (o_state s) (unat (max_size s) - unat (bytes_written s)) \<and> area s \<inter> dom (mem h0) = {}
      | Custom_write k \<Rightarrow> False))"

definition refuses :: "'a enc \<Rightarrow> pb_ostream \<times> heap \<Rightarrow> bool" where
  "refuses m = (\<lambda>(s, h). \<exists>s' h'. m (s, h) = Some (None, (s', h')) \<and> frame (area s) h h')"

definition produces :: "heap \<Rightarrow> 'a enc \<Rightarrow> ('a \<times> byte list) option \<Rightarrow> bool" where
  "produces h0 m r \<longleftrightarrow> (\<forall>st. sink h0 st \<longrightarrow>
     (case r of
        None \<Rightarrow> refuses m st
      | Some (a, bs) \<Rightarrow> if has_room (length bs) st then \<exists>st'. m st = Some (Some a, st') \<and> emitted bs st st'
                        else refuses m st))"

lemma producesI:
  assumes "\<And>s h a bs. sink h0 (s, h) \<Longrightarrow> r = Some (a, bs) \<Longrightarrow> has_room (length bs) (s, h) \<Longrightarrow>
      \<exists>st'. m (s, h) = Some (Some a, st') \<and> emitted bs (s, h) st'"
    and "\<And>s h. sink h0 (s, h) \<Longrightarrow> r = None \<or> (\<exists>a bs. r = Some (a, bs) \<and> \<not> has_room (length bs) (s, h)) \<Longrightarrow> refuses m (s, h)"
  shows "produces h0 m r"
  using assms unfolding produces_def by (auto split: option.split prod.split) 

lemma sink_emitted:
  assumes "sink h0 (s, h)" "emitted bs (s, h) (s', h')" "has_room (length bs) (s, h)"
  shows "sink h0 (s', h')" "area s' \<subseteq> area s" "frame (area s) h h'"
proof -
  let ?n = "unat (max_size s) - unat (bytes_written s)"
  have s': "s' = wrote (length bs) s" using assms(2) by (simp add: emitted_def)
  have "sink h0 (s', h') \<and> area s' \<subseteq> area s \<and> frame (area s) h h'"
  proof (cases "o_callback s")
    case Null_write
    with assms show ?thesis by (auto simp: sink_def emitted_def area_def)
  next
    case Buf_write
    with assms have room: "unat (bytes_written s) + length bs \<le> unat (max_size s)" "unat (max_size s) < 2 ^ 63"
      and r: "readable h (o_state s) ?n" and d: "area s \<inter> dom (mem h0) = {}" "part_of h0 h" "o_errmsg s = None"
      and st: "store_bytes h (o_state s) bs = Some h'" by (auto simp: sink_def has_room_def emitted_def)
    have w: "unat (bytes_written s') = unat (bytes_written s) + length bs"
      using room by (simp add: s' unat_add_of_nat)
    have n: "length bs + (unat (max_size s') - unat (bytes_written s')) = ?n" using room w by (simp add: s')
    have a': "area s' \<subseteq> area s" using Buf_write region_offset [of "length bs" "unat (max_size s') - unat (bytes_written s')" ?n "o_state s"] n
      by (simp add: area_def s') (simp add: wrote_def)
    have f: "frame (area s) h h'"
      using frame_mono [OF store_bytes_frame [OF st] region_mono [of "length bs" ?n "o_state s"]] room Buf_write
      by (simp add: area_def)
    have "readable h (o_state s') (unat (max_size s') - unat (bytes_written s'))"
      using readable_offset [OF r, of "length bs" "unat (max_size s') - unat (bytes_written s')"] n Buf_write
      by (simp add: s') (simp add: wrote_def)
    with a' f d Buf_write w room show ?thesis
      by (auto simp: sink_def frame_readable [OF f] s' intro: part_frame)
  next
    case Custom_write
    with assms show ?thesis by (simp add: sink_def)
  qed
  then show "sink h0 (s', h')" "area s' \<subseteq> area s" "frame (area s) h h'" by blast+
qed

lemma has_room_split:
  assumes "sink h0 (s, h)" "emitted bs (s, h) (s', h')" "has_room (length bs) (s, h)"
  shows "has_room n (s', h') \<longleftrightarrow> has_room (length bs + n) (s, h)"
proof
  assume "has_room (length bs + n) (s, h)"
  then show "has_room n (s', h')" by (rule has_room_after [OF _ assms(2)]) simp
next
  assume r: "has_room n (s', h')"
  have s': "s' = wrote (length bs) s" using assms(2) by (simp add: emitted_def)
  show "has_room (length bs + n) (s, h)"
  proof (cases "o_callback s")
    case Buf_write
    then have b: "unat (bytes_written s) + length bs \<le> unat (max_size s)" "unat (max_size s) < 2 ^ 63"
      "readable h (o_state s) (unat (max_size s) - unat (bytes_written s))"
      using assms by (auto simp: sink_def has_room_def)
    have w: "unat (bytes_written s') = unat (bytes_written s) + length bs" using b by (simp add: s' unat_add_of_nat)
    have le: "unat (bytes_written s) + (length bs + n) \<le> unat (max_size s)" using r Buf_write w by (simp add: has_room_def s')
    then have "length bs + n \<le> unat (max_size s) - unat (bytes_written s)" by linarith
    then show ?thesis using Buf_write le readable_mono [OF b(3)] by (simp add: has_room_def)
  qed (use r in \<open>simp_all add: has_room_def s'\<close>)
qed

section \<open>Rules\<close>

lemma produces_return [intro]: "produces h0 (returnC a) (Some (a, []))"
  by (rule producesI) (auto simp: returnC_def emitted_def sink_def has_room_def split: write_callback.splits)

lemma produces_fail: "produces h0 failC None"
  by (rule producesI) (auto simp: failC_def refuses_def)

lemma produces_error: "produces h0 (o_error msg) None"
  by (rule producesI) (auto simp: o_error_def refuses_def)

lemma produces_bind:
  assumes m: "produces h0 m r" and f: "\<And>a bs. r = Some (a, bs) \<Longrightarrow> produces h0 (f a) (k a)"
  shows "produces h0 (bindC m f)
    (case r of None \<Rightarrow> None | Some (a, bs) \<Rightarrow> (case k a of None \<Rightarrow> None | Some (b, cs) \<Rightarrow> Some (b, bs @ cs)))"
    (is "produces _ _ ?r")
proof -
  have "case ?r of None \<Rightarrow> refuses (bindC m f) (s, h)
      | Some (a, bs) \<Rightarrow> if has_room (length bs) (s, h) then \<exists>st'. bindC m f (s, h) = Some (Some a, st') \<and> emitted bs (s, h) st'
                        else refuses (bindC m f) (s, h)" if sk: "sink h0 (s, h)" for s h
  proof (cases r)
    case None
    then have "refuses m (s, h)" using m sk by (auto simp: produces_def)
    then show ?thesis using None by (auto simp: refuses_def bindC_def)
  next
    case (Some p)
    obtain a bs where p: "r = Some (a, bs)" using Some by (cases p) auto
    show ?thesis
    proof (cases "has_room (length bs) (s, h)")
      case False
      then have "refuses m (s, h)" using m sk p by (auto simp: produces_def)
      then have "refuses (bindC m f) (s, h)" by (auto simp: refuses_def bindC_def)
      moreover have "\<not> has_room (length (bs @ cs)) (s, h)" for cs using False has_room_less [of "length (bs @ cs)" "(s, h)" "length bs"] by auto
      ultimately show ?thesis by (auto simp: p split: option.split prod.split)
    next
      case True
      then obtain s' h' where r1: "m (s, h) = Some (Some a, (s', h'))" "emitted bs (s, h) (s', h')"
        using m sk p unfolding produces_def by fastforce
      note sk' = sink_emitted [OF sk r1(2) True]
      have b: "bindC m f (s, h) = f a (s', h')" by (simp add: bindC_def r1)
      have ref: "refuses (f a) (s', h') \<Longrightarrow> refuses (bindC m f) (s, h)"
        using frame_trans [OF sk'(3) frame_mono [OF _ sk'(2)]] by (auto simp: refuses_def b)
      show ?thesis
      proof (cases "k a")
        case None
        then have "refuses (f a) (s', h')" using f [OF p] sk'(1) by (auto simp: produces_def)
        then show ?thesis using None ref by (simp add: p)
      next
        case (Some q)
        obtain b' cs where q: "k a = Some (b', cs)" using Some by (cases q) auto
        note rm = has_room_split [OF sk r1(2) True, of "length cs"]
        show ?thesis
        proof (cases "has_room (length cs) (s', h')")
          case True
          then obtain st' where "f a (s', h') = Some (Some b', st')" "emitted cs (s', h') st'"
            using f [OF p] sk'(1) q unfolding produces_def by fastforce
          then show ?thesis using rm True emitted_append [OF r1(2)] by (auto simp: p q b)
        next
          case False
          then have "refuses (f a) (s', h')" using f [OF p] sk'(1) q by (auto simp: produces_def)
          then show ?thesis using rm False ref by (simp add: p q)
        qed
      qed
    qed
  qed
  then show ?thesis by (simp add: produces_def)
qed

section \<open>Reading\<close>

lemma produces_load:
  assumes "readable h0 a n"
  shows "produces h0 (loadC a n) (Some (bytes_in h0 a n, []))"
proof (rule producesI)
  fix s h and v :: "byte list" and bs :: "byte list"
  assume s: "sink h0 (s, h)" and r: "Some (bytes_in h0 a n, []) = Some (v, bs)" and room: "has_room (length bs) (s, h)"
  have "load_bytes h a n = Some (bytes_in h0 a n)" using part_load [OF _ bytes_in [OF assms]] s by (simp add: sink_def)
  with r s show "\<exists>st'. loadC a n (s, h) = Some (Some v, st') \<and> emitted bs (s, h) st'"
    by (auto simp: loadC_def emitted_def sink_def split: write_callback.splits)
next
  fix s h
  assume "sink h0 (s, h)" "Some (bytes_in h0 a n, []) = None
    \<or> (\<exists>v bs. Some (bytes_in h0 a n, []) = Some (v, bs) \<and> \<not> has_room (length bs) (s, h))"
  then show "refuses (loadC a n) (s, h)" by (auto simp: sink_def has_room_def split: write_callback.splits)
qed

lemma produces_map:
  assumes "produces h0 m (Some (a, []))"
  shows "produces h0 (bindC m (\<lambda>v. returnC (f v))) (Some (f a, []))"
proof -
  have "produces h0 (returnC (f v)) (Some (f v, []))" for v by (rule produces_return)
  from produces_bind [OF assms, of "\<lambda>v. returnC (f v)" "\<lambda>v. Some (f v, [])", OF this] show ?thesis by simp
qed

lemma produces_u32: "readable h0 a 4 \<Longrightarrow> produces h0 (load_u32 a) (Some (u32_in h0 a, []))"
  unfolding load_u32_def u32_in_def by (rule produces_map [OF produces_load])

lemma produces_ptr: "readable h0 a 8 \<Longrightarrow> produces h0 (load_ptr a) (Some (ptr_in h0 a, []))"
  unfolding load_ptr_def ptr_in_def by (rule produces_map [OF produces_load])

text \<open>What follows a read, and what follows a write.\<close>

lemma produces_after_read:
  assumes "produces h0 m (Some (a, []))" "produces h0 (f a) r"
  shows "produces h0 (bindC m f) r"
proof -
  have "produces h0 (bindC m f) (case Some (a, []) of None \<Rightarrow> None
      | Some (v, bs) \<Rightarrow> (case (if v = a then r else None) of None \<Rightarrow> None | Some (b, cs) \<Rightarrow> Some (b, bs @ cs)))"
    by (rule produces_bind [OF assms(1)]) (use assms(2) in auto)
  then show ?thesis by (simp split: option.splits prod.splits)
qed

definition after :: "byte list \<Rightarrow> ('a \<times> byte list) option \<Rightarrow> ('a \<times> byte list) option" where
  "after bs r = map_option (\<lambda>(a, cs). (a, bs @ cs)) r"

lemma after_simps [simp]: "after bs None = None" "after bs (Some (a, cs)) = Some (a, bs @ cs)" "after [] r = r"
  by (simp_all add: after_def option.map_id)

lemma produces_after_write:
  assumes "produces h0 m (Some (a, bs))" "produces h0 (f a) r"
  shows "produces h0 (bindC m f) (after bs r)"
proof -
  have "produces h0 (bindC m f) (case Some (a, bs) of None \<Rightarrow> None
      | Some (v, bs) \<Rightarrow> (case (if v = a then r else None) of None \<Rightarrow> None | Some (b, cs) \<Rightarrow> Some (b, bs @ cs)))"
    by (rule produces_bind [OF assms(1)]) (use assms(2) in auto)
  then show ?thesis by (simp add: after_def split: option.splits prod.splits)
qed

lemma produces_after_failure:
  assumes "produces h0 m None"
  shows "produces h0 (bindC m f) None"
  using produces_bind [OF assms, of f "\<lambda>_. None"] by simp

section \<open>Writing\<close>

lemma no_room:
  assumes "sink h0 (s, h)" "\<not> has_room n (s, h)"
  shows "o_callback s \<noteq> Null_write" "0 < n" "unat (max_size s) < unat (bytes_written s) + n"
proof -
  have "o_callback s \<noteq> Null_write \<and> 0 < n \<and> unat (max_size s) < unat (bytes_written s) + n"
  proof (cases "o_callback s")
    case Buf_write
    with assms have "unat (max_size s) < unat (bytes_written s) + n \<or> \<not> readable h (o_state s) n"
      "readable h (o_state s) (unat (max_size s) - unat (bytes_written s))" "unat (bytes_written s) \<le> unat (max_size s)"
      by (auto simp: sink_def has_room_def)
    then show ?thesis using Buf_write readable_mono [of h "o_state s" "unat (max_size s) - unat (bytes_written s)" n]
      by (cases "unat (max_size s) < unat (bytes_written s) + n") auto
  qed (use assms in \<open>simp_all add: sink_def has_room_def\<close>)
  then show "o_callback s \<noteq> Null_write" "0 < n" "unat (max_size s) < unat (bytes_written s) + n" by blast+
qed

lemma full_refuses:
  assumes "sink h0 (s, h)" "\<not> has_room (unat n) (s, h)"
  shows "refuses (pb_write E src n) (s, h)"
  using pb_write_full [of s n E src h] no_room [OF assms] by (auto simp: refuses_def word_less_nat_alt)

lemma produces_local:
  assumes "length bs < 2 ^ 64"
  shows "produces h0 (pb_write E (Local bs) (of_nat (length bs))) (Some ((), bs))"
proof (rule producesI)
  fix s h u cs
  assume "sink h0 (s, h)" "Some ((), bs) = Some (u, cs)" "has_room (length cs) (s, h)"
  then show "\<exists>st'. pb_write E (Local bs) (of_nat (length bs)) (s, h) = Some (Some u, st') \<and> emitted cs (s, h) st'"
    using pb_write_emits [of bs s h E] by (metis Pair_inject option.inject)
next
  fix s h
  assume "sink h0 (s, h)" "Some ((), bs) = None \<or> (\<exists>a cs. Some ((), bs) = Some (a, cs) \<and> \<not> has_room (length cs) (s, h))"
  then show "refuses (pb_write E (Local bs) (of_nat (length bs))) (s, h)"
    using full_refuses [of h0 s h "of_nat (length bs)"] assms by (simp add: unat_of_nat_64)
qed

lemma varint_length: "length (varint_bytes (unat (v :: u64))) < 2 ^ 64"
  using length_varint_bytes_64 [of v] by simp

lemma produces_varint: "produces h0 (pb_encode_varint E v) (Some ((), varint_bytes (unat v)))"
  unfolding pb_encode_varint_eq Let_def by (rule produces_local) (rule varint_length)

lemma produces_fixed32:
  assumes "readable h0 a 4"
  shows "produces h0 (pb_encode_fixed32 E a) (Some ((), bytes_in h0 a 4))"
proof -
  let ?bs = "bytes_in h0 a 4"
  have l: "length ?bs = 4" using assms by simp
  then have "le_bytes 4 (le_word ?bs :: u32) = ?bs" using le_bytes_le_word [of ?bs, where 'a = 32] by simp
  then have "pb_write E (Local [ucast (u32_in h0 a AND 0xFF), ucast (drop_bit 8 (u32_in h0 a) AND 0xFF),
      ucast (drop_bit 16 (u32_in h0 a) AND 0xFF), ucast (drop_bit 24 (u32_in h0 a) AND 0xFF)]) 4 = pb_write E (Local ?bs) (of_nat (length ?bs))"
    using l by (simp add: u32_in_def le_bytes_4)
  then show ?thesis unfolding pb_encode_fixed32_def
    by (intro produces_after_read [OF produces_u32 [OF assms]]) (use produces_local [of ?bs h0 E] l in simp)
qed

lemma produces_fixed64:
  assumes "readable h0 a 8"
  shows "produces h0 (pb_encode_fixed64 E a) (Some ((), bytes_in h0 a 8))"
proof -
  let ?bs = "bytes_in h0 a 8"
  let ?v = "le_word ?bs :: u64"
  have l: "length ?bs = 8" using assms by simp
  then have "le_bytes 8 ?v = ?bs" using le_bytes_le_word [of ?bs, where 'a = 64] by simp
  then have "pb_write E (Local [ucast (?v AND 0xFF), ucast (drop_bit 8 ?v AND 0xFF),
         ucast (drop_bit 16 ?v AND 0xFF), ucast (drop_bit 24 ?v AND 0xFF),
         ucast (drop_bit 32 ?v AND 0xFF), ucast (drop_bit 40 ?v AND 0xFF),
         ucast (drop_bit 48 ?v AND 0xFF), ucast (drop_bit 56 ?v AND 0xFF)]) 8 = pb_write E (Local ?bs) (of_nat (length ?bs))"
    using l by (simp add: le_bytes_8)
  then show ?thesis unfolding pb_encode_fixed64_def Let_def
    by (intro produces_after_read [OF produces_load [OF assms]]) (use produces_local [of ?bs h0 E] l in simp)
qed

lemma copy_bytes_part:
  assumes "load_bytes h0 a n = Some bs" "part_of h0 h" "region d n \<inter> dom (mem h0) = {}"
  shows "copy_bytes h d a n = store_bytes h d bs"
  using assms
proof (induction n arbitrary: a bs h d)
  case (Suc n)
  from Suc.prems(1) obtain b cs where b: "bs = b # cs" "mem h0 a = Some b" "load_bytes h0 (a + 1) n = Some cs"
    by (auto split: option.splits)
  have m: "mem h a = Some b" using part_mem [OF Suc.prems(2) b(2)] .
  show ?case
  proof (cases "mem h d")
    case (Some x)
    let ?h = "h\<lparr>mem := (mem h)(d := Some b)\<rparr>"
    have "d \<in> region d (Suc n)" using of_nat_in_region [of 0 "Suc n" d] by simp
    then have none: "mem h0 d = None" using Suc.prems(3) by blast
    have "d \<in> dom (mem h)" using Some by (rule domI)
    then have f: "frame {d} h ?h" by (simp add: frame_def insert_absorb)
    have p: "part_of h0 ?h" by (rule part_frame [OF Suc.prems(2) f]) (simp add: none domIff)
    have r: "region (d + 1) n \<inter> dom (mem h0) = {}" using region_offset [of 1 n "Suc n" d] Suc.prems(3) by auto
    show ?thesis using Suc.IH [OF b(3) p r] m Some by (simp add: b(1))
  qed (simp add: m b(1))
qed simp

lemma produces_memory:
  assumes "readable h0 a (unat n)"
  shows "produces h0 (pb_write E (Memory a) n) (Some ((), bytes_in h0 a (unat n)))"
proof (rule producesI)
  fix s h u cs
  assume sk: "sink h0 (s, h)" and c: "Some ((), bytes_in h0 a (unat n)) = Some (u, cs)" and room: "has_room (length cs) (s, h)"
  then have l: "length cs = unat n" "load_bytes h0 a (unat n) = Some cs" using assms bytes_in [OF assms] by auto
  have le: "\<not> bytes_written s + n < bytes_written s \<and> \<not> bytes_written s + n > max_size s" if "o_callback s = Buf_write"
  proof -
    have "unat (bytes_written s) + unat n \<le> unat (max_size s)" "unat (max_size s) < 2 ^ 63"
      using sk room l that by (auto simp: sink_def has_room_def)
    moreover from this have "unat (bytes_written s + n) = unat (bytes_written s) + unat n"
      using unat_add_of_nat [of "bytes_written s" "unat n"] by simp
    ultimately show ?thesis by (simp add: word_less_nat_alt)
  qed
  have cp: "copy_bytes h (o_state s) a (unat n) = store_bytes h (o_state s) cs \<and> (\<exists>h'. store_bytes h (o_state s) cs = Some h')"
    if b: "o_callback s = Buf_write"
  proof
    have d: "part_of h0 h" "area s \<inter> dom (mem h0) = {}" using sk by (auto simp: sink_def b)
    have "unat n \<le> unat (max_size s) - unat (bytes_written s)" using b room l(1) by (auto simp: has_room_def)
    then have "region (o_state s) (unat n) \<subseteq> area s" using b region_mono by (simp add: area_def)
    then show "copy_bytes h (o_state s) a (unat n) = store_bytes h (o_state s) cs"
      using d by (intro copy_bytes_part [OF l(2)]) auto
    show "\<exists>h'. store_bytes h (o_state s) cs = Some h'" using room b by (simp add: has_room_def store_bytes_readable)
  qed
  show "\<exists>st'. pb_write E (Memory a) n (s, h) = Some (Some u, st') \<and> emitted cs (s, h) st'"
  proof (cases "n = 0")
    case True
    then show ?thesis using l sk by (auto simp: pb_write_def emitted_def sink_def split: write_callback.splits)
  next
    case False
    then have "0 < n" by (simp add: word_neq_0_conv)
    then show ?thesis using le cp l sk
      by (cases "o_callback s") (auto simp: pb_write_def emitted_def sink_def stream_write_def buf_write_def bindC_def catchC_def wrote_def)
  qed
next
  fix s h
  assume "sink h0 (s, h)" "Some ((), bytes_in h0 a (unat n)) = None
    \<or> (\<exists>u cs. Some ((), bytes_in h0 a (unat n)) = Some (u, cs) \<and> \<not> has_room (length cs) (s, h))"
  then show "refuses (pb_write E (Memory a) n) (s, h)" using full_refuses [of h0 s h n E] assms by auto
qed

lemma produces_nothing: "produces h0 (pb_write E No_bytes 0) (Some ((), []))"
  by (rule producesI) (auto simp: pb_write_def emitted_def sink_def has_room_def split: write_callback.splits)

section \<open>Sequences\<close>

fun joined :: "byte list option list \<Rightarrow> byte list option" where
  "joined [] = Some []"
| "joined (None # xs) = None"
| "joined (Some bs # xs) = map_option ((@) bs) (joined xs)"

abbreviation written :: "byte list option \<Rightarrow> (unit \<times> byte list) option" where
  "written \<equiv> map_option (\<lambda>bs. ((), bs))"

lemma produces_repeat:
  assumes "\<And>i. i < k \<Longrightarrow> produces h0 (f (p + of_nat i * step)) (written (g (p + of_nat i * step)))"
  shows "produces h0 (repeat_items k step f p) (written (joined (map (\<lambda>i. g (p + of_nat i * step)) [0..<k])))"
  using assms
proof (induction k arbitrary: p)
  case (Suc k)
  have one: "produces h0 (f p) (written (g p))" using Suc.prems [of 0] by simp
  have rest: "produces h0 (repeat_items k step f (p + step)) (written (joined (map (\<lambda>i. g (p + step + of_nat i * step)) [0..<k])))"
  proof (rule Suc.IH)
    fix i assume "i < k"
    then show "produces h0 (f (p + step + of_nat i * step)) (written (g (p + step + of_nat i * step)))"
      using Suc.prems [of "Suc i"] by (simp add: distrib_right add.assoc)
  qed
  have l: "map (\<lambda>i. g (p + of_nat i * step)) [0..<Suc k] = g p # map (\<lambda>i. g (p + step + of_nat i * step)) [0..<k]"
    by (simp add: upt_conv_Cons map_Suc_upt [symmetric] distrib_right add.assoc o_def del: upt_Suc)
  show ?case
  proof (cases "g p")
    case None
    with one show ?thesis unfolding l repeat_items.simps by (simp add: produces_after_failure)
  next
    case (Some bs)
    with one have "produces h0 (f p) (Some ((), bs))" by simp
    from produces_after_write [OF this, of "\<lambda>_. repeat_items k step f (p + step)", OF rest] Some show ?thesis
      unfolding l repeat_items.simps by (simp add: after_def option.map_comp o_def)
  qed
qed (simp add: produces_return)

text \<open>Counting first: what the code does with the size is known from the bytes.\<close>

lemma sizing_run:
  assumes "produces h0 m r" "part_of h0 h"
  shows "\<exists>s'. m (PB_OSTREAM_SIZING, h) = Some (map_option fst r, (s', h))
    \<and> (\<forall>a bs. r = Some (a, bs) \<longrightarrow> bytes_written s' = of_nat (length bs))"
proof -
  have sk: "sink h0 (PB_OSTREAM_SIZING, h)" "has_room n (PB_OSTREAM_SIZING, h)" for n
    using assms(2) by (simp_all add: sink_def PB_OSTREAM_SIZING_def has_room_def)
  have fr: "frame (area PB_OSTREAM_SIZING) h h' \<Longrightarrow> h' = h" for h'
    by (cases h; cases h') (auto simp: area_def PB_OSTREAM_SIZING_def frame_def)
  show ?thesis
  proof (cases r)
    case None
    then have "refuses m (PB_OSTREAM_SIZING, h)" using assms(1) sk(1) by (auto simp: produces_def)
    then show ?thesis using None fr by (auto simp: refuses_def)
  next
    case (Some p)
    obtain a bs where p: "r = Some (a, bs)" using Some by (cases p) auto
    then obtain st where "m (PB_OSTREAM_SIZING, h) = Some (Some a, st)" "emitted bs (PB_OSTREAM_SIZING, h) st"
      using assms(1) sk unfolding produces_def by fastforce
    then show ?thesis using p by (cases st) (auto simp: emitted_def PB_OSTREAM_SIZING_def)
  qed
qed

end
