(* ===== verification/PbEncodeSpec.thy ===== *)
theory PbEncodeSpec
  imports PbProduce
begin

text \<open>
  The bytes of a message. \<open>message_bytes\<close> reads a structure in memory as its descriptors say and gives
  its protobuf encoding, with no stream and no counting pass; \<open>message_ok\<close> says that what has to be read
  is there. \<open>PbEncodeOk\<close> shows that the encoder produces exactly these bytes.
\<close>

section \<open>Values\<close>

definition integer_in :: "bool \<Rightarrow> heap \<Rightarrow> addr \<Rightarrow> u32 \<Rightarrow> u64 option" where
  "integer_in is_signed h p n =
     (if n = 1 then Some (if is_signed then scast (le_word (bytes_in h p 1) :: byte) else ucast (le_word (bytes_in h p 1) :: byte))
      else if n = 2 then Some (if is_signed then scast (le_word (bytes_in h p 2) :: 16 word) else ucast (le_word (bytes_in h p 2) :: 16 word))
      else if n = 4 then Some (if is_signed then scast (u32_in h p) else ucast (u32_in h p))
      else if n = 8 then Some (le_word (bytes_in h p 8))
      else None)"

definition delimited :: "byte list \<Rightarrow> byte list" where
  "delimited bs = varint_bytes (length bs) @ bs"

definition too_long :: "heap \<Rightarrow> pb_field \<Rightarrow> addr \<Rightarrow> bool" where
  "too_long h f p \<longleftrightarrow> PB_ATYPE (ftype f) = PB_ATYPE_STATIC \<and> ucast (u32_in h p) > (ucast (data_size f) - 4 :: size_t)"

definition string_limit :: "pb_field \<Rightarrow> nat" where
  "string_limit f = (if PB_ATYPE (ftype f) = PB_ATYPE_POINTER then 0xFFFFFFFFFFFFFFFF else unat (data_size f))"

text \<open>
  The encoding of one value at \<open>p\<close>, without its key; nothing for a value that cannot be encoded. \<open>sub\<close>
  gives the encoding of a submessage.
\<close>

definition value_bytes :: "env \<Rightarrow> (pb_field list \<Rightarrow> addr \<Rightarrow> byte list option) \<Rightarrow> heap \<Rightarrow> pb_field \<Rightarrow> addr \<Rightarrow> byte list option" where
  "value_bytes E sub h f p = (let lt = PB_LTYPE (ftype f) in
     if lt = PB_LTYPE_BOOL then Some (varint_bytes (if bytes_in h p 1 = [0] then 0 else 1))
     else if lt = PB_LTYPE_VARINT then map_option (\<lambda>v. varint_bytes (unat v)) (integer_in True h p (data_size f))
     else if lt = PB_LTYPE_UVARINT then map_option (\<lambda>v. varint_bytes (unat v)) (integer_in False h p (data_size f))
     else if lt = PB_LTYPE_SVARINT then map_option (\<lambda>v. varint_bytes (unat (zigzag v))) (integer_in True h p (data_size f))
     else if lt = PB_LTYPE_FIXED32 then Some (bytes_in h p 4)
     else if lt = PB_LTYPE_FIXED64 then Some (bytes_in h p 8)
     else if lt = PB_LTYPE_BYTES then
       (if p = 0 then Some (delimited []) else if too_long h f p then None
        else Some (delimited (bytes_in h (p + 4) (unat (u32_in h p)))))
     else if lt = PB_LTYPE_STRING then
       (if p = 0 then Some (delimited [])
        else case strnlen h p (string_limit f) 0 of None \<Rightarrow> None | Some n \<Rightarrow> Some (delimited (bytes_in h p n)))
     else if lt = PB_LTYPE_SUBMESSAGE then
       (case submsg_fields E (ptr f) of None \<Rightarrow> None | Some fs \<Rightarrow> map_option delimited (sub fs p))
     else Some (delimited (bytes_in h p (unat (data_size f)))))"

definition value_ok :: "env \<Rightarrow> (pb_field list \<Rightarrow> addr \<Rightarrow> byte list option) \<Rightarrow> (pb_field list \<Rightarrow> addr \<Rightarrow> bool)
    \<Rightarrow> heap \<Rightarrow> pb_field \<Rightarrow> addr \<Rightarrow> bool" where
  "value_ok E sub sub_ok h f p = (let lt = PB_LTYPE (ftype f) in
     if lt = PB_LTYPE_BOOL then readable h p 1
     else if lt = PB_LTYPE_VARINT \<or> lt = PB_LTYPE_UVARINT \<or> lt = PB_LTYPE_SVARINT then readable h p (unat (data_size f))
     else if lt = PB_LTYPE_FIXED32 then readable h p 4
     else if lt = PB_LTYPE_FIXED64 then readable h p 8
     else if lt = PB_LTYPE_BYTES then
       p = 0 \<or> readable h p 4 \<and> (too_long h f p \<or> readable h (p + 4) (unat (u32_in h p)))
     else if lt = PB_LTYPE_STRING then p = 0 \<or> strnlen h p (string_limit f) 0 \<noteq> None
     else if lt = PB_LTYPE_SUBMESSAGE then
       (case ptr f of Null \<Rightarrow> True
        | Submsg i \<Rightarrow> sub_ok (descs E i) p \<and> (case sub (descs E i) p of Some bs \<Rightarrow> length bs < 2 ^ 63 | None \<Rightarrow> True)
        | Default _ \<Rightarrow> False)
     else lt = PB_LTYPE_FIXED_LENGTH_BYTES \<and> readable h p (unat (data_size f)))"

section \<open>Fields\<close>

definition wire_type :: "pb_field \<Rightarrow> u32" where
  "wire_type f = (let lt = PB_LTYPE (ftype f) in
     if lt = PB_LTYPE_FIXED32 then PB_WT_32BIT else if lt = PB_LTYPE_FIXED64 then PB_WT_64BIT
     else if lt \<le> PB_LTYPE_SVARINT then PB_WT_VARINT else PB_WT_STRING)"

definition key_bytes :: "u32 \<Rightarrow> u32 \<Rightarrow> byte list" where
  "key_bytes wt t = varint_bytes (unat (push_bit 3 (ucast t) OR ucast wt :: u64))"

definition keyed :: "pb_field \<Rightarrow> byte list option \<Rightarrow> byte list option" where
  "keyed f v = map_option ((@) (key_bytes (wire_type f) (tag f))) v"

text \<open>The elements of an array, behind one key if they can be packed and behind a key each if not.\<close>

definition by_pointer :: "pb_field \<Rightarrow> bool" where
  "by_pointer f \<longleftrightarrow> PB_ATYPE (ftype f) = PB_ATYPE_POINTER
     \<and> (PB_LTYPE (ftype f) = PB_LTYPE_STRING \<or> PB_LTYPE (ftype f) = PB_LTYPE_BYTES)"

definition element_at :: "heap \<Rightarrow> pb_field \<Rightarrow> addr \<Rightarrow> addr" where
  "element_at h f p = (if by_pointer f then ptr_in h p else p)"

definition elements :: "pb_field \<Rightarrow> addr \<Rightarrow> nat \<Rightarrow> addr list" where
  "elements f p count = map (\<lambda>i. p + of_nat i * ucast (data_size f)) [0..<count]"

definition array_bytes :: "(addr \<Rightarrow> byte list option) \<Rightarrow> heap \<Rightarrow> pb_field \<Rightarrow> addr \<Rightarrow> nat \<Rightarrow> byte list option" where
  "array_bytes val h f p count =
     (if count = 0 then Some []
      else if PB_ATYPE (ftype f) \<noteq> PB_ATYPE_POINTER \<and> count > unat (array_size f) then None
      else if PB_LTYPE (ftype f) \<le> PB_LTYPE_LAST_PACKABLE then
        map_option (\<lambda>bs. key_bytes PB_WT_STRING (tag f) @ delimited bs) (joined (map val (elements f p count)))
      else joined (map (\<lambda>q. keyed f (val (element_at h f q))) (elements f p count)))"

definition array_ok :: "(addr \<Rightarrow> bool) \<Rightarrow> heap \<Rightarrow> pb_field \<Rightarrow> addr \<Rightarrow> nat \<Rightarrow> bool" where
  "array_ok val_ok h f p count \<longleftrightarrow> count = 0 \<or> (PB_ATYPE (ftype f) \<noteq> PB_ATYPE_POINTER \<and> count > unat (array_size f))
     \<or> list_all (\<lambda>q. val_ok (element_at h f q) \<and> (by_pointer f \<longrightarrow> readable h q 8)) (elements f p count)"

text \<open>The default value of a proto3 field, which is not sent.\<close>

fun is_default :: "env \<Rightarrow> nat \<Rightarrow> heap \<Rightarrow> pb_field \<Rightarrow> addr \<Rightarrow> bool" where
  "is_default E 0 h f d = False"
| "is_default E (Suc n) h f d = (let t = ftype f; z = d + scast (size_offset f) in
     if PB_HTYPE t = PB_HTYPE_REQUIRED then False
     else if PB_HTYPE t = PB_HTYPE_REPEATED \<and> size_offset f \<noteq> 0 then u32_in h z = 0
     else if PB_HTYPE t = PB_HTYPE_REPEATED \<and> PB_ATYPE t = PB_ATYPE_STATIC then False
     else if PB_HTYPE t = PB_HTYPE_ONEOF then u32_in h z = 0
     else if PB_HTYPE t = PB_HTYPE_OPTIONAL \<and> size_offset f \<noteq> 0 then bytes_in h z 1 = [0]
     else if PB_ATYPE t = PB_ATYPE_STATIC \<and> PB_LTYPE t = PB_LTYPE_BYTES then u32_in h d = 0
     else if PB_ATYPE t = PB_ATYPE_STATIC \<and> PB_LTYPE t = PB_LTYPE_STRING then bytes_in h d 1 = [0]
     else if PB_ATYPE t = PB_ATYPE_STATIC \<and> PB_LTYPE t = PB_LTYPE_FIXED_LENGTH_BYTES then data_size f = 0
     else if PB_ATYPE t = PB_ATYPE_STATIC \<and> PB_LTYPE t = PB_LTYPE_SUBMESSAGE then
       (case submsg_fields E (ptr f) of None \<Rightarrow> True
        | Some fs \<Rightarrow> list_all (\<lambda>i. is_default E n h (fs ! i) (d + field_off fs i)) [0..<length fs])
     else if PB_ATYPE t = PB_ATYPE_POINTER \<and> PB_LTYPE t > PB_LTYPE_LAST_PACKABLE then ptr_in h d = 0
     else list_all (\<lambda>b. b = 0) (bytes_in h d (unat (data_size f))))"

fun default_ok :: "env \<Rightarrow> nat \<Rightarrow> heap \<Rightarrow> pb_field \<Rightarrow> addr \<Rightarrow> bool" where
  "default_ok E 0 h f d = False"
| "default_ok E (Suc n) h f d = (let t = ftype f; z = d + scast (size_offset f) in
     if PB_HTYPE t = PB_HTYPE_REQUIRED then True
     else if PB_HTYPE t = PB_HTYPE_REPEATED \<and> size_offset f \<noteq> 0 then readable h z 4
     else if PB_HTYPE t = PB_HTYPE_REPEATED \<and> PB_ATYPE t = PB_ATYPE_STATIC then True
     else if PB_HTYPE t = PB_HTYPE_ONEOF then readable h z 4
     else if PB_HTYPE t = PB_HTYPE_OPTIONAL \<and> size_offset f \<noteq> 0 then readable h z 1
     else if PB_ATYPE t = PB_ATYPE_STATIC \<and> PB_LTYPE t = PB_LTYPE_BYTES then readable h d 4
     else if PB_ATYPE t = PB_ATYPE_STATIC \<and> PB_LTYPE t = PB_LTYPE_STRING then readable h d 1
     else if PB_ATYPE t = PB_ATYPE_STATIC \<and> PB_LTYPE t = PB_LTYPE_FIXED_LENGTH_BYTES then True
     else if PB_ATYPE t = PB_ATYPE_STATIC \<and> PB_LTYPE t = PB_LTYPE_SUBMESSAGE then
       (case submsg_fields E (ptr f) of None \<Rightarrow> False
        | Some fs \<Rightarrow> fs = [] \<or> tags_ok fs \<and> d \<noteq> 0 \<and> list_all (\<lambda>i. default_ok E n h (fs ! i) (d + field_off fs i)) [0..<length fs])
     else if PB_ATYPE t = PB_ATYPE_POINTER \<and> PB_LTYPE t > PB_LTYPE_LAST_PACKABLE then readable h d 8
     else readable h d (unat (data_size f)))"

text \<open>One field at \<open>d\<close>, with its count or flag at \<open>size_offset\<close> from it.\<close>

definition pointed :: "heap \<Rightarrow> pb_field \<Rightarrow> addr \<Rightarrow> addr" where
  "pointed h f d = (if PB_ATYPE (ftype f) = PB_ATYPE_POINTER then ptr_in h d else d)"

definition present :: "env \<Rightarrow> nat \<Rightarrow> heap \<Rightarrow> pb_field \<Rightarrow> addr \<Rightarrow> bool" where
  "present E n h f d = (if size_offset f \<noteq> 0 then bytes_in h (d + scast (size_offset f)) 1 \<noteq> [0]
     else if PB_ATYPE (ftype f) = PB_ATYPE_POINTER then pointed h f d \<noteq> 0 else \<not> is_default E n h f d)"

definition count_in :: "heap \<Rightarrow> pb_field \<Rightarrow> addr \<Rightarrow> u32" where
  "count_in h f d = (if size_offset f \<noteq> 0 then u32_in h (d + scast (size_offset f)) else array_size f)"

definition field_bytes :: "env \<Rightarrow> nat \<Rightarrow> (pb_field list \<Rightarrow> addr \<Rightarrow> byte list option) \<Rightarrow> heap \<Rightarrow> pb_field \<Rightarrow> addr
    \<Rightarrow> byte list option" where
  "field_bytes E n sub h f d = (let t = ftype f; p = pointed h f d; val = value_bytes E sub h f in
     if PB_HTYPE t = PB_HTYPE_REQUIRED then (if p = 0 then None else keyed f (val p))
     else if PB_HTYPE t = PB_HTYPE_OPTIONAL then (if present E n h f d then keyed f (val p) else Some [])
     else if PB_HTYPE t = PB_HTYPE_REPEATED then array_bytes val h f p (unat (count_in h f d))
     else if count_in h f d = tag f then keyed f (val p) else Some [])"

definition field_ok :: "env \<Rightarrow> nat \<Rightarrow> (pb_field list \<Rightarrow> addr \<Rightarrow> byte list option) \<Rightarrow> (pb_field list \<Rightarrow> addr \<Rightarrow> bool)
    \<Rightarrow> heap \<Rightarrow> pb_field \<Rightarrow> addr \<Rightarrow> bool" where
  "field_ok E n sub sub_ok h f d \<longleftrightarrow> (let t = ftype f; z = d + scast (size_offset f); p = pointed h f d;
       val_ok = value_ok E sub sub_ok h f in
     (PB_ATYPE t = PB_ATYPE_STATIC \<or> PB_ATYPE t = PB_ATYPE_POINTER \<and> readable h d 8)
     \<and> (PB_LTYPE t \<le> PB_LTYPE_SUBMESSAGE \<or> PB_LTYPE t = PB_LTYPE_FIXED_LENGTH_BYTES)
     \<and> (if PB_HTYPE t = PB_HTYPE_REQUIRED then p = 0 \<or> val_ok p
        else if PB_HTYPE t = PB_HTYPE_OPTIONAL then
          (if size_offset f \<noteq> 0 then readable h z 1 else default_ok E n h f d) \<and> (present E n h f d \<longrightarrow> val_ok p)
        else if PB_HTYPE t = PB_HTYPE_REPEATED then
          (size_offset f \<noteq> 0 \<longrightarrow> readable h z 4) \<and> array_ok val_ok h f p (unat (count_in h f d))
        else size_offset f \<noteq> 0 \<and> readable h z 4 \<and> (count_in h f d = tag f \<longrightarrow> val_ok p)))"

section \<open>Messages\<close>

text \<open>The number bounds the nesting of messages.\<close>

fun message_bytes :: "env \<Rightarrow> nat \<Rightarrow> heap \<Rightarrow> pb_field list \<Rightarrow> addr \<Rightarrow> byte list option" where
  "message_bytes E 0 h fs a = None"
| "message_bytes E (Suc n) h fs a =
     joined (map (\<lambda>i. field_bytes E n (message_bytes E n h) h (fs ! i) (a + field_off fs i)) [0..<length fs])"

fun message_ok :: "env \<Rightarrow> nat \<Rightarrow> heap \<Rightarrow> pb_field list \<Rightarrow> addr \<Rightarrow> bool" where
  "message_ok E 0 h fs a = False"
| "message_ok E (Suc n) h fs a \<longleftrightarrow> fs = [] \<or> tags_ok fs \<and> a \<noteq> 0
     \<and> list_all (\<lambda>i. field_ok E n (message_bytes E n h) (message_ok E n h) h (fs ! i) (a + field_off fs i)) [0..<length fs]"

end
