(* ===== verification/PbEncodeOk.thy ===== *)
theory PbEncodeOk
  imports PbEncodeSpec
begin

text \<open>
  The message encoder produces the bytes of the message: from the values up to whole messages, and what
  that means for the two passes the app makes over a message.
\<close>

section \<open>Values\<close>

lemma producesD:
  "produces h0 m (Some (a, bs)) \<Longrightarrow> sink h0 (s, h) \<Longrightarrow> has_room (length bs) (s, h) \<Longrightarrow> \<exists>st'. m (s, h) = Some (Some a, st') \<and> emitted bs (s, h) st'"
  "produces h0 m (Some (a, bs)) \<Longrightarrow> sink h0 (s, h) \<Longrightarrow> \<not> has_room (length bs) (s, h) \<Longrightarrow> refuses m (s, h)"
  "produces h0 m None \<Longrightarrow> sink h0 (s, h) \<Longrightarrow> refuses m (s, h)"
  unfolding produces_def by (drule spec [of _ "(s, h)"], simp)+

lemma produces_cong:
  assumes "\<And>s h. sink h0 (s, h) \<Longrightarrow> m (s, h) = m' (s, h)" "produces h0 m' r"
  shows "produces h0 m r"
proof (rule producesI)
  fix s h a bs
  assume "sink h0 (s, h)" "r = Some (a, bs)" "has_room (length bs) (s, h)"
  then show "\<exists>st'. m (s, h) = Some (Some a, st') \<and> emitted bs (s, h) st'"
    using producesD(1) [of h0 m' a bs s h] assms(2) by (simp only: assms(1))
next
  fix s h
  assume sk: "sink h0 (s, h)" and r: "r = None \<or> (\<exists>a bs. r = Some (a, bs) \<and> \<not> has_room (length bs) (s, h))"
  have "refuses m' (s, h)"
  proof (cases r)
    case None
    with assms(2) sk show ?thesis by (simp add: producesD(3))
  next
    case (Some p)
    then obtain a bs where "r = Some (a, bs)" "\<not> has_room (length bs) (s, h)" using r by auto
    with assms(2) sk show ?thesis using producesD(2) [of h0 m' a bs s h] by simp
  qed
  then show "refuses m (s, h)" by (simp add: refuses_def assms(1) [OF sk])
qed

lemma produces_bool: "readable h0 a 1 \<Longrightarrow> produces h0 (safe_read_bool a) (Some (bytes_in h0 a 1 \<noteq> [0], []))"
proof -
  assume r: "readable h0 a 1"
  then obtain b where "bytes_in h0 a 1 = [b]" by (metis One_nat_def length_0_conv length_Suc_conv length_bytes_in)
  then show ?thesis using produces_map [OF produces_load [OF r], of "list_ex (\<lambda>b. b \<noteq> 0)"]
    by (simp add: safe_read_bool_def)
qed

lemma written_simps [simp]: "written None = None" "written (Some bs) = Some ((), bs)"
  by simp_all

lemma produces_written: "produces h0 m (Some ((), bs)) \<Longrightarrow> produces h0 m (written (Some bs))"
  by simp

lemma produces_integer:
  assumes "readable h0 a (unat n)"
  shows "produces h0 (if n = 1 then bindC (loadC a 1) (\<lambda>bs. returnC (scast (le_word bs :: byte)))
            else if n = 2 then bindC (loadC a 2) (\<lambda>bs. returnC (scast (le_word bs :: 16 word)))
            else if n = 4 then bindC (loadC a 4) (\<lambda>bs. returnC (scast (le_word bs :: u32)))
            else if n = 8 then bindC (loadC a 8) (\<lambda>bs. returnC (le_word bs :: u64))
            else o_error msg) (map_option (\<lambda>v. (v, [])) (integer_in True h0 a n))"
    "produces h0 (if n = 1 then bindC (loadC a 1) (\<lambda>bs. returnC (ucast (le_word bs :: byte)))
            else if n = 2 then bindC (loadC a 2) (\<lambda>bs. returnC (ucast (le_word bs :: 16 word)))
            else if n = 4 then bindC (loadC a 4) (\<lambda>bs. returnC (ucast (le_word bs :: u32)))
            else if n = 8 then bindC (loadC a 8) (\<lambda>bs. returnC (le_word bs :: u64))
            else o_error msg) (map_option (\<lambda>v. (v, [])) (integer_in False h0 a n))"
  using assms by (auto simp: integer_in_def u32_in_def intro: produces_error produces_map [OF produces_load])

lemma produces_then_varint:
  assumes "produces h0 m (map_option (\<lambda>v. (v, [])) r)"
  shows "produces h0 (bindC m (\<lambda>v. pb_encode_varint E (k v))) (written (map_option (\<lambda>v. varint_bytes (unat (k v))) r))"
  using assms by (cases r) (auto intro: produces_after_failure produces_after_read produces_varint)

lemma produces_string:
  assumes "readable h0 a (unat n)"
  shows "produces h0 (pb_encode_string E (Memory a) n) (Some ((), delimited (bytes_in h0 a (unat n))))"
  using produces_after_write [OF produces_varint, of h0 "\<lambda>_. pb_write E (Memory a) n", OF produces_memory [OF assms]] assms
  by (simp add: pb_encode_string_def delimited_def)

lemma produces_no_string: "produces h0 (pb_encode_string E No_bytes 0) (Some ((), delimited []))"
  using produces_after_write [OF produces_varint, of h0 "\<lambda>_. pb_write E No_bytes 0" _ E 0, OF produces_nothing]
  by (simp add: pb_encode_string_def delimited_def)

lemma strnlen_part: "strnlen h0 p mx k = Some n \<Longrightarrow> part_of h0 h \<Longrightarrow> strnlen h p mx k = Some n"
proof (induction h0 p mx k rule: strnlen.induct)
  case (1 h0 p mx k)
  show ?case
  proof (cases "k < mx")
    case True
    then obtain c where c: "mem h0 p = Some c" using 1(2) by (subst (asm) strnlen.simps) (auto split: option.splits)
    then have "mem h p = Some c" using 1(3) by (rule part_mem [rotated])
    then show ?thesis using True c 1(1) [OF True c _ _ 1(3)] 1(2)
      by (subst strnlen.simps, subst (asm) (2) strnlen.simps) (auto split: if_splits)
  next
    case False
    then show ?thesis using 1(2) by (simp add: strnlen.simps)
  qed
qed

lemma strnlen_bounds: "strnlen h p mx k = Some n \<Longrightarrow> k \<le> mx \<Longrightarrow> readable h p (n - k) \<and> k \<le> n \<and> n \<le> mx"
proof (induction h p mx k rule: strnlen.induct)
  case (1 h p mx k)
  show ?case
  proof (cases "k < mx")
    case True
    then obtain c where c: "mem h p = Some c" using 1(2) by (subst (asm) strnlen.simps) (auto split: option.splits)
    show ?thesis
    proof (cases "c = 0")
      case True
      with c \<open>k < mx\<close> show ?thesis using 1(2) by (subst (asm) strnlen.simps) simp
    next
      case False
      then have "strnlen h (p + 1) mx (k + 1) = Some n" using True c 1(2) by (subst (asm) strnlen.simps) simp
      with 1(1) [OF True c False] True have "readable h (p + 1) (n - Suc k) \<and> Suc k \<le> n \<and> n \<le> mx" by simp
      moreover from this have "n - k = Suc (n - Suc k)" by linarith
      ultimately show ?thesis using c by (simp add: readable_Suc)
    qed
  next
    case False
    then show ?thesis using 1(2, 3) by (simp add: strnlen.simps)
  qed
qed

lemma produces_enc_string:
  assumes "a = 0 \<or> strnlen h0 a (string_limit f) 0 \<noteq> None"
  shows "produces h0 (pb_enc_string E f a) (written (if a = 0 then Some (delimited [])
        else case strnlen h0 a (string_limit f) 0 of None \<Rightarrow> None | Some n \<Rightarrow> Some (delimited (bytes_in h0 a n))))"
proof (cases "a = 0")
  case True
  have "pb_enc_string E f a = pb_encode_string E No_bytes 0" by (rule ext) (auto simp: pb_enc_string_def True)
  then show ?thesis using True produces_no_string by simp
next
  case False
  with assms obtain n where n: "strnlen h0 a (string_limit f) 0 = Some n" by auto
  have b: "readable h0 a n" "n \<le> string_limit f" using strnlen_bounds [OF n] by simp_all
  moreover have "string_limit f < 2 ^ 64" using unsigned_less [of "data_size f", where 'a = nat] by (simp add: string_limit_def)
  ultimately have u: "unat (of_nat n :: size_t) = n" by (intro unat_of_nat_64) simp
  have "pb_enc_string E f a (s, h) = pb_encode_string E (Memory a) (of_nat n) (s, h)" if "sink h0 (s, h)" for s h
    using strnlen_part [OF n, of h] that False by (simp add: pb_enc_string_def string_limit_def Let_def sink_def)
  from produces_cong [OF this produces_string [of h0 a "of_nat n" E]] b(1) n False show ?thesis by (simp add: u)
qed

lemma produces_enc_bytes:
  assumes "a = 0 \<or> readable h0 a 4 \<and> (too_long h0 f a \<or> readable h0 (a + 4) (unat (u32_in h0 a)))"
  shows "produces h0 (pb_enc_bytes E f a) (written (if a = 0 then Some (delimited []) else if too_long h0 f a then None
        else Some (delimited (bytes_in h0 (a + 4) (unat (u32_in h0 a))))))"
proof (cases "a = 0")
  case True
  then show ?thesis using produces_no_string by (simp add: pb_enc_bytes_def)
next
  case False
  have u: "unat (ucast (u32_in h0 a) :: size_t) = unat (u32_in h0 a)" by (rule unat_ucast_up) simp
  show ?thesis
  proof (cases "too_long h0 f a")
    case True
    then show ?thesis unfolding pb_enc_bytes_def using False assms
      by (auto simp: too_long_def intro!: produces_after_read [OF produces_u32] produces_error)
  next
    case short: False
    then have r: "readable h0 a 4" "readable h0 (a + 4) (unat (ucast (u32_in h0 a) :: size_t))" using False assms by (simp_all add: u)
    have "produces h0 (pb_encode_string E (Memory (a + 4)) (ucast (u32_in h0 a))) (Some ((), delimited (bytes_in h0 (a + 4) (unat (u32_in h0 a)))))"
      using produces_string [OF r(2)] by (simp add: u)
    with short show ?thesis unfolding pb_enc_bytes_def using False r(1)
      by (auto simp: too_long_def intro!: produces_after_read [OF produces_u32])
  qed
qed

section \<open>Keys\<close>

lemma produces_tag: "produces h0 (pb_encode_tag E wt t) (Some ((), key_bytes wt t))"
  unfolding pb_encode_tag_def key_bytes_def by (rule produces_varint)

lemma produces_key:
  assumes "PB_LTYPE (ftype f) \<le> PB_LTYPE_SUBMESSAGE \<or> PB_LTYPE (ftype f) = PB_LTYPE_FIXED_LENGTH_BYTES"
  shows "produces h0 (pb_encode_tag_for_field E f) (Some ((), key_bytes (wire_type f) (tag f)))"
proof -
  have tag: "produces h0 (pb_encode_tag E wt t) (Some ((), key_bytes wt t))" for wt t
    unfolding pb_encode_tag_def key_bytes_def by (rule produces_varint)
  have lt: "b \<le> 8 \<Longrightarrow> b = 0 \<or> b = 1 \<or> b = 2 \<or> b = 3 \<or> b = 4 \<or> b = 5 \<or> b = 6 \<or> b = 7 \<or> b = (8 :: byte)" for b
    by (rule all_bytes [of "\<lambda>b. b \<le> 8 \<longrightarrow> b = 0 \<or> b = 1 \<or> b = 2 \<or> b = 3 \<or> b = 4 \<or> b = 5 \<or> b = 6 \<or> b = 7 \<or> b = 8", THEN mp]) simp_all
  from assms have "PB_LTYPE (ftype f) \<in> {0, 1, 2, 3, 4, 5, 6, 7, 8, 0xA}" using lt [of "PB_LTYPE (ftype f)"] by auto
  then show ?thesis using tag [of _ "tag f"] by (auto simp: pb_encode_tag_for_field_def wire_type_def Let_def)
qed

lemma produces_keyed:
  assumes "PB_LTYPE (ftype f) \<le> PB_LTYPE_SUBMESSAGE \<or> PB_LTYPE (ftype f) = PB_LTYPE_FIXED_LENGTH_BYTES"
    and "produces h0 m (written v)"
  shows "produces h0 (bindC (pb_encode_tag_for_field E f) (\<lambda>_. m)) (written (keyed f v))"
  using produces_after_write [OF produces_key [OF assms(1)], of h0 "\<lambda>_. m" _ E, OF assms(2)]
  by (cases v) (simp_all add: keyed_def)

section \<open>The proto3 check\<close>

lemma produces_all_zero:
  "readable h0 p k \<Longrightarrow> produces h0 (all_zero p k) (Some (list_all (\<lambda>b. b = 0) (bytes_in h0 p k), []))"
proof (induction k arbitrary: p)
  case 0
  then show ?case by (simp add: bytes_in_def produces_return)
next
  case (Suc k)
  then have r: "readable h0 p 1" "readable h0 (p + 1) k" by (simp_all add: readable_Suc)
  then obtain b where b: "bytes_in h0 p 1 = [b]" by (metis One_nat_def length_0_conv length_Suc_conv length_bytes_in)
  have e: "bytes_in h0 p (Suc k) = b # bytes_in h0 (p + 1) k"
    using bytes_in [OF r(1)] bytes_in [OF r(2)] b by (auto simp: bytes_in_def [of h0 p "Suc k"] split: option.splits)
  have "produces h0 (if b \<noteq> 0 then returnC False else all_zero (p + 1) k)
      (Some (list_all (\<lambda>b. b = 0) (bytes_in h0 p (Suc k)), []))"
    using Suc.IH [OF r(2)] by (auto simp: e produces_return)
  then show ?case unfolding all_zero.simps by (intro produces_after_read [OF produces_load [OF r(1)]]) (simp only: b list.sel)
qed

text \<open>A walk over the fields of a message, at their places.\<close>

definition at_field :: "pb_field list \<Rightarrow> addr \<Rightarrow> pb_field_iter \<Rightarrow> bool" where
  "at_field fs a it \<longleftrightarrow> iter_ok it \<and> start it = fs \<and> dest_struct it = a"

lemma at_field:
  assumes "at_field fs a it"
  shows "pos it < length fs" "cur it = fs ! pos it" "pData it = a + field_off fs (pos it)"
  using assms cur_iter [of it] by (auto simp: at_field_def iter_ok_def)

lemma at_field_begin:
  assumes "tags_ok fs" "a \<noteq> 0"
  obtains it where "pb_field_iter_begin iter0 fs a = (True, it)" "at_field fs a it" "pos it = 0"
proof -
  obtain b it where e: "pb_field_iter_begin iter0 fs a = (b, it)" by (cases "pb_field_iter_begin iter0 fs a")
  note f = iter_begin_ok [OF assms, of iter0, unfolded e fst_conv snd_conv]
  show thesis by (rule that [of it]) (use f e in \<open>simp_all add: at_field_def\<close>)
qed

lemma at_field_next:
  assumes "at_field fs a it"
  obtains it' where "pb_field_iter_next it = (Suc (pos it) < length fs, it')"
    "Suc (pos it) < length fs \<Longrightarrow> at_field fs a it' \<and> pos it' = Suc (pos it)"
proof -
  obtain b it' where e: "pb_field_iter_next it = (b, it')" by (cases "pb_field_iter_next it")
  have i: "iter_ok it" "start it = fs" "dest_struct it = a" using assms by (simp_all add: at_field_def)
  note same = iter_next_same(1, 2) [of it, unfolded e snd_conv]
  show thesis
  proof (cases "Suc (pos it) < length fs")
    case True
    then have "Suc (pos it) < length (start it)" using i(2) by simp
    note f = iter_next_step [OF i(1) this, unfolded e fst_conv snd_conv]
    show ?thesis by (rule that [of it']) (use f e True i same in \<open>simp_all add: at_field_def\<close>)
  next
    case False
    then have "Suc (pos it) = length (start it)" using at_field(1) [OF assms] i(2) by simp
    note f = iter_next_wrap(1) [OF i(1) this, unfolded e fst_conv]
    show ?thesis by (rule that [of it']) (use f e False in simp_all)
  qed
qed

lemma produces_all_fields:
  assumes "\<And>i. i < length fs \<Longrightarrow> produces h0 (check (fs ! i) (a + field_off fs i)) (Some (P i, []))"
    and "at_field fs a it" "length fs - pos it < k"
  shows "produces h0 (all_fields k (\<lambda>it. check (cur it) (pData it)) it) (Some (list_all P [pos it..<length fs], []))"
  using assms(2, 3)
proof (induction k arbitrary: it)
  case (Suc k)
  note f = at_field [OF Suc.prems(1)]
  obtain it' where n: "pb_field_iter_next it = (Suc (pos it) < length fs, it')"
    "Suc (pos it) < length fs \<Longrightarrow> at_field fs a it' \<and> pos it' = Suc (pos it)" using at_field_next [OF Suc.prems(1)] by blast
  have u: "[pos it..<length fs] = pos it # [Suc (pos it)..<length fs]" using f(1) by (simp add: upt_conv_Cons)
  have rest: "produces h0 (if Suc (pos it) < length fs then all_fields k (\<lambda>it. check (cur it) (pData it)) it' else returnC True)
      (Some (list_all P [Suc (pos it)..<length fs], []))"
  proof (cases "Suc (pos it) < length fs")
    case True
    then have "produces h0 (all_fields k (\<lambda>it. check (cur it) (pData it)) it') (Some (list_all P [pos it'..<length fs], []))"
      using Suc.IH [of it'] n(2) Suc.prems(2) by fastforce
    with True n(2) show ?thesis by simp
  qed (simp add: produces_return)
  have "produces h0 (if \<not> P (pos it) then returnC False else if Suc (pos it) < length fs
      then all_fields k (\<lambda>it. check (cur it) (pData it)) it' else returnC True) (Some (list_all P [pos it..<length fs], []))"
    using rest by (auto simp: u produces_return)
  then show ?case unfolding all_fields.simps n(1) prod.case
    using assms(1) [OF f(1)] by (intro produces_after_read [where a = "P (pos it)"]) (simp_all add: f)
qed simp

lemma produces_if:
  "(c \<Longrightarrow> produces h0 m (Some (v, []))) \<Longrightarrow> (\<not> c \<Longrightarrow> produces h0 m' (Some (v', []))) \<Longrightarrow>
    produces h0 (if c then m else m') (Some (if c then v else v', []))"
  by simp

lemma zero_tests:
  "readable h0 a 4 \<Longrightarrow> produces h0 (bindC (load_u32 a) (\<lambda>v. returnC (v = 0))) (Some (u32_in h0 a = 0, []))"
  "readable h0 a 8 \<Longrightarrow> produces h0 (bindC (load_ptr a) (\<lambda>v. returnC (v = 0))) (Some (ptr_in h0 a = 0, []))"
  "readable h0 a 1 \<Longrightarrow> produces h0 (bindC (loadC a 1) (\<lambda>v. returnC (v = [0]))) (Some (bytes_in h0 a 1 = [0], []))"
  "readable h0 a 1 \<Longrightarrow> produces h0 (bindC (safe_read_bool a) (\<lambda>v. returnC (\<not> v))) (Some (bytes_in h0 a 1 = [0], []))"
  using produces_map [OF produces_u32] produces_map [OF produces_ptr] produces_map [OF produces_load]
    produces_map [OF produces_bool, of h0 a Not] by simp_all

lemma produces_default:
  "default_ok E n h0 f d \<Longrightarrow> produces h0 (pb_check_proto3_default_value E n f d) (Some (is_default E n h0 f d, []))"
proof (induction n arbitrary: f d)
  case (Suc n)
  have sub: "produces h0 (bindC (liftC (submsg_fields E (ptr f))) (\<lambda>fs.
         case pb_field_iter_begin iter0 fs d of (nonempty, it) \<Rightarrow>
           if nonempty then all_fields (Suc (length fs)) (\<lambda>it. pb_check_proto3_default_value E n (cur it) (pData it)) it
           else returnC True))
      (Some (case submsg_fields E (ptr f) of None \<Rightarrow> True
        | Some fs \<Rightarrow> list_all (\<lambda>i. is_default E n h0 (fs ! i) (d + field_off fs i)) [0..<length fs], []))"
    if fs: "submsg_fields E (ptr f) = Some fs"
      "fs = [] \<or> tags_ok fs \<and> d \<noteq> 0 \<and> list_all (\<lambda>i. default_ok E n h0 (fs ! i) (d + field_off fs i)) [0..<length fs]" for fs
  proof (cases "fs = []")
    case True
    then show ?thesis using fs(1) by (simp add: liftC_def pb_field_iter_begin_def Let_def field_at_def produces_return)
  next
    case False
    with fs(2) obtain it where it: "pb_field_iter_begin iter0 fs d = (True, it)" "at_field fs d it" "pos it = 0"
      using at_field_begin [of fs d] by blast
    have "produces h0 (all_fields (Suc (length fs)) (\<lambda>it. pb_check_proto3_default_value E n (cur it) (pData it)) it)
        (Some (list_all (\<lambda>i. is_default E n h0 (fs ! i) (d + field_off fs i)) [pos it..<length fs], []))"
      by (rule produces_all_fields [OF _ it(2)]) (use False fs(2) Suc.IH in \<open>auto simp: list_all_iff\<close>)
    then show ?thesis using fs(1) it by (simp add: liftC_def)
  qed
  show ?case using Suc.prems unfolding pb_check_proto3_default_value.simps is_default.simps default_ok.simps singular_is_zero_def Let_def
    apply (intro produces_if)
              apply (simp_all only: if_True if_False simp_thms)
              apply (rule produces_return)
             apply (erule zero_tests)
            apply (rule produces_return)
           apply (erule zero_tests)+
       apply (rule produces_return)
       apply (cases "submsg_fields E (ptr f)")
        apply (simp only: option.case)
       apply (rule sub, assumption)
       apply (simp only: option.case)
     apply (erule zero_tests)
    apply (erule produces_all_zero)
    done
qed simp

section \<open>Submessages\<close>

text \<open>
  The contract of the encoder of submessages: on what is well-formed it produces the bytes.
\<close>

locale submessage_encoder =
  fixes E :: env and h0 :: heap and encode :: sub_encoder
    and sub :: "pb_field list \<Rightarrow> addr \<Rightarrow> byte list option" and sub_ok :: "pb_field list \<Rightarrow> addr \<Rightarrow> bool"
  assumes produces_sub: "sub_ok fs a \<Longrightarrow> produces h0 (encode fs a) (written (sub fs a))"
begin

lemma submessage_fits:
  assumes ok: "sub_ok fs a" and bs: "sub fs a = Some bs" "length bs < 2 ^ 63"
    and sk: "sink h0 (s, h)" and b: "o_callback s = Buf_write"
  defines "sz \<equiv> of_nat (length bs) :: size_t"
  shows "if bytes_written s + sz > max_size s then \<not> has_room (length bs) (s, h)
    else has_room (length bs) (s, h) \<and> (\<exists>sub h'. encode fs a (\<lparr>o_callback = o_callback s, o_state = o_state s, max_size = sz,
        bytes_written = 0, o_errmsg = None\<rparr>, h) = Some (Some (), (sub, h'))
      \<and> bytes_written sub = sz \<and> o_state sub = o_state s + sz \<and> o_errmsg sub = None \<and> store_bytes h (o_state s) bs = Some h')"
proof -
  let ?sub = "\<lparr>o_callback = o_callback s, o_state = o_state s, max_size = sz, bytes_written = 0, o_errmsg = None\<rparr>"
  have sz: "unat sz = length bs" using bs(2) by (simp add: sz_def unat_of_nat_64)
  have m: "unat (bytes_written s) \<le> unat (max_size s)" "unat (max_size s) < 2 ^ 63"
    "readable h (o_state s) (unat (max_size s) - unat (bytes_written s))" "area s \<inter> dom (mem h0) = {}" "part_of h0 h"
    using sk b by (auto simp: sink_def)
  have w: "unat (bytes_written s + sz) = unat (bytes_written s) + length bs"
    using m(1, 2) bs(2) unat_add_of_nat [of "bytes_written s" "length bs"] by (simp add: sz_def)
  show ?thesis
  proof (cases "bytes_written s + sz > max_size s")
    case True
    then show ?thesis using w b by (simp add: has_room_def word_less_nat_alt)
  next
    case False
    then have le: "unat (bytes_written s) + length bs \<le> unat (max_size s)" using w by (simp add: word_less_nat_alt)
    then have n: "length bs \<le> unat (max_size s) - unat (bytes_written s)" by linarith
    then have r: "readable h (o_state s) (length bs)" using m(3) by (rule readable_mono [rotated])
    have "area ?sub \<subseteq> area s" using region_mono [OF n] b by (simp add: area_def sz)
    then have "sink h0 (?sub, h)" using m bs(2) r b by (auto simp: sink_def sz)
    moreover have "has_room (length bs) (?sub, h)" using b r by (simp add: has_room_def sz)
    ultimately obtain st where st: "encode fs a (?sub, h) = Some (Some (), st)" "emitted bs (?sub, h) st"
      using produces_sub [OF ok] bs(1) unfolding produces_def by fastforce
    obtain s' h' where [simp]: "st = (s', h')" by (cases st)
    have "has_room (length bs) (s, h)" using le r b by (simp add: has_room_def)
    with st False b show ?thesis by (auto simp: emitted_def wrote_def sz_def)
  qed
qed

lemma produces_submessage:
  assumes ok: "sub_ok fs a" and len: "case sub fs a of Some bs \<Rightarrow> length bs < 2 ^ 63 | None \<Rightarrow> True"
  shows "produces h0 (pb_encode_submessage_with E encode fs a) (written (map_option delimited (sub fs a)))"
proof (cases "sub fs a")
  case None
  have "refuses (pb_encode_submessage_with E encode fs a) (s, h)" if sk: "sink h0 (s, h)" for s h
  proof -
    have "part_of h0 h" using sk by (simp add: sink_def)
    from sizing_run [OF produces_sub [OF ok] this] None show ?thesis
      by (auto simp: pb_encode_submessage_with_def on_ostream_def bindC_def refuses_def)
  qed
  then show ?thesis by (intro producesI) (auto simp: None)
next
  case (Some bs)
  define sz where "sz = (of_nat (length bs) :: size_t)"
  have sz: "unat sz = length bs" using len Some by (simp add: sz_def unat_of_nat_64)
  define rest :: "unit enc" where "rest = (\<lambda>(s, h).
       if o_callback s = Null_write then pb_write E No_bytes sz (s, h)
       else if bytes_written s + sz > max_size s then o_error ''stream full'' (s, h)
       else bindC (on_ostream \<lparr>o_callback = o_callback s, o_state = o_state s, max_size = sz,
                               bytes_written = 0, o_errmsg = None\<rparr> (encode fs a))
         (\<lambda>(status, substream). (\<lambda>(s, h). let s' = s\<lparr>bytes_written := bytes_written s + bytes_written substream,
               o_state := o_state substream, o_errmsg := o_errmsg substream\<rparr> in
            if bytes_written substream \<noteq> sz then o_error ''submsg size changed'' (s', h)
            else if status = None then failC (s', h) else returnC () (s', h))) (s, h))"
  have rest: "produces h0 rest (Some ((), bs))"
  proof (rule producesI)
    fix s h u cs
    assume sk: "sink h0 (s, h)" and c: "Some ((), bs) = Some (u, cs)" and room: "has_room (length cs) (s, h)"
    show "\<exists>st'. rest (s, h) = Some (Some u, st') \<and> emitted cs (s, h) st'"
    proof (cases "o_callback s")
      case Null_write
      then show ?thesis using c by (auto simp: rest_def pb_write_def emitted_def wrote_def sz_def)
    next
      case Buf_write
      note f = submessage_fits [OF ok Some _ sk Buf_write]
      have cs: "cs = bs" "u = ()" and l: "length bs < 2 ^ 63" using c len Some by simp_all
      have le: "\<not> bytes_written s + sz > max_size s" using f [OF l] room by (auto simp: cs sz_def split: if_splits)
      with f [OF l] obtain sub h' where sub: "encode fs a (\<lparr>o_callback = o_callback s, o_state = o_state s, max_size = sz,
            bytes_written = 0, o_errmsg = None\<rparr>, h) = Some (Some (), (sub, h'))" "bytes_written sub = sz"
          "o_state sub = o_state s + sz" "o_errmsg sub = None" "store_bytes h (o_state s) bs = Some h'"
        by (auto simp: sz_def)
      have "o_callback s \<noteq> Null_write" using Buf_write by simp
      with le sub(1-4) have "rest (s, h) = Some (Some (), (s\<lparr>bytes_written := bytes_written s + sz, o_state := o_state s + sz, o_errmsg := None\<rparr>, h'))"
        by (simp add: rest_def bindC_def on_ostream_def returnC_def Let_def)
      moreover have "s\<lparr>bytes_written := bytes_written s + sz, o_state := o_state s + sz, o_errmsg := None\<rparr> = wrote (length bs) s"
        using sk Buf_write by (cases s) (simp add: wrote_def sz_def sink_def)
      ultimately show ?thesis using sub(5) Buf_write by (simp add: emitted_def cs)
    qed (use sk in \<open>simp add: sink_def\<close>)
  next
    fix s h
    assume sk: "sink h0 (s, h)" and "Some ((), bs) = None \<or> (\<exists>u cs. Some ((), bs) = Some (u, cs) \<and> \<not> has_room (length cs) (s, h))"
    then have n: "\<not> has_room (length bs) (s, h)" by simp
    then have b: "o_callback s = Buf_write" using no_room [OF sk n] sk by (cases "o_callback s") (auto simp: sink_def)
    from submessage_fits [OF ok Some _ sk b] len Some n b show "refuses rest (s, h)"
      by (auto simp: rest_def refuses_def o_error_def sz_def [symmetric] split: if_splits)
  qed
  have "pb_encode_submessage_with E encode fs a (s, h) = bindC (pb_encode_varint E sz) (\<lambda>_. rest) (s, h)" if sk: "sink h0 (s, h)" for s h
  proof -
    have "part_of h0 h" using sk by (simp add: sink_def)
    from sizing_run [OF produces_sub [OF ok] this] Some obtain s' where
      s': "encode fs a (PB_OSTREAM_SIZING, h) = Some (Some (), (s', h))" "bytes_written s' = sz" by (auto simp: sz_def)
    then have "on_ostream PB_OSTREAM_SIZING (encode fs a) (s, h) = Some (Some (Some (), s'), (s, h))"
      by (simp add: on_ostream_def)
    note e = bindC_eval(1) [where m = "on_ostream PB_OSTREAM_SIZING (encode fs a)", OF this]
    show ?thesis unfolding pb_encode_submessage_with_def e unfolding rest_def prod.case s'(2) Let_def
      by (simp only: option.distinct if_False)
  qed
  from produces_cong [OF this produces_after_write [OF produces_varint rest]] Some sz show ?thesis by (simp add: delimited_def)
qed

section \<open>Fields\<close>

lemma produces_value:
  assumes "value_ok E sub sub_ok h0 f p"
  shows "produces h0 (PB_ENCODERS E encode (PB_LTYPE (ftype f)) f p) (written (value_bytes E sub h0 f p))"
proof -
  let ?lt = "PB_LTYPE (ftype f)"
  consider "?lt = 0" | "?lt = 1" | "?lt = 2" | "?lt = 3" | "?lt = 4" | "?lt = 5" | "?lt = 6" | "?lt = 7" | "?lt = 8" | "?lt = 0xA"
    using assms by (auto simp: value_ok_def Let_def split: if_splits)
  then show ?thesis
  proof cases
    case 1
    then have r: "readable h0 p 1" using assms by (simp add: value_ok_def)
    have "produces h0 (pb_enc_bool E f p) (Some ((), varint_bytes (if bytes_in h0 p 1 = [0] then 0 else 1)))"
      unfolding pb_enc_bool_def using produces_varint [of h0 E "if bytes_in h0 p 1 \<noteq> [0] then 1 else 0"]
      by (intro produces_after_read [OF produces_bool [OF r]]) (simp split: if_splits)
    with 1 show ?thesis by (simp add: PB_ENCODERS_def value_bytes_def)
  next
    case 2
    then have r: "readable h0 p (unat (data_size f))" using assms by (simp add: value_ok_def)
    from produces_then_varint [OF produces_integer(1) [OF r], where k = "\<lambda>v. v"] 2 show ?thesis
      by (simp add: PB_ENCODERS_def value_bytes_def pb_enc_varint_def)
  next
    case 3
    then have r: "readable h0 p (unat (data_size f))" using assms by (simp add: value_ok_def)
    from produces_then_varint [OF produces_integer(2) [OF r], where k = "\<lambda>v. v"] 3 show ?thesis
      by (simp add: PB_ENCODERS_def value_bytes_def pb_enc_uvarint_def)
  next
    case 4
    then have r: "readable h0 p (unat (data_size f))" using assms by (simp add: value_ok_def)
    from produces_then_varint [OF produces_integer(1) [OF r], where k = zigzag] 4 show ?thesis
      by (simp add: PB_ENCODERS_def value_bytes_def pb_enc_svarint_def pb_encode_svarint_eq)
  next
    case 5
    then show ?thesis using assms produces_fixed32 by (simp add: PB_ENCODERS_def value_bytes_def value_ok_def pb_enc_fixed32_def)
  next
    case 6
    then show ?thesis using assms produces_fixed64 by (simp add: PB_ENCODERS_def value_bytes_def value_ok_def pb_enc_fixed64_def)
  next
    case 7
    then show ?thesis using assms produces_enc_bytes [of p h0 f E] by (simp add: PB_ENCODERS_def value_bytes_def value_ok_def)
  next
    case 8
    then show ?thesis using assms produces_enc_string [of p h0 f E] by (simp add: PB_ENCODERS_def value_bytes_def value_ok_def)
  next
    case 9
    show ?thesis
    proof (cases "ptr f")
      case Null
      with 9 show ?thesis by (simp add: PB_ENCODERS_def value_bytes_def pb_enc_submessage_def submsg_fields_def produces_error)
    next
      case (Submsg i)
      with 9 assms have "produces h0 (pb_encode_submessage_with E encode (descs E i) p) (written (map_option delimited (sub (descs E i) p)))"
        by (intro produces_submessage) (simp_all add: value_ok_def)
      with 9 Submsg show ?thesis
        by (simp add: PB_ENCODERS_def value_bytes_def pb_enc_submessage_def submsg_fields_def liftC_def)
    next
      case (Default d)
      with 9 assms show ?thesis by (simp add: value_ok_def)
    qed
  next
    case 10
    then have r: "readable h0 p (unat (data_size f))" using assms by (simp add: value_ok_def)
    have u: "unat (ucast (data_size f) :: size_t) = unat (data_size f)" by (rule unat_ucast_up) simp
    show ?thesis using produces_string [of h0 p "ucast (data_size f)" E] r 10
      by (simp add: PB_ENCODERS_def value_bytes_def pb_enc_fixed_length_bytes_def u)
  qed
qed

end

section \<open>Arrays\<close>

lemma joined_length:
  "joined (map val qs) = Some bs \<Longrightarrow> (\<And>q cs. q \<in> set qs \<Longrightarrow> val q = Some cs \<Longrightarrow> length cs \<le> k) \<Longrightarrow> length bs \<le> k * length qs"
proof (induction qs arbitrary: bs)
  case (Cons q qs)
  from Cons.prems(1) obtain cs ds where b: "val q = Some cs" "joined (map val qs) = Some ds" "bs = cs @ ds"
    by (cases "val q") auto
  have "length cs \<le> k" using Cons.prems(2) [of q cs] b(1) by simp
  moreover have "length ds \<le> k * length qs" by (rule Cons.IH [OF b(2)]) (use Cons.prems(2) in auto)
  ultimately show ?case by (simp add: b(3))
qed simp

lemma joined_fixed:
  "(\<And>q. q \<in> set qs \<Longrightarrow> \<exists>cs. val q = Some cs \<and> length cs = k) \<Longrightarrow> \<exists>bs. joined (map val qs) = Some bs \<and> length bs = k * length qs"
proof (induction qs)
  case (Cons q qs)
  obtain cs where "val q = Some cs" "length cs = k" using Cons.prems [of q] by auto
  moreover obtain ds where "joined (map val qs) = Some ds" "length ds = k * length qs" using Cons.IH Cons.prems by auto
  ultimately show ?case by simp
qed simp

lemma length_bytes_in_le: "length (bytes_in h a n) \<le> n"
  using load_bytes_length [of h a n] by (auto simp: bytes_in_def split: option.split)

lemma packable_length:
  assumes "PB_LTYPE (ftype f) \<le> PB_LTYPE_LAST_PACKABLE" "value_bytes E sub h f q = Some cs"
  shows "length cs \<le> 10"
proof -
  have v: "length (varint_bytes (unat (w :: u64))) \<le> 10" for w by (rule length_varint_bytes_64)
  have b: "length (varint_bytes 0) \<le> 10" "length (varint_bytes (Suc 0)) \<le> 10" using v [of 0] v [of 1] by simp_all
  have l: "length (bytes_in h q 4) \<le> 10" "length (bytes_in h q 8) \<le> 10"
    using length_bytes_in_le [of h q 4] length_bytes_in_le [of h q 8] by linarith+
  have "b \<le> 5 \<Longrightarrow> b = 0 \<or> b = 1 \<or> b = 2 \<or> b = 3 \<or> b = 4 \<or> b = (5 :: byte)" for b
    by (rule all_bytes [of "\<lambda>b. b \<le> 5 \<longrightarrow> b = 0 \<or> b = 1 \<or> b = 2 \<or> b = 3 \<or> b = 4 \<or> b = 5", THEN mp]) simp_all
  then have "PB_LTYPE (ftype f) \<in> {0, 1, 2, 3, 4, 5}" using assms(1) by simp
  with assms show ?thesis using v b l by (auto simp: value_bytes_def Let_def split: if_splits)
qed

lemma produces_count:
  assumes "produces h0 m (written r)"
  shows "produces h0 (bindC (on_ostream PB_OSTREAM_SIZING m) (\<lambda>(r, sizestream). if r = None then failC else returnC (bytes_written sizestream)))
    (map_option (\<lambda>bs. (of_nat (length bs), [])) r)"
proof -
  define k :: "(unit option \<times> pb_ostream) \<Rightarrow> size_t enc"
    where "k = (\<lambda>(r, sizestream). if r = None then failC else returnC (bytes_written sizestream))"
  have run: "bindC (on_ostream PB_OSTREAM_SIZING m) k (s, h) =
      (case r of None \<Rightarrow> failC | Some bs \<Rightarrow> returnC (of_nat (length bs))) (s, h)" if sk: "sink h0 (s, h)" for s h
  proof -
    have "part_of h0 h" using sk by (simp add: sink_def)
    from sizing_run [OF assms this] show ?thesis by (cases r) (auto simp: on_ostream_def bindC_def k_def)
  qed
  have "produces h0 (case r of None \<Rightarrow> failC | Some bs \<Rightarrow> returnC (of_nat (length bs))) (map_option (\<lambda>bs. (of_nat (length bs), [])) r)"
    by (cases r) (auto intro: produces_fail)
  then have "produces h0 (bindC (on_ostream PB_OSTREAM_SIZING m) k) (map_option (\<lambda>bs. (of_nat (length bs), [])) r)"
    by (rule produces_cong [rotated]) (rule run)
  then show ?thesis by (simp add: k_def)
qed

lemma produces_packed_items:
  assumes "produces h0 m (Some ((), bs))"
  shows "produces h0 (bindC is_sizing (\<lambda>sizing. if sizing then pb_write E No_bytes (of_nat (length bs)) else m)) (Some ((), bs))"
proof -
  let ?m = "bindC is_sizing (\<lambda>sizing. if sizing then pb_write E No_bytes (of_nat (length bs)) else m)"
  have null: "?m (s, h) = Some (Some (), (wrote (length bs) s, h))" if "o_callback s = Null_write" for s h
    using that by (simp add: bindC_def is_sizing_def pb_write_def wrote_def)
  have other: "?m (s, h) = m (s, h)" if "o_callback s \<noteq> Null_write" for s h
    using that by (simp add: bindC_def is_sizing_def)
  show ?thesis
  proof (rule producesI)
    fix s h u cs
    assume a: "sink h0 (s, h)" "Some ((), bs) = Some (u, cs)" "has_room (length cs) (s, h)"
    show "\<exists>st'. ?m (s, h) = Some (Some u, st') \<and> emitted cs (s, h) st'"
    proof (cases "o_callback s = Null_write")
      case True
      with a(2) show ?thesis by (simp add: null emitted_def)
    next
      case False
      with a producesD(1) [OF assms, of s h] show ?thesis by (simp add: other)
    qed
  next
    fix s h
    assume a: "sink h0 (s, h)" "Some ((), bs) = None \<or> (\<exists>u cs. Some ((), bs) = Some (u, cs) \<and> \<not> has_room (length cs) (s, h))"
    then have n: "\<not> has_room (length bs) (s, h)" by simp
    with a(1) have "refuses m (s, h)" by (rule producesD(2) [OF assms])
    then show "refuses ?m (s, h)" using other [OF no_room(1) [OF a(1) n]] by (simp add: refuses_def)
  qed
qed

context submessage_encoder
begin

lemma produces_array:
  fixes c :: u32
  assumes lt: "PB_LTYPE (ftype f) \<le> PB_LTYPE_SUBMESSAGE \<or> PB_LTYPE (ftype f) = PB_LTYPE_FIXED_LENGTH_BYTES"
    and ok: "array_ok (value_ok E sub sub_ok h0 f) h0 f p (unat c)"
  shows "produces h0 (encode_array E f p (ucast c) (PB_ENCODERS E encode (PB_LTYPE (ftype f))))
    (written (array_bytes (value_bytes E sub h0 f) h0 f p (unat c)))"
proof -
  let ?val = "value_bytes E sub h0 f"
  let ?func = "PB_ENCODERS E encode (PB_LTYPE (ftype f)) f"
  let ?step = "ucast (data_size f) :: addr"
  have u: "unat (ucast c :: size_t) = unat c" "unat (ucast (array_size f) :: size_t) = unat (array_size f)"
    by (rule unat_ucast_up; simp)+
  have cmp: "(ucast c :: size_t) > ucast (array_size f) \<longleftrightarrow> unat c > unat (array_size f)" "(ucast c :: size_t) = 0 \<longleftrightarrow> unat c = 0"
    by (simp_all add: word_less_nat_alt u word_unat_eq_iff)
  consider (none) "unat c = 0" | (many) "unat c \<noteq> 0" "PB_ATYPE (ftype f) \<noteq> PB_ATYPE_POINTER" "unat c > unat (array_size f)"
    | (ok) "unat c \<noteq> 0" "\<not> (PB_ATYPE (ftype f) \<noteq> PB_ATYPE_POINTER \<and> unat c > unat (array_size f))" by blast
  then show ?thesis
  proof cases
    case none
    then show ?thesis by (simp add: encode_array_def cmp array_bytes_def produces_return Let_def)
  next
    case many
    then show ?thesis by (simp add: encode_array_def cmp array_bytes_def produces_error Let_def)
  next
    case here: ok
    have el: "value_ok E sub sub_ok h0 f (element_at h0 f (p + of_nat i * ?step))"
        "by_pointer f \<Longrightarrow> readable h0 (p + of_nat i * ?step) 8"
      if "i < unat c" for i
      using ok here that by (auto simp: array_ok_def elements_def list_all_iff)
    show ?thesis
    proof (cases "PB_LTYPE (ftype f) \<le> PB_LTYPE_LAST_PACKABLE")
      case True
      have same: "element_at h0 f q = q" for q using True by (auto simp: element_at_def by_pointer_def)
      define J where "J = joined (map ?val (elements f p (unat c)))"
      have items: "produces h0 (repeat_items (unat c) ?step ?func p) (written J)"
        unfolding J_def elements_def map_map o_def by (rule produces_repeat) (use produces_value [OF el(1)] same in simp)
      have size: "produces h0 (if PB_LTYPE (ftype f) = PB_LTYPE_FIXED32 then returnC (4 * ucast c)
              else if PB_LTYPE (ftype f) = PB_LTYPE_FIXED64 then returnC (8 * ucast c)
              else bindC (on_ostream PB_OSTREAM_SIZING (repeat_items (unat c) ?step ?func p))
                (\<lambda>(r, sizestream). if r = None then failC else returnC (bytes_written sizestream)))
          (map_option (\<lambda>bs. (of_nat (length bs), [])) J)"
      proof -
        have fixed: "\<exists>bs. J = Some bs \<and> length bs = k * unat c"
          if "\<And>q. readable h0 q k \<Longrightarrow> ?val q = Some (bytes_in h0 q k)" "\<And>q. value_ok E sub sub_ok h0 f q \<Longrightarrow> readable h0 q k" for k
        proof -
          have "\<exists>cs. ?val q = Some cs \<and> length cs = k" if "q \<in> set (elements f p (unat c))" for q
            using that el(1) same \<open>\<And>q. readable h0 q k \<Longrightarrow> ?val q = _\<close> \<open>\<And>q. value_ok E sub sub_ok h0 f q \<Longrightarrow> _\<close>
            by (auto simp: elements_def)
          from joined_fixed [of "elements f p (unat c)" ?val, OF this] show ?thesis by (simp add: J_def elements_def)
        qed
        have n: "of_nat (k * unat c) = of_nat k * (ucast c :: size_t)" for k by simp
        consider "PB_LTYPE (ftype f) = PB_LTYPE_FIXED32" | "PB_LTYPE (ftype f) = PB_LTYPE_FIXED64"
          | "PB_LTYPE (ftype f) \<noteq> PB_LTYPE_FIXED32" "PB_LTYPE (ftype f) \<noteq> PB_LTYPE_FIXED64" by blast
        then show ?thesis
        proof cases
          case 1
          then obtain bs where "J = Some bs" "length bs = 4 * unat c" using fixed [of 4] by (auto simp: value_bytes_def value_ok_def)
          with 1 n [of 4] show ?thesis using produces_return [of h0 "4 * ucast c :: size_t"] by simp
        next
          case 2
          then obtain bs where "J = Some bs" "length bs = 8 * unat c" using fixed [of 8] by (auto simp: value_bytes_def value_ok_def)
          with 2 n [of 8] show ?thesis using produces_return [of h0 "8 * ucast c :: size_t"] by simp
        next
          case 3
          then show ?thesis using produces_count [OF items] by (simp only: if_False)
        qed
      qed
      define body where "body = bindC (if PB_LTYPE (ftype f) = PB_LTYPE_FIXED32 then returnC (4 * ucast c)
              else if PB_LTYPE (ftype f) = PB_LTYPE_FIXED64 then returnC (8 * ucast c)
              else bindC (on_ostream PB_OSTREAM_SIZING (repeat_items (unat c) ?step ?func p))
                (\<lambda>(r, sizestream). if r = None then failC else returnC (bytes_written sizestream)))
          (\<lambda>sz. bindC (pb_encode_varint E sz) (\<lambda>_. bindC is_sizing (\<lambda>sizing.
             if sizing then pb_write E No_bytes sz else repeat_items (unat c) ?step ?func p)))"
      have "produces h0 body (written (map_option delimited J))"
      proof (cases J)
        case None
        show ?thesis unfolding None option.map body_def by (rule produces_after_failure [OF size [unfolded None option.map]])
      next
        case (Some bs)
        have "length bs \<le> 10 * length (elements f p (unat c))"
          by (rule joined_length [OF Some [unfolded J_def]]) (rule packable_length [OF True])
        also have "\<dots> < 2 ^ 64" using unsigned_less [of c, where 'a = nat] by (simp add: elements_def)
        finally have l: "unat (of_nat (length bs) :: size_t) = length bs" by (intro unat_of_nat_64) simp
        have "produces h0 (bindC (pb_encode_varint E (of_nat (length bs))) (\<lambda>_. bindC is_sizing (\<lambda>sizing.
             if sizing then pb_write E No_bytes (of_nat (length bs)) else repeat_items (unat c) ?step ?func p)))
            (after (varint_bytes (unat (of_nat (length bs) :: size_t))) (Some ((), bs)))"
          by (rule produces_after_write [OF produces_varint produces_packed_items]) (use items Some in simp)
        then show ?thesis using size Some unfolding body_def
          by (intro produces_after_read [where a = "of_nat (length bs)"]) (simp_all add: delimited_def l)
      qed
      from produces_after_write [OF produces_tag, where f = "\<lambda>_. body", OF this]
      have "produces h0 (bindC (pb_encode_tag E PB_WT_STRING (tag f)) (\<lambda>_. body))
          (after (key_bytes PB_WT_STRING (tag f)) (written (map_option delimited J)))" .
      moreover have "encode_array E f p (ucast c) (PB_ENCODERS E encode (PB_LTYPE (ftype f))) = bindC (pb_encode_tag E PB_WT_STRING (tag f)) (\<lambda>_. body)"
        unfolding encode_array_def Let_def u body_def using here True by (simp only: cmp if_False if_True simp_thms)
      ultimately show ?thesis using here True
        by (auto simp: array_bytes_def J_def [symmetric] after_def option.map_comp o_def)
    next
      case False
      have "produces h0 (repeat_items (unat c) ?step (\<lambda>q. bindC (pb_encode_tag_for_field E f) (\<lambda>_.
            if PB_ATYPE (ftype f) = PB_ATYPE_POINTER \<and> (PB_LTYPE (ftype f) = PB_LTYPE_STRING \<or> PB_LTYPE (ftype f) = PB_LTYPE_BYTES)
            then bindC (load_ptr q) (\<lambda>r. ?func r) else ?func q)) p)
          (written (joined (map (\<lambda>i. keyed f (?val (element_at h0 f (p + of_nat i * ?step)))) [0..<unat c])))"
      proof (rule produces_repeat, rule produces_keyed [OF lt])
        fix i assume i: "i < unat c"
        let ?q = "p + of_nat i * ?step"
        show "produces h0 (if PB_ATYPE (ftype f) = PB_ATYPE_POINTER \<and> (PB_LTYPE (ftype f) = PB_LTYPE_STRING \<or> PB_LTYPE (ftype f) = PB_LTYPE_BYTES)
            then bindC (load_ptr ?q) (\<lambda>r. ?func r) else ?func ?q) (written (?val (element_at h0 f ?q)))"
          using produces_value [OF el(1) [OF i]] el(2) [OF i] produces_after_read [OF produces_ptr, of h0 ?q ?func]
          by (auto simp: element_at_def by_pointer_def)
      qed
      with here False show ?thesis by (auto simp: encode_array_def Let_def cmp u array_bytes_def elements_def map_map o_def)
    qed
  qed
qed

lemma produces_field:
  assumes ok: "field_ok E n sub sub_ok h0 f d"
  shows "produces h0 (encode_field E n encode f d) (written (field_bytes E n sub h0 f d))"
proof -
  let ?t = "ftype f" and ?p = "pointed h0 f d" and ?val = "value_bytes E sub h0 f"
  let ?func = "PB_ENCODERS E encode (PB_LTYPE (ftype f))"
  have at: "PB_ATYPE ?t = PB_ATYPE_STATIC \<or> PB_ATYPE ?t = PB_ATYPE_POINTER \<and> readable h0 d 8"
    and lt: "PB_LTYPE ?t \<le> PB_LTYPE_SUBMESSAGE \<or> PB_LTYPE ?t = PB_LTYPE_FIXED_LENGTH_BYTES"
    using ok by (auto simp: field_ok_def Let_def)
  define ih where "ih = (if size_offset f = 0 \<and> PB_HTYPE ?t = PB_HTYPE_OPTIONAL then \<not> is_default E n h0 f d else True)"
  have X: "produces h0 (if size_offset f = 0 \<and> PB_HTYPE ?t = PB_HTYPE_OPTIONAL
        then bindC (pb_check_proto3_default_value E n f d) (\<lambda>z. returnC (\<not> z)) else returnC True) (Some (ih, []))"
    unfolding ih_def by (rule produces_if) (use ok in \<open>auto simp: field_ok_def Let_def intro!: produces_map produces_default produces_return\<close>)
  have Y: "produces h0 (if PB_ATYPE ?t = PB_ATYPE_POINTER then load_ptr d else returnC d) (Some (?p, []))"
    using at by (auto simp: pointed_def intro: produces_ptr produces_return)
  define emit where "emit = bindC (pb_encode_tag_for_field E f) (\<lambda>_. ?func f ?p)"
  have emit: "value_ok E sub sub_ok h0 f ?p \<Longrightarrow> produces h0 emit (written (keyed f (?val ?p)))"
    unfolding emit_def by (rule produces_keyed [OF lt produces_value])
  define ih' where "ih' = (if PB_ATYPE ?t = PB_ATYPE_POINTER then ?p \<noteq> 0 else ih)"
  define body where "body = (if PB_HTYPE ?t = PB_HTYPE_REQUIRED then
       (if ?p = 0 then o_error ''missing required field'' else emit)
     else if PB_HTYPE ?t = PB_HTYPE_OPTIONAL then
       bindC (has_flag f d ih') (\<lambda>has. if has then emit else returnC ())
     else if PB_HTYPE ?t = PB_HTYPE_REPEATED then
       bindC (if size_offset f \<noteq> 0 then count_at f d else returnC (array_size f)) (\<lambda>count.
         encode_array E f ?p (ucast count) ?func)
     else
       bindC (count_at f d) (\<lambda>which. if which = tag f then emit else returnC ()))"
  have count: "size_offset f \<noteq> 0 \<Longrightarrow> readable h0 (d + scast (size_offset f)) 4 \<Longrightarrow> produces h0 (count_at f d) (Some (count_in h0 f d, []))"
    using produces_u32 by (simp add: count_at_def count_in_def)
  have body: "produces h0 body (written (field_bytes E n sub h0 f d))"
  proof -
    consider "PB_HTYPE ?t = PB_HTYPE_REQUIRED" | "PB_HTYPE ?t = PB_HTYPE_OPTIONAL" | "PB_HTYPE ?t = PB_HTYPE_REPEATED"
      | "PB_HTYPE ?t \<noteq> PB_HTYPE_REQUIRED" "PB_HTYPE ?t \<noteq> PB_HTYPE_OPTIONAL" "PB_HTYPE ?t \<noteq> PB_HTYPE_REPEATED" by blast
    then show ?thesis
    proof cases
      case 1
      then show ?thesis using ok emit by (auto simp: body_def field_bytes_def field_ok_def Let_def intro: produces_error)
    next
      case 2
      have "produces h0 (has_flag f d ih') (Some (present E n h0 f d, []))"
        using 2 ok produces_bool [of h0 "d + scast (size_offset f)"]
        by (auto simp: has_flag_def present_def ih'_def ih_def field_ok_def Let_def intro: produces_return)
      then have "produces h0 (bindC (has_flag f d ih') (\<lambda>has. if has then emit else returnC ()))
          (written (if present E n h0 f d then keyed f (?val ?p) else Some []))"
        by (rule produces_after_read) (use 2 ok emit in \<open>auto simp: field_ok_def Let_def intro: produces_return\<close>)
      with 2 show ?thesis by (simp add: body_def field_bytes_def)
    next
      case 3
      have "produces h0 (if size_offset f \<noteq> 0 then count_at f d else returnC (array_size f)) (Some (count_in h0 f d, []))"
        using 3 ok count by (auto simp: count_in_def field_ok_def Let_def intro: produces_return)
      then have "produces h0 (bindC (if size_offset f \<noteq> 0 then count_at f d else returnC (array_size f)) (\<lambda>count.
         encode_array E f ?p (ucast count) ?func)) (written (array_bytes ?val h0 f ?p (unat (count_in h0 f d))))"
        by (rule produces_after_read) (rule produces_array [OF lt], use 3 ok in \<open>simp add: field_ok_def Let_def\<close>)
      with 3 show ?thesis by (simp add: body_def field_bytes_def)
    next
      case 4
      then have "produces h0 (count_at f d) (Some (count_in h0 f d, []))" using ok count by (auto simp: field_ok_def Let_def)
      then have "produces h0 (bindC (count_at f d) (\<lambda>which. if which = tag f then emit else returnC ()))
          (written (if count_in h0 f d = tag f then keyed f (?val ?p) else Some []))"
        by (rule produces_after_read) (use 4 ok emit in \<open>auto simp: field_ok_def Let_def intro: produces_return\<close>)
      with 4 show ?thesis by (simp add: body_def field_bytes_def)
    qed
  qed
  have "produces h0 (encode_basic_field E n encode f d) (written (field_bytes E n sub h0 f d))"
    unfolding encode_basic_field_def Let_def
    by (rule produces_after_read [OF X], rule produces_after_read [OF Y])
      (use body in \<open>simp only: body_def emit_def ih'_def\<close>)
  with at show ?thesis by (auto simp: encode_field_def Let_def)
qed

end

section \<open>Messages\<close>

lemma produces_each_field:
  assumes "\<And>it. at_field fs a it \<Longrightarrow> produces h0 (body it) (written (bytes (pos it)))"
    and "at_field fs a it" "length fs - pos it < k"
  shows "produces h0 (each_field k body it) (written (joined (map bytes [pos it..<length fs])))"
  using assms(2, 3)
proof (induction k arbitrary: it)
  case (Suc k)
  note f = at_field [OF Suc.prems(1)]
  obtain it' where n: "pb_field_iter_next it = (Suc (pos it) < length fs, it')"
    "Suc (pos it) < length fs \<Longrightarrow> at_field fs a it' \<and> pos it' = Suc (pos it)" using at_field_next [OF Suc.prems(1)] by blast
  have u: "[pos it..<length fs] = pos it # [Suc (pos it)..<length fs]" using f(1) by (simp add: upt_conv_Cons)
  have rest: "produces h0 (if Suc (pos it) < length fs then each_field k body it' else returnC ())
      (written (joined (map bytes [Suc (pos it)..<length fs])))"
  proof (cases "Suc (pos it) < length fs")
    case True
    then have "produces h0 (each_field k body it') (written (joined (map bytes [pos it'..<length fs])))"
      using Suc.IH [of it'] n(2) Suc.prems(2) by fastforce
    with True n(2) show ?thesis by simp
  qed (simp add: produces_return)
  note one = assms(1) [OF Suc.prems(1)]
  show ?case
  proof (cases "bytes (pos it)")
    case None
    with one show ?thesis unfolding each_field.simps thenC_def by (simp add: u produces_after_failure)
  next
    case (Some bs)
    with one have "produces h0 (body it) (Some ((), bs))" by simp
    from produces_after_write [OF this, where f = "\<lambda>_. if Suc (pos it) < length fs then each_field k body it' else returnC ()", OF rest]
    show ?thesis unfolding each_field.simps thenC_def n(1) prod.case
      by (simp add: u Some after_def option.map_comp o_def)
  qed
qed simp

lemma produces_message: "message_ok E n h0 fs a \<Longrightarrow> produces h0 (pb_encode E n fs a) (written (message_bytes E n h0 fs a))"
proof (induction n arbitrary: fs a)
  case (Suc n)
  have loc: "submessage_encoder h0 (pb_encode E n) (message_bytes E n h0) (message_ok E n h0)"
    by (rule submessage_encoder.intro) (rule Suc.IH)
  show ?case
  proof (cases "fs = []")
    case True
    then show ?thesis by (simp add: pb_field_iter_begin_def Let_def field_at_def produces_return)
  next
    case False
    with Suc.prems have ok: "tags_ok fs" "a \<noteq> 0"
      "\<And>i. i < length fs \<Longrightarrow> field_ok E n (message_bytes E n h0) (message_ok E n h0) h0 (fs ! i) (a + field_off fs i)"
      by (auto simp: list_all_iff)
    obtain it where it: "pb_field_iter_begin iter0 fs a = (True, it)" "at_field fs a it" "pos it = 0"
      using at_field_begin [OF ok(1, 2)] by blast
    have "produces h0 (each_field (Suc (length fs)) (\<lambda>it. if PB_LTYPE (ftype (cur it)) = PB_LTYPE_EXTENSION
          then encode_extension_field E n (pb_encode E n) (pData it) else encode_field E n (pb_encode E n) (cur it) (pData it)) it)
        (written (joined (map (\<lambda>i. field_bytes E n (message_bytes E n h0) h0 (fs ! i) (a + field_off fs i)) [pos it..<length fs])))"
    proof (rule produces_each_field [OF _ it(2)])
      fix it assume "at_field fs a it"
      note f = at_field [OF this]
      have "PB_LTYPE (ftype (fs ! pos it)) \<noteq> PB_LTYPE_EXTENSION" using ok(3) [OF f(1)] by (auto simp: field_ok_def Let_def)
      then show "produces h0 (if PB_LTYPE (ftype (cur it)) = PB_LTYPE_EXTENSION
          then encode_extension_field E n (pb_encode E n) (pData it) else encode_field E n (pb_encode E n) (cur it) (pData it))
          (written (field_bytes E n (message_bytes E n h0) h0 (fs ! pos it) (a + field_off fs (pos it))))"
        using submessage_encoder.produces_field [OF loc ok(3) [OF f(1)]] by (simp add: f)
    qed simp
    with it show ?thesis by simp
  qed
qed simp

interpretation message_encoder: submessage_encoder E h0 "pb_encode E n" "message_bytes E n h0" "message_ok E n h0"
  by (rule submessage_encoder.intro) (rule produces_message)

lemma readable_code [code]: "readable h a n \<longleftrightarrow> load_bytes h a n \<noteq> None"
  by (auto simp: load_bytes_readable)

section \<open>Encoding into a buffer\<close>

lemma buffer_sink:
  assumes "part_of h0 h" "readable h b (unat room)" "region b (unat room) \<inter> dom (mem h0) = {}" "unat room < 2 ^ 63"
  shows "sink h0 (pb_ostream_from_buffer b room, h)" "has_room n (pb_ostream_from_buffer b room, h) \<longleftrightarrow> n \<le> unat room"
    "area (pb_ostream_from_buffer b room) = region b (unat room)"
  using assms readable_mono [OF assms(2)] by (auto simp: sink_def has_room_def area_def pb_ostream_from_buffer_def)

text \<open>C5: pb_get_encoded_size returns the length of the message's encoding, and false exactly when the message has none.\<close>

theorem encoded_size_exact:
  assumes "message_ok E n h fs a"
  shows "pb_get_encoded_size E n fs a (s, h) = Some (map_option (\<lambda>bs. of_nat (length bs)) (message_bytes E n h fs a), (s, h))"
proof -
  from sizing_run [OF produces_message [OF assms] part_of_refl] show ?thesis
    by (cases "message_bytes E n h fs a") (auto simp: pb_get_encoded_size_def on_ostream_def bindC_def returnC_def failC_def)
qed

text \<open>C2: pb_encode into a buffer that is large enough writes exactly the message's encoding, counts it, and touches no other byte.\<close>

theorem encode_writes_message:
  assumes "message_ok E n h0 fs a" "message_bytes E n h0 fs a = Some bs" "length bs \<le> unat room"
    and "part_of h0 h" "readable h b (unat room)" "region b (unat room) \<inter> dom (mem h0) = {}" "unat room < 2 ^ 63"
  shows "\<exists>s' h'. pb_encode E n fs a (pb_ostream_from_buffer b room, h) = Some (Some (), (s', h'))
    \<and> bytes_written s' = of_nat (length bs) \<and> load_bytes h' b (length bs) = Some bs \<and> frame (region b (length bs)) h h'"
proof -
  have "produces h0 (pb_encode E n fs a) (Some ((), bs))" using produces_message [OF assms(1)] assms(2) by simp
  from producesD(1) [OF this buffer_sink(1) [OF assms(4-7)]] buffer_sink(2) [OF assms(4-7)] assms(3) obtain s' h' where
    e: "pb_encode E n fs a (pb_ostream_from_buffer b room, h) = Some (Some (), (s', h'))"
      "emitted bs (pb_ostream_from_buffer b room, h) (s', h')" by auto
  then have "store_bytes h b bs = Some h'" "bytes_written s' = of_nat (length bs)" by (auto simp: emitted_def pb_ostream_from_buffer_def)
  moreover have "length bs \<le> 2 ^ 64" using assms(3, 7) by simp
  ultimately show ?thesis using e(1) load_store_same [of h b bs h'] store_bytes_frame [of h b bs h'] by auto
qed

text \<open>C4: pb_encode of a well-formed message into any buffer is defined and returns; it returns true exactly when the encoding exists and fits, and in every case writes to the buffer only.\<close>

theorem encode_safe:
  assumes "message_ok E n h0 fs a" "part_of h0 h" "readable h b (unat room)" "region b (unat room) \<inter> dom (mem h0) = {}" "unat room < 2 ^ 63"
  shows "\<exists>r s' h'. pb_encode E n fs a (pb_ostream_from_buffer b room, h) = Some (r, (s', h')) \<and> frame (region b (unat room)) h h'
    \<and> (r = Some () \<longleftrightarrow> (\<exists>bs. message_bytes E n h0 fs a = Some bs \<and> length bs \<le> unat room))"
proof (cases "\<exists>bs. message_bytes E n h0 fs a = Some bs \<and> length bs \<le> unat room")
  case True
  then obtain bs where bs: "message_bytes E n h0 fs a = Some bs" "length bs \<le> unat room" by blast
  have "produces h0 (pb_encode E n fs a) (Some ((), bs))" using produces_message [OF assms(1)] bs(1) by simp
  note p = producesD(1) [OF this buffer_sink(1) [OF assms(2-5)]]
  have fits: "has_room (length bs) (pb_ostream_from_buffer b room, h)" using buffer_sink(2) [OF assms(2-5)] bs(2) by simp
  with p obtain s' h' where e: "pb_encode E n fs a (pb_ostream_from_buffer b room, h) = Some (Some (), (s', h'))"
      "emitted bs (pb_ostream_from_buffer b room, h) (s', h')" by auto
  from sink_emitted(3) [OF buffer_sink(1) [OF assms(2-5)] e(2) fits] e(1) True show ?thesis
    by (simp add: buffer_sink(3) [OF assms(2-5)])
next
  case False
  have "refuses (pb_encode E n fs a) (pb_ostream_from_buffer b room, h)"
  proof (cases "message_bytes E n h0 fs a")
    case None
    then show ?thesis using producesD(3) [of h0 "pb_encode E n fs a"] produces_message [OF assms(1)] buffer_sink(1) [OF assms(2-5)] by simp
  next
    case (Some bs)
    then have "\<not> has_room (length bs) (pb_ostream_from_buffer b room, h)" using False buffer_sink(2) [OF assms(2-5)] by simp
    moreover have p: "produces h0 (pb_encode E n fs a) (Some ((), bs))" using produces_message [OF assms(1)] Some by simp
    ultimately show ?thesis by (intro producesD(2) [OF p buffer_sink(1) [OF assms(2-5)]])
  qed
  with False show ?thesis by (auto simp: refuses_def buffer_sink(3) [OF assms(2-5)])
qed

text \<open>
  A message of an integer and bytes behind a pointer at \<open>0x1000\<close>, with and without a buffer of eight
  bytes at \<open>0x2000\<close>.
\<close>

definition note_fields :: "pb_field list" where
  "note_fields = [\<lparr>tag = 1, ftype = 0x02, data_offset = 0, size_offset = 0, data_size = 4, array_size = 0, ptr = Null\<rparr>,
     \<lparr>tag = 2, ftype = 0x96, data_offset = 4, size_offset = 0, data_size = 0, array_size = 0, ptr = Null\<rparr>]"

definition note_memory :: heap where
  "note_memory = \<lparr>mem = (\<lambda>a. let i = unat (a - 0x1000) in if i < 22 then
       Some ([0x2C, 0x01, 0, 0, 0, 0, 0, 0, 0x10, 0x10, 0, 0, 0, 0, 0, 0, 2, 0, 0, 0, 0x68, 0x69] ! i) else None), blocks = (\<lambda>_. None)\<rparr>"

definition note_and_buffer :: heap where
  "note_and_buffer = note_memory\<lparr>mem := (\<lambda>a. if unat (a - 0x2000) < 8 then Some 0 else mem note_memory a)\<rparr>"

lemma note_reads:
  "readable note_memory 0x1000 4" "readable note_memory 0x1008 8" "readable note_memory 0x1010 4" "readable note_memory 0x1014 2"
  "bytes_in note_memory 0x1000 4 = [0x2C, 0x01, 0, 0]" "bytes_in note_memory 0x1008 8 = [0x10, 0x10, 0, 0, 0, 0, 0, 0]"
  "bytes_in note_memory 0x1010 4 = [2, 0, 0, 0]" "bytes_in note_memory 0x1014 2 = [0x68, 0x69]"
  by code_simp+

lemma note_ok: "message_ok (plain_env (\<lambda>_. [])) 2 note_memory note_fields 0x1000"
  "message_bytes (plain_env (\<lambda>_. [])) 2 note_memory note_fields 0x1000 = Some [0x08, 0xAC, 0x02, 0x12, 0x02, 0x68, 0x69]"
  by code_simp+

lemma note_buffer:
  "part_of note_memory note_and_buffer" "readable note_and_buffer 0x2000 8" "region 0x2000 8 \<inter> dom (mem note_memory) = {}"
proof -
  have b: "mem note_memory a = None" if a: "a \<in> region 0x2000 8" for a
  proof -
    from in_region_dest [OF a] obtain i where i: "i < 8" "a = 0x2000 + of_nat i" by blast
    then have "i = 0 \<or> i = 1 \<or> i = 2 \<or> i = 3 \<or> i = 4 \<or> i = 5 \<or> i = 6 \<or> i = 7" by linarith
    then show ?thesis by (auto simp: i(2) note_memory_def)
  qed
  then show "region 0x2000 8 \<inter> dom (mem note_memory) = {}" by auto
  show "part_of note_memory note_and_buffer"
    using b by (force simp: part_of_def map_le_def note_and_buffer_def region_def)
  show "readable note_and_buffer 0x2000 8" by code_simp
qed

theorem encoded_size_exact_witness:
  "pb_get_encoded_size (plain_env (\<lambda>_. [])) 2 note_fields 0x1000 (PB_OSTREAM_SIZING, note_memory)
    = Some (Some 7, (PB_OSTREAM_SIZING, note_memory))"
  using encoded_size_exact [OF note_ok(1), of PB_OSTREAM_SIZING] by (simp add: note_ok(2))

theorem encode_writes_message_witness:
  "\<exists>s' h'. pb_encode (plain_env (\<lambda>_. [])) 2 note_fields 0x1000 (pb_ostream_from_buffer 0x2000 8, note_and_buffer) = Some (Some (), (s', h'))
    \<and> bytes_written s' = of_nat (length [0x08, 0xAC, 0x02, 0x12, 0x02, 0x68, 0x69 :: byte])
    \<and> load_bytes h' 0x2000 (length [0x08, 0xAC, 0x02, 0x12, 0x02, 0x68, 0x69 :: byte]) = Some [0x08, 0xAC, 0x02, 0x12, 0x02, 0x68, 0x69]
    \<and> frame (region 0x2000 (length [0x08, 0xAC, 0x02, 0x12, 0x02, 0x68, 0x69 :: byte])) note_and_buffer h'"
  by (rule encode_writes_message [OF note_ok]) (use note_buffer in simp_all)

theorem encode_safe_witness:
  "\<exists>r s' h'. pb_encode (plain_env (\<lambda>_. [])) 2 note_fields 0x1000 (pb_ostream_from_buffer 0x2000 8, note_and_buffer) = Some (r, (s', h'))
    \<and> frame (region 0x2000 (unat (8 :: size_t))) note_and_buffer h'
    \<and> (r = Some () \<longleftrightarrow> (\<exists>bs. message_bytes (plain_env (\<lambda>_. [])) 2 note_memory note_fields 0x1000 = Some bs \<and> length bs \<le> unat (8 :: size_t)))"
  by (rule encode_safe [OF note_ok(1)]) (use note_buffer in simp_all)

end
