(* ===== verification/ConstTime.thy ===== *)
theory ConstTime
  imports Prelude
begin

text \<open>
  The constant-time primitives of BoringSSL (\<open>crypto/internal.h\<close>): comparisons that answer with a
  mask of all ones or all zeros, and selections by such a mask, without branching. \<open>crypto_word_t\<close> is
  64 bits wide; the value barriers do not change a value. The lemmas prove for all operands what the
  comments of the header state (and check with an SMT solver at 32 bits).
\<close>

type_synonym crypto_word = "64 word"

section \<open>Masks\<close>

definition value_barrier_w :: "crypto_word \<Rightarrow> crypto_word" where
  "value_barrier_w a = a"

definition constant_time_msb_w :: "crypto_word \<Rightarrow> crypto_word" where
  "constant_time_msb_w a = 0 - drop_bit 63 a"

definition constant_time_lt_w :: "crypto_word \<Rightarrow> crypto_word \<Rightarrow> crypto_word" where
  "constant_time_lt_w a b = constant_time_msb_w (a XOR ((a XOR b) OR ((a - b) XOR a)))"

definition constant_time_lt_8 :: "crypto_word \<Rightarrow> crypto_word \<Rightarrow> byte" where
  "constant_time_lt_8 a b = ucast (constant_time_lt_w a b)"

definition constant_time_ge_w :: "crypto_word \<Rightarrow> crypto_word \<Rightarrow> crypto_word" where
  "constant_time_ge_w a b = NOT (constant_time_lt_w a b)"

definition constant_time_ge_8 :: "crypto_word \<Rightarrow> crypto_word \<Rightarrow> byte" where
  "constant_time_ge_8 a b = ucast (constant_time_ge_w a b)"

definition constant_time_is_zero_w :: "crypto_word \<Rightarrow> crypto_word" where
  "constant_time_is_zero_w a = constant_time_msb_w (NOT a AND (a - 1))"

definition constant_time_is_zero_8 :: "crypto_word \<Rightarrow> byte" where
  "constant_time_is_zero_8 a = ucast (constant_time_is_zero_w a)"

definition constant_time_eq_w :: "crypto_word \<Rightarrow> crypto_word \<Rightarrow> crypto_word" where
  "constant_time_eq_w a b = constant_time_is_zero_w (a XOR b)"

definition constant_time_eq_8 :: "crypto_word \<Rightarrow> crypto_word \<Rightarrow> byte" where
  "constant_time_eq_8 a b = ucast (constant_time_eq_w a b)"

text \<open>An \<open>int\<close> is sign-extended when it is cast to \<open>crypto_word_t\<close>.\<close>

definition constant_time_eq_int :: "u32 \<Rightarrow> u32 \<Rightarrow> crypto_word" where
  "constant_time_eq_int a b = constant_time_eq_w (scast a) (scast b)"

definition constant_time_eq_int_8 :: "u32 \<Rightarrow> u32 \<Rightarrow> byte" where
  "constant_time_eq_int_8 a b = constant_time_eq_8 (scast a) (scast b)"

section \<open>Selection\<close>

definition constant_time_select_w :: "crypto_word \<Rightarrow> crypto_word \<Rightarrow> crypto_word \<Rightarrow> crypto_word" where
  "constant_time_select_w msk a b = (let msk = value_barrier_w msk in (msk AND a) OR (NOT msk AND b))"

definition constant_time_select_8 :: "crypto_word \<Rightarrow> byte \<Rightarrow> byte \<Rightarrow> byte" where
  "constant_time_select_8 msk a b = (let m = ucast (value_barrier_w msk) in (m AND a) OR (NOT m AND b))"

definition constant_time_select_int :: "crypto_word \<Rightarrow> u32 \<Rightarrow> u32 \<Rightarrow> u32" where
  "constant_time_select_int msk a b = ucast (constant_time_select_w msk (scast a) (scast b))"

text \<open>The two memory operations, on the bytes of the destination and of a source of the same length.\<close>

definition constant_time_conditional_memcpy :: "byte list \<Rightarrow> byte list \<Rightarrow> crypto_word \<Rightarrow> byte list" where
  "constant_time_conditional_memcpy dst src msk = map2 (\<lambda>d i. constant_time_select_8 msk i d) dst src"

definition constant_time_conditional_memxor :: "byte list \<Rightarrow> byte list \<Rightarrow> crypto_word \<Rightarrow> byte list" where
  "constant_time_conditional_memxor dst src msk = map2 (\<lambda>d i. d XOR (ucast (value_barrier_w msk) AND i)) dst src"

section \<open>What they compute\<close>

lemma bit_63_iff: "bit (a :: 64 word) 63 \<longleftrightarrow> 2 ^ 63 \<le> unat a"
proof -
  have "bit a 63 \<longleftrightarrow> bit (unat a) 63" by (simp add: bit_unsigned_iff)
  also have "\<dots> \<longleftrightarrow> odd (unat a div 2 ^ 63)" by (simp only: bit_iff_odd)
  also have "\<dots> \<longleftrightarrow> 2 ^ 63 \<le> unat a"
  proof (cases "2 ^ 63 \<le> unat a")
    case True
    with unat_less_64 [of a] have "unat a div 2 ^ 63 = 1" by (intro div_nat_eqI) simp_all
    with True show ?thesis by simp
  qed simp
  finally show ?thesis .
qed

lemma msb_mask: "constant_time_msb_w a = (if bit a 63 then - 1 else 0)"
proof -
  have "unat (drop_bit 63 a) = (if bit a 63 then 1 else 0)"
  proof (cases "bit a 63")
    case True
    with unat_less_64 [of a] have "unat a div 2 ^ 63 = 1" by (intro div_nat_eqI) (simp_all add: bit_63_iff)
    with True show ?thesis by (simp add: drop_bit_eq_div unat_div)
  next
    case False
    then show ?thesis by (simp add: bit_63_iff drop_bit_eq_div unat_div)
  qed
  then have "drop_bit 63 a = (if bit a 63 then 1 else 0)" by (cases "bit a 63") (simp_all add: word_unat_eq_iff)
  then show ?thesis by (simp add: constant_time_msb_w_def)
qed

lemma unat_diff_64: "unat (a - b :: 64 word) = (if unat b \<le> unat a then unat a - unat b else 2 ^ 64 + unat a - unat b)"
  using unat_less_64 [of b] by (auto simp: unat_sub_if')

lemma bit_63_diff: "bit a 63 = bit b 63 \<Longrightarrow> bit (a - b :: 64 word) 63 \<longleftrightarrow> a < b"
  using unat_less_64 [of a] unat_less_64 [of b]
  by (simp add: bit_63_iff unat_diff_64 word_less_nat_alt split del: if_split) (auto split: if_split)

lemma bit_63_less: "bit a 63 \<noteq> bit b 63 \<Longrightarrow> (a :: 64 word) < b \<longleftrightarrow> bit b 63"
  by (auto simp: bit_63_iff word_less_nat_alt)

lemma lt_mask: "constant_time_lt_w a b = (if a < b then - 1 else 0)"
  unfolding constant_time_lt_w_def msb_mask
  using bit_63_diff [of a b] bit_63_less [of a b] by (auto simp: bit_simps)

lemma ge_mask: "constant_time_ge_w a b = (if b \<le> a then - 1 else 0)"
  by (auto simp: constant_time_ge_w_def lt_mask)

lemma is_zero_mask: "constant_time_is_zero_w a = (if a = 0 then - 1 else 0)"
proof -
  have "bit (NOT a AND (a - 1)) 63 \<longleftrightarrow> a = 0"
  proof (cases "a = 0")
    case False
    then have "unat (a - 1) = unat a - 1" by (rule unat_minus_one)
    then have "bit (a - 1) 63 \<Longrightarrow> bit a 63" by (simp add: bit_63_iff)
    with False show ?thesis by (auto simp: bit_simps)
  qed (simp add: bit_simps)
  then show ?thesis by (simp add: constant_time_is_zero_w_def msb_mask)
qed

lemma eq_mask: "constant_time_eq_w a b = (if a = b then - 1 else 0)"
proof -
  have "a XOR b = 0 \<longleftrightarrow> a = b" by (auto simp: bit_eq_iff bit_simps)
  then show ?thesis by (simp add: constant_time_eq_w_def is_zero_mask)
qed

lemma select_w_mask: "constant_time_select_w (if c then - 1 else 0) a b = (if c then a else b)"
  by (simp add: constant_time_select_w_def value_barrier_w_def Let_def)

text \<open>The 8-bit forms use the low byte of a mask that may itself have come from a byte.\<close>

lemma select_8_mask:
  "constant_time_select_8 (if c then - 1 else 0) x y = (if c then x else y)"
  "constant_time_select_8 (ucast (if c then - 1 else 0 :: byte)) x y = (if c then x else y)"
proof -
  have "ucast (- 1 :: 64 word) = (- 1 :: byte)" "ucast (ucast (- 1 :: byte) :: 64 word) = (- 1 :: byte)"
    by (code_simp, code_simp)
  then show "constant_time_select_8 (if c then - 1 else 0) x y = (if c then x else y)"
    "constant_time_select_8 (ucast (if c then - 1 else 0 :: byte)) x y = (if c then x else y)"
    by (simp_all add: constant_time_select_8_def value_barrier_w_def Let_def)
qed

lemma mask_8:
  "constant_time_lt_8 a b = (if a < b then - 1 else 0)" "constant_time_ge_8 a b = (if b \<le> a then - 1 else 0)"
  "constant_time_is_zero_8 a = (if a = 0 then - 1 else 0)" "constant_time_eq_8 a b = (if a = b then - 1 else 0)"
proof -
  have m: "ucast (- 1 :: 64 word) = (- 1 :: byte)" by code_simp
  show "constant_time_lt_8 a b = (if a < b then - 1 else 0)" "constant_time_ge_8 a b = (if b \<le> a then - 1 else 0)"
    "constant_time_is_zero_8 a = (if a = 0 then - 1 else 0)" "constant_time_eq_8 a b = (if a = b then - 1 else 0)"
    by (simp_all add: constant_time_lt_8_def constant_time_ge_8_def constant_time_is_zero_8_def
        constant_time_eq_8_def lt_mask ge_mask is_zero_mask eq_mask m)
qed

lemma map2_second: "length xs = length ys \<Longrightarrow> map2 (\<lambda>x y. y) xs ys = ys"
  by (induction xs ys rule: list_induct2) simp_all

lemma map2_first: "length xs = length ys \<Longrightarrow> map2 (\<lambda>x y. x) xs ys = xs"
  by (induction xs ys rule: list_induct2) simp_all

section \<open>Properties\<close>

text \<open>The constant-time comparisons answer with the mask of all ones exactly when the comparison
  holds and with zero otherwise, for all 64-bit operands, and selecting by the answer is a conditional.\<close>

theorem constant_time_comparisons:
  "constant_time_lt_w a b = (if a < b then - 1 else 0) \<and> constant_time_ge_w a b = (if b \<le> a then - 1 else 0)
   \<and> constant_time_is_zero_w a = (if a = 0 then - 1 else 0) \<and> constant_time_eq_w a b = (if a = b then - 1 else 0)
   \<and> constant_time_select_w (constant_time_lt_w a b) x y = (if a < b then x else y)
   \<and> constant_time_select_8 (constant_time_eq_w a b) u v = (if a = b then u else v)
   \<and> constant_time_select_8 (ucast (constant_time_eq_8 a b)) u v = (if a = b then u else v)"
  by (simp only: lt_mask ge_mask is_zero_mask eq_mask mask_8 select_w_mask select_8_mask)

text \<open>The conditional copy is a copy or nothing, and the conditional xor is an xor or nothing,
  according to the mask.\<close>

theorem constant_time_conditional:
  assumes "length dst = length src"
  shows "constant_time_conditional_memcpy dst src (if c then - 1 else 0) = (if c then src else dst)
    \<and> constant_time_conditional_memxor dst src (if c then - 1 else 0) = (if c then map2 (XOR) dst src else dst)"
proof -
  have m: "ucast (- 1 :: 64 word) = (- 1 :: byte)" by code_simp
  show ?thesis using assms
    by (simp add: constant_time_conditional_memcpy_def constant_time_conditional_memxor_def select_8_mask
        value_barrier_w_def map2_first map2_second m)
qed

theorem constant_time_conditional_witness:
  "constant_time_conditional_memcpy [1, 2] [3, 4] (if True then - 1 else 0) = [3, 4]"
  using constant_time_conditional [of "[1, 2]" "[3, 4]" True] by simp

end
