(* ===== verification/Base64.thy ===== *)
theory Base64
  imports ConstTime
begin

text \<open>
  BoringSSL's base64 (\<open>crypto/base64/base64.c\<close>). A pointer and a length are the list of the bytes they
  span; an output pointer is a buffer with a position in it, and writing past the end of the buffer
  is undefined (\<open>None\<close>), as is a failed \<open>assert\<close>. Lengths the code computes with \<open>size_t\<close> are words.
\<close>

definition INT_MAX :: size_t where [simp]: "INT_MAX = 0x7FFFFFFF"

section \<open>Alphabet\<close>

definition constant_time_lt_args_8 :: "byte \<Rightarrow> byte \<Rightarrow> byte" where
  "constant_time_lt_args_8 a b =
     (let aw = ucast a; bw = ucast b in ucast (constant_time_msb_w (aw - bw)))"

definition constant_time_in_range_8 :: "byte \<Rightarrow> byte \<Rightarrow> byte \<Rightarrow> byte" where
  "constant_time_in_range_8 a mn mx = (let a = a - mn in constant_time_lt_args_8 a (mx - mn + 1))"

text \<open>The characters \<open>+\<close>, \<open>/\<close>, \<open>0\<close>, \<open>A\<close>, \<open>a\<close> and \<open>=\<close>.\<close>

definition conv_bin2ascii :: "byte \<Rightarrow> byte" where
  "conv_bin2ascii a = (let
     a = a AND 0x3f;
     ret = constant_time_select_8 (ucast (constant_time_eq_8 (ucast a) 62)) 0x2B 0x2F;
     ret = constant_time_select_8 (ucast (constant_time_lt_args_8 a 62)) (a - 52 + 0x30) ret;
     ret = constant_time_select_8 (ucast (constant_time_lt_args_8 a 52)) (a - 26 + 0x61) ret;
     ret = constant_time_select_8 (ucast (constant_time_lt_args_8 a 26)) (a + 0x41) ret
   in ret)"

definition base64_ascii_to_bin :: "byte \<Rightarrow> byte" where
  "base64_ascii_to_bin a = (let
     is_upper = constant_time_in_range_8 a 0x41 0x5A;
     is_lower = constant_time_in_range_8 a 0x61 0x7A;
     is_digit = constant_time_in_range_8 a 0x30 0x39;
     is_plus = constant_time_eq_8 (ucast a) 0x2B;
     is_slash = constant_time_eq_8 (ucast a) 0x2F;
     is_equals = constant_time_eq_8 (ucast a) 0x3D;
     ret = is_upper AND (a - 0x41);
     ret = ret OR (is_lower AND (a - 0x61 + 26));
     ret = ret OR (is_digit AND (a - 0x30 + 52));
     ret = ret OR (is_plus AND 62);
     ret = ret OR (is_slash AND 63);
     is_valid = is_upper OR is_lower OR is_digit OR is_plus OR is_slash OR is_equals
   in ret OR NOT is_valid)"

section \<open>Encoding a block\<close>

definition EVP_EncodedLength :: "size_t \<Rightarrow> size_t option" where
  "EVP_EncodedLength len =
     (if len + 2 < len then None
      else let len = (len + 2) div 3 in
        if drop_bit 2 (push_bit 2 len) \<noteq> len then None
        else let len = push_bit 2 len in
          if len + 1 < len then None else Some (len + 1))"

text \<open>The characters the loop of \<open>EVP_EncodeBlock\<close> writes.\<close>

fun encode_bytes :: "byte list \<Rightarrow> byte list" where
  "encode_bytes [] = []"
| "encode_bytes (a # b # c # rest) =
     (let l = push_bit 16 (ucast a) OR push_bit 8 (ucast b) OR (ucast c :: u32) in
      [conv_bin2ascii (ucast (drop_bit 18 l)), conv_bin2ascii (ucast (drop_bit 12 l)),
       conv_bin2ascii (ucast (drop_bit 6 l)), conv_bin2ascii (ucast l)] @ encode_bytes rest)"
| "encode_bytes [a, b] =
     (let l = push_bit 16 (ucast a) OR push_bit 8 (ucast b :: u32) in
      [conv_bin2ascii (ucast (drop_bit 18 l)), conv_bin2ascii (ucast (drop_bit 12 l)),
       conv_bin2ascii (ucast (drop_bit 6 l)), 0x3D])"
| "encode_bytes [a] =
     (let l = push_bit 16 (ucast a :: u32) in
      [conv_bin2ascii (ucast (drop_bit 18 l)), conv_bin2ascii (ucast (drop_bit 12 l)), 0x3D, 0x3D])"

text \<open>Writes the characters and a NUL at \<open>pos\<close>, and returns the number of characters.\<close>

definition EVP_EncodeBlock :: "byte list \<Rightarrow> nat \<Rightarrow> byte list \<Rightarrow> (byte list \<times> size_t) option" where
  "EVP_EncodeBlock dst pos src = (let cs = encode_bytes src in
     do { dst \<leftarrow> put dst pos (cs @ [0]); Some (dst, of_nat (length cs)) })"

section \<open>Streaming encoder\<close>

record evp_encode_ctx =
  data_used :: nat
  data :: "byte list"
  eof_seen :: bool
  error_encountered :: bool

definition EVP_EncodeInit :: evp_encode_ctx where
  "EVP_EncodeInit = \<lparr>data_used = 0, data = replicate 48 0, eof_seen = False, error_encountered = False\<rparr>"

text \<open>
  The loop over whole lines of 48 bytes: the buffer, the position behind the last newline, \<open>total\<close>, or
  nothing where \<open>total\<close> would overflow, and the rest of the input.
\<close>

function encode_lines :: "byte list \<Rightarrow> nat \<Rightarrow> size_t \<Rightarrow> byte list
    \<Rightarrow> (byte list \<times> size_t option \<times> byte list) option" where
  "encode_lines out pos tot inp =
     (if 48 \<le> length inp then
        do { (out, encoded) \<leftarrow> EVP_EncodeBlock out pos (take 48 inp);
             out \<leftarrow> put out (pos + unat encoded) [0x0A, 0];
             if tot + encoded + 1 < tot then Some (out, None, drop 48 inp)
             else encode_lines out (pos + unat encoded + 1) (tot + encoded + 1) (drop 48 inp) }
      else Some (out, Some tot, inp))"
  by auto
termination
  by (relation "measure (\<lambda>(out, pos, tot, inp). length inp)") auto

declare encode_lines.simps [simp del]

definition EVP_EncodeUpdate :: "evp_encode_ctx \<Rightarrow> byte list \<Rightarrow> byte list
    \<Rightarrow> (evp_encode_ctx \<times> byte list \<times> size_t) option" where
  "EVP_EncodeUpdate ctx out inp =
     (if inp = [] then Some (ctx, out, 0)
      else if \<not> data_used ctx < 48 then None
      else if 48 - data_used ctx > length inp then
        do { d \<leftarrow> put (data ctx) (data_used ctx) inp;
             Some (ctx\<lparr>data := d, data_used := data_used ctx + length inp\<rparr>, out, 0) }
      else do {
        (ctx, out, pos, tot, inp) \<leftarrow>
          (if data_used ctx \<noteq> 0 then
             let todo = 48 - data_used ctx in
             do { d \<leftarrow> put (data ctx) (data_used ctx) (take todo inp);
                  (out, encoded) \<leftarrow> EVP_EncodeBlock out 0 d;
                  out \<leftarrow> put out (unat encoded) [0x0A, 0];
                  Some (ctx\<lparr>data := d, data_used := 0\<rparr>, out, unat encoded + 1, encoded + 1, drop todo inp) }
           else Some (ctx, out, 0, 0, inp));
        (out, tot, inp) \<leftarrow> encode_lines out pos tot inp;
        (case tot of
           None \<Rightarrow> Some (ctx, out, 0)
         | Some tot \<Rightarrow> do {
             d \<leftarrow> (if inp \<noteq> [] then put (data ctx) 0 inp else Some (data ctx));
             Some (ctx\<lparr>data := d, data_used := length inp\<rparr>, out, if tot > INT_MAX then 0 else tot) }) })"

definition EVP_EncodeFinal :: "evp_encode_ctx \<Rightarrow> byte list \<Rightarrow> (evp_encode_ctx \<times> byte list \<times> size_t) option" where
  "EVP_EncodeFinal ctx out =
     (if data_used ctx = 0 then Some (ctx, out, 0)
      else if data_used ctx > length (data ctx) then None
      else do { (out, encoded) \<leftarrow> EVP_EncodeBlock out 0 (take (data_used ctx) (data ctx));
                out \<leftarrow> put out (unat encoded) [0x0A];
                out \<leftarrow> put out (unat encoded + 1) [0];
                if encoded + 1 > INT_MAX then None
                else Some (ctx\<lparr>data_used := 0\<rparr>, out, encoded + 1) })"

section \<open>Decoding\<close>

definition EVP_DecodedLength :: "size_t \<Rightarrow> size_t option" where
  "EVP_DecodedLength len = (if len mod 4 \<noteq> 0 then None else Some (len div 4 * 3))"

definition EVP_DecodeInit :: evp_encode_ctx where
  "EVP_DecodeInit = \<lparr>data_used = 0, data = replicate 48 0, eof_seen = False, error_encountered = False\<rparr>"

text \<open>The bytes a group of four characters stands for, or an error.\<close>

definition base64_decode_quad :: "byte \<Rightarrow> byte \<Rightarrow> byte \<Rightarrow> byte \<Rightarrow> byte list option" where
  "base64_decode_quad in0 in1 in2 in3 = (let
     a = base64_ascii_to_bin in0; b = base64_ascii_to_bin in1;
     c = base64_ascii_to_bin in2; d = base64_ascii_to_bin in3
   in if a = 0xff \<or> b = 0xff \<or> c = 0xff \<or> d = 0xff then None
      else let
        v = push_bit 18 (ucast a) OR push_bit 12 (ucast b) OR push_bit 6 (ucast c) OR (ucast d :: u32);
        padding = (if in0 = 0x3D then 8 else 0) OR (if in1 = 0x3D then 4 else 0)
                    OR (if in2 = 0x3D then 2 else 0) OR (if in3 = 0x3D then 1 else (0 :: u32))
      in if padding = 0 then Some [ucast (drop_bit 16 v), ucast (drop_bit 8 v), ucast v]
         else if padding = 1 then Some [ucast (drop_bit 16 v), ucast (drop_bit 8 v)]
         else if padding = 3 then Some [ucast (drop_bit 16 v)]
         else None)"

text \<open>
  The loop of \<open>EVP_DecodeUpdate\<close>; \<open>pos\<close> is also \<open>bytes_out\<close>. The flag is false after an error, where
  the loop ends with a return.
\<close>

fun decode_chars :: "evp_encode_ctx \<Rightarrow> byte list \<Rightarrow> nat \<Rightarrow> byte list
    \<Rightarrow> (evp_encode_ctx \<times> byte list \<times> nat \<times> bool) option" where
  "decode_chars ctx out pos [] = Some (ctx, out, pos, True)"
| "decode_chars ctx out pos (c # inp) =
     (if c \<in> {0x20, 0x09, 0x0D, 0x0A} then decode_chars ctx out pos inp
      else if eof_seen ctx then Some (ctx\<lparr>error_encountered := True\<rparr>, out, pos, False)
      else do {
        d \<leftarrow> put (data ctx) (data_used ctx) [c];
        let ctx = ctx\<lparr>data := d, data_used := data_used ctx + 1\<rparr> in
        if data_used ctx = 4 then
          (case base64_decode_quad (d ! 0) (d ! 1) (d ! 2) (d ! 3) of
             None \<Rightarrow> Some (ctx\<lparr>error_encountered := True\<rparr>, out, pos, False)
           | Some bs \<Rightarrow> do {
               out \<leftarrow> put out pos bs;
               decode_chars (ctx\<lparr>data_used := 0, eof_seen := (length bs < 3 \<or> eof_seen ctx)\<rparr>)
                 out (pos + length bs) inp })
        else decode_chars ctx out pos inp })"

text \<open>The results of \<open>EVP_DecodeUpdate\<close> and \<open>EVP_DecodeFinal\<close> are 1, 0 and -1.\<close>

definition EVP_DecodeUpdate :: "evp_encode_ctx \<Rightarrow> byte list \<Rightarrow> byte list
    \<Rightarrow> (evp_encode_ctx \<times> byte list \<times> nat \<times> int) option" where
  "EVP_DecodeUpdate ctx out inp =
     (if error_encountered ctx then Some (ctx, out, 0, - 1)
      else do {
        (ctx, out, bytes_out, ok) \<leftarrow> decode_chars ctx out 0 inp;
        if \<not> ok then Some (ctx, out, 0, - 1)
        else if bytes_out > unat INT_MAX then Some (ctx\<lparr>error_encountered := True\<rparr>, out, 0, - 1)
        else Some (ctx, out, bytes_out, if eof_seen ctx then 0 else 1) })"

definition EVP_DecodeFinal :: "evp_encode_ctx \<Rightarrow> int" where
  "EVP_DecodeFinal ctx = (if error_encountered ctx \<or> data_used ctx \<noteq> 0 then - 1 else 1)"

text \<open>The loop of \<open>EVP_DecodeBase64\<close>: the buffer, and the number of bytes where it succeeds.\<close>

fun decode_quads :: "byte list \<Rightarrow> nat \<Rightarrow> byte list \<Rightarrow> (byte list \<times> nat option) option" where
  "decode_quads out pos (a # b # c # d # rest) =
     (case base64_decode_quad a b c d of
        None \<Rightarrow> Some (out, None)
      | Some bs \<Rightarrow> do {
          out \<leftarrow> put out pos bs;
          if length bs \<noteq> 3 \<and> rest \<noteq> [] then Some (out, None)
          else decode_quads out (pos + length bs) rest })"
| "decode_quads out pos _ = Some (out, Some pos)"

definition EVP_DecodeBase64 :: "byte list \<Rightarrow> size_t \<Rightarrow> byte list \<Rightarrow> (byte list \<times> nat option) option" where
  "EVP_DecodeBase64 out max_out inp =
     (if length inp mod 4 \<noteq> 0 then Some (out, None)
      else case EVP_DecodedLength (of_nat (length inp)) of
        None \<Rightarrow> Some (out, None)
      | Some max_len \<Rightarrow> if max_out < max_len then Some (out, None) else decode_quads out 0 inp)"

text \<open>Spaces and tabs go from the front, newlines as well from the back.\<close>

definition trim :: "byte list \<Rightarrow> byte list" where
  "trim src = rev (dropWhile (\<lambda>c. c \<in> {0x20, 0x09, 0x0D, 0x0A}) (rev
     (dropWhile (\<lambda>c. c \<in> {0x20, 0x09}) src)))"

text \<open>The NULs that stand for the padding are put back, and counted.\<close>

definition EVP_DecodeBlock :: "byte list \<Rightarrow> byte list \<Rightarrow> (byte list \<times> nat option) option" where
  "EVP_DecodeBlock dst src = (let src = trim src in
     case EVP_DecodedLength (of_nat (length src)) of
       None \<Rightarrow> Some (dst, None)
     | Some dst_len \<Rightarrow>
         if dst_len > INT_MAX then Some (dst, None)
         else do {
           (dst, r) \<leftarrow> EVP_DecodeBase64 dst dst_len src;
           (case r of
              None \<Rightarrow> Some (dst, None)
            | Some n \<Rightarrow> (let k = (3 - n mod 3) mod 3 in do {
                dst \<leftarrow> put dst n (replicate k 0);
                if n + k \<le> unat INT_MAX then Some (dst, Some (n + k)) else None })) })"

end
