(* ===== verification/Base64Spec.thy ===== *)
theory Base64Spec
  imports Base64
begin

text \<open>
  Correctness of the base64 code: decoding undoes encoding, the lengths the code announces are the
  lengths it writes, and the streaming forms do what one call on the whole input would do.
\<close>

section \<open>The alphabet\<close>

lemma lt_args_mask: "constant_time_lt_args_8 a b = (if a < b then - 1 else 0)"
proof -
  have "\<not> bit (ucast x :: 64 word) 63" for x :: byte by (auto simp: bit_simps dest: bit_imp_le_length)
  then have "constant_time_msb_w (ucast a - ucast b) = (if (ucast a :: 64 word) < ucast b then - 1 else 0)"
    using bit_63_diff [of "ucast a" "ucast b"] by (simp add: msb_mask)
  moreover have "(ucast a :: 64 word) < ucast b \<longleftrightarrow> a < b"
    by (simp add: word_less_nat_alt unat_ucast_up)
  moreover have "ucast (- 1 :: 64 word) = (- 1 :: byte)" by code_simp
  ultimately show ?thesis by (simp add: constant_time_lt_args_8_def)
qed

lemma eq_8_byte: "constant_time_eq_8 (ucast a) (ucast b) = (if (a :: byte) = b then - 1 else 0)"
proof -
  have "(ucast a :: 64 word) = ucast b \<longleftrightarrow> a = b"
    by (simp add: word_unat_eq_iff unat_ucast_up)
  then show ?thesis by (simp add: mask_8)
qed

definition to_char :: "byte \<Rightarrow> byte" where
  "to_char x = (let a = x AND 0x3f in if a < 26 then a + 0x41 else if a < 52 then a - 26 + 0x61
     else if a < 62 then a - 52 + 0x30 else if a = 62 then 0x2B else 0x2F)"

lemma conv_eq: "conv_bin2ascii = to_char"
  using eq_8_byte [of _ 62]
  by (intro ext) (simp add: conv_bin2ascii_def to_char_def lt_args_mask select_8_mask Let_def)

definition from_char :: "byte \<Rightarrow> byte" where
  "from_char c = (if c - 0x41 < 26 then c - 0x41 else if c - 0x61 < 26 then c - 0x61 + 26
     else if c - 0x30 < 10 then c - 0x30 + 52 else if c = 0x2B then 62 else if c = 0x2F then 63
     else if c = 0x3D then 0 else 0xff)"

lemma ranges_exclusive:
  "c - 0x41 < (26 :: byte) \<Longrightarrow> \<not> c - 0x61 < 26 \<and> \<not> c - 0x30 < 10 \<and> c \<noteq> 0x2B \<and> c \<noteq> 0x2F \<and> c \<noteq> 0x3D"
  "c - 0x61 < (26 :: byte) \<Longrightarrow> \<not> c - 0x30 < 10 \<and> c \<noteq> 0x2B \<and> c \<noteq> 0x2F \<and> c \<noteq> 0x3D"
  "c - 0x30 < (10 :: byte) \<Longrightarrow> c \<noteq> 0x2B \<and> c \<noteq> 0x2F \<and> c \<noteq> 0x3D"
proof -
  show "c - 0x41 < (26 :: byte) \<Longrightarrow> \<not> c - 0x61 < 26 \<and> \<not> c - 0x30 < 10 \<and> c \<noteq> 0x2B \<and> c \<noteq> 0x2F \<and> c \<noteq> 0x3D"
    by (rule all_bytes [where P = "\<lambda>c. c - 0x41 < 26 \<longrightarrow> \<not> c - 0x61 < 26 \<and> \<not> c - 0x30 < 10 \<and> c \<noteq> 0x2B \<and> c \<noteq> 0x2F \<and> c \<noteq> 0x3D", THEN mp])
      simp
  show "c - 0x61 < (26 :: byte) \<Longrightarrow> \<not> c - 0x30 < 10 \<and> c \<noteq> 0x2B \<and> c \<noteq> 0x2F \<and> c \<noteq> 0x3D"
    by (rule all_bytes [where P = "\<lambda>c. c - 0x61 < 26 \<longrightarrow> \<not> c - 0x30 < 10 \<and> c \<noteq> 0x2B \<and> c \<noteq> 0x2F \<and> c \<noteq> 0x3D", THEN mp])
      simp
  show "c - 0x30 < (10 :: byte) \<Longrightarrow> c \<noteq> 0x2B \<and> c \<noteq> 0x2F \<and> c \<noteq> 0x3D"
    by (rule all_bytes [where P = "\<lambda>c. c - 0x30 < 10 \<longrightarrow> c \<noteq> 0x2B \<and> c \<noteq> 0x2F \<and> c \<noteq> 0x3D", THEN mp]) simp
qed

lemma ascii_eq: "base64_ascii_to_bin = from_char"
proof
  fix c
  have r: "constant_time_in_range_8 c 0x41 0x5A = (if c - 0x41 < 26 then - 1 else 0)"
    "constant_time_in_range_8 c 0x61 0x7A = (if c - 0x61 < 26 then - 1 else 0)"
    "constant_time_in_range_8 c 0x30 0x39 = (if c - 0x30 < 10 then - 1 else 0)"
    by (simp_all add: constant_time_in_range_8_def lt_args_mask)
  have e: "constant_time_eq_8 (ucast c) 0x2B = (if c = 0x2B then - 1 else 0)"
    "constant_time_eq_8 (ucast c) 0x2F = (if c = 0x2F then - 1 else 0)"
    "constant_time_eq_8 (ucast c) 0x3D = (if c = 0x3D then - 1 else 0)"
    using eq_8_byte [of c "0x2B"] eq_8_byte [of c "0x2F"] eq_8_byte [of c "0x3D"] by simp_all
  show "base64_ascii_to_bin c = from_char c"
    using ranges_exclusive [of c] by (auto simp: base64_ascii_to_bin_def from_char_def r e Let_def)
qed

lemma from_to_char: "from_char (to_char x) = x AND 0x3f"
  by (rule all_bytes [of "\<lambda>x. from_char (to_char x) = x AND 0x3f"]) (simp add: from_char_def to_char_def)

lemma to_char_not_pad: "to_char x \<noteq> 0x3D"
  by (rule all_bytes [of "\<lambda>x. to_char x \<noteq> 0x3D"]) (simp add: to_char_def)

lemma and_63_less: "x AND 0x3f \<noteq> (0xff :: byte)"
  by (rule all_bytes [of "\<lambda>x. x AND 0x3f \<noteq> 0xff"]) simp

section \<open>One group of characters\<close>

lemma bits_63: "bit (0x3f :: byte) n \<longleftrightarrow> n < 6" "bit (0x3f :: u32) n \<longleftrightarrow> n < 6"
proof -
  have m: "(0x3f :: byte) = mask 6" "(0x3f :: u32) = mask 6" by (simp_all add: mask_eq_exp_minus_1)
  show "bit (0x3f :: byte) n \<longleftrightarrow> n < 6" "bit (0x3f :: u32) n \<longleftrightarrow> n < 6"
    by (simp_all only: m bit_mask_iff possible_bit_word) auto
qed

lemma bit_byte_high: "8 \<le> n \<Longrightarrow> \<not> bit (a :: byte) n"
  by (auto dest: bit_imp_le_length)

lemma sextet_bit: "bit (ucast (ucast (drop_bit k l) AND 0x3f :: byte) :: u32) n \<longleftrightarrow> n < 6 \<and> bit (l :: u32) (k + n)"
  by (simp only: bit_unsigned_iff bit_and_iff bits_63 bit_drop_bit_eq comp_def possible_bit_word) auto

lemma sextet_at: "bit (push_bit k (ucast (ucast (drop_bit k l) AND 0x3f :: byte)) :: u32) n
    \<longleftrightarrow> k \<le> n \<and> n < k + 6 \<and> bit (l :: u32) n"
proof (cases "k \<le> n \<and> n < 32")
  case True
  then have "k + (n - k) = n" by simp
  with True show ?thesis by (simp only: bit_push_bit_iff possible_bit_word sextet_bit) auto
next
  case False
  then show ?thesis by (auto simp: bit_push_bit_iff dest: bit_imp_le_length)
qed

lemma sextets_join:
  assumes "\<And>n. 24 \<le> n \<Longrightarrow> \<not> bit (l :: u32) n"
  shows "push_bit 18 (ucast (ucast (drop_bit 18 l) AND 0x3f :: byte)) OR push_bit 12 (ucast (ucast (drop_bit 12 l) AND 0x3f :: byte))
      OR push_bit 6 (ucast (ucast (drop_bit 6 l) AND 0x3f :: byte)) OR (ucast (ucast l AND 0x3f :: byte) :: u32) = l" (is "?v = l")
proof (rule bit_word_eqI)
  fix n
  have low: "bit (ucast (ucast l AND 0x3f :: byte) :: u32) n \<longleftrightarrow> n < 6 \<and> bit l n"
    using sextet_bit [of 0 l n] by simp
  show "bit ?v n = bit l n"
  proof (cases "bit l n")
    case True
    with assms [of n] have "n < 24" by linarith
    with True show ?thesis by (simp only: bit_or_iff sextet_at low) linarith
  next
    case False
    then show ?thesis by (simp only: bit_or_iff sextet_at low) simp
  qed
qed

lemma join_bytes:
  fixes a b c :: byte
  defines "l \<equiv> push_bit 16 (ucast a) OR push_bit 8 (ucast b) OR (ucast c :: u32)"
  shows "ucast (drop_bit 16 l) = a" "ucast (drop_bit 8 l) = b" "ucast l = c" "24 \<le> n \<Longrightarrow> \<not> bit l n"
proof -
  have bl: "bit l n \<longleftrightarrow> n < 32 \<and> (16 \<le> n \<and> bit a (n - 16) \<or> 8 \<le> n \<and> bit b (n - 8) \<or> bit c n)" for n
    by (auto simp: l_def bit_simps dest: bit_imp_le_length)
  show "24 \<le> n \<Longrightarrow> \<not> bit l n" by (simp add: bl bit_byte_high)
  show "ucast (drop_bit 16 l) = a" "ucast (drop_bit 8 l) = b" "ucast l = c"
    by (rule bit_word_eqI; auto simp: bit_simps bl bit_byte_high)+
qed

lemma quad_3:
  fixes a b c :: byte
  defines "l \<equiv> push_bit 16 (ucast a) OR push_bit 8 (ucast b) OR (ucast c :: u32)"
  shows "base64_decode_quad (to_char (ucast (drop_bit 18 l))) (to_char (ucast (drop_bit 12 l)))
    (to_char (ucast (drop_bit 6 l))) (to_char (ucast l)) = Some [a, b, c]"
proof -
  note j = join_bytes [where a = a and b = b and c = c, folded l_def]
  show ?thesis using sextets_join [of l, OF j(4)]
    by (simp add: base64_decode_quad_def ascii_eq from_to_char to_char_not_pad and_63_less Let_def j)
qed

lemma quad_2:
  fixes a b :: byte
  defines "l \<equiv> push_bit 16 (ucast a) OR push_bit 8 (ucast b :: u32)"
  shows "base64_decode_quad (to_char (ucast (drop_bit 18 l))) (to_char (ucast (drop_bit 12 l)))
    (to_char (ucast (drop_bit 6 l))) 0x3D = Some [a, b]"
proof -
  have l: "l = push_bit 16 (ucast a) OR push_bit 8 (ucast b) OR (ucast (0 :: byte) :: u32)" by (simp add: l_def)
  note j = join_bytes [where a = a and b = b and c = 0, folded l]
  have z: "ucast l AND 0x3f = (0 :: byte)" by (simp add: j)
  have p: "from_char 0x3D = 0" by (simp add: from_char_def)
  show ?thesis using sextets_join [of l, OF j(4)] z
    by (simp add: base64_decode_quad_def ascii_eq from_to_char to_char_not_pad and_63_less Let_def j p)
qed

lemma quad_1:
  fixes a :: byte
  defines "l \<equiv> push_bit 16 (ucast a :: u32)"
  shows "base64_decode_quad (to_char (ucast (drop_bit 18 l))) (to_char (ucast (drop_bit 12 l))) 0x3D 0x3D = Some [a]"
proof -
  have l: "l = push_bit 16 (ucast a) OR push_bit 8 (ucast (0 :: byte)) OR (ucast (0 :: byte) :: u32)"
    by (simp add: l_def)
  note j = join_bytes [where a = a and b = 0 and c = 0, folded l]
  have z: "ucast l AND 0x3f = (0 :: byte)" by (simp add: j)
  have z6: "ucast (drop_bit 6 l) AND 0x3f = (0 :: byte)"
  proof (rule bit_word_eqI)
    fix n
    show "bit (ucast (drop_bit 6 l) AND 0x3f :: byte) n = bit 0 n"
      by (auto simp: bit_and_iff bits_63 bit_unsigned_iff bit_drop_bit_eq l_def bit_push_bit_iff)
  qed
  have p: "from_char 0x3D = 0" by (simp add: from_char_def)
  show ?thesis using sextets_join [of l, OF j(4)] z z6
    by (simp add: base64_decode_quad_def ascii_eq from_to_char to_char_not_pad and_63_less Let_def j p)
qed

section \<open>Whole blocks\<close>

lemma length_encode [simp]: "length (encode_bytes src) = 4 * ((length src + 2) div 3)"
proof (induction src rule: encode_bytes.induct)
  case (2 a b c rest)
  have "(length (a # b # c # rest) + 2) div 3 = (length rest + 2) div 3 + 1" by simp
  with 2 show ?case by (simp add: Let_def)
qed (simp_all add: Let_def)

lemma encode_bytes_empty [simp]: "encode_bytes src = [] \<longleftrightarrow> src = []"
  by (cases src rule: encode_bytes.cases) (simp_all add: Let_def)

lemma decode_quads_encode:
  "pos + length src \<le> length out \<Longrightarrow>
    decode_quads out pos (encode_bytes src) = map_option (\<lambda>out. (out, Some (pos + length src))) (put out pos src)"
proof (induction src arbitrary: out pos rule: encode_bytes.induct)
  case (2 a b c rest)
  obtain out1 where p: "put out pos [a, b, c] = Some out1" using 2(2) put_fits [of pos "[a, b, c]" out] by auto
  have "put out pos (a # b # c # rest) = put out1 (pos + 3) rest"
    using put_append [of out pos "[a, b, c]" rest] p by (simp add: numeral_3_eq_3)
  moreover have "decode_quads out1 (pos + 3) (encode_bytes rest)
      = map_option (\<lambda>out. (out, Some (pos + 3 + length rest))) (put out1 (pos + 3) rest)"
    using 2 put_length [OF p] by (auto simp: numeral_3_eq_3)
  ultimately show ?case using quad_3 [of a b c] p by (simp add: Let_def conv_eq add.assoc numeral_3_eq_3)
next
  case (3 a b)
  then obtain out1 where p: "put out pos [a, b] = Some out1" using put_fits [of pos "[a, b]" out] by auto
  then show ?case using quad_2 [of a b] by (simp add: Let_def conv_eq)
next
  case (4 a)
  then obtain out1 where p: "put out pos [a] = Some out1" using put_fits [of pos "[a]" out] by auto
  then show ?case using quad_1 [of a] by (simp add: Let_def conv_eq)
qed simp

lemma encoded_length:
  "EVP_EncodedLength len = (let k = 4 * ((unat len + 2) div 3) + 1 in if k < 2 ^ 64 then Some (of_nat k) else None)"
proof (cases "unat len + 2 < 2 ^ 64")
  case True
  define x where "x = (len + 2) div 3"
  have l2: "unat (len + 2) = unat len + 2" using True unat_add_of_nat [of len 2] by simp
  then have ux: "unat x = (unat len + 2) div 3" by (simp add: x_def unat_div)
  have nw: "\<not> len + 2 < len" using l2 by (simp add: word_less_nat_alt)
  have shift: "drop_bit 2 (push_bit 2 x) = x \<longleftrightarrow> 4 * unat x < 2 ^ 64"
  proof -
    let ?r = "unat x * 4 mod 18446744073709551616"
    have u: "unat (drop_bit 2 (push_bit 2 x)) = ?r div 4"
      by (simp add: drop_bit_eq_div push_bit_eq_mult unat_div unat_word_ariths)
    have "?r div 4 = unat x \<longleftrightarrow> 4 * unat x < 18446744073709551616"
    proof (cases "4 * unat x < 18446744073709551616")
      case False
      have "?r div 4 < 4611686018427387904" by (rule less_mult_imp_div_less) simp
      with False show ?thesis by linarith
    qed (simp add: mult.commute)
    then show ?thesis by (simp add: word_unat_eq_iff u)
  qed
  have E: "EVP_EncodedLength len = (if drop_bit 2 (push_bit 2 x) \<noteq> x then None
      else if push_bit 2 x + 1 < push_bit 2 x then None else Some (push_bit 2 x + 1))"
    using nw by (simp add: EVP_EncodedLength_def x_def Let_def)
  have K: "4 * ((unat len + 2) div 3) + 1 = 4 * unat x + 1" by (simp only: ux)
  show ?thesis
  proof (cases "4 * unat x < 2 ^ 64")
    case small: True
    then have p: "unat (push_bit 2 x) = 4 * unat x" by (simp add: push_bit_eq_mult unat_word_ariths)
    have s: "4 * unat x + 1 < 2 ^ 64" using small by simp
    then have "unat (push_bit 2 x + 1) = 4 * unat x + 1" using unat_add_of_nat [of "push_bit 2 x" 1] p by simp
    then have "\<not> push_bit 2 x + 1 < push_bit 2 x" using p by (simp add: word_less_nat_alt)
    moreover have "push_bit 2 x + 1 = of_nat (4 * unat x + 1)" by (simp add: push_bit_eq_mult)
    ultimately show ?thesis using s shift small unfolding K Let_def E by (simp add: add.commute)
  next
    case False
    then show ?thesis using shift unfolding K Let_def E by simp
  qed
next
  case False
  then have "2 ^ 64 \<le> 4 * ((unat len + 2) div 3) + 1" by simp
  moreover have "len + 2 < len"
  proof -
    have "unat len = 2 ^ 64 - 1 \<or> unat len = 2 ^ 64 - 2" using False unat_less_64 [of len] by simp linarith
    then have "len = - 1 \<or> len = - 2" by (auto simp: word_unat_eq_iff unsigned_minus_1_eq_mask)
    moreover have "(1 :: 64 word) < - 1" "(0 :: 64 word) < - 2" by (code_simp, code_simp)
    ultimately show ?thesis by auto
  qed
  ultimately show ?thesis by (simp add: EVP_EncodedLength_def Let_def)
qed

lemma encode_block:
  assumes "pos + length (encode_bytes src) < length dst"
  shows "\<exists>dst'. put dst pos (encode_bytes src @ [0]) = Some dst'
    \<and> EVP_EncodeBlock dst pos src = Some (dst', of_nat (length (encode_bytes src)))"
  using assms put_fits [of pos "encode_bytes src @ [0]" dst] by (auto simp: EVP_EncodeBlock_def Let_def)

lemma encode_block_fail:
  "\<not> pos + length (encode_bytes src) < length dst \<Longrightarrow> EVP_EncodeBlock dst pos src = None"
  by (simp add: EVP_EncodeBlock_def Let_def put_def)

text \<open>The decoder on a whole number of groups, whatever they contain: it stays inside three bytes a group.\<close>

lemma quad_length: "base64_decode_quad a b c d = Some bs \<Longrightarrow> 1 \<le> length bs \<and> length bs \<le> 3"
  by (auto simp: base64_decode_quad_def Let_def split: if_splits)

lemma decode_quads_bounded:
  "pos + 3 * (length inp div 4) \<le> length out \<Longrightarrow>
    \<exists>out' r bs. decode_quads out pos inp = Some (out', r) \<and> put out pos bs = Some out'
      \<and> length bs \<le> 3 * (length inp div 4) \<and> (r = None \<or> r = Some (pos + length bs))"
proof (induction out pos inp rule: decode_quads.induct)
  case (1 out pos a b c d rest)
  show ?case
  proof (cases "base64_decode_quad a b c d")
    case None
    then show ?thesis using 1(2) by (auto intro!: exI [of _ "[]"])
  next
    case (Some bs)
    have bs: "1 \<le> length bs" "length bs \<le> 3" using quad_length [OF Some] by simp_all
    have g: "length (a # b # c # d # rest) div 4 = length rest div 4 + 1" by simp
    have room: "pos + length bs + 3 * (length rest div 4) \<le> length out" using 1(2) [unfolded g] bs(2) by simp
    then obtain out1 where p: "put out pos bs = Some out1" using put_fits [of pos bs out] by auto
    show ?thesis
    proof (cases "length bs \<noteq> 3 \<and> rest \<noteq> []")
      case True
      with Some p bs show ?thesis unfolding g by (auto intro!: exI [of _ bs])
    next
      case False
      from 1(1) [OF Some p False] room put_length [OF p] obtain out' r cs where
        r: "decode_quads out1 (pos + length bs) rest = Some (out', r)" "put out1 (pos + length bs) cs = Some out'"
          "length cs \<le> 3 * (length rest div 4)" "r = None \<or> r = Some (pos + length bs + length cs)"
        by auto
      then have "put out pos (bs @ cs) = Some out'" by (simp add: put_append p)
      then show ?thesis using Some p False r bs unfolding g by (intro exI [of _ out'] exI [of _ r] exI [of _ "bs @ cs"]) auto
    qed
  qed
qed (auto intro!: exI [of _ "[]"])

section \<open>The results\<close>

text \<open>The alphabet of RFC 4648.\<close>

definition alphabet :: "byte list" where
  "alphabet = map (\<lambda>c. of_nat (of_char c)) ''ABCDEFGHIJKLMNOPQRSTUVWXYZabcdefghijklmnopqrstuvwxyz0123456789+/''"

lemma alphabet_char: "to_char x = alphabet ! unat (x AND 0x3f)"
  by (rule all_bytes [of "\<lambda>x. to_char x = alphabet ! unat (x AND 0x3f)"]) (simp add: to_char_def alphabet_def)

lemma length_alphabet: "length alphabet = 64"
  by code_simp

lemma low_6: "y < 64 \<Longrightarrow> y AND 0x3f = (y :: byte)"
  by (rule all_bytes [where P = "\<lambda>y. y < 64 \<longrightarrow> y AND 0x3f = y", THEN mp]) simp

lemma shifted_ranges:
  "z < 26 \<Longrightarrow> z < (64 :: byte)"
  "z < 26 \<Longrightarrow> \<not> z + 26 < 26 \<and> z + 26 < 52 \<and> z + 26 < (64 :: byte)"
  "z < 10 \<Longrightarrow> \<not> z + 52 < 26 \<and> \<not> z + 52 < 52 \<and> z + 52 < 62 \<and> z + 52 < (64 :: byte)"
  by (auto simp: word_less_nat_alt unat_word_ariths)

lemma to_char_surj: "from_char c \<noteq> 0xff \<Longrightarrow> c \<noteq> 0x3D \<Longrightarrow> to_char (from_char c) = c"
  using shifted_ranges [of "c - 0x41"] shifted_ranges [of "c - 0x61"] shifted_ranges [of "c - 0x30"]
  by (auto simp: from_char_def to_char_def Let_def low_6 split: if_splits)

lemma of_nat_low_6: "i < 64 \<Longrightarrow> (of_nat i :: byte) AND 0x3f = of_nat i"
  by (rule low_6) (simp add: word_less_nat_alt unat_of_nat)

lemma alphabet_nth: "i < 64 \<Longrightarrow> alphabet ! i = to_char (of_nat i)"
  using alphabet_char [of "of_nat i"] of_nat_low_6 [of i] by (simp add: unat_of_nat)

lemma unat_low_6: "unat (x AND 0x3f :: byte) < 64"
proof -
  have "x AND 0x3f \<le> (0x3f :: byte)" by (rule word_and_le1)
  then show ?thesis by (simp add: word_le_nat_alt)
qed

lemma takeWhile_index: "distinct xs \<Longrightarrow> i < length xs \<Longrightarrow> length (takeWhile (\<lambda>x. x \<noteq> xs ! i) xs) = i"
  by (induction xs arbitrary: i) (auto simp: nth_Cons split: nat.splits)

text \<open>The branch-free character conversion picks the character of the base64 alphabet at the low six bits.\<close>

theorem base64_alphabet: "conv_bin2ascii x = alphabet ! unat (x AND 0x3f)"
  by (simp only: conv_eq alphabet_char)

text \<open>The branch-free inverse gives the position of a character in the alphabet, zero for the padding
  character and 0xff for every other byte.
\<close>

theorem base64_alphabet_inverse:
  "base64_ascii_to_bin c = (if c = 0x3D then 0
     else if c \<in> set alphabet then of_nat (length (takeWhile (\<lambda>x. x \<noteq> c) alphabet)) else 0xff)"
proof (cases "c \<in> set alphabet")
  case True
  then obtain i where i: "i < 64" "c = alphabet ! i" by (auto simp: in_set_conv_nth length_alphabet)
  have m: "(of_nat i :: byte) AND 0x3f = of_nat i" using i(1) by (rule of_nat_low_6)
  have "j < 64 \<Longrightarrow> unat (from_char (alphabet ! j)) = j" for j
    by (simp add: alphabet_nth from_to_char of_nat_low_6 unat_of_nat)
  then have "distinct alphabet" unfolding distinct_conv_nth length_alphabet by metis
  then have "length (takeWhile (\<lambda>x. x \<noteq> c) alphabet) = i" using i takeWhile_index [of alphabet i] by (simp add: length_alphabet)
  moreover have "from_char c = of_nat i" using i m by (simp add: alphabet_nth from_to_char)
  moreover have "c \<noteq> 0x3D" using i to_char_not_pad by (simp add: alphabet_nth)
  ultimately show ?thesis using True by (simp add: ascii_eq)
next
  case False
  have "c = 0x3D \<or> from_char c = 0xff"
  proof (rule ccontr)
    assume n: "\<not> (c = 0x3D \<or> from_char c = 0xff)"
    then have "c = alphabet ! unat (from_char c AND 0x3f)" using to_char_surj [of c] alphabet_char by simp
    moreover have "unat (from_char c AND 0x3f) < 64" by (rule unat_low_6)
    ultimately show False using False by (metis length_alphabet nth_mem)
  qed
  then show ?thesis using False by (auto simp: ascii_eq from_char_def)
qed

lemma max_len: "n < 2 ^ 64 \<Longrightarrow> n mod 4 = 0 \<Longrightarrow> \<exists>m. EVP_DecodedLength (of_nat n) = Some m \<and> unat m = 3 * (n div 4)"
proof -
  assume n: "n < 2 ^ 64" "n mod 4 = 0"
  then have u: "unat (of_nat n :: size_t) = n" by (simp add: unat_of_nat_64)
  have z: "(of_nat n :: size_t) mod 4 = 0" using n(2) by (simp add: word_unat_eq_iff unat_mod u)
  have "3 * (n div 4) \<le> n" by linarith
  with n(1) have "3 * (n div 4) < 18446744073709551616" by simp
  then have "unat ((of_nat n :: size_t) div 4 * 3) = 3 * (n div 4)"
    by (simp add: unat_word_ariths unat_div u mult.commute)
  with z show ?thesis by (simp add: EVP_DecodedLength_def)
qed

text \<open>C36: \<open>EVP_EncodedLength\<close> announces exactly what \<open>EVP_EncodeBlock\<close> needs: with that much room the
  block and its NUL are written and all but the NUL counted, and with less the call would overrun.
\<close>

theorem encoded_length_exact:
  assumes "EVP_EncodedLength (of_nat (length src)) = Some m" "length src < 2 ^ 64"
  shows "EVP_EncodeBlock dst 0 src =
    (if unat m \<le> length dst then Some (encode_bytes src @ [0] @ drop (unat m) dst, m - 1) else None)"
proof -
  let ?n = "4 * ((length src + 2) div 3)"
  have u: "unat (of_nat (length src) :: size_t) = length src" using assms(2) by (simp add: unat_of_nat_64)
  have m: "m = of_nat (?n + 1)" "?n + 1 < 2 ^ 64"
    using assms(1) unfolding encoded_length u Let_def by (auto split: if_splits)
  have um: "unat m = ?n + 1" unfolding m(1) using m(2) by (intro unat_of_nat_64) simp
  have "m - 1 = of_nat ?n" using m(1) by simp
  then show ?thesis by (simp add: EVP_EncodeBlock_def Let_def put_def um)
qed

lemma encoded_length_exact_witness:
  "EVP_EncodeBlock (replicate 9 7) 0 [77, 97, 110, 33] = Some (encode_bytes [77, 97, 110, 33] @ [0], 8)"
  using encoded_length_exact [of "[77, 97, 110, 33]" 9 "replicate 9 7"] by (simp add: EVP_EncodedLength_def)

lemma decode_base64_encoded:
  assumes "3 * ((length src + 2) div 3) \<le> unat max_out" "unat max_out \<le> length out" "length (encode_bytes src) < 2 ^ 64"
  shows "EVP_DecodeBase64 out max_out (encode_bytes src) = Some (src @ drop (length src) out, Some (length src))"
proof -
  obtain m where m: "EVP_DecodedLength (of_nat (length (encode_bytes src))) = Some m"
      "unat m = 3 * (length (encode_bytes src) div 4)"
    using max_len [OF assms(3)] by auto
  have "length src \<le> 3 * ((length src + 2) div 3)" by linarith
  with assms(1, 2) have "length src \<le> length out" by linarith
  then show ?thesis unfolding EVP_DecodeBase64_def using m assms(1)
    by (simp add: decode_quads_encode put_def word_less_nat_alt)
qed

text \<open>C7: Decoding undoes encoding: the characters \<open>EVP_EncodeBlock\<close> wrote decode to the bytes it read, and
  the rest of the output buffer is left alone.
\<close>

theorem base64_roundtrip:
  assumes "EVP_EncodeBlock dst 0 src = Some (dst', n)" "length dst < 2 ^ 64"
    "3 * ((length src + 2) div 3) \<le> unat max_out" "unat max_out \<le> length out"
  shows "EVP_DecodeBase64 out max_out (take (unat n) dst') = Some (src @ drop (length src) out, Some (length src))"
proof -
  have p: "put dst 0 (encode_bytes src @ [0]) = Some dst'" and n: "n = of_nat (length (encode_bytes src))"
    using assms(1) by (auto simp: EVP_EncodeBlock_def Let_def split: Option.bind_splits)
  have l: "length (encode_bytes src) < 2 ^ 64" using p assms(2) by (simp add: put_iff)
  then have un: "unat n = length (encode_bytes src)" unfolding n by (intro unat_of_nat_64) simp
  have t: "take (unat n) dst' = encode_bytes src" using p by (simp add: un put_iff)
  show ?thesis unfolding t using assms(3, 4) l by (rule decode_base64_encoded)
qed

lemma base64_roundtrip_witness:
  "EVP_DecodeBase64 [9, 9, 9, 9, 9, 9] 6 [0x54, 0x57, 0x46, 0x75, 0x49, 0x51, 0x3D, 0x3D]
    = Some ([77, 97, 110, 33] @ [9, 9], Some 4)"
proof -
  have e: "EVP_EncodeBlock (replicate 9 7) 0 [77, 97, 110, 33]
      = Some ([0x54, 0x57, 0x46, 0x75, 0x49, 0x51, 0x3D, 0x3D, 0], 8)" by code_simp
  show ?thesis using base64_roundtrip [OF e, of 6 "[9, 9, 9, 9, 9, 9]"] by simp
qed

text \<open>C34: \<open>EVP_DecodeBase64\<close> on any input returns, writes at most \<open>max_out\<close> bytes at the start of the buffer,
  whether it succeeds or fails half-way, and on success reports how many.
\<close>

theorem decode_base64_bounded:
  assumes "unat max_out \<le> length out" "length inp < 2 ^ 64"
  shows "\<exists>bs r. EVP_DecodeBase64 out max_out inp = Some (bs @ drop (length bs) out, r)
    \<and> length bs \<le> unat max_out \<and> (r = None \<or> r = Some (length bs))"
proof (cases "length inp mod 4 = 0 \<and> 3 * (length inp div 4) \<le> unat max_out")
  case True
  obtain m where m: "EVP_DecodedLength (of_nat (length inp)) = Some m" "unat m = 3 * (length inp div 4)"
    using max_len [OF assms(2)] True by auto
  obtain out' r bs where d: "decode_quads out 0 inp = Some (out', r)" "put out 0 bs = Some out'"
      "length bs \<le> 3 * (length inp div 4)" "r = None \<or> r = Some (0 + length bs)"
    using decode_quads_bounded [of 0 inp out] True assms(1) by auto
  have "out' = bs @ drop (length bs) out" using d(2) by (simp add: put_iff)
  with d m True show ?thesis by (auto simp: EVP_DecodeBase64_def word_less_nat_alt intro!: exI [of _ bs])
next
  case False
  have "EVP_DecodeBase64 out max_out inp = Some (out, None)"
    using False max_len [OF assms(2)] by (auto simp: EVP_DecodeBase64_def word_less_nat_alt)
  then show ?thesis by (auto intro!: exI [of _ "[]"])
qed

lemma decode_base64_bounded_witness:
  "\<exists>bs r. EVP_DecodeBase64 [1, 2, 3, 4, 5, 6] 6 [0x54, 0x57, 0x46, 0x75, 0x21, 0x51, 0x3D, 0x3D] = Some (bs @ drop (length bs) [1, 2, 3, 4, 5, 6], r)
    \<and> length bs \<le> unat (6 :: size_t) \<and> (r = None \<or> r = Some (length bs))"
  by (rule decode_base64_bounded) simp_all

lemma to_char_not_space: "to_char x \<notin> {0x20, 0x09, 0x0D, 0x0A}"
  by (rule all_bytes [of "\<lambda>x. to_char x \<notin> {0x20, 0x09, 0x0D, 0x0A}"]) (simp add: to_char_def)

lemma encode_bytes_text: "list_all (\<lambda>c. c \<notin> {0x20, 0x09, 0x0D, 0x0A}) (encode_bytes src)"
  using to_char_not_space by (induction src rule: encode_bytes.induct) (simp_all add: Let_def conv_eq)

lemma trim_text:
  assumes "list_all (\<lambda>c. c \<in> {0x20, 0x09}) as" "list_all (\<lambda>c. c \<in> {0x20, 0x09, 0x0D, 0x0A}) zs"
    "list_all (\<lambda>c. c \<notin> {0x20, 0x09, 0x0D, 0x0A}) cs"
  shows "trim (as @ cs @ zs) = cs"
proof -
  have a: "dropWhile (\<lambda>c. c \<in> {0x20, 0x09}) (as @ ys) = dropWhile (\<lambda>c. c \<in> {0x20, 0x09}) ys" for ys :: "byte list"
    using assms(1) by (intro dropWhile_append2) (auto simp: list_all_iff)
  have z: "dropWhile (\<lambda>c. c \<in> {0x20, 0x09, 0x0D, 0x0A}) (rev zs @ ys) = dropWhile (\<lambda>c. c \<in> {0x20, 0x09, 0x0D, 0x0A}) ys" for ys :: "byte list"
    using assms(2) by (intro dropWhile_append2) (auto simp: list_all_iff)
  show ?thesis
  proof (cases cs)
    case Nil
    have "list_all (\<lambda>c. c \<in> {0x20, 0x09, 0x0D, 0x0A}) (dropWhile (\<lambda>c. c \<in> {0x20, 0x09}) zs)"
      using assms(2) by (auto simp: list_all_iff dest: set_dropWhileD)
    then show ?thesis using Nil a [of zs] unfolding trim_def by (auto simp: list_all_iff)
  next
    case (Cons c cs')
    have c: "c \<notin> {0x20, 0x09}" using assms(3) Cons by auto
    have l: "dropWhile (\<lambda>c. c \<in> {0x20, 0x09, 0x0D, 0x0A}) (rev cs) = rev cs"
    proof -
      have "\<forall>c \<in> set (rev cs). c \<notin> {0x20, 0x09, 0x0D, 0x0A}" using assms(3) by (simp add: list_all_iff)
      then show ?thesis by (cases "rev cs") (simp_all only: dropWhile.simps list.set insert_iff if_False simp_thms ball_simps)
    qed
    show ?thesis unfolding trim_def a using c Cons z [of "rev cs"] l by simp
  qed
qed


lemma round_up: "(3 - n mod 3) mod 3 = 3 * ((n + 2) div 3) - n \<and> n \<le> 3 * ((n + 2) div (3 :: nat))"
proof -
  have r: "(3 - r) mod 3 = 3 * m - n \<and> n \<le> 3 * m" if "r < 3" "n = 3 * q + r" "m = (if r = 0 then q else q + 1)" for q r m
  proof -
    have "r = 0 \<or> r = 1 \<or> r = 2" using that(1) by linarith
    with that show ?thesis by auto
  qed
  have "(n + 2) div 3 = (if n mod 3 = 0 then n div 3 else n div 3 + 1)" by presburger
  then show ?thesis by (intro r [of "n mod 3" "n div 3"]) simp_all
qed

lemma line_end_refused: "l \<in> {0x0D, 0x0A} \<Longrightarrow> base64_decode_quad l b c d = None"
proof -
  assume "l \<in> {0x0D, 0x0A}"
  moreover have "base64_ascii_to_bin 0x0D = 0xff" "base64_ascii_to_bin 0x0A = 0xff" by code_simp+
  ultimately show ?thesis by (auto simp: base64_decode_quad_def Let_def)
qed

lemma decode_block_line_end:
  assumes "list_all (\<lambda>c. c \<in> {0x20, 0x09}) as" "l \<in> {0x0D, 0x0A}" "list_ex (\<lambda>c. c \<notin> {0x20, 0x09, 0x0D, 0x0A}) ws"
  shows "EVP_DecodeBlock dst (as @ l # ws) = Some (dst, None)"
proof -
  have a: "dropWhile (\<lambda>c. c \<in> {0x20, 0x09}) (as @ l # ws) = l # ws"
    using assms(1, 2) by (subst dropWhile_append2) (auto simp: list_all_iff)
  obtain cs where t: "trim (as @ l # ws) = l # cs"
  proof -
    have "dropWhile (\<lambda>c. c \<in> {0x20, 0x09, 0x0D, 0x0A}) (rev ws @ [l])
        = dropWhile (\<lambda>c. c \<in> {0x20, 0x09, 0x0D, 0x0A}) (rev ws) @ [l]"
      using assms(3) by (auto simp: list_ex_iff intro: dropWhile_append1)
    then have "trim (as @ l # ws) = l # rev (dropWhile (\<lambda>c. c \<in> {0x20, 0x09, 0x0D, 0x0A}) (rev ws))"
      unfolding trim_def a by simp
    with that show thesis by blast
  qed
  show ?thesis
  proof (cases "length (l # cs) mod 4 = 0")
    case True
    then have "Suc (length cs) mod 4 = 0" by simp
    then have "3 \<le> length cs" by presburger
    then obtain b c d rest where cs: "cs = b # c # d # rest" by (auto simp: numeral_eq_Suc Suc_le_length_iff)
    have "decode_quads dst 0 (l # cs) = Some (dst, None)" using line_end_refused [OF assms(2)] by (simp add: cs)
    then show ?thesis unfolding EVP_DecodeBlock_def t Let_def EVP_DecodeBase64_def
      by (simp split: option.split del: decode_quads.simps)
  next
    case False
    then show ?thesis unfolding EVP_DecodeBlock_def t Let_def EVP_DecodeBase64_def
      by (simp split: option.split)
  qed
qed

text \<open>C37: \<open>EVP_DecodeBlock\<close> ignores spaces and tabs in front of the text and spaces, tabs and line
  ends behind it, and its result counts the padding as zero bytes: it is the size of the data rounded
  up to a multiple of three. A line end in front of the text is not ignored: when a carriage return or
  line feed follows the leading spaces and tabs and anything but white space comes after it, the block
  is refused and nothing is written.
\<close>

theorem decode_block_padded:
  assumes "list_all (\<lambda>c. c \<in> {0x20, 0x09}) as" "list_all (\<lambda>c. c \<in> {0x20, 0x09, 0x0D, 0x0A}) zs"
    "n = 3 * ((length src + 2) div 3)" "n \<le> length dst" "n \<le> 2147483647"
    "l \<in> {0x0D, 0x0A}" "list_ex (\<lambda>c. c \<notin> {0x20, 0x09, 0x0D, 0x0A}) ws"
  shows "EVP_DecodeBlock dst (as @ encode_bytes src @ zs)
      = Some (src @ replicate (n - length src) 0 @ drop n dst, Some n)
    \<and> EVP_DecodeBlock dst (as @ l # ws) = Some (dst, None)"
proof (rule conjI [OF _ decode_block_line_end [OF assms(1, 6, 7)]])
  let ?cs = "encode_bytes src"
  have t: "trim (as @ ?cs @ zs) = ?cs"
    using assms(1, 2) by (rule trim_text) (rule encode_bytes_text)
  have l: "length ?cs < 2 ^ 64" using assms(3, 5) by simp
  obtain m where m: "EVP_DecodedLength (of_nat (length ?cs)) = Some m" "unat m = n"
    using max_len [OF l] assms(3) by auto
  have small: "\<not> m > INT_MAX" using m(2) assms(5) by (simp add: word_less_nat_alt)
  have d: "EVP_DecodeBase64 dst m ?cs = Some (src @ drop (length src) dst, Some (length src))"
    using m(2) assms(3, 4) l by (intro decode_base64_encoded) simp_all
  have k: "(3 - length src mod 3) mod 3 = n - length src" "length src \<le> n"
    unfolding assms(3) using round_up [of "length src"] by simp_all
  have p: "put (src @ drop (length src) dst) (length src) (replicate (n - length src) 0)
      = Some (src @ replicate (n - length src) 0 @ drop n dst)"
    using k(2) assms(4) by (simp add: put_def)
  have im: "length src + (n - length src) \<le> unat INT_MAX" using assms(5) k(2) by simp
  have e: "length src + (n - length src) = n" using k(2) by simp
  show "EVP_DecodeBlock dst (as @ ?cs @ zs) = Some (src @ replicate (n - length src) 0 @ drop n dst, Some n)"
    unfolding EVP_DecodeBlock_def t Let_def m(1) option.case if_not_P [OF small] d bind.bind_lunit prod.case k(1) p if_P [OF im]
    unfolding e ..
qed

lemma decode_block_padded_witness:
  "EVP_DecodeBlock [9, 9, 9, 9, 9, 9, 9] ([0x20] @ encode_bytes [77, 97, 110, 33] @ [0x0D, 0x0A])
      = Some ([77, 97, 110, 33] @ replicate (6 - length [77 :: byte, 97, 110, 33]) 0 @ drop 6 [9, 9, 9, 9, 9, 9, 9], Some 6)
    \<and> EVP_DecodeBlock [9, 9, 9, 9, 9, 9, 9] ([0x20] @ 0x0A # [0x54, 0x57, 0x46, 0x75]) = Some ([9, 9, 9, 9, 9, 9, 9], None)"
  by (rule decode_block_padded) simp_all

end
