(* ===== verification/Base64Stream.thy ===== *)
theory Base64Stream
  imports Base64Spec
begin

text \<open>
  The streaming base64 encoder and decoder: however the input is cut into calls, the output is that of
  the whole input.
\<close>

section \<open>Streaming\<close>

text \<open>
  What the streaming encoder writes for the whole input: lines of 48 bytes' worth of characters. A
  context stands for the bytes it has taken in but not yet written, its \<open>pending\<close> bytes.
\<close>

function pem_lines :: "byte list \<Rightarrow> byte list" where
  "pem_lines src = (if src = [] then [] else encode_bytes (take 48 src) @ [0x0A] @ pem_lines (drop 48 src))"
  by auto
termination by (relation "measure length") auto

declare pem_lines.simps [simp del]

definition full_lines :: "byte list \<Rightarrow> byte list" where
  "full_lines src = pem_lines (take (length src div 48 * 48) src)"

definition pending :: "evp_encode_ctx \<Rightarrow> byte list" where
  "pending ctx = take (data_used ctx) (data ctx)"

definition ctx_ok :: "evp_encode_ctx \<Rightarrow> bool" where
  "ctx_ok ctx \<longleftrightarrow> length (data ctx) = 48 \<and> data_used ctx < 48"

lemma pem_lines_Nil [simp]: "pem_lines [] = []"
  by (simp add: pem_lines.simps)

lemma pem_lines_chunk: "length a = 48 \<Longrightarrow> pem_lines (a @ b) = encode_bytes a @ [0x0A] @ pem_lines b"
  by (subst pem_lines.simps) auto

lemma pem_lines_short: "0 < length a \<Longrightarrow> length a \<le> 48 \<Longrightarrow> pem_lines a = encode_bytes a @ [0x0A]"
  by (subst pem_lines.simps) auto

lemma full_lines_short [simp]: "length a < 48 \<Longrightarrow> full_lines a = []"
  by (simp add: full_lines_def)

lemma div_chunk: "(48 + n) div 48 = Suc (n div (48 :: nat))"
  by simp

lemma full_lines_chunk: "length a = 48 \<Longrightarrow> full_lines (a @ b) = encode_bytes a @ [0x0A] @ full_lines b"
proof -
  assume "length a = 48"
  then have "take (length (a @ b) div 48 * 48) (a @ b) = a @ take (length b div 48 * 48) b"
    by (simp add: div_chunk)
  with \<open>length a = 48\<close> show ?thesis by (simp add: full_lines_def pem_lines_chunk)
qed

lemma chunk_induct [case_names short chunk]:
  assumes "\<And>src. length src < 48 \<Longrightarrow> P src" "\<And>a b. length a = 48 \<Longrightarrow> P b \<Longrightarrow> P (a @ b)"
  shows "P (src :: byte list)"
proof (induction src rule: length_induct)
  case (1 src)
  show ?case
  proof (cases "length src < 48")
    case False
    then have "P (drop 48 src)" using 1 by simp
    with assms(2) [of "take 48 src" "drop 48 src"] False show ?thesis by simp
  qed (rule assms(1))
qed

lemma length_full_lines: "length (full_lines src) = 65 * (length src div 48)"
  by (induction src rule: chunk_induct) (simp_all add: full_lines_chunk div_chunk)

lemma full_lines_append:
  "full_lines a @ full_lines (drop (length a div 48 * 48) a @ b) = full_lines (a @ b)"
  by (induction a rule: chunk_induct) (simp_all add: full_lines_chunk div_chunk)

lemma pem_lines_append:
  "full_lines a @ pem_lines (drop (length a div 48 * 48) a @ b) = pem_lines (a @ b)"
  by (induction a rule: chunk_induct) (simp_all add: full_lines_chunk pem_lines_chunk div_chunk)

lemma pem_lines_full: "pem_lines src = full_lines src @ pem_lines (drop (length src div 48 * 48) src)"
  by (induction src rule: chunk_induct) (simp_all add: full_lines_chunk pem_lines_chunk div_chunk)

text \<open>One line: its characters, the newline, and a NUL that the next write replaces.\<close>

lemma encode_line:
  assumes "length a = 48" "put out pos (encode_bytes a @ [0x0A, 0]) = Some out'"
  shows "Option.bind (EVP_EncodeBlock out pos a) (\<lambda>(out, encoded). put out (pos + unat encoded) [0x0A, 0]) = Some out'"
    "\<exists>out1. EVP_EncodeBlock out pos a = Some (out1, 64) \<and> put out1 (pos + 64) [0x0A, 0] = Some out'"
proof -
  have n: "length (encode_bytes a) = 64" using assms(1) by simp
  have "pos + length (encode_bytes a) < length out" using assms(2) by (simp add: put_iff)
  then obtain out1 where o: "put out pos (encode_bytes a @ [0]) = Some out1" "EVP_EncodeBlock out pos a = Some (out1, 64)"
    using encode_block [of pos a out] n by auto
  then show "\<exists>out1. EVP_EncodeBlock out pos a = Some (out1, 64) \<and> put out1 (pos + 64) [0x0A, 0] = Some out'"
    using put_overwrite [OF o(1), of "0x0A" "[0]"] assms(2) n by simp
  then show "Option.bind (EVP_EncodeBlock out pos a) (\<lambda>(out, encoded). put out (pos + unat encoded) [0x0A, 0]) = Some out'"
    by auto
qed

text \<open>\<open>written\<close>: what a loop that writes lines, each followed by a NUL, has done to the buffer.\<close>

definition written :: "byte list \<Rightarrow> nat \<Rightarrow> byte list \<Rightarrow> byte list \<Rightarrow> bool" where
  "written out pos ls out' \<longleftrightarrow> (if ls = [] then out' = out else put out pos (ls @ [0]) = Some out')"

lemma written_append:
  assumes "put out pos (as @ [0x0A, 0]) = Some out1" "written out1 (pos + length as + 1) ls out2"
  shows "written out pos (as @ [0x0A] @ ls) out2"
proof (cases ls)
  case Nil
  with assms show ?thesis by (simp add: written_def)
next
  case (Cons y ys)
  have "put out pos ((as @ [0x0A]) @ [0]) = Some out1" using assms(1) by simp
  from put_overwrite [OF this, of y "ys @ [0]"] assms(2) Cons show ?thesis by (simp add: written_def)
qed

lemma written_length: "written out pos ls out' \<Longrightarrow> length out' = length out"
  by (auto simp: written_def dest: put_length split: if_splits)

lemma written_take:
  assumes "written out pos ls out'" "pos + length ls \<le> length out"
  shows "take (pos + length ls) out' = take pos out @ ls"
proof (cases "ls = []")
  case False
  then have p: "put out pos (ls @ [0]) = Some out'" using assms by (simp add: written_def)
  from arg_cong [OF put_take(2) [OF p], of "take (pos + length ls)"] p show ?thesis by (simp add: put_iff min_def)
qed (use assms in \<open>simp add: written_def\<close>)

lemma no_overflow: "unat tot + 65 < 2 ^ 64 \<Longrightarrow> \<not> tot + 64 + 1 < (tot :: size_t)"
  using unat_add_of_nat [of tot 65] by (simp add: word_less_nat_alt add.assoc)

lemma encode_lines_full:
  "pos + length (full_lines inp) < length out \<or> full_lines inp = [] \<Longrightarrow> unat tot + length (full_lines inp) < 2 ^ 64 \<Longrightarrow>
    \<exists>out'. encode_lines out pos tot inp = Some (out', Some (tot + of_nat (length (full_lines inp))),
        drop (length inp div 48 * 48) inp) \<and> written out pos (full_lines inp) out'"
proof (induction inp arbitrary: out pos tot rule: chunk_induct)
  case (short src)
  then show ?case by (simp add: encode_lines.simps [of out pos tot src] written_def)
next
  case (chunk a b)
  have lines: "full_lines (a @ b) = encode_bytes a @ [0x0A] @ full_lines b" using chunk(1) by (rule full_lines_chunk)
  have n: "length (encode_bytes a) = 64" using chunk(1) by simp
  have room: "pos + 65 + length (full_lines b) < length out" using chunk(3) n by (simp add: lines)
  then obtain out2 where o2: "put out pos (encode_bytes a @ [0x0A, 0]) = Some out2"
    using put_fits [of pos "encode_bytes a @ [0x0A, 0]" out] n by auto
  obtain out1 where o1: "EVP_EncodeBlock out pos a = Some (out1, 64)" "put out1 (pos + 64) [0x0A, 0] = Some out2"
    using encode_line(2) [OF chunk(1) o2] by auto
  have t: "unat tot + 65 + length (full_lines b) < 2 ^ 64" using chunk(4) n by (simp add: lines)
  then have nov: "\<not> tot + 64 + 1 < tot" by (intro no_overflow) simp
  have "unat (tot + 65) = unat tot + 65" using t unat_add_of_nat [of tot 65] by simp
  with chunk(2) [of "pos + 65" out2 "tot + 65"] room t put_length [OF o2] obtain out3 where
    IH: "encode_lines out2 (pos + 65) (tot + 65) b = Some (out3, Some (tot + 65 + of_nat (length (full_lines b))),
        drop (length b div 48 * 48) b)" "written out2 (pos + 65) (full_lines b) out3" by auto
  have "encode_lines out pos tot (a @ b) = encode_lines out2 (pos + 65) (tot + 65) b"
  proof -
    have u: "unat (64 :: size_t) = 64" and t: "tot + 64 + 1 = tot + 65" and p: "pos + 64 + 1 = pos + 65"
      by (simp_all add: add.assoc)
    have ab: "take 48 (a @ b) = a" "drop 48 (a @ b) = b" "(48 \<le> length (a @ b)) = True"
      using chunk(1) by simp_all
    show ?thesis unfolding encode_lines.simps [of out pos tot "a @ b"] ab
      by (simp only: o1 u t p nov [unfolded t] bind.bind_lunit prod.case if_True if_False)
  qed
  moreover have "written out pos (full_lines (a @ b)) out3"
    unfolding lines by (rule written_append [OF o2]) (use IH(2) n in \<open>simp add: add.commute\<close>)
  ultimately show ?case using IH(1) chunk(1) n by (simp add: lines div_chunk add.assoc)
qed

lemma put_data:
  assumes "length d = 48" "n + length bs \<le> 48"
  shows "\<exists>d'. put d n bs = Some d' \<and> length d' = 48 \<and> take (n + length bs) d' = take n d @ bs"
proof -
  obtain d' where p: "put d n bs = Some d'" using assms put_fits [of n bs d] by auto
  show ?thesis using p put_length [OF p] put_take(2) [OF p] assms(1) by auto
qed

text \<open>The last step of the encoder: what is left of the input goes to the context.\<close>

definition keep_rest :: "evp_encode_ctx \<Rightarrow> byte list \<times> size_t option \<times> byte list
    \<Rightarrow> (evp_encode_ctx \<times> byte list \<times> size_t) option" where
  "keep_rest ctx = (\<lambda>(out, tot, inp). case tot of
     None \<Rightarrow> Some (ctx, out, 0)
   | Some tot \<Rightarrow> do {
       d \<leftarrow> (if inp \<noteq> [] then put (data ctx) 0 inp else Some (data ctx));
       Some (ctx\<lparr>data := d, data_used := length inp\<rparr>, out, if tot > INT_MAX then 0 else tot) })"

lemma keep_rest:
  assumes "length (data ctx) = 48" "length inp < 48" "n \<le> 2147483647"
  shows "\<exists>ctx'. keep_rest ctx (out, Some (of_nat n), inp) = Some (ctx', out, of_nat n) \<and> ctx_ok ctx' \<and> pending ctx' = inp"
proof -
  have nov: "\<not> of_nat n > INT_MAX" using assms(3) by (simp add: word_less_nat_alt unat_of_nat_64)
  show ?thesis
  proof (cases "inp = []")
    case True
    with assms nov show ?thesis by (auto simp: keep_rest_def ctx_ok_def pending_def)
  next
    case False
    obtain d' where d: "put (data ctx) 0 inp = Some d'" "length d' = 48" "take (length inp) d' = inp"
      using put_data [of "data ctx" 0 inp] assms by auto
    with False assms nov show ?thesis by (auto simp: keep_rest_def ctx_ok_def pending_def)
  qed
qed

lemma encode_update_short:
  assumes "ctx_ok ctx" "data_used ctx + length inp < 48"
  shows "\<exists>ctx'. EVP_EncodeUpdate ctx out inp = Some (ctx', out, 0) \<and> ctx_ok ctx' \<and> pending ctx' = pending ctx @ inp"
proof (cases "inp = []")
  case True
  with assms show ?thesis by (auto simp: EVP_EncodeUpdate_def ctx_ok_def)
next
  case False
  obtain d' where d: "put (data ctx) (data_used ctx) inp = Some d'" "length d' = 48"
      "take (data_used ctx + length inp) d' = take (data_used ctx) (data ctx) @ inp"
    using put_data [of "data ctx" "data_used ctx" inp] assms by (auto simp: ctx_ok_def)
  have l: "48 - data_used ctx > length inp" using assms(2) by simp
  from d False assms(1, 2) l show ?thesis by (auto simp: EVP_EncodeUpdate_def ctx_ok_def pending_def)
qed


lemma encode_update_empty:
  "data_used ctx = 0 \<Longrightarrow> 48 \<le> length inp \<Longrightarrow>
    EVP_EncodeUpdate ctx out inp = Option.bind (encode_lines out 0 0 inp) (keep_rest ctx)"
  by (auto simp: EVP_EncodeUpdate_def keep_rest_def split: Option.bind_split)

lemma encode_update_fill:
  assumes "0 < data_used ctx" "data_used ctx < 48" "48 \<le> data_used ctx + length inp"
    "put (data ctx) (data_used ctx) (take (48 - data_used ctx) inp) = Some d" "length d = 48"
    "put out 0 (encode_bytes d @ [0x0A, 0]) = Some out1"
  shows "EVP_EncodeUpdate ctx out inp = Option.bind (encode_lines out1 65 65 (drop (48 - data_used ctx) inp))
    (keep_rest (ctx\<lparr>data := d, data_used := 0\<rparr>))"
proof -
  obtain out0 where o: "EVP_EncodeBlock out 0 d = Some (out0, 64)" "put out0 (0 + 64) [0x0A, 0] = Some out1"
    using encode_line(2) [OF assms(5, 6)] by auto
  have u: "unat (64 :: size_t) = 64" by simp
  have i: "(inp = []) = False" "(\<not> data_used ctx < 48) = False" "(48 - data_used ctx > length inp) = False"
    "(data_used ctx \<noteq> 0) = True" using assms(1-3) by auto
  have n: "(64 :: nat) + 1 = 65" "(64 :: size_t) + 1 = 65" by simp_all
  show ?thesis
    unfolding EVP_EncodeUpdate_def Let_def keep_rest_def i if_False if_True assms(4)
    by (simp only: o [unfolded add_0] u n bind.bind_lunit prod.case)
qed

lemma encode_update:
  assumes "ctx_ok ctx" "full = pending ctx @ inp" "length (full_lines full) < length out \<or> full_lines full = []"
    "length (full_lines full) \<le> 2147483647"
  shows "\<exists>ctx' out'. EVP_EncodeUpdate ctx out inp = Some (ctx', out', of_nat (length (full_lines full)))
    \<and> ctx_ok ctx' \<and> pending ctx' = drop (length full div 48 * 48) full \<and> written out 0 (full_lines full) out'"
proof (cases "data_used ctx + length inp < 48")
  case True
  then have "length full < 48" using assms(1, 2) by (simp add: ctx_ok_def pending_def)
  with encode_update_short [OF assms(1) True, of out] assms(2) show ?thesis by (auto simp: written_def)
next
  case long: False
  show ?thesis
  proof (cases "data_used ctx = 0")
    case True
    then have f: "full = inp" using assms(2) by (simp add: pending_def)
    obtain out' where e: "encode_lines out 0 0 inp = Some (out', Some (of_nat (length (full_lines inp))),
        drop (length inp div 48 * 48) inp)" "written out 0 (full_lines inp) out'"
      using encode_lines_full [of 0 inp out 0] assms(3, 4) f by auto
    obtain ctx' where "keep_rest ctx (out', Some (of_nat (length (full_lines inp))), drop (length inp div 48 * 48) inp)
        = Some (ctx', out', of_nat (length (full_lines inp)))" "ctx_ok ctx'" "pending ctx' = drop (length inp div 48 * 48) inp"
      using keep_rest [of ctx "drop (length inp div 48 * 48) inp" "length (full_lines inp)" out'] assms(1, 4) f
      by (auto simp: ctx_ok_def minus_div_mult_eq_mod)
    with e show ?thesis using encode_update_empty [OF True, of inp out] long True f by auto
  next
    case False
    define todo where "todo = 48 - data_used ctx"
    have n: "data_used ctx + length (take todo inp) = 48" "data_used ctx < 48" "length (data ctx) = 48"
      using long assms(1) by (auto simp: todo_def ctx_ok_def min_def)
    obtain d where d: "put (data ctx) (data_used ctx) (take todo inp) = Some d" "length d = 48" "d = pending ctx @ take todo inp"
      using put_data [of "data ctx" "data_used ctx" "take todo inp"] n by (auto simp: pending_def)
    define rest where "rest = drop todo inp"
    have f: "full = d @ rest" using assms(2) d(3) by (simp add: rest_def)
    have lines: "full_lines full = encode_bytes d @ [0x0A] @ full_lines rest" using full_lines_chunk [OF d(2)] f by simp
    have l: "length (full_lines full) = 65 + length (full_lines rest)" using lines d(2) by simp
    have room: "65 + length (full_lines rest) < length out" using assms(3) l lines by auto
    then obtain out1 where o: "put out 0 (encode_bytes d @ [0x0A, 0]) = Some out1"
      using put_fits [of 0 "encode_bytes d @ [0x0A, 0]" out] d(2) by auto
    obtain out' where e: "encode_lines out1 65 65 rest = Some (out', Some (65 + of_nat (length (full_lines rest))),
        drop (length rest div 48 * 48) rest)" "written out1 65 (full_lines rest) out'"
      using encode_lines_full [of 65 rest out1 65] room put_length [OF o] assms(4) l by auto
    define ctx1 where "ctx1 = ctx\<lparr>data := d, data_used := 0\<rparr>"
    obtain ctx' where k: "keep_rest ctx1 (out', Some (of_nat (length (full_lines full))), drop (length rest div 48 * 48) rest)
        = Some (ctx', out', of_nat (length (full_lines full)))" "ctx_ok ctx'"
        "pending ctx' = drop (length rest div 48 * 48) rest"
      using keep_rest [of ctx1 "drop (length rest div 48 * 48) rest" "length (full_lines full)" out'] assms(4) d(2)
      by (auto simp: ctx1_def minus_div_mult_eq_mod)
    have "written out 0 (full_lines full) out'"
      unfolding lines by (rule written_append [OF o]) (use e(2) d(2) in simp)
    moreover have "EVP_EncodeUpdate ctx out inp = Some (ctx', out', of_nat (length (full_lines full)))"
      using encode_update_fill [OF _ n(2) _ d(1) [unfolded todo_def] d(2) o] False long e(1) k(1) l
      by (simp add: rest_def todo_def ctx1_def)
    moreover have "drop (length full div 48 * 48) full = drop (length rest div 48 * 48) rest"
      using f d(2) by (simp add: div_chunk)
    ultimately show ?thesis using k by simp
  qed
qed


lemma above_INT_MAX: "n < 2 ^ 64 \<Longrightarrow> INT_MAX < of_nat n \<longleftrightarrow> 2147483647 < n"
proof -
  assume "n < 2 ^ 64"
  then have "unat (of_nat n :: size_t) = n" by (simp add: unat_of_nat_64)
  moreover have "unat INT_MAX = 2147483647" by simp
  ultimately show ?thesis unfolding word_less_nat_alt by (simp only:)
qed

lemma encode_final:
  assumes "ctx_ok ctx" "66 \<le> length out"
  shows "\<exists>ctx' out'. EVP_EncodeFinal ctx out = Some (ctx', out', of_nat (length (pem_lines (pending ctx))))
    \<and> take (length (pem_lines (pending ctx))) out' = pem_lines (pending ctx)"
proof (cases "data_used ctx = 0")
  case True
  then show ?thesis by (simp add: EVP_EncodeFinal_def pending_def)
next
  case False
  have p: "0 < length (pending ctx)" "length (pending ctx) < 48" using assms(1) False by (auto simp: ctx_ok_def pending_def)
  let ?cs = "encode_bytes (pending ctx)"
  have lines: "pem_lines (pending ctx) = ?cs @ [0x0A]" using p by (simp add: pem_lines_short)
  have n: "length ?cs \<le> 64" using p by simp
  obtain out1 where o1: "put out 0 (?cs @ [0]) = Some out1" "EVP_EncodeBlock out 0 (pending ctx) = Some (out1, of_nat (length ?cs))"
    using encode_block [of 0 "pending ctx" out] n assms(2) by auto
  obtain out2 where o2: "put out1 (length ?cs) [0x0A] = Some out2"
    using put_fits [of "length ?cs" "[0x0A]" out1] put_length [OF o1(1)] n assms(2) by auto
  then have o2': "put out 0 (?cs @ [0x0A]) = Some out2" using put_overwrite [OF o1(1)] by simp
  obtain out3 where o3: "put out2 (length ?cs + 1) [0] = Some out3"
    using put_fits [of "length ?cs + 1" "[0]" out2] put_length [OF o2] put_length [OF o1(1)] n assms(2) by auto
  have u: "unat (of_nat (length ?cs) :: size_t) = length ?cs" using n by (intro unat_of_nat_64) linarith
  have m: "\<not> of_nat (length ?cs) + 1 > INT_MAX"
    using n above_INT_MAX [of "length ?cs + 1"] by (simp add: add.commute del: length_encode)
  have "EVP_EncodeFinal ctx out = Some (ctx\<lparr>data_used := 0\<rparr>, out3, of_nat (length ?cs) + 1)"
    using False assms(1) o1(2) o2 o3 m by (simp add: EVP_EncodeFinal_def ctx_ok_def u flip: pending_def del: length_encode)
  moreover have "take (length ?cs + 1) out3 = ?cs @ [0x0A]"
    using put_take(1) [OF o3, of "length ?cs + 1"] put_take(2) [OF o2'] by simp
  ultimately show ?thesis by (simp add: lines del: length_encode)
qed

text \<open>A whole run of the encoder: each call has an output buffer and an input.\<close>

fun run_encoder :: "evp_encode_ctx \<Rightarrow> (byte list \<times> byte list) list \<Rightarrow> byte list \<Rightarrow> byte list option" where
  "run_encoder ctx [] fin = do { (ctx, out, n) \<leftarrow> EVP_EncodeFinal ctx fin; Some (take (unat n) out) }"
| "run_encoder ctx ((out, inp) # calls) fin = do {
     (ctx, out, n) \<leftarrow> EVP_EncodeUpdate ctx out inp;
     rest \<leftarrow> run_encoder ctx calls fin;
     Some (take (unat n) out @ rest) }"

definition room_for :: "byte list \<Rightarrow> byte list \<Rightarrow> bool" where
  "room_for out inp \<longleftrightarrow> 65 * ((47 + length inp) div 48) < length out \<and> 65 * ((47 + length inp) div 48) \<le> 2147483647"

lemma run_encoder:
  "ctx_ok ctx \<Longrightarrow> list_all (\<lambda>(out, inp). room_for out inp) calls \<Longrightarrow> 66 \<le> length fin \<Longrightarrow>
    run_encoder ctx calls fin = Some (pem_lines (pending ctx @ concat (map snd calls)))"
proof (induction calls arbitrary: ctx)
  case Nil
  obtain ctx' out' where "EVP_EncodeFinal ctx fin = Some (ctx', out', of_nat (length (pem_lines (pending ctx))))"
      "take (length (pem_lines (pending ctx))) out' = pem_lines (pending ctx)"
    using encode_final Nil by blast
  moreover have "length (pem_lines (pending ctx)) < 2 ^ 64"
    using Nil(1) pem_lines_short [of "pending ctx"] by (cases "pending ctx = []") (auto simp: ctx_ok_def pending_def)
  ultimately show ?case by (simp add: unat_of_nat_64)
next
  case (Cons call calls)
  obtain out inp where c: "call = (out, inp)" by force
  let ?full = "pending ctx @ inp"
  have "length ?full \<le> 47 + length inp" using Cons(2) by (auto simp: ctx_ok_def pending_def)
  then have "length (full_lines ?full) \<le> 65 * ((47 + length inp) div 48)"
    unfolding length_full_lines by (intro mult_le_mono2 div_le_mono)
  then have room: "length (full_lines ?full) < length out" "length (full_lines ?full) \<le> 2147483647"
    using Cons(3) c by (auto simp: room_for_def)
  obtain ctx' out' where u: "EVP_EncodeUpdate ctx out inp = Some (ctx', out', of_nat (length (full_lines ?full)))"
      "ctx_ok ctx'" "pending ctx' = drop (length ?full div 48 * 48) ?full" "written out 0 (full_lines ?full) out'"
    using encode_update [OF Cons(2) refl] room by blast
  have t: "take (length (full_lines ?full)) out' = full_lines ?full"
    using written_take [OF u(4)] room by simp
  have "run_encoder ctx' calls fin = Some (pem_lines (pending ctx' @ concat (map snd calls)))"
    using Cons u(2) by simp
  moreover have "full_lines ?full @ pem_lines (pending ctx' @ concat (map snd calls))
      = pem_lines (?full @ concat (map snd calls))"
    using pem_lines_append [of ?full "concat (map snd calls)"] u(3) by simp
  ultimately show ?case using u(1) t room c by (simp add: unat_of_nat_64)
qed


section \<open>Streaming decoder\<close>

text \<open>\<open>decode_text\<close>: the decoder as a function to bytes, without the output buffer.\<close>

abbreviation whitespace :: "byte \<Rightarrow> bool" where
  "whitespace c \<equiv> c \<in> {0x20, 0x09, 0x0D, 0x0A}"

fun decode_text :: "evp_encode_ctx \<Rightarrow> byte list \<Rightarrow> (evp_encode_ctx \<times> byte list \<times> bool) option" where
  "decode_text ctx [] = Some (ctx, [], True)"
| "decode_text ctx (c # inp) =
     (if whitespace c then decode_text ctx inp
      else if eof_seen ctx then Some (ctx\<lparr>error_encountered := True\<rparr>, [], False)
      else do {
        d \<leftarrow> put (data ctx) (data_used ctx) [c];
        let ctx = ctx\<lparr>data := d, data_used := data_used ctx + 1\<rparr> in
        if data_used ctx = 4 then
          (case base64_decode_quad (d ! 0) (d ! 1) (d ! 2) (d ! 3) of
             None \<Rightarrow> Some (ctx\<lparr>error_encountered := True\<rparr>, [], False)
           | Some bs \<Rightarrow> do {
               (ctx, bs', ok) \<leftarrow> decode_text (ctx\<lparr>data_used := 0, eof_seen := (length bs < 3 \<or> eof_seen ctx)\<rparr>) inp;
               Some (ctx, bs @ bs', ok) })
        else decode_text ctx inp })"

definition dec_ok :: "evp_encode_ctx \<Rightarrow> bool" where
  "dec_ok ctx \<longleftrightarrow> length (data ctx) = 48 \<and> data_used ctx < 4"

lemma decode_chars_text:
  "pos \<le> length out \<Longrightarrow> decode_chars ctx out pos inp = do {
     (ctx, bs, ok) \<leftarrow> decode_text ctx inp;
     out \<leftarrow> put out pos bs;
     Some (ctx, out, pos + length bs, ok) }"
proof (induction inp arbitrary: ctx out pos)
  case Nil
  then show ?case by (simp add: put_def)
next
  case (Cons c inp)
  define ctx1 where "ctx1 d = ctx\<lparr>data := d, data_used := data_used ctx + 1\<rparr>" for d
  define ctx2 where "ctx2 d bs = (ctx1 d)\<lparr>data_used := 0, eof_seen := length bs < 3 \<or> eof_seen (ctx1 d)\<rparr>" for d and bs :: "byte list"
  consider "whitespace c" | "\<not> whitespace c" "eof_seen ctx" | "\<not> whitespace c" "\<not> eof_seen ctx" "put (data ctx) (data_used ctx) [c] = None"
    | d where "\<not> whitespace c" "\<not> eof_seen ctx" "put (data ctx) (data_used ctx) [c] = Some d" by fastforce
  then show ?case
  proof cases
    case 4
    show ?thesis
    proof (cases "data_used ctx + 1 = 4 \<and> (\<exists>bs. base64_decode_quad (d ! 0) (d ! 1) (d ! 2) (d ! 3) = Some bs)")
      case True
      then obtain bs where q: "base64_decode_quad (d ! 0) (d ! 1) (d ! 2) (d ! 3) = Some bs" by blast
      have t: "decode_text ctx (c # inp) = Option.bind (decode_text (ctx2 d bs) inp) (\<lambda>(ctx, bs', ok). Some (ctx, bs @ bs', ok))"
        using 4 True q by (simp add: Let_def ctx1_def ctx2_def)
      have c: "decode_chars ctx out pos (c # inp) = Option.bind (put out pos bs) (\<lambda>out. decode_chars (ctx2 d bs) out (pos + length bs) inp)"
        using 4 True q by (simp add: Let_def ctx1_def ctx2_def)
      show ?thesis
      proof (cases "put out pos bs")
        case None
        then have "put out pos (bs @ bs') = None" for bs' by (auto simp: put_def split: if_splits)
        with None show ?thesis unfolding t c by (auto split: Option.bind_split)
      next
        case (Some out1)
        then have "pos + length bs \<le> length out1" using put_length [OF Some] by (simp add: put_iff)
        with Some show ?thesis unfolding t c
          by (auto simp: Cons.IH put_append [of out pos bs] add.assoc split: Option.bind_split)
      qed
    next
      case False
      then show ?thesis using 4 Cons by (auto simp: Let_def put_def split: option.splits)
    qed
  qed (use Cons in \<open>auto simp: put_def\<close>)
qed

lemma decode_text_append:
  "decode_text ctx (xs @ ys) = do {
     (ctx, bs, ok) \<leftarrow> decode_text ctx xs;
     if ok then do { (ctx, bs', ok) \<leftarrow> decode_text ctx ys; Some (ctx, bs @ bs', ok) } else Some (ctx, bs, False) }"
  by (induction xs arbitrary: ctx) (auto simp: Let_def split: Option.bind_split option.splits if_splits)

lemma decode_text_filter: "decode_text ctx (filter (\<lambda>c. \<not> whitespace c) inp) = decode_text ctx inp"
proof (induction inp arbitrary: ctx)
  case (Cons c inp)
  then show ?case by (cases "whitespace c") (simp_all only: filter.simps decode_text.simps if_True if_False simp_thms)
qed simp

lemma decode_text_total:
  "dec_ok ctx \<Longrightarrow> \<exists>ctx' bs ok. decode_text ctx inp = Some (ctx', bs, ok) \<and> (ok \<longrightarrow> dec_ok ctx')
    \<and> length bs \<le> 3 * ((data_used ctx + length inp) div 4)
    \<and> (\<not> error_encountered ctx \<longrightarrow> error_encountered ctx' = (\<not> ok))"
proof (induction inp arbitrary: ctx)
  case Nil
  then show ?case by auto
next
  case (Cons c inp)
  have mono: "3 * ((data_used ctx + length inp) div 4) \<le> 3 * ((data_used ctx + length (c # inp)) div 4)"
    by (intro mult_le_mono2 div_le_mono) simp
  show ?case
  proof (cases "whitespace c \<or> eof_seen ctx")
    case True
    then show ?thesis
    proof (cases "whitespace c")
      case w: True
      obtain ctx' bs ok where r: "decode_text ctx inp = Some (ctx', bs, ok)" "ok \<longrightarrow> dec_ok ctx'"
          "length bs \<le> 3 * ((data_used ctx + length inp) div 4)"
          "\<not> error_encountered ctx \<longrightarrow> error_encountered ctx' = (\<not> ok)"
        using Cons.IH [OF Cons.prems] by blast
      have "decode_text ctx (c # inp) = Some (ctx', bs, ok)" using r(1) w by simp
      with r(2, 4) order_trans [OF r(3) mono] show ?thesis by blast
    next
      case False
      with True Cons.prems show ?thesis by (auto simp: dec_ok_def)
    qed
  next
    case False
    obtain d where d: "put (data ctx) (data_used ctx) [c] = Some d" "length d = 48"
      using Cons.prems put_data [of "data ctx" "data_used ctx" "[c]"] by (auto simp: dec_ok_def)
    define ctx1 where "ctx1 = ctx\<lparr>data := d, data_used := data_used ctx + 1\<rparr>"
    show ?thesis
    proof (cases "data_used ctx = 3")
      case full: True
      have dv: "(data_used ctx + length (c # inp)) div 4 = length inp div 4 + 1" using full by simp
      show ?thesis
      proof (cases "base64_decode_quad (d ! 0) (d ! 1) (d ! 2) (d ! 3)")
        case None
        with False d full show ?thesis by (auto simp: Let_def dec_ok_def)
      next
        case (Some bs)
        define ctx2 where "ctx2 = ctx1\<lparr>data_used := 0, eof_seen := (length bs < 3 \<or> eof_seen ctx1)\<rparr>"
        have "dec_ok ctx2" using d(2) by (simp add: ctx2_def ctx1_def dec_ok_def)
        from Cons.IH [OF this] obtain ctx' bs' ok where r: "decode_text ctx2 inp = Some (ctx', bs', ok)" "ok \<longrightarrow> dec_ok ctx'"
            "length bs' \<le> 3 * (length inp div 4)" "\<not> error_encountered ctx \<longrightarrow> error_encountered ctx' = (\<not> ok)"
          by (auto simp: ctx2_def ctx1_def)
        have "decode_text ctx (c # inp) = Some (ctx', bs @ bs', ok)"
          using False d Some full r(1) by (simp add: Let_def ctx2_def ctx1_def)
        with r quad_length [OF Some] show ?thesis unfolding dv by simp
      qed
    next
      case more: False
      then have "dec_ok ctx1" using Cons.prems d(2) by (simp add: ctx1_def dec_ok_def)
      from Cons.IH [OF this] False d more show ?thesis by (simp add: Let_def ctx1_def)
    qed
  qed
qed

lemma decode_update:
  assumes "dec_ok ctx" "\<not> error_encountered ctx" "3 * ((3 + length inp) div 4) \<le> length out" "length out \<le> 2147483647"
  shows "\<exists>ctx' bs ok out'. decode_text ctx inp = Some (ctx', bs, ok) \<and> (ok \<longrightarrow> dec_ok ctx') \<and> error_encountered ctx' = (\<not> ok)
    \<and> put out 0 bs = Some out' \<and> length bs \<le> length out
    \<and> EVP_DecodeUpdate ctx out inp = Some (ctx', out', if ok then length bs else 0,
        if ok then if eof_seen ctx' then 0 else 1 else - 1)"
proof -
  obtain ctx' bs ok where t: "decode_text ctx inp = Some (ctx', bs, ok)" "ok \<longrightarrow> dec_ok ctx'"
      "length bs \<le> 3 * ((data_used ctx + length inp) div 4)" "error_encountered ctx' = (\<not> ok)"
    using decode_text_total [OF assms(1)] assms(2) by blast
  have "(data_used ctx + length inp) div 4 \<le> (3 + length inp) div 4"
    using assms(1) by (intro div_le_mono) (simp add: dec_ok_def)
  then have l: "length bs \<le> length out" using t(3) assms(3) by linarith
  then obtain out' where p: "put out 0 bs = Some out'" using put_fits [of 0 bs out] by auto
  have "\<not> length bs > unat INT_MAX" using l assms(4) by simp
  then have "EVP_DecodeUpdate ctx out inp = Some (ctx', out', if ok then length bs else 0,
        if ok then if eof_seen ctx' then 0 else 1 else - 1)"
    using assms(2) t(1) p by (simp add: EVP_DecodeUpdate_def decode_chars_text)
  with t p l show ?thesis by blast
qed

lemma pad_not_space: "\<not> whitespace 0x3D"
  by simp

lemma encode_bytes_not_space: "filter (\<lambda>c. \<not> whitespace c) (encode_bytes src) = encode_bytes src"
  using encode_bytes_text [of src] by (simp add: filter_id_conv list_all_iff)

lemma encode_bytes_append: "length a mod 3 = 0 \<Longrightarrow> encode_bytes (a @ b) = encode_bytes a @ encode_bytes b"
proof (induction a rule: encode_bytes.induct)
  case (2 a b c rest)
  then have "length rest mod 3 = 0" by simp
  with 2 show ?case by (simp add: Let_def)
qed (auto simp: Let_def)

lemma pem_lines_text: "filter (\<lambda>c. \<not> whitespace c) (pem_lines src) = encode_bytes src"
proof (induction src rule: chunk_induct)
  case (short src)
  then show ?case using encode_bytes_not_space [of src] pem_lines_short [of src] by (cases "src = []") auto
next
  case (chunk a b)
  then show ?case using encode_bytes_append [of a b] encode_bytes_not_space [of a] by (simp add: pem_lines_chunk)
qed

lemma decode_text_group:
  assumes "dec_ok ctx" "data_used ctx = 0" "\<not> eof_seen ctx" "\<not> whitespace a" "\<not> whitespace b" "\<not> whitespace c" "\<not> whitespace d"
    "base64_decode_quad a b c d = Some bs"
  shows "\<exists>ctx'. dec_ok ctx' \<and> data_used ctx' = 0 \<and> eof_seen ctx' = (length bs < 3) \<and> error_encountered ctx' = error_encountered ctx
    \<and> decode_text ctx (a # b # c # d # rest) = map_option (\<lambda>(ctx, bs', ok). (ctx, bs @ bs', ok)) (decode_text ctx' rest)"
proof -
  obtain x1 x2 x3 x4 xs where d: "data ctx = x1 # x2 # x3 # x4 # xs" "length xs = 44"
    using assms(1) by (auto simp: dec_ok_def length_Suc_conv numeral_eq_Suc)
  have p: "put (data ctx) 0 [a] = Some (a # x2 # x3 # x4 # xs)" "put (a # x2 # x3 # x4 # xs) (Suc 0) [b] = Some (a # b # x3 # x4 # xs)"
    "put (a # b # x3 # x4 # xs) (Suc (Suc 0)) [c] = Some (a # b # c # x4 # xs)"
    "put (a # b # c # x4 # xs) (Suc (Suc (Suc 0))) [d] = Some (a # b # c # d # xs)"
    by (simp_all add: put_def d)
  define ctx' where "ctx' = ctx\<lparr>data := a # b # c # d # xs, data_used := 0, eof_seen := length bs < 3\<rparr>"
  have "decode_text ctx (a # b # c # d # rest) = map_option (\<lambda>(ctx, bs', ok). (ctx, bs @ bs', ok)) (decode_text ctx' rest)"
    using assms(2-) by (simp add: Let_def p ctx'_def map_option_case nth_Cons split: Option.bind_split)
  moreover have "dec_ok ctx'" "data_used ctx' = 0" "eof_seen ctx' = (length bs < 3)" "error_encountered ctx' = error_encountered ctx"
    using d by (simp_all add: ctx'_def dec_ok_def)
  ultimately show ?thesis by blast
qed

lemma decode_text_encode:
  "dec_ok ctx \<Longrightarrow> data_used ctx = 0 \<Longrightarrow> \<not> eof_seen ctx \<Longrightarrow> \<exists>ctx'. decode_text ctx (encode_bytes src) = Some (ctx', src, True)
    \<and> data_used ctx' = 0 \<and> error_encountered ctx' = error_encountered ctx"
proof (induction src arbitrary: ctx rule: encode_bytes.induct)
  case (2 a b c rest)
  obtain ctx1 where g: "dec_ok ctx1" "data_used ctx1 = 0" "\<not> eof_seen ctx1" "error_encountered ctx1 = error_encountered ctx"
      "decode_text ctx (encode_bytes (a # b # c # rest))
        = map_option (\<lambda>(ctx, bs', ok). (ctx, [a, b, c] @ bs', ok)) (decode_text ctx1 (encode_bytes rest))"
    using decode_text_group [OF 2(2-4) to_char_not_space to_char_not_space to_char_not_space to_char_not_space quad_3 [of a b c], of "encode_bytes rest"]
    by (auto simp: conv_eq Let_def)
  obtain ctx' where "decode_text ctx1 (encode_bytes rest) = Some (ctx', rest, True)" "data_used ctx' = 0"
      "error_encountered ctx' = error_encountered ctx1"
    using 2(1) [OF refl g(1-3)] by blast
  then show ?case unfolding g(5) by (simp add: g(4))
next
  case (3 a b)
  note g = decode_text_group [OF 3 to_char_not_space to_char_not_space to_char_not_space pad_not_space quad_2 [of a b], of "[]"]
  show ?case
    unfolding encode_bytes.simps Let_def conv_eq
    by (rule exE [OF g]) (simp only: decode_text.simps option.map prod.case append_Nil2, blast)
next
  case (4 a)
  note g = decode_text_group [OF 4 to_char_not_space to_char_not_space pad_not_space pad_not_space quad_1 [of a], of "[]"]
  show ?case
    unfolding encode_bytes.simps Let_def conv_eq
    by (rule exE [OF g]) (simp only: decode_text.simps option.map prod.case append_Nil2, blast)
qed simp

text \<open>A whole run of the decoder; it stops at the first call that reports an error.\<close>

fun run_decoder :: "evp_encode_ctx \<Rightarrow> (byte list \<times> byte list) list \<Rightarrow> byte list option option" where
  "run_decoder ctx [] = Some (if EVP_DecodeFinal ctx = 1 then Some [] else None)"
| "run_decoder ctx ((out, inp) # calls) = do {
     (ctx, out, n, r) \<leftarrow> EVP_DecodeUpdate ctx out inp;
     if r < 0 then Some None
     else do { rest \<leftarrow> run_decoder ctx calls; Some (map_option (\<lambda>bs. take n out @ bs) rest) } }"

definition dec_room :: "byte list \<Rightarrow> byte list \<Rightarrow> bool" where
  "dec_room out inp \<longleftrightarrow> 3 * ((3 + length inp) div 4) \<le> length out \<and> length out \<le> 2147483647"

lemma run_decoder:
  "dec_ok ctx \<Longrightarrow> \<not> error_encountered ctx \<Longrightarrow> list_all (\<lambda>(out, inp). dec_room out inp) calls \<Longrightarrow>
    decode_text ctx (concat (map snd calls)) = Some (ctx', bs, True) \<Longrightarrow> EVP_DecodeFinal ctx' = 1 \<Longrightarrow>
    run_decoder ctx calls = Some (Some bs)"
proof (induction calls arbitrary: ctx bs)
  case (Cons call calls)
  obtain out inp where c: "call = (out, inp)" by force
  obtain ctx1 bs1 ok out1 where u: "decode_text ctx inp = Some (ctx1, bs1, ok)" "ok \<longrightarrow> dec_ok ctx1"
      "error_encountered ctx1 = (\<not> ok)" "put out 0 bs1 = Some out1"
      "EVP_DecodeUpdate ctx out inp = Some (ctx1, out1, if ok then length bs1 else 0,
        if ok then if eof_seen ctx1 then 0 else 1 else - 1)"
    using decode_update [OF Cons.prems(1, 2), of inp out] Cons.prems(3) c by (auto simp: dec_room_def)
  have ok: "ok" using Cons.prems(4) c u(1) by (cases ok) (simp_all add: decode_text_append)
  with Cons.prems(4) c u(1) obtain bs2 where t: "decode_text ctx1 (concat (map snd calls)) = Some (ctx', bs2, True)" "bs = bs1 @ bs2"
    by (auto simp: decode_text_append split: Option.bind_splits)
  have "run_decoder ctx1 calls = Some (Some bs2)"
    using Cons.IH [OF _ _ _ t(1)] Cons.prems(3, 5) u(2, 3) ok by simp
  then show ?case using c u(5) ok t(2) put_take(2) [OF u(4)] by simp
qed simp

section \<open>The results\<close>

text \<open>C9: However the data is cut into calls of \<open>EVP_EncodeUpdate\<close>, the bytes the calls and
  \<open>EVP_EncodeFinal\<close> report are the lines of the whole input, when each output buffer has room for the
  lines its call may complete.
\<close>

theorem encoder_stream:
  assumes "list_all (\<lambda>(out, inp). room_for out inp) calls" "66 \<le> length fin"
  shows "run_encoder EVP_EncodeInit calls fin = Some (pem_lines (concat (map snd calls)))"
  using run_encoder [of EVP_EncodeInit calls fin] assms by (simp add: EVP_EncodeInit_def ctx_ok_def pending_def)

lemma encoder_stream_witness:
  "run_encoder EVP_EncodeInit [(replicate 66 0, [1, 2]), (replicate 131 0, replicate 50 7)] (replicate 66 0)
    = Some (pem_lines ([1, 2] @ replicate 50 7))"
  using encoder_stream [of "[(replicate 66 0, [1, 2]), (replicate 131 0, replicate 50 7)]" "replicate 66 0"]
  by (simp add: room_for_def)

text \<open>C8: The streaming decoder undoes the streaming encoder: whatever white space is added or removed and
  however the text is cut into calls, the calls report the original bytes, and no error.
\<close>

theorem decoder_stream:
  assumes "list_all (\<lambda>(out, inp). dec_room out inp) calls"
    "filter (\<lambda>c. \<not> whitespace c) (concat (map snd calls)) = filter (\<lambda>c. \<not> whitespace c) (pem_lines src)"
  shows "run_decoder EVP_DecodeInit calls = Some (Some src)"
proof -
  have i: "dec_ok EVP_DecodeInit" "data_used EVP_DecodeInit = 0" "\<not> eof_seen EVP_DecodeInit" "\<not> error_encountered EVP_DecodeInit"
    by (simp_all add: EVP_DecodeInit_def dec_ok_def)
  obtain ctx' where d: "decode_text EVP_DecodeInit (encode_bytes src) = Some (ctx', src, True)" "data_used ctx' = 0"
      "\<not> error_encountered ctx'"
    using decode_text_encode [OF i(1-3)] i(4) by blast
  have "decode_text EVP_DecodeInit (concat (map snd calls)) = decode_text EVP_DecodeInit (encode_bytes src)"
    unfolding pem_lines_text [symmetric] assms(2) [symmetric] by (rule decode_text_filter [symmetric])
  with d show ?thesis by (intro run_decoder [OF i(1, 4) assms(1)]) (simp_all add: EVP_DecodeFinal_def)
qed

lemma decoder_stream_witness:
  "run_decoder EVP_DecodeInit [([9, 9, 9, 9, 9, 9, 9, 9, 9], [0x54, 0x57, 0x0A, 0x46]), ([9, 9, 9, 9, 9, 9, 9, 9, 9], [0x75, 0x49, 0x51, 0x3D, 0x3D, 0x0A])]
    = Some (Some [77, 97, 110, 33])"
proof (rule decoder_stream)
  have "pem_lines [77, 97, 110, 33] = encode_bytes [77, 97, 110, 33] @ [0x0A]" by (rule pem_lines_short) simp_all
  moreover have "encode_bytes [77, 97, 110, 33] = [0x54, 0x57, 0x46, 0x75, 0x49, 0x51, 0x3D, 0x3D]" by code_simp
  ultimately show "filter (\<lambda>c. \<not> whitespace c) (concat (map snd [([9, 9, 9, 9, 9, 9, 9, 9, 9 :: byte], [0x54, 0x57, 0x0A, 0x46]), ([9, 9, 9, 9, 9, 9, 9, 9, 9], [0x75, 0x49, 0x51, 0x3D, 0x3D, 0x0A])]))
    = filter (\<lambda>c. \<not> whitespace c) (pem_lines [77, 97, 110, 33])" by simp
qed (simp add: dec_room_def)

text \<open>C35: \<open>EVP_DecodeUpdate\<close> is safe on any input and latches errors: on a context that is well formed
  or already in the error state it returns, its writes stay within the room for the groups the input
  can complete, its result is -1 exactly when the context is left in the error state, and the context
  is left well formed or in the error state, so the next call is covered too; in the error state it
  answers -1, reports no bytes and changes neither the context nor the output buffer.
\<close>

theorem decode_update_safe:
  assumes "dec_ok ctx \<or> error_encountered ctx" "dec_room out inp"
  shows "\<exists>ctx' bs n r. EVP_DecodeUpdate ctx out inp = Some (ctx', bs @ drop (length bs) out, n, r)
    \<and> length bs \<le> length out \<and> n \<le> length bs \<and> (r = - 1) = error_encountered ctx'
    \<and> (if error_encountered ctx then ctx' = ctx \<and> bs = [] \<and> n = 0 \<and> r = - 1
       else dec_ok ctx' \<or> r = - 1 \<and> n = 0)"
proof (cases "error_encountered ctx")
  case True
  then show ?thesis by (auto simp: EVP_DecodeUpdate_def intro!: exI [of _ ctx] exI [of _ "[]"])
next
  case False
  with assms(1) have "dec_ok ctx" by simp
  then obtain ctx' bs ok out' where "ok \<longrightarrow> dec_ok ctx'" "error_encountered ctx' = (\<not> ok)" "put out 0 bs = Some out'" "length bs \<le> length out"
      "EVP_DecodeUpdate ctx out inp = Some (ctx', out', if ok then length bs else 0,
        if ok then if eof_seen ctx' then 0 else 1 else - 1)"
    using decode_update [OF _ False, of inp out] assms(2) by (auto simp: dec_room_def)
  moreover from this have "out' = bs @ drop (length bs) out" by (simp add: put_iff)
  ultimately show ?thesis using False by (intro exI [of _ ctx'] exI [of _ bs]) auto
qed

lemma decode_update_safe_witness:
  "\<exists>ctx' bs n r. EVP_DecodeUpdate EVP_DecodeInit [9, 9, 9] [0x21] = Some (ctx', bs @ drop (length bs) [9, 9, 9], n, r)
    \<and> length bs \<le> length [9 :: byte, 9, 9] \<and> n \<le> length bs \<and> (r = - 1) = error_encountered ctx'
    \<and> (if error_encountered EVP_DecodeInit then ctx' = EVP_DecodeInit \<and> bs = [] \<and> n = 0 \<and> r = - 1
       else dec_ok ctx' \<or> r = - 1 \<and> n = 0)"
  by (rule decode_update_safe) (simp_all add: dec_ok_def EVP_DecodeInit_def dec_room_def)

end
