(* ===== verification/Cbs.thy ===== *)
theory Cbs
  imports Prelude
begin

text \<open>
  BoringSSL's byte-string reader (\<open>crypto/bytestring/cbs.c\<close>): a \<open>CBS\<close> is the list of the bytes it still
  spans. A reading function answers its result, or nothing where the code returns zero, together with
  the \<open>CBS\<close> it leaves behind, which the code may have advanced before it fails. Lengths are natural
  numbers, but where the code computes with a \<open>size_t\<close> or a \<open>uint64_t\<close> it does so on words.
\<close>

type_synonym u16 = "16 word"
type_synonym 'a parsed = "'a option \<times> byte list"

definition bind_cbs :: "'a parsed \<Rightarrow> ('a \<Rightarrow> byte list \<Rightarrow> 'b parsed) \<Rightarrow> 'b parsed" where
  "bind_cbs r f = (case r of (None, cbs) \<Rightarrow> (None, cbs) | (Some x, cbs) \<Rightarrow> f x cbs)"

lemma bind_cbs_simps [simp]: "bind_cbs (Some x, cbs) f = f x cbs" "bind_cbs (None, cbs) f = (None, cbs)"
  by (simp_all add: bind_cbs_def)

lemma bind_cbs_split: "P (bind_cbs r f) \<longleftrightarrow>
    (\<forall>cbs. r = (None, cbs) \<longrightarrow> P (None, cbs)) \<and> (\<forall>x cbs. r = (Some x, cbs) \<longrightarrow> P (f x cbs))"
  by (cases r; cases "fst r") auto

section \<open>Helpers of internal.h and mem.c\<close>

definition CRYPTO_bswap2 :: "u16 \<Rightarrow> u16" where
  "CRYPTO_bswap2 x = drop_bit 8 x OR push_bit 8 x"

definition CRYPTO_bswap4 :: "u32 \<Rightarrow> u32" where
  "CRYPTO_bswap4 x = (let x = drop_bit 16 x OR push_bit 16 x in
     drop_bit 8 (x AND 0xff00ff00) OR push_bit 8 (x AND 0x00ff00ff))"

definition CRYPTO_bswap8 :: "u64 \<Rightarrow> u64" where
  "CRYPTO_bswap8 x = ucast (CRYPTO_bswap4 (ucast (drop_bit 32 x))) OR push_bit 32 (ucast (CRYPTO_bswap4 (ucast x)))"

definition CRYPTO_load_u64_le :: "byte list \<Rightarrow> u64" where
  "CRYPTO_load_u64_le bs = le_word (take 8 bs)"

definition CRYPTO_load_u64_be :: "byte list \<Rightarrow> u64" where
  "CRYPTO_load_u64_be bs = CRYPTO_bswap8 (le_word (take 8 bs))"

definition CRYPTO_memcmp :: "byte list \<Rightarrow> byte list \<Rightarrow> byte" where
  "CRYPTO_memcmp a b = foldl (\<lambda>x (p, q). x OR (p XOR q)) 0 (zip a b)"

definition OPENSSL_isdigit :: "byte \<Rightarrow> bool" where
  "OPENSSL_isdigit c \<longleftrightarrow> 0x30 \<le> c \<and> c \<le> 0x39"

definition OPENSSL_strnlen :: "byte list \<Rightarrow> nat" where
  "OPENSSL_strnlen s = length (takeWhile (\<lambda>c. c \<noteq> 0) s)"

text \<open>\<open>alloc n\<close>: whether libc has \<open>n\<close> bytes.\<close>

definition OPENSSL_strndup :: "(nat \<Rightarrow> bool) \<Rightarrow> byte list \<Rightarrow> byte list option" where
  "OPENSSL_strndup alloc str = (let size = OPENSSL_strnlen str in
     if alloc (size + 1) then Some (take size str @ [0]) else None)"

section \<open>Bytes and integers\<close>

definition cbs_get :: "nat \<Rightarrow> byte list \<Rightarrow> byte list parsed" where
  "cbs_get n cbs = (if length cbs < n then (None, cbs) else (Some (take n cbs), drop n cbs))"

definition CBS_skip :: "nat \<Rightarrow> byte list \<Rightarrow> unit parsed" where
  "CBS_skip len cbs = bind_cbs (cbs_get len cbs) (\<lambda>_ cbs. (Some (), cbs))"

definition CBS_stow :: "(nat \<Rightarrow> bool) \<Rightarrow> byte list \<Rightarrow> byte list option option" where
  "CBS_stow alloc cbs =
     (if cbs = [] then Some None
      else if alloc (length cbs) then Some (Some cbs) else None)"

definition CBS_strdup :: "(nat \<Rightarrow> bool) \<Rightarrow> byte list \<Rightarrow> byte list option" where
  "CBS_strdup alloc cbs = OPENSSL_strndup alloc cbs"

definition CBS_contains_zero_byte :: "byte list \<Rightarrow> bool" where
  "CBS_contains_zero_byte cbs \<longleftrightarrow> 0 \<in> set cbs"

definition CBS_mem_equal :: "byte list \<Rightarrow> byte list \<Rightarrow> bool" where
  "CBS_mem_equal cbs data \<longleftrightarrow> (if length data \<noteq> length cbs then False else CRYPTO_memcmp cbs data = 0)"

definition be_loop :: "u64 \<Rightarrow> byte list \<Rightarrow> u64" where
  "be_loop result data = foldl (\<lambda>result b. push_bit 8 result OR ucast b) result data"

definition cbs_get_u :: "nat \<Rightarrow> byte list \<Rightarrow> u64 parsed" where
  "cbs_get_u len cbs = bind_cbs (cbs_get len cbs) (\<lambda>data cbs. (Some (be_loop 0 data), cbs))"

definition CBS_get_u8 :: "byte list \<Rightarrow> byte parsed" where
  "CBS_get_u8 cbs = bind_cbs (cbs_get 1 cbs) (\<lambda>v cbs. (Some (hd v), cbs))"

definition CBS_get_u16 :: "byte list \<Rightarrow> u16 parsed" where
  "CBS_get_u16 cbs = bind_cbs (cbs_get_u 2 cbs) (\<lambda>v cbs. (Some (ucast v), cbs))"

definition CBS_get_u16le :: "byte list \<Rightarrow> u16 parsed" where
  "CBS_get_u16le cbs = bind_cbs (CBS_get_u16 cbs) (\<lambda>v cbs. (Some (CRYPTO_bswap2 v), cbs))"

definition CBS_get_u24 :: "byte list \<Rightarrow> u32 parsed" where
  "CBS_get_u24 cbs = bind_cbs (cbs_get_u 3 cbs) (\<lambda>v cbs. (Some (ucast v), cbs))"

definition CBS_get_u32 :: "byte list \<Rightarrow> u32 parsed" where
  "CBS_get_u32 cbs = bind_cbs (cbs_get_u 4 cbs) (\<lambda>v cbs. (Some (ucast v), cbs))"

definition CBS_get_u32le :: "byte list \<Rightarrow> u32 parsed" where
  "CBS_get_u32le cbs = bind_cbs (CBS_get_u32 cbs) (\<lambda>v cbs. (Some (CRYPTO_bswap4 v), cbs))"

definition CBS_get_u64 :: "byte list \<Rightarrow> u64 parsed" where
  "CBS_get_u64 cbs = cbs_get_u 8 cbs"

definition CBS_get_u64le :: "byte list \<Rightarrow> u64 parsed" where
  "CBS_get_u64le cbs = bind_cbs (cbs_get_u 8 cbs) (\<lambda>v cbs. (Some (CRYPTO_bswap8 v), cbs))"

definition CBS_get_last_u8 :: "byte list \<Rightarrow> byte parsed" where
  "CBS_get_last_u8 cbs = (if cbs = [] then (None, cbs) else (Some (last cbs), butlast cbs))"

definition CBS_get_bytes :: "nat \<Rightarrow> byte list \<Rightarrow> byte list parsed" where
  "CBS_get_bytes len cbs = bind_cbs (cbs_get len cbs) (\<lambda>v cbs. (Some v, cbs))"

definition CBS_copy_bytes :: "nat \<Rightarrow> byte list \<Rightarrow> byte list parsed" where
  "CBS_copy_bytes len cbs = bind_cbs (cbs_get len cbs) (\<lambda>v cbs. (Some v, cbs))"

definition cbs_get_length_prefixed :: "nat \<Rightarrow> byte list \<Rightarrow> byte list parsed" where
  "cbs_get_length_prefixed len_len cbs =
     bind_cbs (cbs_get_u len_len cbs) (\<lambda>len cbs. CBS_get_bytes (unat len) cbs)"

definition CBS_get_u8_length_prefixed :: "byte list \<Rightarrow> byte list parsed" where
  "CBS_get_u8_length_prefixed cbs = cbs_get_length_prefixed 1 cbs"

definition CBS_get_u16_length_prefixed :: "byte list \<Rightarrow> byte list parsed" where
  "CBS_get_u16_length_prefixed cbs = cbs_get_length_prefixed 2 cbs"

definition CBS_get_u24_length_prefixed :: "byte list \<Rightarrow> byte list parsed" where
  "CBS_get_u24_length_prefixed cbs = cbs_get_length_prefixed 3 cbs"

definition CBS_get_until_first :: "byte \<Rightarrow> byte list \<Rightarrow> byte list parsed" where
  "CBS_get_until_first c cbs =
     (if c \<notin> set cbs then (None, cbs) else CBS_get_bytes (length (takeWhile (\<lambda>b. b \<noteq> c) cbs)) cbs)"

text \<open>The loop of \<open>CBS_get_u64_decimal\<close>: \<open>v\<close> and \<open>seen_digit\<close>, or nothing where it returns.\<close>

fun decimal_loop :: "u64 \<Rightarrow> bool \<Rightarrow> byte list \<Rightarrow> (u64 \<times> bool) parsed" where
  "decimal_loop v seen_digit [] = (Some (v, seen_digit), [])"
| "decimal_loop v seen_digit (c # cbs) =
     (if \<not> OPENSSL_isdigit c then (Some (v, seen_digit), c # cbs)
      else if (v = 0 \<and> seen_digit) \<or> v > (- 1) div 10 \<or> v * 10 > (- 1) - ucast (c - 0x30) then (None, cbs)
      else decimal_loop (v * 10 + ucast (c - 0x30)) True cbs)"

definition CBS_get_u64_decimal :: "byte list \<Rightarrow> u64 parsed" where
  "CBS_get_u64_decimal cbs = bind_cbs (decimal_loop 0 False cbs)
     (\<lambda>(v, seen_digit) cbs. (if seen_digit then Some v else None, cbs))"

section \<open>ASN.1 tags and lengths\<close>

type_synonym CBS_ASN1_TAG = u32

definition CBS_ASN1_TAG_SHIFT :: nat where "CBS_ASN1_TAG_SHIFT = 24"
definition CBS_ASN1_CONSTRUCTED :: CBS_ASN1_TAG where "CBS_ASN1_CONSTRUCTED = push_bit CBS_ASN1_TAG_SHIFT 0x20"
definition CBS_ASN1_TAG_NUMBER_MASK :: CBS_ASN1_TAG where
  "CBS_ASN1_TAG_NUMBER_MASK = push_bit (5 + CBS_ASN1_TAG_SHIFT) 1 - 1"
definition CBS_ASN1_BOOLEAN :: CBS_ASN1_TAG where "CBS_ASN1_BOOLEAN = 1"
definition CBS_ASN1_INTEGER :: CBS_ASN1_TAG where "CBS_ASN1_INTEGER = 2"
definition CBS_ASN1_OCTETSTRING :: CBS_ASN1_TAG where "CBS_ASN1_OCTETSTRING = 4"

fun base128_loop :: "u64 \<Rightarrow> byte list \<Rightarrow> u64 parsed" where
  "base128_loop v [] = (None, [])"
| "base128_loop v (b # cbs) =
     (if drop_bit (64 - 7) v \<noteq> 0 then (None, cbs)
      else if v = 0 \<and> b = 0x80 then (None, cbs)
      else let v = push_bit 7 v OR ucast (b AND 0x7f) in
        if b AND 0x80 \<noteq> 0 then base128_loop v cbs else (Some v, cbs))"

definition parse_base128_integer :: "byte list \<Rightarrow> u64 parsed" where
  "parse_base128_integer cbs = base128_loop 0 cbs"

definition parse_asn1_tag :: "byte list \<Rightarrow> CBS_ASN1_TAG parsed" where
  "parse_asn1_tag cbs = bind_cbs (CBS_get_u8 cbs) (\<lambda>tag_byte cbs.
     let tag = push_bit CBS_ASN1_TAG_SHIFT (ucast tag_byte AND 0xe0);
         tag_number = ucast tag_byte AND 0x1f;
         check = (\<lambda>tag_number cbs. let tag = tag OR tag_number in
           if tag AND NOT CBS_ASN1_CONSTRUCTED = 0 then (None, cbs) else (Some tag, cbs))
     in if tag_number = 0x1f then
          bind_cbs (parse_base128_integer cbs) (\<lambda>v cbs.
            if v > ucast CBS_ASN1_TAG_NUMBER_MASK \<or> v < 0x1f then (None, cbs) else check (ucast v) cbs)
        else check tag_number cbs)"

text \<open>
  An element: its bytes with the header, the tag, the length of the header, and the flags \<open>ber_found\<close>
  and \<open>indefinite\<close>, which the code only sets when \<open>ber_ok\<close>. The code reads the header on a copy.
\<close>

definition cbs_get_any_asn1_element ::
    "bool \<Rightarrow> byte list \<Rightarrow> (byte list \<times> CBS_ASN1_TAG \<times> nat \<times> bool \<times> bool) parsed" where
  "cbs_get_any_asn1_element ber_ok cbs = (case parse_asn1_tag cbs of
     (None, _) \<Rightarrow> (None, cbs)
   | (Some tag, header) \<Rightarrow> (case CBS_get_u8 header of
       (None, _) \<Rightarrow> (None, cbs)
     | (Some length_byte, header) \<Rightarrow>
         let header_len = length cbs - length header in
         if length_byte AND 0x80 = 0 then
           bind_cbs (CBS_get_bytes (unat length_byte + header_len) cbs)
             (\<lambda>out cbs. (Some (out, tag, header_len, False, False), cbs))
         else let num_bytes = unat (length_byte AND 0x7f) in
           if ber_ok \<and> tag AND CBS_ASN1_CONSTRUCTED \<noteq> 0 \<and> num_bytes = 0 then
             bind_cbs (CBS_get_bytes header_len cbs) (\<lambda>out cbs. (Some (out, tag, header_len, True, True), cbs))
           else if num_bytes = 0 \<or> num_bytes > 4 then (None, cbs)
           else (case cbs_get_u num_bytes header of
               (None, _) \<Rightarrow> (None, cbs)
             | (Some len64, _) \<Rightarrow>
                 let minimal = (\<not> len64 < 128 \<and> drop_bit ((num_bytes - 1) * 8) len64 \<noteq> 0) in
                 if \<not> minimal \<and> \<not> ber_ok then (None, cbs)
                 else if len64 + of_nat header_len + of_nat num_bytes < len64 then (None, cbs)
                 else bind_cbs (CBS_get_bytes (unat (len64 + (of_nat header_len + of_nat num_bytes))) cbs)
                   (\<lambda>out cbs. (Some (out, tag, header_len + num_bytes, \<not> minimal, False), cbs)))))"

definition CBS_get_any_asn1_element :: "byte list \<Rightarrow> (byte list \<times> CBS_ASN1_TAG \<times> nat) parsed" where
  "CBS_get_any_asn1_element cbs = bind_cbs (cbs_get_any_asn1_element False cbs)
     (\<lambda>(out, tag, header_len, _, _) cbs. (Some (out, tag, header_len), cbs))"

definition CBS_get_any_ber_asn1_element ::
    "byte list \<Rightarrow> (byte list \<times> CBS_ASN1_TAG \<times> nat \<times> bool \<times> bool) parsed" where
  "CBS_get_any_ber_asn1_element cbs = cbs_get_any_asn1_element True cbs"

definition CBS_get_any_asn1 :: "byte list \<Rightarrow> (byte list \<times> CBS_ASN1_TAG) parsed" where
  "CBS_get_any_asn1 cbs = bind_cbs (CBS_get_any_asn1_element cbs) (\<lambda>(out, tag, header_len) cbs.
     case CBS_skip header_len out of (None, _) \<Rightarrow> (None, cbs) | (Some _, out) \<Rightarrow> (Some (out, tag), cbs))"

definition cbs_get_asn1 :: "CBS_ASN1_TAG \<Rightarrow> bool \<Rightarrow> byte list \<Rightarrow> byte list parsed" where
  "cbs_get_asn1 tag_value skip_header cbs = bind_cbs (CBS_get_any_asn1_element cbs) (\<lambda>(out, tag, header_len) cbs.
     if tag \<noteq> tag_value then (None, cbs)
     else if skip_header then
       (case CBS_skip header_len out of (None, _) \<Rightarrow> (None, cbs) | (Some _, out) \<Rightarrow> (Some out, cbs))
     else (Some out, cbs))"

definition CBS_get_asn1 :: "CBS_ASN1_TAG \<Rightarrow> byte list \<Rightarrow> byte list parsed" where
  "CBS_get_asn1 tag_value cbs = cbs_get_asn1 tag_value True cbs"

definition CBS_get_asn1_element :: "CBS_ASN1_TAG \<Rightarrow> byte list \<Rightarrow> byte list parsed" where
  "CBS_get_asn1_element tag_value cbs = cbs_get_asn1 tag_value False cbs"

definition CBS_peek_asn1_tag :: "CBS_ASN1_TAG \<Rightarrow> byte list \<Rightarrow> bool" where
  "CBS_peek_asn1_tag tag_value cbs \<longleftrightarrow> fst (parse_asn1_tag cbs) = Some tag_value"

section \<open>ASN.1 values\<close>

text \<open>Nothing for an invalid integer, and whether it is negative otherwise.\<close>

definition CBS_is_valid_asn1_integer :: "byte list \<Rightarrow> bool option" where
  "CBS_is_valid_asn1_integer cbs = (case CBS_get_u8 cbs of
     (None, _) \<Rightarrow> None
   | (Some first_byte, copy) \<Rightarrow>
       let is_negative = (first_byte AND 0x80 \<noteq> 0) in
       (case CBS_get_u8 copy of
          (None, _) \<Rightarrow> Some is_negative
        | (Some second_byte, _) \<Rightarrow>
            if (first_byte = 0 \<and> second_byte AND 0x80 = 0) \<or> (first_byte = 0xff \<and> second_byte AND 0x80 \<noteq> 0)
            then None else Some is_negative))"

definition CBS_is_unsigned_asn1_integer :: "byte list \<Rightarrow> bool" where
  "CBS_is_unsigned_asn1_integer cbs \<longleftrightarrow> CBS_is_valid_asn1_integer cbs = Some False"

fun uint64_loop :: "u64 \<Rightarrow> byte list \<Rightarrow> u64 option" where
  "uint64_loop out [] = Some out"
| "uint64_loop out (b # data) =
     (if drop_bit 56 out \<noteq> 0 then None else uint64_loop (push_bit 8 out OR ucast b) data)"

definition CBS_get_asn1_uint64 :: "byte list \<Rightarrow> u64 parsed" where
  "CBS_get_asn1_uint64 cbs = bind_cbs (CBS_get_asn1 CBS_ASN1_INTEGER cbs) (\<lambda>bytes cbs.
     if \<not> CBS_is_unsigned_asn1_integer bytes then (None, cbs) else (uint64_loop 0 bytes, cbs))"

definition CBS_get_asn1_int64 :: "byte list \<Rightarrow> u64 parsed" where
  "CBS_get_asn1_int64 cbs = bind_cbs (CBS_get_asn1 CBS_ASN1_INTEGER cbs) (\<lambda>bytes cbs.
     case CBS_is_valid_asn1_integer bytes of
       None \<Rightarrow> (None, cbs)
     | Some is_negative \<Rightarrow>
         let len = length bytes in
         if len > 8 then (None, cbs)
         else (Some (CRYPTO_load_u64_be (replicate (8 - len) (if is_negative then 0xff else 0) @ bytes)), cbs))"

definition CBS_get_asn1_bool :: "byte list \<Rightarrow> bool parsed" where
  "CBS_get_asn1_bool cbs = bind_cbs (CBS_get_asn1 CBS_ASN1_BOOLEAN cbs) (\<lambda>bytes cbs.
     if length bytes \<noteq> 1 then (None, cbs)
     else let value = hd bytes in
       if value \<noteq> 0 \<and> value \<noteq> 0xff then (None, cbs) else (Some (value \<noteq> 0), cbs))"

definition CBS_get_optional_asn1 :: "CBS_ASN1_TAG \<Rightarrow> byte list \<Rightarrow> byte list option parsed" where
  "CBS_get_optional_asn1 tag cbs =
     (if CBS_peek_asn1_tag tag cbs then bind_cbs (CBS_get_asn1 tag cbs) (\<lambda>out cbs. (Some (Some out), cbs))
      else (Some None, cbs))"

definition CBS_get_optional_asn1_octet_string :: "CBS_ASN1_TAG \<Rightarrow> byte list \<Rightarrow> (byte list \<times> bool) parsed" where
  "CBS_get_optional_asn1_octet_string tag cbs = bind_cbs (CBS_get_optional_asn1 tag cbs) (\<lambda>child cbs.
     case child of
       Some child \<Rightarrow> (case CBS_get_asn1 CBS_ASN1_OCTETSTRING child of
           (Some out, child) \<Rightarrow> if child \<noteq> [] then (None, cbs) else (Some (out, True), cbs)
         | (None, _) \<Rightarrow> (None, cbs))
     | None \<Rightarrow> (Some ([], False), cbs))"

definition CBS_get_optional_asn1_uint64 :: "CBS_ASN1_TAG \<Rightarrow> u64 \<Rightarrow> byte list \<Rightarrow> u64 parsed" where
  "CBS_get_optional_asn1_uint64 tag default_value cbs = bind_cbs (CBS_get_optional_asn1 tag cbs) (\<lambda>child cbs.
     case child of
       Some child \<Rightarrow> (case CBS_get_asn1_uint64 child of
           (Some out, child) \<Rightarrow> if child \<noteq> [] then (None, cbs) else (Some out, cbs)
         | (None, _) \<Rightarrow> (None, cbs))
     | None \<Rightarrow> (Some default_value, cbs))"

definition CBS_get_optional_asn1_bool :: "CBS_ASN1_TAG \<Rightarrow> int \<Rightarrow> byte list \<Rightarrow> int parsed" where
  "CBS_get_optional_asn1_bool tag default_value cbs = bind_cbs (CBS_get_optional_asn1 tag cbs) (\<lambda>child cbs.
     case child of
       Some child \<Rightarrow> (case CBS_get_asn1 CBS_ASN1_BOOLEAN child of
           (Some child2, child) \<Rightarrow>
             if length child2 \<noteq> 1 \<or> child \<noteq> [] then (None, cbs)
             else let boolean = hd child2 in
               if boolean = 0 then (Some 0, cbs) else if boolean = 0xff then (Some 1, cbs) else (None, cbs)
         | (None, _) \<Rightarrow> (None, cbs))
     | None \<Rightarrow> (Some default_value, cbs))"

definition CBS_is_valid_asn1_bitstring :: "byte list \<Rightarrow> bool" where
  "CBS_is_valid_asn1_bitstring cbs = (case CBS_get_u8 cbs of
     (None, _) \<Rightarrow> False
   | (Some num_unused_bits, inp) \<Rightarrow>
       if num_unused_bits > 7 then False
       else if num_unused_bits = 0 then True
       else (case CBS_get_last_u8 inp of
           (None, _) \<Rightarrow> False
         | (Some last_byte, _) \<Rightarrow> last_byte AND (push_bit (unat num_unused_bits) 1 - 1) = 0))"

definition CBS_asn1_bitstring_has_bit :: "byte list \<Rightarrow> u32 \<Rightarrow> bool" where
  "CBS_asn1_bitstring_has_bit cbs bit_index =
     (if \<not> CBS_is_valid_asn1_bitstring cbs then False
      else let byte_num = unat (drop_bit 3 bit_index + 1); bit_num = unat (7 - (bit_index AND 7)) in
        byte_num < length cbs \<and> (cbs ! byte_num) AND push_bit bit_num 1 \<noteq> 0)"

fun oid_loop :: "byte \<Rightarrow> byte list \<Rightarrow> bool" where
  "oid_loop prev [] = (prev AND 0x80 = 0)"
| "oid_loop prev (v # copy) = (if prev AND 0x80 = 0 \<and> v = 0x80 then False else oid_loop v copy)"

definition CBS_is_valid_asn1_oid :: "byte list \<Rightarrow> bool" where
  "CBS_is_valid_asn1_oid cbs = (if cbs = [] then False else oid_loop 0 cbs)"

end
