(* ===== verification/CbsTime.thy ===== *)
theory CbsTime
  imports Cbs "HOL-Library.Signed_Division"
begin

text \<open>
  Calendar time in BoringSSL: \<open>crypto/asn1/posix_time.c\<close> and the parsers of ASN.1 times in
  \<open>crypto/bytestring/cbs.c\<close>. The \<open>int64_t\<close> and \<open>int\<close> values stay far below the limits of their types,
  except in the sums the code guards, and are integers here; the division of C is \<open>sdiv\<close> and \<open>smod\<close>,
  which round towards zero.
\<close>

section \<open>posix_time.c\<close>

record tm =
  tm_year :: int
  tm_mon :: int
  tm_mday :: int
  tm_hour :: int
  tm_min :: int
  tm_sec :: int

definition SECS_PER_HOUR :: int where "SECS_PER_HOUR = 60 * 60"
definition SECS_PER_DAY :: int where "SECS_PER_DAY = 24 * SECS_PER_HOUR"
definition INT64_MAX :: int where "INT64_MAX = 2 ^ 63 - 1"
definition INT64_MIN :: int where "INT64_MIN = - (2 ^ 63)"
definition MIN_POSIX_TIME :: int where "MIN_POSIX_TIME = - 62167219200"
definition MAX_POSIX_TIME :: int where "MAX_POSIX_TIME = 253402300799"

definition is_valid_date :: "int \<Rightarrow> int \<Rightarrow> int \<Rightarrow> bool" where
  "is_valid_date year month day =
     (if day < 1 \<or> month < 1 \<or> year < 0 \<or> year > 9999 then False
      else if month \<in> {1, 3, 5, 7, 8, 10, 12} then day > 0 \<and> day \<le> 31
      else if month \<in> {4, 6, 9, 11} then day > 0 \<and> day \<le> 30
      else if month = 2 then
        (if (year smod 4 = 0 \<and> year smod 100 \<noteq> 0) \<or> year smod 400 = 0 then day > 0 \<and> day \<le> 29
         else day > 0 \<and> day \<le> 28)
      else False)"

definition is_valid_time :: "int \<Rightarrow> int \<Rightarrow> int \<Rightarrow> bool" where
  "is_valid_time hours minutes seconds =
     (if hours < 0 \<or> minutes < 0 \<or> seconds < 0 \<or> hours > 23 \<or> minutes > 59 \<or> seconds > 59 then False else True)"

definition is_valid_posix_time :: "int \<Rightarrow> bool" where
  "is_valid_posix_time time \<longleftrightarrow> MIN_POSIX_TIME \<le> time \<and> time \<le> MAX_POSIX_TIME"

definition posix_time_from_utc :: "int \<Rightarrow> int \<Rightarrow> int \<Rightarrow> int \<Rightarrow> int \<Rightarrow> int \<Rightarrow> int option" where
  "posix_time_from_utc year month day hours minutes seconds =
     (if \<not> is_valid_date year month day \<or> \<not> is_valid_time hours minutes seconds then None
      else let
        year = (if month \<le> 2 then year - 1 else year);
        era = (if year \<ge> 0 then year else year - 399) sdiv 400;
        year_of_era = year - era * 400;
        day_of_year = (153 * (if month > 2 then month - 3 else month + 9) + 2) sdiv 5 + day - 1;
        day_of_era = year_of_era * 365 + year_of_era sdiv 4 - year_of_era sdiv 100 + day_of_year;
        posix_days = era * 146097 + day_of_era - 719468
      in Some (posix_days * SECS_PER_DAY + hours * SECS_PER_HOUR + minutes * 60 + seconds))"

text \<open>The year, month, day, hours, minutes and seconds.\<close>

definition utc_from_posix_time :: "int \<Rightarrow> (int \<times> int \<times> int \<times> int \<times> int \<times> int) option" where
  "utc_from_posix_time time =
     (if \<not> is_valid_posix_time time then None
      else let
        days = time sdiv SECS_PER_DAY;
        leftover_seconds = time smod SECS_PER_DAY;
        (days, leftover_seconds) =
          (if leftover_seconds < 0 then (days - 1, leftover_seconds + SECS_PER_DAY) else (days, leftover_seconds));
        days = days + 719468;
        era = (if days > 0 then days else days - 146096) sdiv 146097;
        day_of_era = days - era * 146097;
        year_of_era = (day_of_era - day_of_era sdiv 1460 + day_of_era sdiv 36524 - day_of_era sdiv 146096) sdiv 365;
        out_year = year_of_era + era * 400;
        day_of_year = day_of_era - (365 * year_of_era + year_of_era sdiv 4 - year_of_era sdiv 100);
        month_of_year = (5 * day_of_year + 2) sdiv 153;
        out_month = (if month_of_year < 10 then month_of_year + 3 else month_of_year - 9);
        out_year = (if out_month \<le> 2 then out_year + 1 else out_year);
        out_day = day_of_year - (153 * month_of_year + 2) sdiv 5 + 1;
        out_hours = leftover_seconds sdiv SECS_PER_HOUR;
        leftover_seconds = leftover_seconds smod SECS_PER_HOUR;
        out_minutes = leftover_seconds sdiv 60;
        out_seconds = leftover_seconds smod 60
      in Some (out_year, out_month, out_day, out_hours, out_minutes, out_seconds))"

definition OPENSSL_tm_to_posix :: "tm \<Rightarrow> int option" where
  "OPENSSL_tm_to_posix tm = posix_time_from_utc (tm_year tm + 1900) (tm_mon tm + 1) (tm_mday tm)
     (tm_hour tm) (tm_min tm) (tm_sec tm)"

definition OPENSSL_posix_to_tm :: "int \<Rightarrow> tm option" where
  "OPENSSL_posix_to_tm time = (case utc_from_posix_time time of
     None \<Rightarrow> None
   | Some (year, mon, mday, hour, minute, sec) \<Rightarrow>
       Some \<lparr>tm_year = year - 1900, tm_mon = mon - 1, tm_mday = mday, tm_hour = hour, tm_min = minute, tm_sec = sec\<rparr>)"

text \<open>\<open>time_t\<close> has 64 bits.\<close>

definition OPENSSL_timegm :: "tm \<Rightarrow> int option" where
  "OPENSSL_timegm tm = OPENSSL_tm_to_posix tm"

definition OPENSSL_gmtime :: "int \<Rightarrow> tm option" where
  "OPENSSL_gmtime time = OPENSSL_posix_to_tm time"

definition OPENSSL_gmtime_adj :: "tm \<Rightarrow> int \<Rightarrow> int \<Rightarrow> tm option" where
  "OPENSSL_gmtime_adj tm offset_day offset_sec = (case OPENSSL_tm_to_posix tm of
     None \<Rightarrow> None
   | Some posix_time \<Rightarrow>
       let posix_time = posix_time + offset_day * SECS_PER_DAY in
       if posix_time > 0 \<and> offset_sec > INT64_MAX - posix_time then None
       else if posix_time < 0 \<and> offset_sec < INT64_MIN - posix_time then None
       else OPENSSL_posix_to_tm (posix_time + offset_sec))"

definition OPENSSL_gmtime_diff :: "tm \<Rightarrow> tm \<Rightarrow> (int \<times> int) option" where
  "OPENSSL_gmtime_diff from_tm to_tm = (case OPENSSL_tm_to_posix to_tm of
     None \<Rightarrow> None
   | Some time_to \<Rightarrow> (case OPENSSL_tm_to_posix from_tm of
       None \<Rightarrow> None
     | Some time_from \<Rightarrow>
         let timediff = time_to - time_from;
             daydiff = timediff sdiv SECS_PER_DAY;
             timediff = timediff smod SECS_PER_DAY
         in Some (daydiff, timediff)))"

section \<open>ASN.1 times\<close>

definition cbs_get_two_digits :: "byte list \<Rightarrow> int parsed" where
  "cbs_get_two_digits cbs = bind_cbs (CBS_get_u8 cbs) (\<lambda>first_digit cbs.
     if \<not> OPENSSL_isdigit first_digit then (None, cbs)
     else bind_cbs (CBS_get_u8 cbs) (\<lambda>second_digit cbs.
       if \<not> OPENSSL_isdigit second_digit then (None, cbs)
       else (Some ((uint first_digit - 0x30) * 10 + (uint second_digit - 0x30)), cbs)))"

definition is_valid_day :: "int \<Rightarrow> int \<Rightarrow> int \<Rightarrow> bool" where
  "is_valid_day year month day =
     (if day < 1 then False
      else if month \<in> {1, 3, 5, 7, 8, 10, 12} then day \<le> 31
      else if month \<in> {4, 6, 9, 11} then day \<le> 30
      else if month = 2 then
        (if (year smod 4 = 0 \<and> year smod 100 \<noteq> 0) \<or> year smod 400 = 0 then day \<le> 29 else day \<le> 28)
      else False)"

definition parse_year :: "bool \<Rightarrow> byte list \<Rightarrow> int parsed" where
  "parse_year is_gentime copy =
     (if is_gentime then
        bind_cbs (cbs_get_two_digits copy) (\<lambda>tmp copy. let year = tmp * 100 in
        bind_cbs (cbs_get_two_digits copy) (\<lambda>tmp copy. (Some (year + tmp), copy)))
      else bind_cbs (cbs_get_two_digits copy) (\<lambda>tmp copy.
        let year = 1900 + tmp; year = (if year < 1950 then year + 100 else year) in
        if year \<ge> 2050 then (None, copy) else (Some year, copy)))"

text \<open>The offset in seconds, zero where the time ends in \<open>Z\<close>.\<close>

definition parse_offset :: "bool \<Rightarrow> byte \<Rightarrow> byte list \<Rightarrow> int parsed" where
  "parse_offset allow_timezone_offset tz copy = (
     let offset_sign = (if tz = 0x5A then Some 0 else if tz = 0x2B then Some 1 else if tz = 0x2D then Some (- 1) else None)
     in case offset_sign of
       None \<Rightarrow> (None, copy)
     | Some offset_sign \<Rightarrow>
         if offset_sign = 0 then (Some 0, copy)
         else if \<not> allow_timezone_offset then (None, copy)
         else bind_cbs (cbs_get_two_digits copy) (\<lambda>offset_hours copy.
           if offset_hours > 23 then (None, copy)
           else bind_cbs (cbs_get_two_digits copy) (\<lambda>offset_minutes copy.
             if offset_minutes > 59 then (None, copy)
             else (Some (offset_sign * (offset_hours * 3600 + offset_minutes * 60)), copy))))"

text \<open>
  The result is nothing for a refusal, \<open>Some None\<close> where \<open>out_tm\<close> is null and \<open>Some (Some tm)\<close> otherwise.
\<close>

definition CBS_parse_rfc5280_time_internal :: "byte list \<Rightarrow> bool \<Rightarrow> bool \<Rightarrow> bool \<Rightarrow> tm option option" where
  "CBS_parse_rfc5280_time_internal cbs is_gentime allow_timezone_offset want_tm = fst (
     bind_cbs (parse_year is_gentime cbs) (\<lambda>year copy.
     bind_cbs (cbs_get_two_digits copy) (\<lambda>month copy. if month < 1 \<or> month > 12 then (None, copy) else
     bind_cbs (cbs_get_two_digits copy) (\<lambda>day copy. if \<not> is_valid_day year month day then (None, copy) else
     bind_cbs (cbs_get_two_digits copy) (\<lambda>hour copy. if hour > 23 then (None, copy) else
     bind_cbs (cbs_get_two_digits copy) (\<lambda>minute copy. if minute > 59 then (None, copy) else
     bind_cbs (cbs_get_two_digits copy) (\<lambda>sec copy. if sec > 59 then (None, copy) else
     bind_cbs (CBS_get_u8 copy) (\<lambda>tz copy.
     bind_cbs (parse_offset allow_timezone_offset tz copy) (\<lambda>offset_seconds copy.
       if copy \<noteq> [] then (None, copy)
       else if \<not> want_tm then (Some None, copy)
       else let tm = \<lparr>tm_year = year - 1900, tm_mon = month - 1, tm_mday = day, tm_hour = hour, tm_min = minute, tm_sec = sec\<rparr> in
         if offset_seconds \<noteq> 0 then
           (case OPENSSL_gmtime_adj tm 0 offset_seconds of None \<Rightarrow> (None, copy) | Some tm \<Rightarrow> (Some (Some tm), copy))
         else (Some (Some tm), copy))))))))))"

definition CBS_parse_generalized_time :: "byte list \<Rightarrow> bool \<Rightarrow> bool \<Rightarrow> tm option option" where
  "CBS_parse_generalized_time cbs want_tm allow_timezone_offset =
     CBS_parse_rfc5280_time_internal cbs True allow_timezone_offset want_tm"

definition CBS_parse_utc_time :: "byte list \<Rightarrow> bool \<Rightarrow> bool \<Rightarrow> tm option option" where
  "CBS_parse_utc_time cbs want_tm allow_timezone_offset =
     CBS_parse_rfc5280_time_internal cbs False allow_timezone_offset want_tm"

end
