(* ===== verification/CalendarSpec.thy ===== *)
theory CalendarSpec
  imports CbsTime
begin

text \<open>
  Calendar arithmetic: the conversions between POSIX times and broken-down times are inverse to each
  other on the years 0 to 9999, and the count of days is the one of the Gregorian calendar.
\<close>

section \<open>C's division\<close>

lemma sdiv_pos: "0 \<le> x \<Longrightarrow> 0 < n \<Longrightarrow> (x :: int) sdiv n = x div n"
  by (cases "x = 0") (simp_all add: signed_divide_int_def)

lemma smod_pos: "0 \<le> x \<Longrightarrow> 0 < n \<Longrightarrow> (x :: int) smod n = x mod n"
  by (cases "x = 0") (simp_all add: signed_modulo_int_def)

lemma div_unique: "n * k \<le> x \<Longrightarrow> x < n * (k + 1) \<Longrightarrow> x div n = (k :: int)"
  by (rule int_div_pos_eq [of _ _ _ "x - n * k"]) (simp_all add: algebra_simps)

lemma quotient_remainder:
  assumes "0 < (n :: int)"
  obtains q r where "x = n * q + r" "0 \<le> r" "r < n" "x div n = q" "x mod n = r"
  using that [of "x div n" "x mod n"] assms by simp

lemma sdiv_neg:
  assumes "x < 0" "0 < n"
  shows "(x - (n - 1)) sdiv n = x div (n :: int)"
proof -
  obtain q r where x: "x = n * q + r" "0 \<le> r" "r < n" "x div n = q" using assms(2) by (rule quotient_remainder [of n x])
  have "(n - 1 - x) div n = - q" by (rule div_unique) (use x in \<open>simp_all add: algebra_simps\<close>)
  then show ?thesis using assms x(4) by (simp add: signed_divide_int_def)
qed

text \<open>The three idioms of the code for a division that rounds down.\<close>

lemma era_year: "(if 0 \<le> y then y else y - 399) sdiv 400 = y div (400 :: int)"
  using sdiv_pos [of y 400] sdiv_neg [of y 400] by auto

lemma era_days: "(if 0 < d then d else d - 146096) sdiv 146097 = d div (146097 :: int)"
proof (cases "d = 0")
  case True
  then show ?thesis by (simp add: signed_divide_int_def)
qed (use sdiv_pos [of d 146097] sdiv_neg [of d 146097] in auto)

lemma day_split:
  "(if t smod 86400 < 0 then (t sdiv 86400 - 1, t smod 86400 + 86400) else (t sdiv 86400, t smod 86400))
    = (t div 86400, t mod (86400 :: int))"
proof (cases "0 \<le> t")
  case True
  then show ?thesis by (simp add: sdiv_pos smod_pos)
next
  case False
  obtain q r where t: "- t = 86400 * q + r" "0 \<le> r" "r < 86400" "- t div 86400 = q" "- t mod 86400 = r"
    by (rule quotient_remainder [of 86400 "- t"]) simp
  have s: "t sdiv 86400 = - q" "t smod 86400 = - r" using False t
    by (simp_all add: signed_divide_int_def signed_modulo_int_def)
  show ?thesis
  proof (cases "r = 0")
    case True
    have "t div 86400 = - q" by (rule div_unique) (use t(1) True in simp_all)
    moreover have "t mod 86400 = 0" using t(1) True calculation minus_mult_div_eq_mod [of t 86400] by linarith
    ultimately show ?thesis using s True by simp
  next
    case False
    have "t div 86400 = - q - 1" by (rule div_unique) (use t(1-3) False in simp_all)
    moreover have "t mod 86400 = - r + 86400" using t(1) calculation minus_mult_div_eq_mod [of t 86400] by linarith
    ultimately show ?thesis using s t(2) False by simp
  qed
qed

section \<open>The count of days\<close>

text \<open>
  A day is counted from 1 March of the year 0, in years that end with February: \<open>y\<close> years and
  \<open>doy\<close> days before it. \<open>month_days mp\<close> counts the days of the months before the month \<open>mp\<close> of
  such a year.
\<close>

definition leap :: "int \<Rightarrow> bool" where
  "leap y \<longleftrightarrow> y mod 4 = 0 \<and> y mod 100 \<noteq> 0 \<or> y mod 400 = 0"

definition days_before :: "int \<Rightarrow> int" where
  "days_before y = 365 * y + y div 4 - y div 100 + y div 400"

definition month_days :: "int \<Rightarrow> int" where
  "month_days mp = (153 * mp + 2) div 5"

lemma div_Suc:
  assumes "0 < n"
  shows "(y + 1) div n = y div n + (if (y + 1) mod n = 0 then 1 else 0 :: int)"
proof -
  obtain q r where y: "y + 1 = n * q + r" "0 \<le> r" "r < n" "(y + 1) div n = q" "(y + 1) mod n = r"
    using assms by (rule quotient_remainder [of n "y + 1"])
  show ?thesis
  proof (cases "r = 0")
    case True
    have "y div n = q - 1" by (rule div_unique) (use y True assms in \<open>simp_all add: algebra_simps\<close>)
    with True y show ?thesis by simp
  next
    case False
    have "y div n = q" by (rule div_unique) (use y False in \<open>simp_all add: algebra_simps\<close>)
    with False y show ?thesis by simp
  qed
qed

lemma multiples: "y mod 400 = 0 \<Longrightarrow> y mod 100 = 0" "y mod 100 = 0 \<Longrightarrow> y mod 4 = (0 :: int)"
  using mod_mod_cancel [of 100 400 y] mod_mod_cancel [of 4 100 y] by simp_all

lemma days_before_Suc: "days_before (y + 1) = days_before y + (if leap (y + 1) then 366 else 365)"
  using multiples [of "y + 1"] by (simp add: days_before_def leap_def div_Suc)

lemma days_before_era:
  "y div 400 * 146097 + ((y - y div 400 * 400) * 365 + (y - y div 400 * 400) div 4 - (y - y div 400 * 400) div 100)
    = days_before y"
proof -
  define e r where "e = y div 400" and "r = y mod 400"
  have y: "y = 400 * e + r" and r: "0 \<le> r" "r < 400" by (simp_all add: e_def r_def)
  obtain a b where ab: "r div 4 = a" "r div 100 = b" by simp
  then have d: "y div 4 = 100 * e + a" "y div 100 = 4 * e + b" unfolding y by simp_all
  have r': "y - e * 400 = r" using y by simp
  show ?thesis unfolding days_before_def e_def [symmetric] r' ab d by (simp add: y)
qed

lemma days_before_mono: "y \<le> z \<Longrightarrow> days_before y \<le> days_before z"
  by (induction z rule: int_ge_induct) (auto simp: days_before_Suc)

section \<open>From days to years\<close>

definition year_length :: "int \<Rightarrow> int" where
  "year_length y = (if leap (y + 1) then 366 else 365)"

lemma in_era:
  assumes "0 \<le> c" "c \<le> 3" "0 \<le> f" "f \<le> 24" "0 \<le> g" "g \<le> 3"
  shows "(100 * c + 4 * f + g) div 4 = 25 * c + f" "(100 * c + 4 * f + g) div 100 = c"
    "leap (100 * c + 4 * f + g + 1) \<longleftrightarrow> g = 3 \<and> (f \<noteq> 24 \<or> c = 3)"
proof -
  show "(100 * c + 4 * f + g) div 4 = 25 * c + f" "(100 * c + 4 * f + g) div 100 = c"
    by (rule div_unique; use assms in simp)+
  have wrap: "x mod n = 0 \<longleftrightarrow> x = n" if "1 \<le> x" "x \<le> n" for x n :: int
    using that by (cases "x = n") simp_all
  have "100 * c + 4 * f + g + 1 = (g + 1) + 4 * (25 * c + f)" by simp
  then have "(100 * c + 4 * f + g + 1) mod 4 = (g + 1) mod 4" by (simp only: mod_mult_self2)
  moreover have "(g + 1) mod 4 = 0 \<longleftrightarrow> g = 3" using wrap [of "g + 1" 4] assms by simp
  moreover have "100 * c + 4 * f + g + 1 = (4 * f + g + 1) + 100 * c" by simp
  then have "(100 * c + 4 * f + g + 1) mod 100 = (4 * f + g + 1) mod 100" by (simp only: mod_mult_self2)
  moreover have "(4 * f + g + 1) mod 100 = 0 \<longleftrightarrow> f = 24 \<and> g = 3"
  proof -
    have "4 * f + g + 1 = 100 \<longleftrightarrow> f = 24 \<and> g = 3" using assms by presburger
    moreover have "1 \<le> 4 * f + g + 1" "4 * f + g + 1 \<le> 100" using assms by linarith+
    ultimately show ?thesis using wrap [of "4 * f + g + 1" 100] by simp
  qed
  moreover have "(100 * c + 4 * f + g + 1) mod 400 = 0 \<longleftrightarrow> c = 3 \<and> f = 24 \<and> g = 3"
  proof -
    have "100 * c + 4 * f + g + 1 = 400 \<Longrightarrow> 3 \<le> c \<and> 24 \<le> f \<and> 3 \<le> g" using assms by linarith
    then have "100 * c + 4 * f + g + 1 = 400 \<Longrightarrow> c = 3 \<and> f = 24 \<and> g = 3" using assms by linarith
    then have "100 * c + 4 * f + g + 1 = 400 \<longleftrightarrow> c = 3 \<and> f = 24 \<and> g = 3" by auto
    moreover have "1 \<le> 100 * c + 4 * f + g + 1" "100 * c + 4 * f + g + 1 \<le> 400" using assms by linarith+
    ultimately show ?thesis using wrap [of "100 * c + 4 * f + g + 1" 400] by simp
  qed
  ultimately show "leap (100 * c + 4 * f + g + 1) \<longleftrightarrow> g = 3 \<and> (f \<noteq> 24 \<or> c = 3)" by (auto simp: leap_def)
qed

text \<open>The formula of the code for the year in the era.\<close>

lemma year_of_era:
  assumes "0 \<le> r" "r < 400" "0 \<le> doy" "doy < year_length r" "doe = r * 365 + r div 4 - r div 100 + doy"
  shows "(doe - doe div 1460 + doe div 36524 - doe div 146096) div 365 = r" "0 \<le> doe" "doe < 146097"
proof -
  obtain c q where cq: "r = 100 * c + q" "0 \<le> q" "q < 100" by (rule quotient_remainder [of 100 r]) simp
  obtain f g where fg: "q = 4 * f + g" "0 \<le> g" "g < 4" by (rule quotient_remainder [of 4 q]) simp
  have b: "0 \<le> c" "c \<le> 3" "0 \<le> f" "f \<le> 24" "0 \<le> g" "g \<le> 3" using assms(1, 2) cq fg by linarith+
  have r: "r = 100 * c + 4 * f + g" using cq fg by simp
  note e = in_era [OF b, folded r]
  have doe: "doe = 36524 * c + 1461 * f + 365 * g + doy" using assms(5) e(1, 2) r by simp
  have doy: "doy \<le> 365" "doy = 365 \<Longrightarrow> g = 3 \<and> (f \<noteq> 24 \<or> c = 3)"
    using assms(4) e(3) by (auto simp: year_length_def r split: if_splits)
  define t where "t = (if 1460 \<le> 24 * c + f + 365 * g + doy then 1 else 0 :: int)"
  define u where "u = (if c = 3 \<and> f = 24 \<and> g = 3 \<and> doy = 365 then 1 else 0 :: int)"
  have d1: "doe div 1460 = 25 * c + f + t"
    by (rule div_unique) (use b doy(1) assms(3) in \<open>auto simp: doe t_def\<close>)
  have century: "1461 * f + 365 * g + doy < 36524 + u" "u = 1 \<Longrightarrow> 1461 * f + 365 * g + doy = 36524"
  proof -
    have "f \<le> 23 \<or> f = 24" "g \<le> 2 \<or> g = 3" "doy \<le> 364 \<or> doy = 365" using b doy(1) by linarith+
    then show "1461 * f + 365 * g + doy < 36524 + u" using b doy by (elim disjE) (auto simp: u_def)
    show "u = 1 \<Longrightarrow> 1461 * f + 365 * g + doy = 36524" by (simp add: u_def split: if_splits)
  qed
  have d2: "doe div 36524 = c + u"
    by (rule div_unique) (use b century assms(3) in \<open>auto simp: doe u_def split: if_splits\<close>)
  have d3: "doe div 146096 = u"
    by (rule div_unique) (use b century assms(3) in \<open>auto simp: doe u_def split: if_splits\<close>)
  have "0 \<le> doy - t" using b assms(3) by (auto simp: t_def)
  moreover have "doy - t < 365"
  proof (cases "doy = 365")
    case True
    then show ?thesis using b doy(2) by (simp add: t_def)
  next
    case False
    then show ?thesis using doy(1) by (simp add: t_def)
  qed
  ultimately show "(doe - doe div 1460 + doe div 36524 - doe div 146096) div 365 = r"
    unfolding d1 d2 d3 by (intro div_unique) (simp_all add: doe r)
  show "0 \<le> doe" "doe < 146097" using b century assms(3) by (auto simp: doe u_def split: if_splits)
qed

lemma year_of_era_exists:
  assumes "0 \<le> doe" "doe < 146097"
  shows "\<exists>r doy. 0 \<le> r \<and> r < 400 \<and> 0 \<le> doy \<and> doy < year_length r \<and> doe = r * 365 + r div 4 - r div 100 + doy"
proof -
  define c where "c = min 3 (doe div 36524)"
  have c: "0 \<le> c" "c \<le> 3" using assms by (simp_all add: c_def pos_imp_zdiv_nonneg_iff)
  define rem1 where "rem1 = doe - 36524 * c"
  have r1: "0 \<le> rem1" "rem1 < 36524 \<or> rem1 = 36524 \<and> c = 3"
  proof -
    obtain q r where d: "doe = 36524 * q + r" "0 \<le> r" "r < 36524" "doe div 36524 = q"
      by (rule quotient_remainder [of 36524 doe]) simp
    with assms have "q \<le> 4" by linarith
    with d assms show "0 \<le> rem1" "rem1 < 36524 \<or> rem1 = 36524 \<and> c = 3" by (auto simp: rem1_def c_def min_def)
  qed
  obtain f rem2 where f: "rem1 = 1461 * f + rem2" "0 \<le> rem2" "rem2 < 1461" by (rule quotient_remainder [of 1461 rem1]) simp
  have f24: "0 \<le> f" "f \<le> 24" using f r1 by linarith+
  define g where "g = min 3 (rem2 div 365)"
  define doy where "doy = rem2 - 365 * g"
  have g: "0 \<le> g" "g \<le> 3" "0 \<le> doy" "doy < 365 \<or> doy = 365 \<and> g = 3"
  proof -
    obtain q r where d: "rem2 = 365 * q + r" "0 \<le> r" "r < 365" "rem2 div 365 = q"
      by (rule quotient_remainder [of 365 rem2]) simp
    with f have "q \<le> 4" "0 \<le> q" by linarith+
    with d f show "0 \<le> g" "g \<le> 3" "0 \<le> doy" "doy < 365 \<or> doy = 365 \<and> g = 3" by (auto simp: g_def doy_def min_def)
  qed
  note e = in_era [OF c f24 g(1, 2)]
  have "doy < year_length (100 * c + 4 * f + g)"
    using g(3, 4) r1 f f24 by (auto simp: year_length_def e(3) doy_def)
  moreover have "doe = (100 * c + 4 * f + g) * 365 + (100 * c + 4 * f + g) div 4 - (100 * c + 4 * f + g) div 100 + doy"
    unfolding e(1, 2) using f by (simp add: doy_def rem1_def)
  ultimately show ?thesis using c f24 g by (intro exI [of _ "100 * c + 4 * f + g"] exI [of _ doy]) auto
qed


section \<open>Months\<close>

definition month_length :: "int \<Rightarrow> int \<Rightarrow> int" where
  "month_length y m = (if m \<in> {1, 3, 5, 7, 8, 10, 12} then 31 else if m \<in> {4, 6, 9, 11} then 30
     else if leap y then 29 else 28)"

definition mar_year :: "int \<Rightarrow> int \<Rightarrow> int" where
  "mar_year y m = (if m \<le> 2 then y - 1 else y)"

definition mar_month :: "int \<Rightarrow> int" where
  "mar_month m = (if m > 2 then m - 3 else m + 9)"

text \<open>\<open>date y m d\<close> counts the days from 1 March of the year 0.\<close>

definition day_number :: "int \<Rightarrow> int \<Rightarrow> int \<Rightarrow> int" where
  "day_number y m d = days_before (mar_year y m) + month_days (mar_month m) + d - 1"

lemma year_smod: "0 \<le> y \<Longrightarrow> (y smod 4 = 0 \<and> y smod 100 \<noteq> 0) \<or> y smod 400 = 0 \<longleftrightarrow> leap y"
  by (auto simp: leap_def smod_pos)

lemma twelve: "1 \<le> m \<Longrightarrow> m \<le> 12 \<Longrightarrow> m = 1 \<or> m = 2 \<or> m = 3 \<or> m = 4 \<or> m = 5 \<or> m = 6 \<or> m = 7
    \<or> m = 8 \<or> m = 9 \<or> m = 10 \<or> m = 11 \<or> m = (12 :: int)"
  by presburger

lemma valid_day_iff:
  assumes "0 \<le> y"
  shows "is_valid_day y m d \<longleftrightarrow> 1 \<le> m \<and> m \<le> 12 \<and> 1 \<le> d \<and> d \<le> month_length y m"
proof (cases "1 \<le> m \<and> m \<le> 12")
  case True
  then have "m = 1 \<or> m = 2 \<or> m = 3 \<or> m = 4 \<or> m = 5 \<or> m = 6 \<or> m = 7 \<or> m = 8 \<or> m = 9 \<or> m = 10 \<or> m = 11 \<or> m = 12"
    using twelve by simp
  then show ?thesis unfolding is_valid_day_def year_smod [OF assms] month_length_def by (elim disjE) auto
next
  case False
  then show ?thesis by (auto simp: is_valid_day_def)
qed

lemma valid_date_iff: "is_valid_date y m d \<longleftrightarrow> 0 \<le> y \<and> y \<le> 9999 \<and> is_valid_day y m d"
  by (auto simp: is_valid_date_def is_valid_day_def)

lemma month_of_day:
  assumes "1 \<le> m" "m \<le> 12" "1 \<le> d" "d \<le> month_length y m" "doy = month_days (mar_month m) + d - 1"
  shows "0 \<le> doy" "(5 * doy + 2) div 153 = mar_month m" "doy < year_length (mar_year y m)"
proof -
  show "0 \<le> doy" "doy < year_length (mar_year y m)" using twelve [OF assms(1, 2)] assms(3-5)
    by (elim disjE; simp add: month_length_def mar_month_def mar_year_def month_days_def year_length_def split: if_splits)+
  show "(5 * doy + 2) div 153 = mar_month m"
    by (rule div_unique; use twelve [OF assms(1, 2)] assms(3-5) in
      \<open>elim disjE; simp add: month_length_def mar_month_def month_days_def split: if_splits\<close>)
qed

lemma month_exists:
  assumes "0 \<le> doy" "doy < year_length y"
  shows "\<exists>m d. 1 \<le> m \<and> m \<le> 12 \<and> 1 \<le> d \<and> d \<le> month_length (if m \<le> 2 then y + 1 else y) m
    \<and> doy = month_days (mar_month m) + d - 1"
proof -
  obtain mp r where mp: "5 * doy + 2 = 153 * mp + r" "0 \<le> r" "r < 153" by (rule quotient_remainder [of 153 "5 * doy + 2"]) simp
  have doy: "doy \<le> 365" "\<not> leap (y + 1) \<Longrightarrow> doy \<le> 364" using assms(2) by (auto simp: year_length_def split: if_splits)
  define m where "m = (if mp < 10 then mp + 3 else mp - 9)"
  define d where "d = doy - month_days mp + 1"
  have mp12: "1 \<le> mp + 1" "mp + 1 \<le> 12" using mp assms(1) doy(1) by linarith+
  have "mar_month m = mp" using mp12 by (auto simp: m_def mar_month_def)
  moreover have "1 \<le> m" "m \<le> 12" using mp12 by (auto simp: m_def)
  moreover have "1 \<le> d \<and> d \<le> month_length (if m \<le> 2 then y + 1 else y) m"
    using twelve [OF mp12] mp doy by (elim disjE) (auto simp: m_def d_def month_days_def month_length_def)
  ultimately show ?thesis by (intro exI [of _ m] exI [of _ d]) (auto simp: d_def)
qed

section \<open>Whole times\<close>

lemma from_utc:
  assumes "is_valid_date y m d" "is_valid_time h mi s"
  shows "posix_time_from_utc y m d h mi s = Some ((day_number y m d - 719468) * 86400 + h * 3600 + mi * 60 + s)"
proof -
  let ?y = "mar_year y m"
  have v: "1 \<le> m" "m \<le> 12" using assms(1) by (auto simp: valid_date_iff valid_day_iff)
  define r where "r = ?y - ?y div 400 * 400"
  have r: "0 \<le> r" "r < 400" by (simp_all add: r_def minus_div_mult_eq_mod)
  have mm: "(153 * (if m > 2 then m - 3 else m + 9) + 2) sdiv 5 = month_days (mar_month m)"
    unfolding month_days_def mar_month_def using v by (intro sdiv_pos) auto
  have "?y div 400 * 146097 + (r * 365 + r sdiv 4 - r sdiv 100) = days_before ?y"
    using days_before_era [of ?y] r by (simp add: r_def [symmetric] sdiv_pos)
  moreover have "posix_time_from_utc y m d h mi s = Some ((?y div 400 * 146097 + (r * 365 + r sdiv 4 - r sdiv 100
      + (month_days (mar_month m) + d - 1)) - 719468) * SECS_PER_DAY + h * SECS_PER_HOUR + mi * 60 + s)"
    unfolding posix_time_from_utc_def Let_def mar_year_def [symmetric] era_year mm r_def [symmetric]
    using assms by simp
  ultimately show ?thesis by (simp add: day_number_def SECS_PER_DAY_def SECS_PER_HOUR_def algebra_simps)
qed


lemma mod_400: "x mod 400 = z mod (400 :: int) \<Longrightarrow> x mod 100 = z mod 100 \<and> x mod 4 = z mod 4"
proof -
  have c: "w mod 400 mod 100 = w mod 100" "w mod 400 mod 4 = w mod 4" for w :: int by (simp_all add: mod_mod_cancel)
  assume "x mod 400 = z mod 400"
  then show ?thesis using c [of x] c [of z] by (simp only:)
qed

lemma to_utc:
  assumes "1 \<le> m" "m \<le> 12" "1 \<le> d" "d \<le> month_length y m" "is_valid_time h mi s"
    "t = (day_number y m d - 719468) * 86400 + h * 3600 + mi * 60 + s" "is_valid_posix_time t"
  shows "utc_from_posix_time t = Some (y, m, d, h, mi, s)"
proof -
  define days where "days = day_number y m d"
  define rest where "rest = h * 3600 + mi * 60 + s"
  have v: "0 \<le> h" "h \<le> 23" "0 \<le> mi" "mi \<le> 59" "0 \<le> s" "s \<le> 59"
    using assms(5) by (auto simp: is_valid_time_def split: if_splits)
  then have rest: "0 \<le> rest" "rest < 86400" by (simp_all add: rest_def)
  have t: "t = 86400 * (days - 719468) + rest" using assms(6) by (simp add: days_def rest_def)
  have td: "t div 86400 = days - 719468" by (rule div_unique) (use t rest in simp_all)
  then have tm: "t mod 86400 = rest" using t minus_mult_div_eq_mod [of t 86400] by simp
  define doy where "doy = month_days (mar_month m) + d - 1"
  note mo = month_of_day [OF assms(1-4) doy_def]
  define y' where "y' = mar_year y m"
  define r where "r = y' - y' div 400 * 400"
  have r: "0 \<le> r" "r < 400" by (simp_all add: r_def minus_div_mult_eq_mod)
  define doe where "doe = r * 365 + r div 4 - r div 100 + doy"
  have yl: "year_length r = year_length y'"
  proof -
    have "r + 1 = y' + 1 + 400 * (- (y' div 400))" by (simp add: r_def)
    then have "(r + 1) mod 400 = (y' + 1) mod 400" by (simp only: mod_mult_self2)
    then show ?thesis using mod_400 [of "r + 1" "y' + 1"] by (simp add: year_length_def leap_def)
  qed
  note ye = year_of_era [OF r mo(1) mo(3) [folded y'_def, folded yl] doe_def]
  have days: "days = y' div 400 * 146097 + doe"
    using days_before_era [of y'] by (simp add: days_def day_number_def doe_def doy_def r_def [symmetric] y'_def [symmetric])
  have era: "days div 146097 = y' div 400" by (rule div_unique) (use days ye(2, 3) in simp_all)
  have sd: "doe sdiv 1460 = doe div 1460" "doe sdiv 36524 = doe div 36524" "doe sdiv 146096 = doe div 146096"
    using ye(2) by (simp_all add: sdiv_pos)
  have secs: "SECS_PER_DAY = 86400" "SECS_PER_HOUR = 3600" by (simp_all add: SECS_PER_DAY_def SECS_PER_HOUR_def)
  have yr: "(doe - doe sdiv 1460 + doe sdiv 36524 - doe sdiv 146096) sdiv 365 = r"
    unfolding sd using ye(1) r by (subst sdiv_pos) simp_all
  have dd: "doe - (365 * r + r sdiv 4 - r sdiv 100) = doy" using r(1) by (simp add: doe_def sdiv_pos)
  have mp: "(5 * doy + 2) sdiv 153 = mar_month m" using mo(1, 2) by (simp add: sdiv_pos)
  have dm: "doy - (153 * mar_month m + 2) sdiv 5 + 1 = d"
    using assms(1, 2) by (simp add: doy_def month_days_def sdiv_pos mar_month_def)
  have mm: "(if mar_month m < 10 then mar_month m + 3 else mar_month m - 9) = m" using assms(1, 2) by (auto simp: mar_month_def)
  have yy: "(if m \<le> 2 then r + y' div 400 * 400 + 1 else r + y' div 400 * 400) = y" by (simp add: r_def y'_def mar_year_def)
  have hh: "rest sdiv 3600 = h" "rest smod 3600 sdiv 60 = mi" "rest smod 3600 smod 60 = s"
  proof -
    have h1: "rest div 3600 = h" by (rule div_unique) (use v in \<open>simp_all add: rest_def\<close>)
    then have m1: "rest mod 3600 = mi * 60 + s" using minus_mult_div_eq_mod [of rest 3600] by (simp add: rest_def)
    have h2: "(mi * 60 + s) div 60 = mi" by (rule div_unique) (use v in simp_all)
    then have m2: "(mi * 60 + s) mod 60 = s" using minus_mult_div_eq_mod [of "mi * 60 + s" 60] by simp
    show "rest sdiv 3600 = h" "rest smod 3600 sdiv 60 = mi" "rest smod 3600 smod 60 = s"
      using rest(1) v h1 m1 h2 m2 by (simp_all add: sdiv_pos smod_pos)
  qed
  have e: "days - y' div 400 * 146097 = doe" using days by simp
  have n: "days - 719468 + 719468 = days" by simp
  show ?thesis
    unfolding utc_from_posix_time_def Let_def secs day_split td tm prod.case n era_days era e yr dd mp dm mm yy hh
    using assms(7) by simp
qed


lemma day_number_range:
  assumes "is_valid_date y m d"
  shows "- 60 \<le> day_number y m d" "day_number y m d \<le> 3652364"
proof -
  have v: "0 \<le> y" "y \<le> 9999" "1 \<le> m" "m \<le> 12" "1 \<le> d" "d \<le> month_length y m"
    using assms by (auto simp: valid_date_iff valid_day_iff)
  define doy where "doy = month_days (mar_month m) + d - 1"
  note mo = month_of_day [OF v(3-6) doy_def]
  have n: "day_number y m d = days_before (mar_year y m) + doy" by (simp add: day_number_def doy_def)
  have "m \<le> 2 \<Longrightarrow> 306 \<le> doy" using v(3, 5) by (auto simp: doy_def mar_month_def month_days_def)
  moreover have "m > 2 \<Longrightarrow> 0 \<le> days_before y" using days_before_mono [of 0 y] v(1) by (simp add: days_before_def)
  moreover have "- 366 \<le> days_before (y - 1)" using days_before_mono [of "- 1" "y - 1"] v(1) by (simp add: days_before_def)
  ultimately show "- 60 \<le> day_number y m d" using mo(1) unfolding n mar_year_def by (cases "m \<le> 2") auto
  have top: "days_before 9999 = 3652059" "days_before 9998 = 3651694" by (simp_all add: days_before_def)
  have "days_before (y - 1) \<le> 3651694" "days_before y \<le> 3652059" using days_before_mono [of "y - 1" 9998] days_before_mono [of y 9999] v(2) top by simp_all
  moreover have "doy \<le> 365" using mo(3) by (auto simp: year_length_def split: if_splits)
  moreover have "m > 2 \<Longrightarrow> doy \<le> 305" using twelve [OF v(3, 4)] v(6) by (auto simp: doy_def mar_month_def month_days_def month_length_def)
  ultimately show "day_number y m d \<le> 3652364" unfolding n mar_year_def by (cases "m \<le> 2") auto
qed

lemma posix_range:
  assumes "is_valid_date y m d" "is_valid_time h mi s"
  shows "is_valid_posix_time ((day_number y m d - 719468) * 86400 + h * 3600 + mi * 60 + s)"
proof -
  have "0 \<le> h" "h \<le> 23" "0 \<le> mi" "mi \<le> 59" "0 \<le> s" "s \<le> 59" using assms(2) by (auto simp: is_valid_time_def split: if_splits)
  with day_number_range [OF assms(1)] show ?thesis by (simp add: is_valid_posix_time_def MIN_POSIX_TIME_def MAX_POSIX_TIME_def)
qed

lemma date_exists:
  assumes "- 60 \<le> n" "n \<le> 3652364"
  shows "\<exists>y m d. is_valid_date y m d \<and> day_number y m d = n"
proof -
  obtain e doe where e: "n = 146097 * e + doe" "0 \<le> doe" "doe < 146097" by (rule quotient_remainder [of 146097 n]) simp
  obtain r doy where r: "0 \<le> r" "r < 400" "0 \<le> doy" "doy < year_length r" "doe = r * 365 + r div 4 - r div 100 + doy"
    using year_of_era_exists [OF e(2, 3)] by blast
  define y' where "y' = 400 * e + r"
  have q: "y' div 400 = e" unfolding y'_def by (rule div_unique) (use r in simp_all)
  have "y' - y' div 400 * 400 = r" by (simp add: q) (simp add: y'_def)
  then have db: "days_before y' + doy = n" using days_before_era [of y'] e(1) r(5) q by simp
  have "(y' + 1) mod 400 = (r + 1 + 400 * e) mod 400" by (simp add: y'_def algebra_simps)
  then have "(y' + 1) mod 400 = (r + 1) mod 400" by (simp only: mod_mult_self2)
  then have "doy < year_length y'" using mod_400 [of "y' + 1" "r + 1"] r(4) by (simp add: year_length_def leap_def)
  then obtain m d where md: "1 \<le> m" "m \<le> 12" "1 \<le> d" "d \<le> month_length (if m \<le> 2 then y' + 1 else y') m"
      "doy = month_days (mar_month m) + d - 1"
    using month_exists [OF r(3)] by blast
  define y where "y = (if m \<le> 2 then y' + 1 else y')"
  have y: "mar_year y m = y'" by (simp add: y_def mar_year_def)
  have n: "day_number y m d = n" using db md(5) by (simp add: day_number_def y)
  have "0 \<le> y"
  proof (rule ccontr)
    assume "\<not> 0 \<le> y"
    then have "y' \<le> - 2 \<or> y' = - 1 \<and> m > 2" by (auto simp: y_def split: if_splits)
    moreover have "doy \<le> 365" using \<open>doy < year_length y'\<close> by (auto simp: year_length_def split: if_splits)
    moreover have "m > 2 \<Longrightarrow> doy \<le> 305"
      using twelve [OF md(1, 2)] md(4) by (auto simp: md(5) mar_month_def month_days_def month_length_def)
    moreover have "y' \<le> - 2 \<Longrightarrow> days_before y' \<le> - 731" using days_before_mono [of y' "- 2"] by (simp add: days_before_def)
    moreover have "days_before (- 1) = - 366" by (simp add: days_before_def)
    ultimately show False using db assms(1) by auto
  qed
  moreover have "y \<le> 9999"
  proof (rule ccontr)
    assume "\<not> y \<le> 9999"
    then have "10000 \<le> y' \<or> y' = 9999 \<and> m \<le> 2" by (auto simp: y_def split: if_splits)
    moreover have "10000 \<le> y' \<Longrightarrow> 3652425 \<le> days_before y'" using days_before_mono [of 10000 y'] by (simp add: days_before_def)
    moreover have "m \<le> 2 \<Longrightarrow> 306 \<le> doy" using md(1, 3) by (auto simp: md(5) mar_month_def month_days_def)
    moreover have "days_before 9999 = 3652059" by (simp add: days_before_def)
    ultimately show False using db assms(2) r(3) by auto
  qed
  ultimately have "is_valid_date y m d" using md(1-4) by (simp add: valid_date_iff valid_day_iff y_def)
  with n show ?thesis by blast
qed

section \<open>The naive count\<close>

definition days_of_years :: "int \<Rightarrow> int" where
  "days_of_years y = sum_list (map (\<lambda>k. if leap k then 366 else 365) [0..y - 1])"

definition days_of_months :: "int \<Rightarrow> int \<Rightarrow> int" where
  "days_of_months y m = sum_list (map (month_length y) [1..m - 1])"

lemma days_of_years: "0 \<le> y \<Longrightarrow> days_of_years y = days_before (y - 1) + 366"
proof (induction y rule: int_ge_induct)
  case base
  show ?case by (simp add: days_of_years_def days_before_def)
next
  case (step y)
  have "[0..y] = [0..y - 1] @ [y]" using step(1) by (rule upto_rec2)
  with step days_before_Suc [of "y - 1"] show ?case by (simp add: days_of_years_def)
qed

lemma days_of_months: "1 \<le> m \<Longrightarrow> m \<le> 12 \<Longrightarrow>
    days_of_months y m = month_days (mar_month m) - (if m \<le> 2 then 306 else if leap y then - 60 else - 59)"
  by (drule (1) twelve, elim disjE)
    (simp_all add: days_of_months_def month_length_def month_days_def mar_month_def upto_rec1)

lemma day_number_count:
  assumes "is_valid_date y m d"
  shows "day_number y m d = days_of_years y + days_of_months y m + d - 1 - 60"
proof -
  have v: "0 \<le> y" "1 \<le> m" "m \<le> 12" using assms by (auto simp: valid_date_iff valid_day_iff)
  show ?thesis using days_before_Suc [of "y - 1"]
    by (auto simp: days_of_years [OF v(1)] days_of_months [OF v(2, 3)] day_number_def mar_year_def)
qed

section \<open>The results\<close>

text \<open>C38: The POSIX time of a valid date is the number of days of the Gregorian calendar before it, summed
  year by year and month by month, taken from 1 January 1970, and the time of day.\<close>

theorem posix_time_count:
  assumes "is_valid_date y m d" "is_valid_time h mi s"
  shows "posix_time_from_utc y m d h mi s = Some ((days_of_years y + days_of_months y m + d - 1
    - (days_of_years 1970 + days_of_months 1970 1)) * 86400 + h * 3600 + mi * 60 + s)"
proof -
  have "days_of_years 1970 = 719528" "days_of_months 1970 1 = 0"
    by (simp_all add: days_of_years days_before_def days_of_months_def)
  then show ?thesis by (simp add: from_utc [OF assms] day_number_count [OF assms(1)])
qed

lemma posix_time_count_witness:
  "posix_time_from_utc 2024 2 29 12 0 0 = Some ((days_of_years 2024 + days_of_months 2024 2 + 29 - 1
    - (days_of_years 1970 + days_of_months 1970 1)) * 86400 + 12 * 3600 + 0 * 60 + 0)"
  by (rule posix_time_count) (simp_all add: valid_date_iff valid_day_iff month_length_def leap_def is_valid_time_def)

text \<open>A broken-down time that converts to a POSIX time is what that POSIX time converts to.\<close>

theorem tm_roundtrip:
  assumes "OPENSSL_tm_to_posix tm = Some t"
  shows "OPENSSL_posix_to_tm t = Some tm"
proof -
  let ?y = "tm_year tm + 1900" and ?m = "tm_mon tm + 1"
  have v: "is_valid_date ?y ?m (tm_mday tm)" "is_valid_time (tm_hour tm) (tm_min tm) (tm_sec tm)"
    using assms by (auto simp: OPENSSL_tm_to_posix_def posix_time_from_utc_def split: if_splits)
  have t: "t = (day_number ?y ?m (tm_mday tm) - 719468) * 86400 + tm_hour tm * 3600 + tm_min tm * 60 + tm_sec tm"
    using assms from_utc [OF v] by (simp add: OPENSSL_tm_to_posix_def)
  have r: "is_valid_posix_time t" using posix_range [OF v] t by simp
  have "utc_from_posix_time t = Some (?y, ?m, tm_mday tm, tm_hour tm, tm_min tm, tm_sec tm)"
    using v by (intro to_utc [OF _ _ _ _ v(2) t r]) (auto simp: valid_date_iff valid_day_iff)
  then show ?thesis by (simp add: OPENSSL_posix_to_tm_def)
qed

lemma tm_roundtrip_witness:
  "OPENSSL_posix_to_tm 951782400
    = Some \<lparr>tm_year = 100, tm_mon = 1, tm_mday = 29, tm_hour = 0, tm_min = 0, tm_sec = 0\<rparr>"
  by (rule tm_roundtrip) code_simp

text \<open>C39: Every POSIX time of the years 0 to 9999 converts to a broken-down time, which converts back to it.\<close>

theorem posix_roundtrip:
  assumes "is_valid_posix_time t"
  shows "\<exists>tm. OPENSSL_posix_to_tm t = Some tm \<and> OPENSSL_tm_to_posix tm = Some t"
proof -
  obtain n rest where n: "t = 86400 * n + rest" "0 \<le> rest" "rest < 86400" by (rule quotient_remainder [of 86400 t]) simp
  obtain h r1 where h: "rest = 3600 * h + r1" "0 \<le> r1" "r1 < 3600" by (rule quotient_remainder [of 3600 rest]) simp
  obtain mi s where s: "r1 = 60 * mi + s" "0 \<le> s" "s < 60" by (rule quotient_remainder [of 60 r1]) simp
  have tv: "is_valid_time h mi s" using n h s by (auto simp: is_valid_time_def)
  have "- 60 \<le> n + 719468" "n + 719468 \<le> 3652364"
    using assms n by (auto simp: is_valid_posix_time_def MIN_POSIX_TIME_def MAX_POSIX_TIME_def)
  then obtain y m d where dv: "is_valid_date y m d" "day_number y m d = n + 719468" using date_exists by blast
  define tm where "tm = \<lparr>tm_year = y - 1900, tm_mon = m - 1, tm_mday = d, tm_hour = h, tm_min = mi, tm_sec = s\<rparr>"
  have t: "t = (day_number y m d - 719468) * 86400 + h * 3600 + mi * 60 + s" using n h s dv(2) by simp
  have "OPENSSL_tm_to_posix tm = Some t" by (simp add: OPENSSL_tm_to_posix_def tm_def from_utc [OF dv(1) tv] t)
  moreover have "utc_from_posix_time t = Some (y, m, d, h, mi, s)"
    using dv(1) by (intro to_utc [OF _ _ _ _ tv t assms]) (auto simp: valid_date_iff valid_day_iff)
  then have "OPENSSL_posix_to_tm t = Some tm" by (simp add: OPENSSL_posix_to_tm_def tm_def)
  ultimately show ?thesis by blast
qed

lemma posix_roundtrip_witness:
  "\<exists>tm. OPENSSL_posix_to_tm (- 1) = Some tm \<and> OPENSSL_tm_to_posix tm = Some (- 1)"
  by (rule posix_roundtrip) (simp add: is_valid_posix_time_def MIN_POSIX_TIME_def MAX_POSIX_TIME_def)

text \<open>The offset of a time zone is added to the local time, where the time in UTC is the local time less the offset.\<close>

lemma offset_is_added:
  "CBS_parse_generalized_time (map (\<lambda>c. of_nat (of_char c)) ''20240101120000+0100'') True True
    = Some (Some \<lparr>tm_year = 124, tm_mon = 0, tm_mday = 1, tm_hour = 13, tm_min = 0, tm_sec = 0\<rparr>)"
  by code_simp

text \<open>Whether an offset that leaves the years 0 to 9999 is accepted depends on whether the caller wants the result.\<close>

lemma offset_out_of_range:
  "CBS_parse_generalized_time (map (\<lambda>c. of_nat (of_char c)) ''00000101000000-0001'') True True = None"
  "CBS_parse_generalized_time (map (\<lambda>c. of_nat (of_char c)) ''00000101000000-0001'') False True = Some None"
  by (code_simp, code_simp)

end
