(* ===== verification/Cbb.thy ===== *)
theory Cbb
  imports Cbs
begin

text \<open>
  BoringSSL's byte-string builder (\<open>crypto/bytestring/cbb.c\<close>). A \<open>CBB\<close> and the children open on it share
  one buffer; \<open>cbb\<close> holds that buffer and the open children from the outermost to the innermost, which
  is the chain of \<open>child\<close> pointers. An operation names the \<open>CBB\<close> it works on by its depth \<open>d\<close>: 0 is the
  \<open>CBB\<close> that owns the buffer and \<open>d + 1\<close> the \<open>d\<close>-th child. A depth beyond the open children stands for a
  child that has been flushed, whose pointer to the buffer is null.

  A result is \<open>None\<close> where the behaviour is undefined (a write outside the buffer, a failed \<open>assert\<close>, a
  null pointer), \<open>Some (None, c)\<close> where the code returns zero and \<open>Some (Some x, c)\<close> where it succeeds.
  The allocator of libc is a parameter: \<open>alloc i n\<close> is the outcome of the \<open>i\<close>-th request, for \<open>n\<close> bytes.
\<close>

record cbb_child =
  offset :: size_t
  pending_len_len :: byte
  pending_is_asn1 :: bool

record cbb =
  buf :: "byte list"
  len :: size_t
  cap :: size_t
  can_resize :: bool
  error :: bool
  kids :: "cbb_child list"
  requests :: nat

type_synonym allocator = "nat \<Rightarrow> nat \<Rightarrow> byte list option"
type_synonym 'a built = "('a option \<times> cbb) option"

definition bind_cbb :: "'a built \<Rightarrow> ('a \<Rightarrow> cbb \<Rightarrow> 'b built) \<Rightarrow> 'b built" where
  "bind_cbb r f = (case r of None \<Rightarrow> None | Some (None, c) \<Rightarrow> Some (None, c) | Some (Some x, c) \<Rightarrow> f x c)"

lemma bind_cbb_simps [simp]:
  "bind_cbb None f = None" "bind_cbb (Some (None, c)) f = Some (None, c)" "bind_cbb (Some (Some x, c)) f = f x c"
  by (simp_all add: bind_cbb_def)

section \<open>The buffer\<close>

definition CBB_zero :: cbb where
  "CBB_zero = \<lparr>buf = [], len = 0, cap = 0, can_resize = False, error = False, kids = [], requests = 0\<rparr>"

definition cbb_init :: "byte list \<Rightarrow> size_t \<Rightarrow> bool \<Rightarrow> cbb \<Rightarrow> cbb" where
  "cbb_init b cp resize c = c\<lparr>kids := [], buf := b, len := 0, cap := cp, can_resize := resize, error := False\<rparr>"

definition CBB_init :: "allocator \<Rightarrow> size_t \<Rightarrow> unit built" where
  "CBB_init alloc initial_capacity = (let c = CBB_zero in
     case alloc (requests c) (unat initial_capacity) of
       None \<Rightarrow> if initial_capacity > 0 then Some (None, c\<lparr>requests := requests c + 1\<rparr>)
               else Some (Some (), cbb_init [] initial_capacity True (c\<lparr>requests := requests c + 1\<rparr>))
     | Some b \<Rightarrow> Some (Some (), cbb_init b initial_capacity True (c\<lparr>requests := requests c + 1\<rparr>)))"

definition CBB_init_fixed :: "byte list \<Rightarrow> cbb" where
  "CBB_init_fixed b = cbb_init b (of_nat (length b)) False CBB_zero"

definition CBB_cleanup :: "nat \<Rightarrow> cbb \<Rightarrow> cbb option" where
  "CBB_cleanup d c = (if d \<noteq> 0 then None else Some (if can_resize c then c\<lparr>buf := []\<rparr> else c))"

text \<open>The address of the new space is the old length.\<close>

definition cbb_buffer_reserve :: "allocator \<Rightarrow> size_t \<Rightarrow> cbb \<Rightarrow> nat option \<times> cbb" where
  "cbb_buffer_reserve alloc n c = (let newlen = len c + n in
     if newlen < len c then (None, c\<lparr>error := True\<rparr>)
     else if newlen > cap c then
       (if \<not> can_resize c then (None, c\<lparr>error := True\<rparr>)
        else let newcap = cap c * 2; newcap = (if newcap < cap c \<or> newcap < newlen then newlen else newcap) in
          case alloc (requests c) (unat newcap) of
            None \<Rightarrow> (None, c\<lparr>error := True, requests := requests c + 1\<rparr>)
          | Some fresh \<Rightarrow> (Some (unat (len c)),
              c\<lparr>buf := buf c @ drop (length (buf c)) fresh, cap := newcap, requests := requests c + 1\<rparr>))
     else (Some (unat (len c)), c))"

definition cbb_buffer_add :: "allocator \<Rightarrow> size_t \<Rightarrow> cbb \<Rightarrow> nat option \<times> cbb" where
  "cbb_buffer_add alloc n c = (case cbb_buffer_reserve alloc n c of
     (None, c) \<Rightarrow> (None, c) | (Some out, c) \<Rightarrow> (Some out, c\<lparr>len := len c + n\<rparr>))"

text \<open>\<open>cbb_on_error\<close> writes through the pointer to the buffer, which a flushed child no longer has.\<close>

definition cbb_on_error :: "nat \<Rightarrow> cbb \<Rightarrow> cbb option" where
  "cbb_on_error d c = (if d > length (kids c) then None else Some (c\<lparr>error := True, kids := take d (kids c)\<rparr>))"

definition or_error :: "nat \<Rightarrow> 'a built \<Rightarrow> 'a built" where
  "or_error d r = (case r of
     Some (None, c) \<Rightarrow> (case cbb_on_error d c of None \<Rightarrow> None | Some c \<Rightarrow> Some (None, c))
   | _ \<Rightarrow> r)"

text \<open>
  The two loops that write an integer, most significant byte first, from its last byte backwards: the
  buffer and what is left of the integer.
\<close>

fun be_write :: "byte list \<Rightarrow> nat \<Rightarrow> nat \<Rightarrow> u64 \<Rightarrow> (byte list \<times> u64) option" where
  "be_write b pos 0 v = Some (b, v)"
| "be_write b pos (Suc i) v = do { b \<leftarrow> put b (pos + i) [ucast v]; be_write b pos i (drop_bit 8 v) }"

section \<open>Flushing\<close>

text \<open>What \<open>CBB_flush\<close> does with the innermost child once that child's own children are flushed.\<close>

definition length_form :: "size_t \<Rightarrow> byte \<times> byte \<times> size_t" where
  "length_form n =
     (if n > 0xffffff then (5, 0x84, n)
      else if n > 0xffff then (4, 0x83, n)
      else if n > 0xff then (3, 0x82, n)
      else if n > 0x7f then (2, 0x81, n)
      else (1, ucast n, 0))"

definition flush_asn1 :: "allocator \<Rightarrow> cbb_child \<Rightarrow> size_t \<Rightarrow> size_t \<Rightarrow> cbb \<Rightarrow> (cbb_child \<times> size_t) built" where
  "flush_asn1 alloc ch child_start n c =
     (if pending_len_len ch \<noteq> 1 then None
      else if n > 0xfffffffe then Some (None, c)
      else let (len_len, initial_length_byte, n) = length_form n in
        bind_cbb
          (if len_len \<noteq> 1 then
             let extra_bytes = ucast (len_len - 1) in
             case cbb_buffer_add alloc extra_bytes c of
               (None, c) \<Rightarrow> Some (None, c)
             | (Some _, c) \<Rightarrow> do {
                 b \<leftarrow> put (buf c) (unat (child_start + extra_bytes)) (take (unat n) (drop (unat child_start) (buf c)));
                 Some (Some (), c\<lparr>buf := b\<rparr>) }
           else Some (Some (), c))
          (\<lambda>_ c. do {
             b \<leftarrow> put (buf c) (unat (offset ch)) [initial_length_byte];
             Some (Some (ch\<lparr>offset := offset ch + 1, pending_len_len := len_len - 1\<rparr>, n), c\<lparr>buf := b\<rparr>) }))"

definition flush_child :: "allocator \<Rightarrow> cbb_child \<Rightarrow> cbb \<Rightarrow> unit built" where
  "flush_child alloc ch c = (let child_start = offset ch + ucast (pending_len_len ch) in
     if child_start < offset ch \<or> len c < child_start then Some (None, c)
     else let n = len c - child_start in
       bind_cbb (if pending_is_asn1 ch then flush_asn1 alloc ch child_start n c else Some (Some (ch, n), c))
         (\<lambda>(ch, n) c. do {
            (b, n) \<leftarrow> be_write (buf c) (unat (offset ch)) (unat (pending_len_len ch)) n;
            if n \<noteq> 0 then Some (None, c\<lparr>buf := b\<rparr>) else Some (Some (), c\<lparr>buf := b\<rparr>) }))"

function CBB_flush :: "allocator \<Rightarrow> nat \<Rightarrow> cbb \<Rightarrow> unit built" where
  "CBB_flush alloc d c =
     (if d > length (kids c) \<or> error c then Some (None, c)
      else if d = length (kids c) then Some (Some (), c)
      else let ch = kids c ! d in
        or_error d (bind_cbb (CBB_flush alloc (d + 1) c) (\<lambda>_ c.
          bind_cbb (flush_child alloc ch c) (\<lambda>_ c. Some (Some (), c\<lparr>kids := take d (kids c)\<rparr>)))))"
  by pat_completeness auto
termination
  by (relation "measure (\<lambda>(alloc, d, c). length (kids c) - d)") auto

declare CBB_flush.simps [simp del]

text \<open>The data and its length; \<open>out_data\<close> and \<open>out_len\<close> are not null.\<close>

definition CBB_finish :: "allocator \<Rightarrow> nat \<Rightarrow> cbb \<Rightarrow> byte list built" where
  "CBB_finish alloc d c =
     (if d \<noteq> 0 then Some (None, c)
      else bind_cbb (CBB_flush alloc d c) (\<lambda>_ c.
        let out_data = buf c; out_len = len c in
        case CBB_cleanup d (c\<lparr>buf := []\<rparr>) of
          None \<Rightarrow> None
        | Some c \<Rightarrow> Some (Some (take (unat out_len) out_data), c)))"

text \<open>The offset of the data in the buffer.\<close>

definition CBB_data :: "nat \<Rightarrow> cbb \<Rightarrow> nat option" where
  "CBB_data d c =
     (if d \<noteq> length (kids c) then None
      else if d = 0 then Some 0
      else let ch = kids c ! (d - 1) in Some (unat (offset ch + ucast (pending_len_len ch))))"

definition CBB_len :: "nat \<Rightarrow> cbb \<Rightarrow> size_t option" where
  "CBB_len d c =
     (if d \<noteq> length (kids c) then None
      else if d = 0 then Some (len c)
      else let ch = kids c ! (d - 1) in
        if offset ch + ucast (pending_len_len ch) > len c then None
        else Some (len c - offset ch - ucast (pending_len_len ch)))"

section \<open>Adding\<close>

definition cbb_add_child :: "allocator \<Rightarrow> byte \<Rightarrow> bool \<Rightarrow> nat \<Rightarrow> cbb \<Rightarrow> unit built" where
  "cbb_add_child alloc len_len is_asn1 d c =
     (if d \<noteq> length (kids c) \<or> (is_asn1 \<and> len_len \<noteq> 1) then None
      else let off = len c in
        case cbb_buffer_add alloc (ucast len_len) c of
          (None, c) \<Rightarrow> Some (None, c)
        | (Some prefix_bytes, c) \<Rightarrow> do {
            b \<leftarrow> put (buf c) prefix_bytes (replicate (unat len_len) 0);
            Some (Some (), c\<lparr>buf := b,
              kids := kids c @ [\<lparr>offset = off, pending_len_len = len_len, pending_is_asn1 = is_asn1\<rparr>]\<rparr>) })"

definition cbb_add_length_prefixed :: "allocator \<Rightarrow> byte \<Rightarrow> nat \<Rightarrow> cbb \<Rightarrow> unit built" where
  "cbb_add_length_prefixed alloc len_len d c =
     bind_cbb (CBB_flush alloc d c) (\<lambda>_ c. cbb_add_child alloc len_len False d c)"

definition CBB_add_u8_length_prefixed :: "allocator \<Rightarrow> nat \<Rightarrow> cbb \<Rightarrow> unit built" where
  "CBB_add_u8_length_prefixed alloc d c = cbb_add_length_prefixed alloc 1 d c"

definition CBB_add_u16_length_prefixed :: "allocator \<Rightarrow> nat \<Rightarrow> cbb \<Rightarrow> unit built" where
  "CBB_add_u16_length_prefixed alloc d c = cbb_add_length_prefixed alloc 2 d c"

definition CBB_add_u24_length_prefixed :: "allocator \<Rightarrow> nat \<Rightarrow> cbb \<Rightarrow> unit built" where
  "CBB_add_u24_length_prefixed alloc d c = cbb_add_length_prefixed alloc 3 d c"

definition CBB_add_space :: "allocator \<Rightarrow> size_t \<Rightarrow> nat \<Rightarrow> cbb \<Rightarrow> nat built" where
  "CBB_add_space alloc n d c = bind_cbb (CBB_flush alloc d c) (\<lambda>_ c. Some (cbb_buffer_add alloc n c))"

definition CBB_reserve :: "allocator \<Rightarrow> size_t \<Rightarrow> nat \<Rightarrow> cbb \<Rightarrow> nat built" where
  "CBB_reserve alloc n d c = bind_cbb (CBB_flush alloc d c) (\<lambda>_ c. Some (cbb_buffer_reserve alloc n c))"

definition CBB_did_write :: "size_t \<Rightarrow> nat \<Rightarrow> cbb \<Rightarrow> unit built" where
  "CBB_did_write n d c =
     (if d > length (kids c) then None
      else let newlen = len c + n in
        if d \<noteq> length (kids c) \<or> newlen < len c \<or> newlen > cap c then Some (None, c)
        else Some (Some (), c\<lparr>len := newlen\<rparr>))"

definition CBB_add_bytes :: "allocator \<Rightarrow> byte list \<Rightarrow> nat \<Rightarrow> cbb \<Rightarrow> unit built" where
  "CBB_add_bytes alloc bs d c = bind_cbb (CBB_add_space alloc (of_nat (length bs)) d c) (\<lambda>out c. do {
     b \<leftarrow> put (buf c) out bs; Some (Some (), c\<lparr>buf := b\<rparr>) })"

definition CBB_add_zeros :: "allocator \<Rightarrow> size_t \<Rightarrow> nat \<Rightarrow> cbb \<Rightarrow> unit built" where
  "CBB_add_zeros alloc n d c = bind_cbb (CBB_add_space alloc n d c) (\<lambda>out c. do {
     b \<leftarrow> put (buf c) out (replicate (unat n) 0); Some (Some (), c\<lparr>buf := b\<rparr>) })"

definition cbb_add_u :: "allocator \<Rightarrow> u64 \<Rightarrow> nat \<Rightarrow> nat \<Rightarrow> cbb \<Rightarrow> unit built" where
  "cbb_add_u alloc v len_len d c = bind_cbb (CBB_add_space alloc (of_nat len_len) d c) (\<lambda>out c. do {
     (b, v) \<leftarrow> be_write (buf c) out len_len v;
     let c = c\<lparr>buf := b\<rparr> in
     if v \<noteq> 0 then or_error d (Some (None, c)) else Some (Some (), c) })"

definition CBB_add_u8 :: "allocator \<Rightarrow> byte \<Rightarrow> nat \<Rightarrow> cbb \<Rightarrow> unit built" where
  "CBB_add_u8 alloc value d c = cbb_add_u alloc (ucast value) 1 d c"

definition CBB_add_u16 :: "allocator \<Rightarrow> u16 \<Rightarrow> nat \<Rightarrow> cbb \<Rightarrow> unit built" where
  "CBB_add_u16 alloc value d c = cbb_add_u alloc (ucast value) 2 d c"

definition CBB_add_u16le :: "allocator \<Rightarrow> u16 \<Rightarrow> nat \<Rightarrow> cbb \<Rightarrow> unit built" where
  "CBB_add_u16le alloc value d c = CBB_add_u16 alloc (CRYPTO_bswap2 value) d c"

definition CBB_add_u24 :: "allocator \<Rightarrow> u32 \<Rightarrow> nat \<Rightarrow> cbb \<Rightarrow> unit built" where
  "CBB_add_u24 alloc value d c = cbb_add_u alloc (ucast value) 3 d c"

definition CBB_add_u32 :: "allocator \<Rightarrow> u32 \<Rightarrow> nat \<Rightarrow> cbb \<Rightarrow> unit built" where
  "CBB_add_u32 alloc value d c = cbb_add_u alloc (ucast value) 4 d c"

definition CBB_add_u32le :: "allocator \<Rightarrow> u32 \<Rightarrow> nat \<Rightarrow> cbb \<Rightarrow> unit built" where
  "CBB_add_u32le alloc value d c = CBB_add_u32 alloc (CRYPTO_bswap4 value) d c"

definition CBB_add_u64 :: "allocator \<Rightarrow> u64 \<Rightarrow> nat \<Rightarrow> cbb \<Rightarrow> unit built" where
  "CBB_add_u64 alloc value d c = cbb_add_u alloc value 8 d c"

definition CBB_add_u64le :: "allocator \<Rightarrow> u64 \<Rightarrow> nat \<Rightarrow> cbb \<Rightarrow> unit built" where
  "CBB_add_u64le alloc value d c = CBB_add_u64 alloc (CRYPTO_bswap8 value) d c"

definition CBB_discard_child :: "nat \<Rightarrow> cbb \<Rightarrow> cbb" where
  "CBB_discard_child d c =
     (if d \<ge> length (kids c) then c else c\<lparr>len := offset (kids c ! d), kids := take d (kids c)\<rparr>)"

section \<open>ASN.1\<close>

fun base128_digits :: "nat \<Rightarrow> u64 \<Rightarrow> nat" where
  "base128_digits 0 v = 0"
| "base128_digits (Suc fuel) v = (if v > 0 then Suc (base128_digits fuel (drop_bit 7 v)) else 0)"

text \<open>The bytes from the one with index \<open>i - 1\<close> to the last.\<close>

fun base128_bytes :: "allocator \<Rightarrow> u64 \<Rightarrow> nat \<Rightarrow> nat \<Rightarrow> cbb \<Rightarrow> unit built" where
  "base128_bytes alloc v 0 d c = Some (Some (), c)"
| "base128_bytes alloc v (Suc i) d c = (let b = ucast (drop_bit (7 * i) v) AND 0x7f; b = (if i \<noteq> 0 then b OR 0x80 else b) in
     bind_cbb (CBB_add_u8 alloc b d c) (\<lambda>_ c. base128_bytes alloc v i d c))"

text \<open>Ten digits are enough for 64 bits.\<close>

definition add_base128_integer :: "allocator \<Rightarrow> u64 \<Rightarrow> nat \<Rightarrow> cbb \<Rightarrow> unit built" where
  "add_base128_integer alloc v d c = (let len_len = base128_digits 10 v; len_len = (if len_len = 0 then 1 else len_len) in
     base128_bytes alloc v len_len d c)"

definition CBB_add_asn1 :: "allocator \<Rightarrow> CBS_ASN1_TAG \<Rightarrow> nat \<Rightarrow> cbb \<Rightarrow> unit built" where
  "CBB_add_asn1 alloc tag d c = bind_cbb (CBB_flush alloc d c) (\<lambda>_ c.
     let tag_bits = ucast (drop_bit CBS_ASN1_TAG_SHIFT tag AND 0xe0) :: byte;
         tag_number = tag AND CBS_ASN1_TAG_NUMBER_MASK
     in bind_cbb
          (if tag_number \<ge> 0x1f then
             bind_cbb (CBB_add_u8 alloc (tag_bits OR 0x1f) d c) (\<lambda>_ c. add_base128_integer alloc (ucast tag_number) d c)
           else CBB_add_u8 alloc (tag_bits OR ucast tag_number) d c)
          (\<lambda>_ c. cbb_add_child alloc 1 True d c))"

fun add_bytes_each :: "allocator \<Rightarrow> byte list \<Rightarrow> nat \<Rightarrow> cbb \<Rightarrow> unit built" where
  "add_bytes_each alloc [] d c = Some (Some (), c)"
| "add_bytes_each alloc (b # bs) d c = bind_cbb (CBB_add_u8 alloc b d c) (\<lambda>_ c. add_bytes_each alloc bs d c)"

text \<open>The loop over the bytes of the value, with the flag \<open>started\<close> it ends with.\<close>

fun uint64_bytes :: "allocator \<Rightarrow> bool \<Rightarrow> byte list \<Rightarrow> nat \<Rightarrow> cbb \<Rightarrow> bool built" where
  "uint64_bytes alloc started [] d c = Some (Some started, c)"
| "uint64_bytes alloc started (b # bs) d c =
     (if \<not> started then
        if b = 0 then uint64_bytes alloc started bs d c
        else bind_cbb (if b AND 0x80 \<noteq> 0 then CBB_add_u8 alloc 0 d c else Some (Some (), c)) (\<lambda>_ c.
          bind_cbb (CBB_add_u8 alloc b d c) (\<lambda>_ c. uint64_bytes alloc True bs d c))
      else bind_cbb (CBB_add_u8 alloc b d c) (\<lambda>_ c. uint64_bytes alloc started bs d c))"

definition CBB_add_asn1_uint64_with_tag :: "allocator \<Rightarrow> u64 \<Rightarrow> CBS_ASN1_TAG \<Rightarrow> nat \<Rightarrow> cbb \<Rightarrow> unit built" where
  "CBB_add_asn1_uint64_with_tag alloc value tag d c = bind_cbb
     (or_error d (bind_cbb (CBB_add_asn1 alloc tag d c) (\<lambda>_ c.
        bind_cbb (uint64_bytes alloc False (map (\<lambda>i. ucast (drop_bit (8 * (7 - i)) value)) [0..<8]) (d + 1) c) (\<lambda>started c.
          if \<not> started then CBB_add_u8 alloc 0 (d + 1) c else Some (Some (), c)))))
     (\<lambda>_ c. CBB_flush alloc d c)"

definition CBB_add_asn1_uint64 :: "allocator \<Rightarrow> u64 \<Rightarrow> nat \<Rightarrow> cbb \<Rightarrow> unit built" where
  "CBB_add_asn1_uint64 alloc value d c = CBB_add_asn1_uint64_with_tag alloc value CBS_ASN1_INTEGER d c"

fun int64_start :: "byte list \<Rightarrow> nat \<Rightarrow> nat" where
  "int64_start bytes 0 = 0"
| "int64_start bytes (Suc i) =
     (if bytes ! (Suc i) = 0xff \<and> bytes ! i AND 0x80 \<noteq> 0 then int64_start bytes i else Suc i)"

text \<open>The value is the two's complement of an \<open>int64_t\<close>.\<close>

definition CBB_add_asn1_int64_with_tag :: "allocator \<Rightarrow> u64 \<Rightarrow> CBS_ASN1_TAG \<Rightarrow> nat \<Rightarrow> cbb \<Rightarrow> unit built" where
  "CBB_add_asn1_int64_with_tag alloc value tag d c =
     (if 0 \<le> sint value then CBB_add_asn1_uint64_with_tag alloc value tag d c
      else let bytes = le_bytes 8 value; start = int64_start bytes 7 in
        bind_cbb
          (or_error d (bind_cbb (CBB_add_asn1 alloc tag d c) (\<lambda>_ c.
             add_bytes_each alloc (rev (take (start + 1) bytes)) (d + 1) c)))
          (\<lambda>_ c. CBB_flush alloc d c))"

definition CBB_add_asn1_int64 :: "allocator \<Rightarrow> u64 \<Rightarrow> nat \<Rightarrow> cbb \<Rightarrow> unit built" where
  "CBB_add_asn1_int64 alloc value d c = CBB_add_asn1_int64_with_tag alloc value CBS_ASN1_INTEGER d c"

definition CBB_add_asn1_octet_string :: "allocator \<Rightarrow> byte list \<Rightarrow> nat \<Rightarrow> cbb \<Rightarrow> unit built" where
  "CBB_add_asn1_octet_string alloc bs d c = or_error d (
     bind_cbb (CBB_add_asn1 alloc CBS_ASN1_OCTETSTRING d c) (\<lambda>_ c.
     bind_cbb (CBB_add_bytes alloc bs (d + 1) c) (\<lambda>_ c. CBB_flush alloc d c)))"

definition CBB_add_asn1_bool :: "allocator \<Rightarrow> bool \<Rightarrow> nat \<Rightarrow> cbb \<Rightarrow> unit built" where
  "CBB_add_asn1_bool alloc value d c = or_error d (
     bind_cbb (CBB_add_asn1 alloc CBS_ASN1_BOOLEAN d c) (\<lambda>_ c.
     bind_cbb (CBB_add_u8 alloc (if value then 0xff else 0) (d + 1) c) (\<lambda>_ c. CBB_flush alloc d c)))"

definition parse_dotted_decimal :: "byte list \<Rightarrow> u64 parsed" where
  "parse_dotted_decimal cbs = bind_cbs (CBS_get_u64_decimal cbs) (\<lambda>out cbs.
     case CBS_get_u8 cbs of
       (None, cbs) \<Rightarrow> (Some out, cbs)
     | (Some dot, cbs) \<Rightarrow> if dot = 0x2E \<and> cbs \<noteq> [] then (Some out, cbs) else (None, cbs))"

lemma decimal_loop_length: "decimal_loop v seen cbs = (r, cbs') \<Longrightarrow> length cbs' \<le> length cbs"
  by (induction v seen cbs rule: decimal_loop.induct) (auto split: if_splits)

lemma parse_dotted_decimal_length:
  "parse_dotted_decimal cbs = (Some a, cbs') \<Longrightarrow> cbs \<noteq> [] \<Longrightarrow> length cbs' < length cbs"
  by (cases cbs) (auto simp: parse_dotted_decimal_def CBS_get_u64_decimal_def CBS_get_u8_def cbs_get_def bind_cbs_def
    dest!: decimal_loop_length split: prod.splits option.splits if_splits)

function oid_components :: "allocator \<Rightarrow> byte list \<Rightarrow> nat \<Rightarrow> cbb \<Rightarrow> unit built" where
  "oid_components alloc cbs d c =
     (if cbs = [] then Some (Some (), c)
      else case parse_dotted_decimal cbs of
        (None, _) \<Rightarrow> Some (None, c)
      | (Some a, cbs') \<Rightarrow> bind_cbb (add_base128_integer alloc a d c) (\<lambda>_ c. oid_components alloc cbs' d c))"
  by pat_completeness auto
termination
  by (relation "measure (\<lambda>(alloc, cbs, d, c). length cbs)") (auto dest!: parse_dotted_decimal_length [OF sym])

declare oid_components.simps [simp del]

definition CBB_add_asn1_oid_from_text :: "allocator \<Rightarrow> byte list \<Rightarrow> nat \<Rightarrow> cbb \<Rightarrow> unit built" where
  "CBB_add_asn1_oid_from_text alloc text d c = bind_cbb (CBB_flush alloc d c) (\<lambda>_ c.
     case parse_dotted_decimal text of
       (None, _) \<Rightarrow> Some (None, c)
     | (Some a, cbs) \<Rightarrow> (case parse_dotted_decimal cbs of
         (None, _) \<Rightarrow> Some (None, c)
       | (Some b, cbs) \<Rightarrow>
           if a > 2 \<or> (a < 2 \<and> b > 39) \<or> b > - 1 - 80 then Some (None, c)
           else bind_cbb (add_base128_integer alloc (40 * a + b) d c) (\<lambda>_ c. oid_components alloc cbs d c)))"

end
