(* ===== verification/Asn1Spec.thy ===== *)
theory Asn1Spec
  imports Cbs
begin

text \<open>
  The integers of DER: big-endian ones and the base-128 ones of tags and object identifiers, each with its
  one encoding and the proof that the loops of the reader accept exactly that encoding.
\<close>

section \<open>Big-endian integers\<close>

definition be_bytes :: "nat \<Rightarrow> u64 \<Rightarrow> byte list" where
  "be_bytes n v = rev (le_bytes n v)"

lemma length_be_bytes [simp]: "length (be_bytes n v) = n"
  by (simp add: be_bytes_def)

lemma be_bytes_0 [simp]: "be_bytes 0 v = []"
  by (simp add: be_bytes_def)

lemma be_bytes_Suc: "be_bytes (Suc n) v = be_bytes n (drop_bit 8 v) @ [ucast v]"
  by (simp add: be_bytes_def le_bytes_Suc)

lemma le_bytes_snoc: "le_bytes (Suc n) v = le_bytes n v @ [ucast (drop_bit (8 * n) v)]"
  by (simp add: le_bytes_def)

lemma be_bytes_Cons: "be_bytes (Suc n) v = ucast (drop_bit (8 * n) v) # be_bytes n v"
  by (simp add: be_bytes_def le_bytes_snoc)

lemma bit_be_loop: "bit (be_loop 0 bs) k \<longleftrightarrow> k < 64 \<and> bit (le_word (rev bs) :: u64) k"
proof (induction bs arbitrary: k rule: rev_induct)
  case Nil
  then show ?case by (simp add: be_loop_def)
next
  case (snoc b bs)
  have "be_loop 0 (bs @ [b]) = push_bit 8 (be_loop 0 bs) OR ucast b" by (simp add: be_loop_def)
  then show ?case using snoc [of "k - 8"]
    by (auto simp: bit_or_iff bit_push_bit_iff bit_ucast_iff dest: bit_imp_le_length)
qed

lemma be_loop_le_word: "be_loop 0 bs = le_word (rev bs)"
  by (rule bit_word_eqI) (simp add: bit_be_loop)

lemma be_loop_be_bytes: "drop_bit (8 * n) v = 0 \<Longrightarrow> be_loop 0 (be_bytes n v) = v"
proof -
  assume z: "drop_bit (8 * n) v = 0"
  have nb: "\<not> bit v k" if "8 * n \<le> k" for k
    using arg_cong [OF z, of "\<lambda>w. bit w (k - 8 * n)"] that by (simp add: bit_drop_bit_eq)
  show ?thesis unfolding be_loop_le_word be_bytes_def rev_rev_ident
  proof (rule bit_word_eqI)
    fix k
    assume k: "k < LENGTH(64)"
    show "bit (le_word (le_bytes n v) :: u64) k = bit v k"
    proof (cases "k div 8 < n")
      case True
      with k show ?thesis by (simp add: bit_le_word le_bytes_def bit_ucast_iff bit_drop_bit_eq)
    next
      case False
      then have "8 * n \<le> k" by linarith
      with False nb show ?thesis by (simp add: bit_le_word)
    qed
  qed
qed

lemma be_bytes_be_loop: "length bs \<le> 8 \<Longrightarrow> be_bytes (length bs) (be_loop 0 bs) = bs"
  using le_bytes_le_word [of "rev bs", where 'a = 64] by (simp add: be_loop_le_word be_bytes_def)

lemma be_loop_small: "length bs \<le> 8 \<Longrightarrow> drop_bit (8 * length bs) (be_loop 0 bs) = 0"
  by (rule bit_word_eqI) (auto simp: bit_drop_bit_eq be_loop_le_word bit_le_word)

section \<open>Base 128\<close>

text \<open>\<open>base128 k v\<close>: the low \<open>k\<close> digits, all but the last marked.\<close>

fun base128 :: "nat \<Rightarrow> u64 \<Rightarrow> byte list" where
  "base128 0 v = []"
| "base128 (Suc i) v = (let b = ucast (drop_bit (7 * i) v) AND 0x7f in (if i \<noteq> 0 then b OR 0x80 else b) # base128 i v)"

definition minimal128 :: "nat \<Rightarrow> u64 \<Rightarrow> bool" where
  "minimal128 k v \<longleftrightarrow> 0 < k \<and> drop_bit (7 * k) v = 0 \<and> (k = 1 \<or> drop_bit (7 * (k - 1)) v \<noteq> 0)"

text \<open>The number of digits: the first count that loses nothing.\<close>

definition first_count :: "nat \<Rightarrow> (nat \<Rightarrow> bool) \<Rightarrow> nat" where
  "first_count N P = length (takeWhile (\<lambda>k. \<not> P k) [1..<N]) + 1"

lemma first_count_le: "0 < N \<Longrightarrow> first_count N P \<le> N"
  using length_takeWhile_le [of "\<lambda>k. \<not> P k" "[1..<N]"] by (simp add: first_count_def)

lemma first_count_iff:
  assumes "0 < N" "P N" and mono: "\<And>m n. m \<le> n \<Longrightarrow> P m \<Longrightarrow> P n"
  shows "k = first_count N P \<longleftrightarrow> 0 < k \<and> P k \<and> (k = 1 \<or> \<not> P (k - 1))"
proof -
  define n where "n = length (takeWhile (\<lambda>k. \<not> P k) [1..<N])"
  have n: "n \<le> N - 1" unfolding n_def by (rule order_trans [OF length_takeWhile_le]) simp
  have top: "P (n + 1)"
  proof (cases "n < N - 1")
    case True
    then have "\<not> \<not> P ([1..<N] ! n)" unfolding n_def by (intro nth_length_takeWhile) simp
    with True show ?thesis by (simp add: nth_upt)
  next
    case False
    with n assms(1) have "n + 1 = N" by simp
    with assms(2) show ?thesis by simp
  qed
  have low: "\<not> P n" if nz: "n \<noteq> 0"
  proof -
    obtain i where i: "n = Suc i" using nz by (cases n) auto
    have l: "i < length (takeWhile (\<lambda>k. \<not> P k) [1..<N])" using i unfolding n_def by linarith
    have t: "takeWhile (\<lambda>k. \<not> P k) [1..<N] ! i = [1..<N] ! i" using l by (rule takeWhile_nth)
    have "takeWhile (\<lambda>k. \<not> P k) [1..<N] ! i \<in> set (takeWhile (\<lambda>k. \<not> P k) [1..<N])" using l by (rule nth_mem)
    then have "\<not> P ([1..<N] ! i)" unfolding t by (auto dest: set_takeWhileD)
    then show ?thesis using n i by (simp add: nth_upt)
  qed
  have "k = n + 1" if "0 < k" "P k" "k = 1 \<or> \<not> P (k - 1)"
  proof (rule antisym)
    show "k \<le> n + 1"
    proof (rule ccontr)
      assume "\<not> k \<le> n + 1"
      then show False using mono [of "n + 1" "k - 1"] top that(3) by auto
    qed
    show "n + 1 \<le> k"
    proof (rule ccontr)
      assume "\<not> n + 1 \<le> k"
      then show False using mono [of k n] low that(1, 2) by auto
    qed
  qed
  moreover have "first_count N P = n + 1" by (simp only: first_count_def n_def)
  ultimately show ?thesis using top low by auto
qed

definition digits128 :: "u64 \<Rightarrow> nat" where
  "digits128 v = first_count 10 (\<lambda>k. drop_bit (7 * k) v = 0)"

lemma drop_zero_mono: "drop_bit m v = 0 \<Longrightarrow> m \<le> n \<Longrightarrow> drop_bit n (v :: 'a::len word) = 0"
  by (metis add.commute drop_bit_drop_bit drop_bit_of_0 le_add_diff_inverse)

lemma drop_all [simp]: "LENGTH('a) \<le> n \<Longrightarrow> drop_bit n (v :: 'a::len word) = 0"
  by (rule bit_word_eqI) (auto simp: bit_drop_bit_eq dest: bit_imp_le_length)

lemma minimal128_iff: "minimal128 k v \<longleftrightarrow> k = digits128 v"
  unfolding digits128_def minimal128_def by (subst first_count_iff) (auto intro: drop_zero_mono)

lemma minimal128_digits: "minimal128 (digits128 v) v"
  by (simp add: minimal128_iff)

lemma digit_join: "push_bit 7 (drop_bit (7 * Suc i) v) OR ucast (ucast (drop_bit (7 * i) v) AND 0x7f :: byte) = drop_bit (7 * i) (v :: u64)"
proof (rule bit_word_eqI)
  fix n
  assume "n < LENGTH(64)"
  have m: "(0x7f :: byte) = mask 7" by (simp add: mask_eq_exp_minus_1)
  show "bit (push_bit 7 (drop_bit (7 * Suc i) v) OR ucast (ucast (drop_bit (7 * i) v) AND 0x7f :: byte)) n = bit (drop_bit (7 * i) v) n"
    using \<open>n < LENGTH(64)\<close> unfolding m
    by (cases "n < 7") (auto simp: bit_or_iff bit_push_bit_iff bit_drop_bit_eq bit_ucast_iff bit_and_iff bit_mask_iff)
qed

lemma low_digit: "(b :: byte) AND 0x7f OR 0x80 \<noteq> 0x80 \<longleftrightarrow> b AND 0x7f \<noteq> 0" "((b :: byte) AND 0x7f) AND 0x80 = 0"
  "((b AND 0x7f) OR 0x80) AND 0x80 = (0x80 :: byte)" "((b AND 0x7f) OR 0x80) AND 0x7f = b AND (0x7f :: byte)" "(b AND 0x7f) AND 0x7f = b AND (0x7f :: byte)"
  "b AND 0x80 \<noteq> 0 \<Longrightarrow> (b AND 0x7f) OR 0x80 = b" "b AND 0x80 = 0 \<Longrightarrow> b AND 0x7f = b"
proof -
  show "(b :: byte) AND 0x7f OR 0x80 \<noteq> 0x80 \<longleftrightarrow> b AND 0x7f \<noteq> 0" by (rule all_bytes) simp
  show "((b :: byte) AND 0x7f) AND 0x80 = 0" by (rule all_bytes) simp
  show "((b AND 0x7f) OR 0x80) AND 0x80 = (0x80 :: byte)" by (rule all_bytes) simp
  show "((b AND 0x7f) OR 0x80) AND 0x7f = b AND (0x7f :: byte)" by (rule all_bytes) simp
  show "(b AND 0x7f) AND 0x7f = b AND (0x7f :: byte)" by (rule all_bytes) simp
  show "b AND 0x80 \<noteq> 0 \<Longrightarrow> (b AND 0x7f) OR 0x80 = b"
    by (rule all_bytes [where P = "\<lambda>b. b AND 0x80 \<noteq> 0 \<longrightarrow> (b AND 0x7f) OR 0x80 = b", THEN mp]) simp
  show "b AND 0x80 = 0 \<Longrightarrow> b AND 0x7f = b"
    by (rule all_bytes [where P = "\<lambda>b. b AND 0x80 = 0 \<longrightarrow> b AND 0x7f = b", THEN mp]) simp
qed

lemma base128_loop_encode:
  "0 < k \<Longrightarrow> drop_bit (7 * k) v = 0 \<longrightarrow> k = 1 \<or> drop_bit (7 * (k - 1)) v \<noteq> 0 \<Longrightarrow>
    base128_loop (drop_bit (7 * k) v) (base128 k v @ rest) = (Some v, rest)"
proof (induction k)
  case (Suc i)
  let ?d = "ucast (drop_bit (7 * i) v) AND 0x7f :: byte"
  have "57 + 7 * Suc i \<ge> 64" by simp
  then have z: "drop_bit (64 - 7) (drop_bit (7 * Suc i) v) = 0"
    by (intro bit_word_eqI) (auto simp: bit_drop_bit_eq dest!: bit_imp_le_length)
  have digit: "drop_bit (7 * Suc i) v = 0 \<Longrightarrow> i \<noteq> 0 \<Longrightarrow> ?d \<noteq> 0"
    using Suc.prems(2) digit_join [of i v] by auto
  show ?case
  proof (cases "i = 0")
    case True
    then have "?d \<noteq> 0x80" using low_digit(2) [of "ucast (drop_bit (7 * i) v)"] by auto
    with True show ?thesis using z digit_join [of 0 v] by (simp add: Let_def low_digit)
  next
    case False
    have "drop_bit (7 * i) v = 0 \<Longrightarrow> False"
      using drop_zero_mono [of "7 * i" v "7 * Suc i"] digit False digit_join [of i v] by simp
    then have "base128_loop (drop_bit (7 * i) v) (base128 i v @ rest) = (Some v, rest)" using Suc.IH False by blast
    moreover have "\<not> (drop_bit (7 * Suc i) v = 0 \<and> ?d OR 0x80 = 0x80)" using digit False low_digit(1) by blast
    ultimately show ?thesis using False z digit_join [of i v] by (simp add: Let_def low_digit)
  qed
qed simp

lemma parse_base128_encode: "parse_base128_integer (base128 (digits128 v) v @ rest) = (Some v, rest)"
  using minimal128_digits [of v] base128_loop_encode [of "digits128 v" v rest]
  by (simp add: parse_base128_integer_def minimal128_def)

lemma digit_split:
  fixes b :: byte
  assumes "drop_bit 57 acc = 0"
  defines "v \<equiv> push_bit 7 acc OR ucast (b AND 0x7f) :: u64"
  shows "drop_bit 7 v = acc" "ucast v AND 0x7f = b AND 0x7f"
proof -
  have m: "(0x7f :: byte) = mask 7" by (simp add: mask_eq_exp_minus_1)
  have nb: "bit acc k \<Longrightarrow> k < 57" for k
    using arg_cong [OF assms(1), of "\<lambda>w. bit w (k - 57)"] by (cases "57 \<le> k") (simp_all add: bit_drop_bit_eq)
  show "drop_bit 7 v = acc" unfolding v_def m
    by (rule bit_word_eqI) (use nb in \<open>auto simp: bit_drop_bit_eq bit_or_iff bit_push_bit_iff bit_ucast_iff bit_and_iff bit_mask_iff not_le\<close>)
  show "ucast v AND 0x7f = b AND 0x7f" unfolding v_def m
    by (rule bit_word_eqI) (auto simp: bit_or_iff bit_push_bit_iff bit_ucast_iff bit_and_iff bit_mask_iff)
qed

lemma base128_loop_canonical:
  "base128_loop acc cbs = (Some v, rest) \<Longrightarrow>
    \<exists>k>0. acc = drop_bit (7 * k) v \<and> cbs = base128 k v @ rest \<and> (acc = 0 \<longrightarrow> k = 1 \<or> drop_bit (7 * (k - 1)) v \<noteq> 0)"
proof (induction acc cbs rule: base128_loop.induct)
  case (2 acc b cbs)
  define v1 where "v1 = (push_bit 7 acc OR ucast (b AND 0x7f) :: u64)"
  have z: "drop_bit 57 acc = 0" and m: "\<not> (acc = 0 \<and> b = 0x80)" using 2(2) by (auto split: if_splits)
  note ds = digit_split [OF z, of b, folded v1_def]
  show ?case
  proof (cases "b AND 0x80 = 0")
    case True
    then have "v = v1" "cbs = rest" using 2(2) z m by (auto simp: v1_def Let_def split: if_splits)
    then show ?thesis using ds low_digit(7) [OF True] by (intro exI [of _ 1]) simp
  next
    case False
    then have "base128_loop v1 cbs = (Some v, rest)" using 2(2) z m by (auto simp: v1_def Let_def split: if_splits)
    then obtain k where k: "0 < k" "v1 = drop_bit (7 * k) v" "cbs = base128 k v @ rest"
      using 2(1) [OF _ _ v1_def] z m False by auto
    have "acc = drop_bit (7 * Suc k) v" using ds(1) k(2) by simp
    moreover have "b = (ucast (drop_bit (7 * k) v) AND 0x7f) OR 0x80" using ds(2) low_digit(6) [OF False] by (simp add: k(2))
    moreover have "acc = 0 \<Longrightarrow> v1 \<noteq> 0"
    proof
      assume "acc = 0" "v1 = 0"
      then have "b AND 0x7f = 0" using ds(2) by simp
      then show False using m \<open>acc = 0\<close> low_digit(6) [OF False] by simp
    qed
    ultimately show ?thesis using k by (intro exI [of _ "Suc k"]) simp
  qed
qed simp

lemma parse_base128_iff: "parse_base128_integer cbs = (Some v, rest) \<longleftrightarrow> cbs = base128 (digits128 v) v @ rest"
proof
  assume "parse_base128_integer cbs = (Some v, rest)"
  then obtain k where "k > 0" "0 = drop_bit (7 * k) v" "cbs = base128 k v @ rest" "k = 1 \<or> drop_bit (7 * (k - 1)) v \<noteq> 0"
    using base128_loop_canonical [of 0 cbs v rest] by (auto simp: parse_base128_integer_def)
  then show "cbs = base128 (digits128 v) v @ rest" using minimal128_iff [of k v] by (simp add: minimal128_def)
qed (simp add: parse_base128_encode)

end
