(* ===== verification/Asn1Elem.thy ===== *)
theory Asn1Elem
  imports Asn1Spec
begin

text \<open>
  DER elements: the one encoding of a tag, of a length and of an element, and the proof that the reader
  accepts exactly these encodings.
\<close>

declare bit_numeral_word_iff [simp del]

section \<open>Tags\<close>

definition der_tag :: "CBS_ASN1_TAG \<Rightarrow> byte list" where
  "der_tag t = (let bits = ucast (drop_bit 24 t AND 0xe0); n = t AND 0x1fffffff in
     if n < 0x1f then [bits OR ucast n] else (bits OR 0x1f) # base128 (digits128 (ucast n)) (ucast n))"

definition valid_tag :: "CBS_ASN1_TAG \<Rightarrow> bool" where
  "valid_tag t \<longleftrightarrow> t AND NOT CBS_ASN1_CONSTRUCTED \<noteq> 0"

lemma tag_constants: "CBS_ASN1_TAG_SHIFT = 24" "CBS_ASN1_TAG_NUMBER_MASK = 0x1fffffff" "NOT CBS_ASN1_CONSTRUCTED = 0xdfffffff"
  "CBS_ASN1_CONSTRUCTED = 0x20000000"
  by (simp_all add: CBS_ASN1_TAG_SHIFT_def CBS_ASN1_TAG_NUMBER_MASK_def CBS_ASN1_CONSTRUCTED_def push_bit_eq_mult)

lemma mask_bits:
  "bit (0xe0 :: u32) n \<longleftrightarrow> 5 \<le> n \<and> n < 8" "bit (0x1f :: u32) n \<longleftrightarrow> n < 5" "bit (0x1fffffff :: u32) n \<longleftrightarrow> n < 29"
  "bit (0xe0 :: byte) n \<longleftrightarrow> 5 \<le> n \<and> n < 8" "bit (0x1f :: byte) n \<longleftrightarrow> n < 5"
  "bit (0xe0000000 :: u32) n \<longleftrightarrow> 29 \<le> n \<and> n < 32"
proof -
  have e: "(0xe0 :: u32) = push_bit 5 (mask 3)" "(0x1f :: u32) = mask 5" "(0x1fffffff :: u32) = mask 29"
    "(0xe0 :: byte) = push_bit 5 (mask 3)" "(0x1f :: byte) = mask 5"
    "(0xe0000000 :: u32) = push_bit 29 (mask 3)"
    by (simp_all add: mask_eq_exp_minus_1 push_bit_eq_mult)
  show "bit (0xe0 :: u32) n \<longleftrightarrow> 5 \<le> n \<and> n < 8" "bit (0x1f :: u32) n \<longleftrightarrow> n < 5" "bit (0x1fffffff :: u32) n \<longleftrightarrow> n < 29"
    "bit (0xe0 :: byte) n \<longleftrightarrow> 5 \<le> n \<and> n < 8" "bit (0x1f :: byte) n \<longleftrightarrow> n < 5"
    "bit (0xe0000000 :: u32) n \<longleftrightarrow> 29 \<le> n \<and> n < 32"
    unfolding e by (auto simp: bit_push_bit_iff bit_mask_iff)
qed

lemma tag_join: "push_bit 24 (drop_bit 24 t AND 0xe0) OR (t AND 0x1fffffff) = (t :: u32)"
  by (rule bit_word_eqI) (auto simp: bit_or_iff bit_push_bit_iff bit_and_iff bit_drop_bit_eq mask_bits)

lemma tag_parts:
  fixes b n
  assumes "n AND 0x1fffffff = (n :: u32)"
  defines "t \<equiv> push_bit 24 (ucast (b :: byte) AND 0xe0) OR n"
  shows "drop_bit 24 t AND 0xe0 = ucast b AND 0xe0" "t AND 0x1fffffff = n"
proof -
  have n: "bit n k \<Longrightarrow> k < 29" for k
    using arg_cong [OF assms(1), of "\<lambda>w. bit w k"] by (simp add: bit_and_iff mask_bits)
  show "drop_bit 24 t AND 0xe0 = ucast b AND 0xe0"
    by (rule bit_word_eqI) (auto simp: t_def bit_or_iff bit_push_bit_iff bit_and_iff bit_drop_bit_eq mask_bits dest: n)
  show "t AND 0x1fffffff = n"
    by (rule bit_word_eqI) (auto simp: t_def bit_or_iff bit_push_bit_iff bit_and_iff bit_drop_bit_eq mask_bits dest: n)
qed

lemma byte_parts: "ucast (ucast b AND 0xe0 :: u32) = b AND (0xe0 :: byte)" "(b AND 0xe0) OR (b AND 0x1f) = (b :: byte)"
  "ucast (ucast b AND 0x1f :: u32) = b AND (0x1f :: byte)"
  by (rule bit_word_eqI; auto simp: bit_and_iff bit_or_iff bit_ucast_iff mask_bits)+

lemma tag_byte:
  fixes bits n
  assumes "bits AND 0xe0 = (bits :: u32)" "n AND 0x1f = (n :: u32)"
  shows "ucast (ucast bits OR ucast n :: byte) AND 0xe0 = bits" "ucast (ucast bits OR ucast n :: byte) AND 0x1f = n"
proof -
  have b: "bit bits k \<Longrightarrow> 5 \<le> k \<and> k < 8" and n: "bit n k \<Longrightarrow> k < 5" for k
    using arg_cong [OF assms(1), of "\<lambda>w. bit w k"] arg_cong [OF assms(2), of "\<lambda>w. bit w k"] by (simp_all add: bit_and_iff mask_bits)
  show "ucast (ucast bits OR ucast n :: byte) AND 0xe0 = bits" "ucast (ucast bits OR ucast n :: byte) AND 0x1f = n"
    by (rule bit_word_eqI; auto simp: bit_and_iff bit_or_iff bit_ucast_iff mask_bits dest: b n)+
qed

lemma low_mask: "n < 0x1f \<Longrightarrow> n AND 0x1f = (n :: u32)" "n < 0x20000000 \<Longrightarrow> n AND 0x1fffffff = (n :: u32)"
proof -
  have m: "n AND 0x1f = take_bit 5 n" "n AND 0x1fffffff = take_bit 29 n" for n :: u32
    by (simp_all add: take_bit_eq_mask mask_eq_exp_minus_1)
  have u: "n < 0x1f \<Longrightarrow> unat n < 32" "n < 0x20000000 \<Longrightarrow> unat n < 536870912" for n :: u32
    by (simp_all add: word_less_nat_alt)
  show "n < 0x1f \<Longrightarrow> n AND 0x1f = (n :: u32)" "n < 0x20000000 \<Longrightarrow> n AND 0x1fffffff = (n :: u32)"
    unfolding m by (simp_all add: word_unat_eq_iff unsigned_take_bit_eq take_bit_nat_eq_self u)
qed

lemma low_less: "n AND 0x1f < (0x20 :: u32)" "n AND 0x1fffffff < (0x20000000 :: u32)"
  using word_and_le1 [of n "0x1f"] word_and_le1 [of n "0x1fffffff"] by (simp_all add: word_le_nat_alt word_less_nat_alt)

lemma unat_ucast_tag: "unat (ucast (n :: u32) :: u64) = unat n"
  by (rule unat_ucast_up) simp

lemma tag_number_small: "ucast (ucast b AND 0x1f :: u32) = (ucast b AND 0x1f :: u32)"
  by simp

lemma ucast_back: "ucast (ucast n :: u64) = (n :: u32)"
  by (rule bit_word_eqI) (auto simp: bit_ucast_iff)

definition tag_check :: "CBS_ASN1_TAG \<Rightarrow> byte list \<Rightarrow> CBS_ASN1_TAG parsed" where
  "tag_check t cbs = (if t AND NOT CBS_ASN1_CONSTRUCTED = 0 then (None, cbs) else (Some t, cbs))"

lemma tag_check: "tag_check t cbs = (if valid_tag t then (Some t, cbs) else (None, cbs))"
  by (simp add: tag_check_def valid_tag_def)

lemma parse_asn1_tag_Cons:
  "parse_asn1_tag (b # cbs) = (let tag = push_bit 24 (ucast b AND 0xe0); n = ucast b AND 0x1f in
     if n = 0x1f then
       bind_cbs (parse_base128_integer cbs) (\<lambda>v cbs.
         if v > 0x1fffffff \<or> v < 0x1f then (None, cbs) else tag_check (tag OR ucast v) cbs)
     else tag_check (tag OR n) cbs)"
  unfolding parse_asn1_tag_def CBS_get_u8_def cbs_get_def tag_check_def tag_constants(1,2) Let_def by simp

lemma parse_asn1_tag_Nil [simp]: "parse_asn1_tag [] = (None, [])"
  by (simp add: parse_asn1_tag_def CBS_get_u8_def cbs_get_def)

lemma parse_der_tag:
  assumes "valid_tag t"
  shows "parse_asn1_tag (der_tag t @ rest) = (Some t, rest)"
proof -
  define bits where "bits = drop_bit 24 t AND 0xe0"
  define n where "n = t AND 0x1fffffff"
  have b: "bits AND 0xe0 = bits" by (simp add: bits_def and.assoc)
  have t: "push_bit 24 bits OR n = t" unfolding bits_def n_def by (rule tag_join)
  have check: "tag_check t rest = (Some t, rest)" using assms by (simp add: tag_check)
  show ?thesis
  proof (cases "n < 0x1f")
    case True
    note tb = tag_byte [OF b low_mask(1) [OF True]]
    have "n \<noteq> 0x1f" using True by auto
    then show ?thesis using True tb t check
      by (simp add: der_tag_def bits_def [symmetric] n_def [symmetric] parse_asn1_tag_Cons Let_def)
  next
    case False
    have "(0x1f :: u32) AND 0x1f = 0x1f" by simp
    note tb = tag_byte [OF b this]
    have nn: "unat n < 0x20000000" using low_less(2) [of t] by (simp add: n_def word_less_nat_alt)
    then have "\<not> (ucast n :: u64) > 0x1fffffff" "\<not> (ucast n :: u64) < 0x1f" using False
      by (simp_all add: word_less_nat_alt unat_ucast_tag)
    then show ?thesis using False tb t check
      by (simp add: ucast_back der_tag_def bits_def [symmetric] n_def [symmetric] parse_asn1_tag_Cons Let_def parse_base128_encode)
  qed
qed

lemma parse_tag_canonical:
  assumes "parse_asn1_tag cbs = (Some t, rest)"
  shows "valid_tag t \<and> cbs = der_tag t @ rest"
proof (cases cbs)
  case Nil
  with assms show ?thesis by simp
next
  case (Cons b bs)
  show ?thesis
  proof (cases "(ucast b AND 0x1f :: u32) = 0x1f")
    case False
    have n: "(ucast b AND 0x1f) AND 0x1fffffff = (ucast b AND 0x1f :: u32)" by (simp add: and.assoc)
    note tp = tag_parts [OF n, of b]
    have v: "t = push_bit 24 (ucast b AND 0xe0) OR (ucast b AND 0x1f)" "valid_tag t" "bs = rest"
      using assms False by (auto simp: Cons parse_asn1_tag_Cons Let_def tag_check split: if_splits)
    have small: "(ucast b AND 0x1f :: u32) < 0x1f" using False low_less(1) [of "ucast b"]
      by (simp add: word_less_nat_alt word_unat_eq_iff) 
    have "der_tag t = [b]" using tp small by (simp add: der_tag_def v(1) Let_def byte_parts)
    with v Cons show ?thesis by simp
  next
    case True
    then obtain v where v: "parse_base128_integer bs = (Some v, rest)" "\<not> v > 0x1fffffff" "\<not> v < 0x1f"
        "t = push_bit 24 (ucast b AND 0xe0) OR ucast v" "valid_tag t"
      using assms by (auto simp: Cons parse_asn1_tag_Cons Let_def tag_check bind_cbs_def split: if_splits option.splits prod.splits)
    have uv: "unat (ucast v :: u32) = unat v"
      using v(2) by (simp add: word_less_nat_alt unsigned_ucast_eq take_bit_nat_eq_self)
    have n: "ucast v AND 0x1fffffff = (ucast v :: u32)" by (rule low_mask(2)) (use v(2) in \<open>simp add: word_less_nat_alt uv\<close>)
    note tp = tag_parts [OF n, of b]
    have big: "\<not> (ucast v :: u32) < 0x1f" using v(3) by (simp add: word_less_nat_alt uv)
    have cast: "ucast (ucast v :: u32) = v" by (simp add: word_unat_eq_iff unat_ucast_tag uv)
    have head: "(b AND 0xe0) OR 0x1f = b"
    proof -
      have "b AND 0x1f = ucast (ucast b AND 0x1f :: u32)" by (simp only: byte_parts)
      also have "\<dots> = 0x1f" unfolding True by simp
      finally show ?thesis using byte_parts(2) [of b] by simp
    qed
    have "der_tag t = b # base128 (digits128 v) v" using tp big by (simp add: der_tag_def v(4) Let_def byte_parts cast head)
    with v(1, 5) Cons show ?thesis by (simp add: parse_base128_iff)
  qed
qed

lemma parse_tag_iff: "parse_asn1_tag cbs = (Some t, rest) \<longleftrightarrow> valid_tag t \<and> cbs = der_tag t @ rest"
  using parse_der_tag parse_tag_canonical by blast

section \<open>Lengths\<close>

definition octets :: "nat \<Rightarrow> nat" where
  "octets n = (if n < 0x100 then 1 else if n < 0x10000 then 2 else if n < 0x1000000 then 3 else 4)"

definition der_length :: "nat \<Rightarrow> byte list" where
  "der_length n = (if n < 128 then [of_nat n] else of_nat (0x80 + octets n) # be_bytes (octets n) (of_nat n))"

text \<open>The reader of a length, as a function from the bytes behind the tag.\<close>

fun read_length :: "byte list \<Rightarrow> (nat \<times> byte list) option" where
  "read_length [] = None"
| "read_length (b # h) =
     (if b AND 0x80 = 0 then Some (unat b, h)
      else let k = unat (b AND 0x7f); v = be_loop 0 (take k h) in
        if k = 0 \<or> k > 4 \<or> length h < k \<or> v < 128 \<or> drop_bit ((k - 1) * 8) v = 0 then None
        else Some (unat v, drop k h))"

lemma drop_zero_unat: "drop_bit m v = 0 \<longleftrightarrow> unat (v :: u64) < 2 ^ m"
proof -
  have "unat (drop_bit m v) = unat v div 2 ^ m" by (simp only: unat_drop_bit_eq drop_bit_eq_div [where 'a = nat])
  then show ?thesis by (simp add: word_unat_eq_iff div_eq_0_iff)
qed

lemma octets: "n < 2 ^ 32 \<Longrightarrow> 128 \<le> n \<Longrightarrow> n < 2 ^ (8 * octets n) \<and> \<not> n < 2 ^ ((octets n - 1) * 8) \<and> 0 < octets n \<and> octets n \<le> 4"
  by (auto simp: octets_def)

lemma octets_unique: "0 < k \<Longrightarrow> k \<le> 4 \<Longrightarrow> n < 2 ^ (8 * k) \<Longrightarrow> \<not> n < 2 ^ ((k - 1) * 8) \<Longrightarrow> k = octets n"
proof -
  assume "0 < k" "k \<le> 4"
  then have "k = 1 \<or> k = 2 \<or> k = 3 \<or> k = 4" by linarith
  then show "n < 2 ^ (8 * k) \<Longrightarrow> \<not> n < 2 ^ ((k - 1) * 8) \<Longrightarrow> k = octets n" by (auto simp: octets_def)
qed

lemma long_form: "k \<le> 4 \<Longrightarrow> (of_nat (0x80 + k) :: byte) AND 0x80 \<noteq> 0 \<and> unat ((of_nat (0x80 + k) :: byte) AND 0x7f) = k"
proof -
  assume "k \<le> 4"
  then have "k = 0 \<or> k = 1 \<or> k = 2 \<or> k = 3 \<or> k = 4" by linarith
  then show ?thesis by auto
qed

lemma long_form_byte: "b AND 0x80 \<noteq> 0 \<Longrightarrow> of_nat (0x80 + unat (b AND 0x7f)) = (b :: byte)"
  by (rule all_bytes [of "\<lambda>b. b AND 0x80 \<noteq> 0 \<longrightarrow> of_nat (0x80 + unat (b AND 0x7f)) = b", THEN mp]) simp_all

lemma read_der_length: "n < 2 ^ 32 \<Longrightarrow> read_length (der_length n @ h) = Some (n, h)"
proof (cases "n < 128")
  case True
  then have u: "unat (of_nat n :: byte) = n" by (simp add: unat_of_nat)
  then have "(of_nat n :: byte) AND 0x80 = 0" using True byte_top by (simp add: word_less_nat_alt)
  with True u show ?thesis by (simp add: der_length_def)
next
  case False
  assume n: "n < 2 ^ 32"
  then have o: "n < 2 ^ (8 * octets n)" "\<not> n < 2 ^ ((octets n - 1) * 8)" "0 < octets n" "octets n \<le> 4"
    using octets [of n] False by auto
  have u: "unat (of_nat n :: u64) = n" using n by (intro unat_of_nat_64) simp
  have "be_loop 0 (be_bytes (octets n) (of_nat n)) = of_nat n"
    by (rule be_loop_be_bytes) (use o(1) in \<open>simp only: drop_zero_unat u\<close>)
  moreover have "\<not> (of_nat n :: u64) < 128" using False u by (simp add: word_less_nat_alt)
  moreover have "drop_bit ((octets n - 1) * 8) (of_nat n :: u64) \<noteq> 0" unfolding drop_zero_unat u by (rule o(2))
  ultimately show ?thesis using False o u long_form [OF o(4)] by (simp add: der_length_def Let_def)
qed

lemma read_length_canonical: "read_length h = Some (n, h') \<Longrightarrow> n < 2 ^ 32 \<and> h = der_length n @ h'"
proof (cases h)
  case (Cons b hs)
  assume r: "read_length h = Some (n, h')"
  show ?thesis
  proof (cases "b AND 0x80 = 0")
    case True
    then have "unat b < 128" using byte_top by (simp add: word_less_nat_alt)
    moreover have "n = unat b" "h' = hs" using r True Cons by simp_all
    ultimately show ?thesis using Cons by (simp add: der_length_def)
  next
    case False
    define k where "k = unat (b AND 0x7f)"
    define v where "v = be_loop 0 (take k hs)"
    have c: "k \<noteq> 0" "k \<le> 4" "k \<le> length hs" "\<not> v < 128" "drop_bit ((k - 1) * 8) v \<noteq> 0" "n = unat v" "h' = drop k hs"
      using r False unfolding Cons by (auto simp: Let_def k_def [symmetric] v_def [symmetric] split: if_splits)
    have "drop_bit (8 * k) v = 0" using be_loop_small [of "take k hs"] c(2, 3) by (simp add: v_def min_absorb2)
    then have vk: "unat v < 2 ^ (8 * k)" by (simp add: drop_zero_unat)
    then have k: "k = octets (unat v)" using octets_unique [of k "unat v"] c(1, 2, 5) by (simp add: drop_zero_unat)
    have "(2 :: nat) ^ (8 * k) \<le> 2 ^ 32" using c(2) by (intro power_increasing) simp_all
    with vk have "unat v < 2 ^ 32" by linarith
    moreover have "be_bytes k v = take k hs" using be_bytes_be_loop [of "take k hs"] c(2, 3) by (simp add: v_def min_absorb2)
    then have "der_length (unat v) = b # take k hs"
      using c(4) long_form_byte [OF False] by (simp add: der_length_def word_less_nat_alt k [symmetric] k_def [symmetric])
    ultimately show ?thesis using c by (simp add: Cons)
  qed
qed simp

lemma read_length_iff: "read_length h = Some (n, h') \<longleftrightarrow> n < 2 ^ 32 \<and> h = der_length n @ h'"
  using read_der_length read_length_canonical by blast

section \<open>Elements\<close>

definition der_header :: "CBS_ASN1_TAG \<Rightarrow> nat \<Rightarrow> byte list" where
  "der_header t n = der_tag t @ der_length n"

definition der :: "CBS_ASN1_TAG \<Rightarrow> byte list \<Rightarrow> byte list" where
  "der t content = der_header t (length content) @ content"

lemma der_tag_length: "length (der_tag t) \<le> 12"
proof -
  have l: "length (base128 k v) = k" for k v by (induction k) (simp_all add: Let_def)
  have "digits128 v \<le> 10" for v unfolding digits128_def by (rule first_count_le) simp
  then have "digits128 (ucast (t AND 0x1fffffff)) \<le> 11" by (rule order_trans) simp
  then show ?thesis by (simp add: der_tag_def Let_def l)
qed

lemma element_by_length:
  "cbs_get_any_asn1_element False cbs = (case parse_asn1_tag cbs of
     (None, _) \<Rightarrow> (None, cbs)
   | (Some tag, h) \<Rightarrow> (case read_length h of
       None \<Rightarrow> (None, cbs)
     | Some (n, h') \<Rightarrow> let header_len = length cbs - length h' in
         bind_cbs (CBS_get_bytes (n + header_len) cbs) (\<lambda>out cbs. (Some (out, tag, header_len, False, False), cbs))))"
proof (cases "parse_asn1_tag cbs")
  case (Pair t h)
  show ?thesis
  proof (cases t)
    case None
    with Pair show ?thesis by (simp add: cbs_get_any_asn1_element_def)
  next
    case (Some tag)
    have cbs: "cbs = der_tag tag @ h" using Pair Some by (simp add: parse_tag_iff)
    show ?thesis
    proof (cases h)
      case Nil
      with Pair Some show ?thesis by (simp add: cbs_get_any_asn1_element_def CBS_get_u8_def cbs_get_def)
    next
      case (Cons b hs)
      have u8: "CBS_get_u8 h = (Some b, hs)" by (simp add: Cons CBS_get_u8_def cbs_get_def)
      have hl: "length cbs - length hs = length (der_tag tag) + 1" by (simp add: cbs Cons)
      show ?thesis
      proof (cases "b AND 0x80 = 0")
        case True
        then show ?thesis using Pair Some u8 by (simp add: cbs_get_any_asn1_element_def Cons Let_def)
      next
        case False
        define k where "k = unat (b AND 0x7f)"
        define v where "v = be_loop 0 (take k hs)"
        consider "k = 0 \<or> k > 4" | "k \<noteq> 0" "k \<le> 4" "length hs < k" | "k \<noteq> 0" "k \<le> 4" "k \<le> length hs" by linarith
        then show ?thesis
        proof cases
          case 1
          then show ?thesis using Pair Some u8 False
            by (auto simp: cbs_get_any_asn1_element_def Cons Let_def k_def [symmetric])
        next
          case 2
          then show ?thesis using Pair Some u8 False
            by (auto simp: cbs_get_any_asn1_element_def Cons Let_def k_def [symmetric] cbs_get_u_def cbs_get_def)
        next
          case 3
          have g: "cbs_get_u k hs = (Some v, drop k hs)" using 3 by (simp add: cbs_get_u_def cbs_get_def v_def)
          have "drop_bit (8 * k) v = 0" using be_loop_small [of "take k hs"] 3 by (simp add: v_def min_absorb2)
          then have "unat v < 2 ^ (8 * k)" by (simp add: drop_zero_unat)
          moreover have "(2 :: nat) ^ (8 * k) \<le> 2 ^ 32" using 3 by (intro power_increasing) simp_all
          ultimately have v32: "unat v < 2 ^ 32" by linarith
          define w where "w = length (der_tag tag) + 1 + k"
          have w: "w \<le> 17" using der_tag_length [of tag] 3 by (simp add: w_def)
          have uw: "unat (v + of_nat w) = unat v + w" using v32 w by (intro unat_add_of_nat) simp
          then have nov: "\<not> v + of_nat w < v" by (simp add: word_less_nat_alt)
          have sum: "v + (of_nat (length (der_tag tag) + 1) + of_nat k) = v + of_nat w"
            "v + of_nat (length (der_tag tag) + 1) + of_nat k = v + of_nat w" by (simp_all add: w_def)
          have hl': "length cbs - length (drop k hs) = w" using 3 by (simp add: cbs Cons w_def)
          have hw: "length (der_tag tag) + 1 + k = w" by (simp add: w_def)
          have u8': "CBS_get_u8 (b # hs) = (Some b, hs)" using u8 by (simp only: Cons)
          show ?thesis
            unfolding cbs_get_any_asn1_element_def Pair Some prod.case option.case u8' Let_def k_def [symmetric] g hl sum hw
              Cons read_length.simps v_def [symmetric]
            using False 3 nov uw hl' by (simp add: mult.commute)
        qed
      qed
    qed
  qed
qed

lemma element_iff:
  "cbs_get_any_asn1_element False cbs = (Some (out, tag, hl, ber_found, indefinite), rest) \<longleftrightarrow>
    (\<exists>content. valid_tag tag \<and> length content < 2 ^ 32 \<and> out = der tag content \<and> hl = length (der_header tag (length content))
      \<and> \<not> ber_found \<and> \<not> indefinite \<and> cbs = out @ rest)" (is "?L \<longleftrightarrow> ?R")
proof
  assume ?L
  then obtain h n h' where h: "parse_asn1_tag cbs = (Some tag, h)" "read_length h = Some (n, h')"
      "hl = length cbs - length h'" "CBS_get_bytes (n + hl) cbs = (Some out, rest)" "\<not> ber_found" "\<not> indefinite"
    unfolding element_by_length by (auto simp: bind_cbs_def Let_def split: prod.splits option.splits)
  have c: "valid_tag tag" "cbs = der_header tag n @ h'" "n < 2 ^ 32"
    using h(1, 2) by (auto simp: parse_tag_iff read_length_iff der_header_def)
  then have hl: "hl = length (der_header tag n)" using h(3) by simp
  have o: "n + hl \<le> length cbs" "out = take (n + hl) cbs" "rest = drop (n + hl) cbs"
    using h(4) by (auto simp: CBS_get_bytes_def cbs_get_def bind_cbs_def split: if_splits)
  have "n \<le> length h'" using o(1) c(2) hl by simp
  then have "out = der tag (take n h')" "rest = drop n h'" using o c(2) hl by (simp_all add: der_def)
  with c h(5, 6) hl \<open>n \<le> length h'\<close> show ?R by (intro exI [of _ "take n h'"]) (auto simp: der_def)
next
  assume ?R
  then obtain content where c: "valid_tag tag" "length content < 2 ^ 32" "out = der tag content"
      "hl = length (der_header tag (length content))" "\<not> ber_found" "\<not> indefinite" "cbs = out @ rest" by blast
  have "parse_asn1_tag cbs = (Some tag, der_length (length content) @ content @ rest)"
    using c(1, 3, 7) by (simp add: parse_tag_iff der_def der_header_def)
  moreover have "read_length (der_length (length content) @ content @ rest) = Some (length content, content @ rest)"
    using c(2) by (rule read_der_length)
  moreover have "length cbs - length (content @ rest) = hl" using c by (simp add: der_def)
  moreover have "CBS_get_bytes (length content + hl) cbs = (Some out, rest)"
    using c by (simp add: CBS_get_bytes_def cbs_get_def der_def)
  ultimately show ?L using c(5, 6) unfolding element_by_length by (simp add: Let_def)
qed

end
