(* ===== verification/CbbState.thy ===== *)
theory CbbState
  imports Cbb Asn1Elem
begin

text \<open>
  The builder as a stack. A builder is the list of the byte strings that are still open, the innermost
  first and the one that owns the buffer last; closing one appends its encoding to the next. \<open>layout\<close> says
  which stack a \<open>CBB\<close> holds, and is the invariant of the builder.
\<close>

declare bit_numeral_word_iff [simp del]

section \<open>The stack\<close>

datatype kind = Root | Prefixed nat | Element

type_synonym builder = "(kind \<times> byte list) list"

fun width :: "kind \<Rightarrow> nat" where
  "width Root = 0"
| "width (Prefixed n) = n"
| "width Element = 1"

fun encode_kind :: "kind \<Rightarrow> byte list \<Rightarrow> byte list option" where
  "encode_kind Root bs = None"
| "encode_kind (Prefixed n) bs = (if length bs < 2 ^ (8 * n) then Some (be_bytes n (of_nat (length bs)) @ bs) else None)"
| "encode_kind Element bs = (if length bs \<le> 0xfffffffe then Some (der_length (length bs) @ bs) else None)"

fun push_bytes :: "byte list \<Rightarrow> builder \<Rightarrow> builder" where
  "push_bytes x [] = []"
| "push_bytes x ((k, bs) # s) = (k, bs @ x) # s"

fun close_one :: "builder \<Rightarrow> builder option" where
  "close_one [] = None"
| "close_one ((k, bs) # s) = map_option (\<lambda>e. push_bytes e s) (encode_kind k bs)"

primrec close_n :: "nat \<Rightarrow> builder \<Rightarrow> builder option" where
  "close_n 0 s = Some s"
| "close_n (Suc n) s = Option.bind (close_one s) (close_n n)"

text \<open>\<open>close_to d s\<close>: all but the outermost \<open>d + 1\<close> closed.\<close>

definition close_to :: "nat \<Rightarrow> builder \<Rightarrow> builder option" where
  "close_to d s = close_n (length s - (d + 1)) s"

fun contents :: "builder \<Rightarrow> byte list" where
  "contents [] = []"
| "contents ((k, bs) # s) = contents s @ replicate (width k) 0 @ bs"

fun kids_of :: "builder \<Rightarrow> cbb_child list" where
  "kids_of [] = []"
| "kids_of [_] = []"
| "kids_of ((k, bs) # x # s) = kids_of (x # s) @
     [\<lparr>offset = of_nat (length (contents (x # s))), pending_len_len = of_nat (width k), pending_is_asn1 = (k = Element)\<rparr>]"

fun well_formed :: "builder \<Rightarrow> bool" where
  "well_formed [] \<longleftrightarrow> False"
| "well_formed [(k, bs)] \<longleftrightarrow> k = Root"
| "well_formed ((k, bs) # x # s) \<longleftrightarrow> k \<noteq> Root \<and> width k \<le> 8 \<and> well_formed (x # s)"

lemma kids_of_Cons: "s \<noteq> [] \<Longrightarrow> kids_of ((k, bs) # s) = kids_of s @
    [\<lparr>offset = of_nat (length (contents s)), pending_len_len = of_nat (width k), pending_is_asn1 = (k = Element)\<rparr>]"
  by (cases s) auto

lemma well_formed_Cons: "s \<noteq> [] \<Longrightarrow> well_formed ((k, bs) # s) \<longleftrightarrow> k \<noteq> Root \<and> width k \<le> 8 \<and> well_formed s"
  by (cases s) auto

lemma length_kids_of [simp]: "length (kids_of s) = length s - 1"
  by (induction s rule: kids_of.induct) auto

lemma length_push [simp]: "length (push_bytes x s) = length s"
  by (cases "(x, s)" rule: push_bytes.cases) auto

lemma push_Nil [simp]: "push_bytes [] s = s"
  by (cases "([] :: byte list, s)" rule: push_bytes.cases) auto

lemma push_push [simp]: "push_bytes y (push_bytes x s) = push_bytes (x @ y) s"
  by (cases "(x, s)" rule: push_bytes.cases) auto

lemma contents_push: "s \<noteq> [] \<Longrightarrow> contents (push_bytes x s) = contents s @ x"
  by (cases "(x, s)" rule: push_bytes.cases) auto

lemma kids_push [simp]: "kids_of (push_bytes x s) = kids_of s"
  by (cases s rule: kids_of.cases) auto

lemma well_formed_push [simp]: "well_formed (push_bytes x s) = well_formed s"
  by (cases s rule: kids_of.cases) auto

lemma close_one_length: "close_one s = Some s' \<Longrightarrow> length s' = length s - 1"
  by (cases s rule: close_one.cases) auto

lemma close_one_well_formed: "close_one s = Some s' \<Longrightarrow> well_formed s \<Longrightarrow> 2 \<le> length s \<Longrightarrow> well_formed s'"
  by (cases s rule: close_one.cases) (auto simp: well_formed_Cons Suc_le_eq)

lemma close_n_last: "close_n (Suc n) s = Option.bind (close_n n s) close_one"
proof (induction n arbitrary: s)
  case 0
  then show ?case by (cases "close_one s") simp_all
next
  case (Suc n)
  then show ?case by (cases "close_one s") simp_all
qed

lemma close_n_length: "close_n n s = Some s' \<Longrightarrow> length s' = length s - n"
proof (induction n arbitrary: s)
  case (Suc n)
  then obtain t where "close_one s = Some t" "close_n n t = Some s'" by (auto split: bind_splits)
  with Suc.IH [of t] close_one_length [of s t] show ?case by simp
qed simp

lemma close_to_length: "close_to d s = Some s' \<Longrightarrow> d < length s \<Longrightarrow> length s' = d + 1"
  by (auto simp: close_to_def dest: close_n_length)

lemma close_to_self: "length s = d + 1 \<Longrightarrow> close_to d s = Some s"
  by (simp add: close_to_def)

lemma close_to_step: "d + 1 < length s \<Longrightarrow> close_to d s = Option.bind (close_to (d + 1) s) close_one"
proof -
  assume "d + 1 < length s"
  then have "length s - (d + 1) = Suc (length s - (d + 1 + 1))" by simp
  then show ?thesis unfolding close_to_def by (simp only: close_n_last)
qed

section \<open>Writing into the buffer\<close>

lemma put_back: "Option.bind (put b (pos + length as) [x]) (\<lambda>b. put b pos as) = put b pos (as @ [x])"
  by (cases "pos + length as < length b") (auto simp: put_def min_def)

lemma be_write_put:
  "pos + k \<le> length b \<Longrightarrow> be_write b pos k v = map_option (\<lambda>b. (b, drop_bit (8 * k) v)) (put b pos (be_bytes k v))"
proof (induction k arbitrary: b v)
  case (Suc k)
  then obtain b1 where b1: "put b (pos + k) [ucast v] = Some b1" using put_fits [of "pos + k" "[ucast v]" b] by auto
  have "pos + k \<le> length b1" using Suc.prems put_length [OF b1] by simp
  then have "be_write b pos (Suc k) v = map_option (\<lambda>b. (b, drop_bit (8 * k) (drop_bit 8 v))) (put b1 pos (be_bytes k (drop_bit 8 v)))"
    by (simp add: b1 Suc.IH)
  also have "put b1 pos (be_bytes k (drop_bit 8 v)) = put b pos (be_bytes (Suc k) v)"
    using put_back [of b pos "be_bytes k (drop_bit 8 v)" "ucast v"] b1 by (simp add: be_bytes_Suc)
  finally show ?case by (simp add: algebra_simps)
qed simp

section \<open>The buffer\<close>

definition sized :: "allocator \<Rightarrow> bool" where
  "sized alloc \<longleftrightarrow> (\<forall>i n b. alloc i n = Some b \<longrightarrow> length b = n)"

definition plenty :: "allocator \<Rightarrow> bool" where
  "plenty alloc \<longleftrightarrow> (\<forall>i n. alloc i n \<noteq> None)"

definition zeroed :: allocator where
  "zeroed i n = Some (replicate n 0)"

lemma zeroed [simp]: "sized zeroed" "plenty zeroed"
  by (simp_all add: sized_def plenty_def zeroed_def)

definition buffer_ok :: "cbb \<Rightarrow> bool" where
  "buffer_ok c \<longleftrightarrow> length (buf c) = unat (cap c) \<and> unat (len c) \<le> unat (cap c)"

text \<open>
  The capacity of a builder that cannot grow, and what must hold for a builder with that limit to come to
  hold \<open>n\<close> bytes.
\<close>

definition limit :: "cbb \<Rightarrow> size_t option" where
  "limit c = (if can_resize c then None else Some (cap c))"

definition room :: "allocator \<Rightarrow> size_t option \<Rightarrow> nat \<Rightarrow> bool" where
  "room alloc lim n \<longleftrightarrow> n < 2 ^ 64 \<and> (case lim of None \<Rightarrow> plenty alloc | Some cp \<Rightarrow> n \<le> unat cp)"

lemma room_less: "room alloc lim n \<Longrightarrow> m \<le> n \<Longrightarrow> room alloc lim m"
  by (auto simp: room_def split: option.splits)

lemma limit_simps [simp]:
  "limit (c\<lparr>buf := b\<rparr>) = limit c" "limit (c\<lparr>len := n\<rparr>) = limit c" "limit (c\<lparr>kids := k\<rparr>) = limit c"
  "limit (c\<lparr>error := e\<rparr>) = limit c" "limit (c\<lparr>requests := r\<rparr>) = limit c"
  by (simp_all add: limit_def)

lemma unat_add_64:
  fixes a b :: u64
  shows "a + b < a \<longleftrightarrow> \<not> unat a + unat b < 2 ^ 64" "unat a + unat b < 2 ^ 64 \<Longrightarrow> unat (a + b) = unat a + unat b"
proof -
  have u: "unat (a + b) = (if unat a + unat b < 2 ^ 64 then unat a + unat b else unat a + unat b - 2 ^ 64)"
    using unat_less_64 [of a] unat_less_64 [of b] by (simp add: unat_word_ariths mod_if)
  show "unat a + unat b < 2 ^ 64 \<Longrightarrow> unat (a + b) = unat a + unat b" using u by simp
  show "a + b < a \<longleftrightarrow> \<not> unat a + unat b < 2 ^ 64" using u unat_less_64 [of b] by (auto simp: word_less_nat_alt)
qed

lemma reserve_cases:
  assumes "sized alloc" "buffer_ok c"
  obtains r where "\<not> room alloc (limit c) (unat (len c) + unat n)" "cbb_buffer_reserve alloc n c = (None, c\<lparr>error := True, requests := r\<rparr>)"
  | fresh cp r where "cbb_buffer_reserve alloc n c = (Some (unat (len c)), c\<lparr>buf := buf c @ fresh, cap := cp, requests := r\<rparr>)"
      "length (buf c @ fresh) = unat cp" "unat (len c) + unat n \<le> unat cp" "limit (c\<lparr>cap := cp\<rparr>) = limit c"
proof -
  have b: "length (buf c) = unat (cap c)" "unat (len c) \<le> unat (cap c)" using assms(2) by (simp_all add: buffer_ok_def)
  show thesis
  proof (cases "unat (len c) + unat n < 2 ^ 64")
    case False
    then have "len c + n < len c" using unat_add_64 [of "len c" n] by simp
    then show thesis using False that(1) [of "requests c"] by (simp add: cbb_buffer_reserve_def Let_def room_def limit_def)
  next
    case True
    then have u: "unat (len c + n) = unat (len c) + unat n" "\<not> len c + n < len c" using unat_add_64 [of "len c" n] by simp_all
    show thesis
    proof (cases "len c + n > cap c")
      case False
      then show thesis using u b that(2) [where fresh = "[]" and cp = "cap c" and r = "requests c"]
        by (simp add: cbb_buffer_reserve_def Let_def word_less_nat_alt)
    next
      case grow: True
      define newcap where "newcap = (let newcap = cap c * 2 in if newcap < cap c \<or> newcap < len c + n then len c + n else newcap)"
      have nc: "len c + n \<le> newcap" "cap c \<le> newcap" using grow by (auto simp: newcap_def Let_def not_less)
      have r: "cbb_buffer_reserve alloc n c = (if \<not> can_resize c then (None, c\<lparr>error := True\<rparr>)
          else case alloc (requests c) (unat newcap) of
            None \<Rightarrow> (None, c\<lparr>error := True, requests := requests c + 1\<rparr>)
          | Some fresh \<Rightarrow> (Some (unat (len c)),
              c\<lparr>buf := buf c @ drop (length (buf c)) fresh, cap := newcap, requests := requests c + 1\<rparr>))"
        unfolding cbb_buffer_reserve_def newcap_def Let_def by (simp only: grow u(2) if_True if_False)
      have g: "\<not> unat (len c) + unat n \<le> unat (cap c)" using grow u(1) by (simp add: word_less_nat_alt)
      show thesis
      proof (cases "can_resize c \<and> alloc (requests c) (unat newcap) \<noteq> None")
        case False
        then have "\<not> room alloc (limit c) (unat (len c) + unat n)" using g by (auto simp: room_def limit_def plenty_def)
        moreover have "\<exists>rq. cbb_buffer_reserve alloc n c = (None, c\<lparr>error := True, requests := rq\<rparr>)"
        proof (cases "can_resize c")
          case True
          with False show ?thesis unfolding r by (intro exI [of _ "requests c + 1"]) simp
        next
          case False
          then show ?thesis unfolding r by (intro exI [of _ "requests c"]) simp
        qed
        ultimately show thesis using that(1) by blast
      next
        case True
        then obtain fresh where f: "alloc (requests c) (unat newcap) = Some fresh" by auto
        then have "length fresh = unat newcap" using assms(1) by (auto simp: sized_def)
        moreover have "unat (cap c) \<le> unat newcap" "unat (len c) + unat n \<le> unat newcap"
          using nc u(1) by (simp_all add: word_le_nat_alt)
        ultimately show thesis using True f r b that(2) [where fresh = "drop (length (buf c)) fresh" and cp = newcap and r = "requests c + 1"] by (simp add: limit_def)
      qed
    qed
  qed
qed

lemma add_cases:
  assumes "sized alloc" "buffer_ok c"
  obtains r where "\<not> room alloc (limit c) (unat (len c) + unat n)" "cbb_buffer_add alloc n c = (None, c\<lparr>error := True, requests := r\<rparr>)"
  | fresh cp r where "cbb_buffer_add alloc n c =
        (Some (unat (len c)), c\<lparr>buf := buf c @ fresh, cap := cp, requests := r, len := len c + n\<rparr>)"
      "length (buf c @ fresh) = unat cp" "unat (len c) + unat n \<le> unat cp" "unat (len c + n) = unat (len c) + unat n"
      "limit (c\<lparr>cap := cp\<rparr>) = limit c"
proof (rule reserve_cases [OF assms, of n])
  fix r
  assume "\<not> room alloc (limit c) (unat (len c) + unat n)" "cbb_buffer_reserve alloc n c = (None, c\<lparr>error := True, requests := r\<rparr>)"
  then show thesis using that(1) [of r] by (simp add: cbb_buffer_add_def)
next
  fix fresh cp r
  assume r: "cbb_buffer_reserve alloc n c = (Some (unat (len c)), c\<lparr>buf := buf c @ fresh, cap := cp, requests := r\<rparr>)"
    "length (buf c @ fresh) = unat cp" "unat (len c) + unat n \<le> unat cp" "limit (c\<lparr>cap := cp\<rparr>) = limit c"
  then have "unat (len c) + unat n < 2 ^ 64" using unat_less_64 [of cp] by simp
  then have "unat (len c + n) = unat (len c) + unat n" by (rule unat_add_64(2))
  then show thesis using r that(2) [where fresh = fresh and cp = cp and r = r] by (simp add: cbb_buffer_add_def)
qed

section \<open>Layout\<close>

definition layout :: "size_t option \<Rightarrow> cbb \<Rightarrow> builder \<Rightarrow> bool" where
  "layout lim c s \<longleftrightarrow> well_formed s \<and> limit c = lim \<and> buffer_ok c \<and> take (unat (len c)) (buf c) = contents s \<and> kids c = kids_of s"

definition cbb_ok :: "size_t option \<Rightarrow> cbb \<Rightarrow> bool" where
  "cbb_ok lim c \<longleftrightarrow> (\<exists>s. layout lim c s)"

definition holds :: "size_t option \<Rightarrow> cbb \<Rightarrow> builder \<Rightarrow> bool" where
  "holds lim c s \<longleftrightarrow> layout lim c s \<and> \<not> error c"

lemma layout_length: "layout lim c s \<Longrightarrow> length (contents s) = unat (len c) \<and> unat (len c) \<le> length (buf c) \<and> length (contents s) < 2 ^ 64"
proof -
  assume l: "layout lim c s"
  then have "unat (len c) \<le> length (buf c)" by (simp add: layout_def buffer_ok_def)
  moreover have "take (unat (len c)) (buf c) = contents s" using l by (simp add: layout_def)
  then have "length (contents s) = unat (len c)" using calculation by (metis length_take min_absorb2)
  ultimately show ?thesis using unat_less_64 [of "len c"] by simp
qed

lemma layout_depth: "layout lim c s \<Longrightarrow> length s = length (kids c) + 1"
  by (cases s) (auto simp: layout_def)

lemma layout_flags [simp]: "layout lim (c\<lparr>error := e\<rparr>) s = layout lim c s" "layout lim (c\<lparr>requests := r\<rparr>) s = layout lim c s"
  by (simp_all add: layout_def buffer_ok_def)

lemma layout_collapse:
  "layout lim c s \<Longrightarrow> d \<le> length (kids c) \<Longrightarrow> cbb_ok lim (c\<lparr>kids := take d (kids c)\<rparr>)"
proof (induction "length (kids c) - d" arbitrary: c s)
  case 0
  then have "take d (kids c) = kids c" by simp
  with 0 show ?case by (auto simp: cbb_ok_def)
next
  case (Suc n)
  have l: "length s = length (kids c) + 1" using layout_depth Suc.prems(1) .
  then obtain k bs t where s: "s = (k, bs) # t" "t \<noteq> []" using Suc.hyps(2) by (cases s; cases "tl s") auto
  have kt: "kids c = kids_of t @ [\<lparr>offset = of_nat (length (contents t)), pending_len_len = of_nat (width k), pending_is_asn1 = (k = Element)\<rparr>]"
    using Suc.prems(1) s by (simp add: layout_def kids_of_Cons)
  let ?c = "c\<lparr>kids := kids_of t\<rparr>"
  have "layout lim ?c (push_bytes (replicate (width k) 0 @ bs) t)"
    using Suc.prems(1) s by (simp add: layout_def buffer_ok_def contents_push well_formed_Cons)
  moreover have "n = length (kids ?c) - d" "d \<le> length (kids ?c)" using Suc.hyps(2) kt by auto
  ultimately have "cbb_ok lim (?c\<lparr>kids := take d (kids ?c)\<rparr>)" using Suc.hyps(1) by blast
  moreover have "take d (kids c) = take d (kids_of t)" using \<open>d \<le> length (kids ?c)\<close> by (simp add: kt)
  ultimately show ?case by simp
qed

lemma put_replace:
  assumes "put b (length as) x = Some b'" "take n b = as @ g @ bs" "length g = length x"
  shows "take n b' = as @ x @ bs"
proof -
  have b: "b = as @ g @ bs @ drop n b" using append_take_drop_id [of n b] assms(2) by simp
  have "b' = as @ x @ bs @ drop n b" using assms(1, 3) by (subst (asm) b) (simp add: put_iff)
  moreover have "min (length b) n = length (as @ g @ bs)" using arg_cong [OF assms(2), of length] by simp
  then have "n = length (as @ x @ bs) \<or> drop n b = []" using assms(3) by (auto simp: min_def split: if_splits)
  ultimately show ?thesis using assms(3) arg_cong [OF assms(2), of length] by auto
qed

section \<open>Closing the innermost child\<close>

lemma length_form_octets:
  assumes "unat n < 2 ^ 32"
  shows "length_form n = (if unat n < 128 then (1, of_nat (unat n), 0)
    else (of_nat (octets (unat n) + 1), of_nat (0x80 + octets (unat n)), n))"
proof -
  have c: "n > 0xffffff \<longleftrightarrow> \<not> unat n < 0x1000000" "n > 0xffff \<longleftrightarrow> \<not> unat n < 0x10000" "n > 0xff \<longleftrightarrow> \<not> unat n < 0x100"
    "n > 0x7f \<longleftrightarrow> \<not> unat n < 128"
    by (auto simp: word_less_nat_alt)
  show ?thesis by (simp add: length_form_def c octets_def)
qed

text \<open>A result of \<open>flush_child\<close>: the child's bytes are replaced by its encoding, or all before them is kept.\<close>

definition flushed :: "bool \<Rightarrow> size_t option \<Rightarrow> kind \<Rightarrow> byte list \<Rightarrow> builder \<Rightarrow> unit built \<Rightarrow> bool" where
  "flushed must lim k bs s r \<longleftrightarrow> (case r of
     None \<Rightarrow> False
   | Some (None, c) \<Rightarrow> \<not> must \<and> cbb_ok lim (c\<lparr>kids := kids_of s\<rparr>) \<and> kids c = kids_of ((k, bs) # s)
   | Some (Some _, c) \<Rightarrow> \<exists>e. encode_kind k bs = Some e \<and> holds lim (c\<lparr>kids := kids_of s\<rparr>) (push_bytes e s) \<and> kids c = kids_of ((k, bs) # s))"

lemma child_facts:
  assumes l: "holds lim c ((k, bs) # s)" and s: "s \<noteq> []"
  shows "kids c = kids_of s @ [\<lparr>offset = of_nat (length (contents s)), pending_len_len = of_nat (width k), pending_is_asn1 = (k = Element)\<rparr>]"
    "k \<noteq> Root" "unat (of_nat (width k) :: byte) = width k" "unat (of_nat (length (contents s)) :: size_t) = length (contents s)"
    "of_nat (length (contents s)) + ucast (of_nat (width k) :: byte) = (of_nat (length (contents s) + width k) :: size_t)"
    "unat (of_nat (length (contents s) + width k) :: size_t) = length (contents s) + width k"
    "unat (len c) = length (contents s) + width k + length bs" "unat (len c) \<le> length (buf c)"
    "len c - of_nat (length (contents s) + width k) = of_nat (length bs)" "unat (of_nat (length bs) :: size_t) = length bs"
    "layout lim (c\<lparr>kids := kids_of s\<rparr>) (push_bytes (replicate (width k) 0 @ bs) s)" "kids c = kids_of ((k, bs) # s)"
proof -
  have w: "width k \<le> 8" and lay: "layout lim c ((k, bs) # s)"
    and im: "take (unat (len c)) (buf c) = contents s @ replicate (width k) 0 @ bs"
    using l s by (auto simp: holds_def layout_def well_formed_Cons)
  show "kids c = kids_of s @ [\<lparr>offset = of_nat (length (contents s)), pending_len_len = of_nat (width k), pending_is_asn1 = (k = Element)\<rparr>]" "k \<noteq> Root"
    using lay s by (auto simp: layout_def well_formed_Cons kids_of_Cons)
  show n: "unat (len c) = length (contents s) + width k + length bs" "unat (len c) \<le> length (buf c)"
    using layout_length [OF lay] by simp_all
  then have lt: "length (contents s) + width k + length bs < 2 ^ 64" using unat_less_64 [of "len c"] by simp
  show uo: "unat (of_nat (length (contents s)) :: size_t) = length (contents s)"
    "unat (of_nat (length (contents s) + width k) :: size_t) = length (contents s) + width k"
    "unat (of_nat (length bs) :: size_t) = length bs"
    by (rule unat_of_nat_64, use lt in simp)+
  show uw: "unat (of_nat (width k) :: byte) = width k" using w by (simp add: unat_of_nat)
  then have "ucast (of_nat (width k) :: byte) = (of_nat (width k) :: size_t)"
    using w by (simp add: word_unat_eq_iff unat_ucast_up unat_of_nat_64)
  then show "of_nat (length (contents s)) + ucast (of_nat (width k) :: byte) = (of_nat (length (contents s) + width k) :: size_t)" by simp
  have "len c = of_nat (unat (len c))" by simp
  then have "len c = of_nat (length (contents s) + width k) + of_nat (length bs)" by (simp only: n of_nat_add)
  then show "len c - of_nat (length (contents s) + width k) = of_nat (length bs)" by simp
  show "layout lim (c\<lparr>kids := kids_of s\<rparr>) (push_bytes (replicate (width k) 0 @ bs) s)"
    using lay im s by (simp add: layout_def buffer_ok_def contents_push well_formed_Cons)
  show "kids c = kids_of ((k, bs) # s)" using lay by (simp add: layout_def)
qed

lemma flushed_by:
  assumes "holds lim c ((k, bs) # s)" "s \<noteq> []" "encode_kind k bs = Some e"
    and "length b = unat cp" "unat n \<le> unat cp" "take (unat n) b = contents s @ e" "limit (c\<lparr>cap := cp\<rparr>) = limit c"
  shows "flushed must lim k bs s (Some (Some (), c\<lparr>buf := b, cap := cp, requests := rq, len := n\<rparr>))"
  using assms child_facts(1) [OF assms(1, 2)]
  by (auto simp: flushed_def holds_def layout_def buffer_ok_def contents_push well_formed_Cons limit_def)

lemma flush_child_start:
  assumes l: "holds lim c ((k, bs) # s)" and s: "s \<noteq> []"
  shows "flush_child alloc (last (kids c)) c =
    (let ch = \<lparr>offset = of_nat (length (contents s)), pending_len_len = of_nat (width k), pending_is_asn1 = (k = Element)\<rparr> in
      bind_cbb (if k = Element then flush_asn1 alloc ch (of_nat (length (contents s) + width k)) (of_nat (length bs)) c
          else Some (Some (ch, of_nat (length bs)), c))
        (\<lambda>(ch, n) c. do {
           (b, n) \<leftarrow> be_write (buf c) (unat (offset ch)) (unat (pending_len_len ch)) n;
           if n \<noteq> 0 then Some (None, c\<lparr>buf := b\<rparr>) else Some (Some (), c\<lparr>buf := b\<rparr>) }))"
proof -
  note cf = child_facts [OF l s]
  have c: "\<not> (of_nat (length (contents s) + width k) :: size_t) < of_nat (length (contents s))"
      "\<not> len c < of_nat (length (contents s) + width k)"
    unfolding word_less_nat_alt cf(4, 6, 7) by simp_all
  show ?thesis unfolding flush_child_def cf(1) Let_def last_snoc cbb_child.select_convs cf(5, 9)
    by (simp only: c if_False simp_thms)
qed

lemma flush_prefixed:
  assumes l: "holds lim c ((Prefixed n, bs) # s)" and s: "s \<noteq> []"
  shows "flushed (encode_kind (Prefixed n) bs \<noteq> None) lim (Prefixed n) bs s (flush_child alloc (last (kids c)) c)"
proof -
  note cf = child_facts [OF l s, unfolded width.simps]
  have im: "take (unat (len c)) (buf c) = contents s @ replicate n 0 @ bs" and ok: "buffer_ok c" "limit c = lim" "well_formed s"
    using l s by (auto simp: holds_def layout_def well_formed_Cons)
  obtain b where b: "put (buf c) (length (contents s)) (be_bytes n (of_nat (length bs))) = Some b"
    using cf(7, 8) put_fits [of "length (contents s)" "be_bytes n (of_nat (length bs))" "buf c"] by auto
  have w: "be_write (buf c) (length (contents s)) n (of_nat (length bs)) = Some (b, drop_bit (8 * n) (of_nat (length bs)))"
    using cf(7, 8) by (subst be_write_put) (simp_all add: b)
  have f: "flush_child alloc (last (kids c)) c =
      Some (if drop_bit (8 * n) (of_nat (length bs) :: u64) \<noteq> 0 then None else Some (), c\<lparr>buf := b\<rparr>)"
    unfolding flush_child_start [OF l s] by (simp add: Let_def cf(3, 4) w)
  have t: "take (unat (len c)) b = contents s @ be_bytes n (of_nat (length bs)) @ bs"
    by (rule put_replace [OF b im]) simp
  have lay: "layout lim (c\<lparr>buf := b, kids := kids_of s\<rparr>) (push_bytes (be_bytes n (of_nat (length bs)) @ bs) s)"
    using ok t s put_length [OF b] by (simp add: layout_def buffer_ok_def contents_push)
  have z: "drop_bit (8 * n) (of_nat (length bs) :: u64) = 0 \<longleftrightarrow> length bs < 2 ^ (8 * n)"
    by (simp only: drop_zero_unat cf(10))
  show ?thesis using f z lay l cf(12) by (auto simp: flushed_def holds_def cbb_ok_def)
qed

lemma flush_element:
  assumes l: "holds lim c ((Element, bs) # s)" and s: "s \<noteq> []" and a: "sized alloc"
  shows "flushed (encode_kind Element bs \<noteq> None \<and> room alloc (limit c) (unat (len c) + (length (der_length (length bs)) - 1))) lim Element bs s
    (flush_child alloc (last (kids c)) c)"
proof -
  note cf = child_facts [OF l s, unfolded width.simps]
  have im: "take (unat (len c)) (buf c) = contents s @ [0] @ bs" and ok: "buffer_ok c" "limit c = lim" "well_formed s"
    using l s by (auto simp: holds_def layout_def well_formed_Cons)
  have failed: "\<not> must \<Longrightarrow> flushed must lim Element bs s (Some (None, c\<lparr>error := e, requests := r\<rparr>))" for must e r
  proof -
    assume "\<not> must"
    moreover have "layout lim (c\<lparr>error := e, requests := r, kids := kids_of s\<rparr>) (push_bytes (replicate 1 0 @ bs) s)"
      using cf(11) by (simp add: layout_def buffer_ok_def)
    ultimately show ?thesis using cf(12) by (auto simp: flushed_def cbb_ok_def)
  qed
  let ?ch = "\<lparr>offset = of_nat (length (contents s)), pending_len_len = of_nat 1, pending_is_asn1 = True\<rparr>"
  define n :: size_t where "n = of_nat (length bs)"
  have un: "unat n = length bs" unfolding n_def by (rule cf(10))
  have f: "flush_child alloc (last (kids c)) c = bind_cbb (flush_asn1 alloc ?ch (of_nat (length (contents s) + 1)) n c)
      (\<lambda>(ch, n) c. do {
         (b, n) \<leftarrow> be_write (buf c) (unat (offset ch)) (unat (pending_len_len ch)) n;
         if n \<noteq> 0 then Some (None, c\<lparr>buf := b\<rparr>) else Some (Some (), c\<lparr>buf := b\<rparr>) })"
    unfolding flush_child_start [OF l s] by (simp only: Let_def n_def width.simps if_True simp_thms)
  have big: "n > 0xfffffffe \<longleftrightarrow> \<not> length bs \<le> 0xfffffffe" by (auto simp: word_less_nat_alt un)
  show ?thesis
  proof (cases "length bs \<le> 0xfffffffe")
    case False
    then show ?thesis using failed [where e = "error c" and r = "requests c"] big by (simp add: f flush_asn1_def)
  next
    case True
    then have lf: "length_form n = (if length bs < 128 then (1, of_nat (length bs), 0)
        else (of_nat (octets (length bs) + 1), of_nat (0x80 + octets (length bs)), n))"
      using length_form_octets [of n] by (simp add: un)
    have enc: "encode_kind Element bs = Some (der_length (length bs) @ bs)" using True by simp
    show ?thesis
    proof (cases "length bs < 128")
      case short: True
      obtain b where b: "put (buf c) (length (contents s)) [of_nat (length bs)] = Some b"
        using cf(7, 8) put_fits [of "length (contents s)" "[of_nat (length bs)]" "buf c"] by auto
      have t: "take (unat (len c)) b = contents s @ [of_nat (length bs)] @ bs" by (rule put_replace [OF b im]) simp
      have "flush_child alloc (last (kids c)) c = Some (Some (), c\<lparr>buf := b, cap := cap c, requests := requests c, len := len c\<rparr>)"
        using short True big b by (simp add: f flush_asn1_def lf cf(4))
      also have "flushed (encode_kind Element bs \<noteq> None \<and> room alloc (limit c) (unat (len c) + (length (der_length (length bs)) - 1))) lim Element bs s \<dots>"
        by (rule flushed_by [OF l s enc]) (use ok t short put_length [OF b] in \<open>simp_all add: buffer_ok_def der_length_def\<close>)
      finally show ?thesis .
    next
      case long: False
      define k where "k = octets (length bs)"
      have k: "length bs < 2 ^ (8 * k)" "0 < k" "k \<le> 4" using octets [of "length bs"] True long by (auto simp: k_def)
      have dl: "der_length (length bs) = of_nat (0x80 + k) # be_bytes k n" using long by (simp add: der_length_def k_def n_def)
      define extra :: size_t where "extra = ucast (of_nat (k + 1) - 1 :: byte)"
      have ue: "unat extra = k" using k(2, 3) by (simp add: extra_def unat_ucast_up unat_of_nat)
      have ln: "(of_nat k :: byte) \<noteq> 0" "unat (of_nat (k + 1) - 1 :: byte) = k" 
      proof -
        have "k = 1 \<or> k = 2 \<or> k = 3 \<or> k = 4" using k(2, 3) by linarith
        then show "(of_nat k :: byte) \<noteq> 0" "unat (of_nat (k + 1) - 1 :: byte) = k" by auto
      qed
      then have ln1: "(of_nat (k + 1) :: byte) \<noteq> 1" by simp
      let ?start = "of_nat (length (contents s) + 1) :: size_t"
      have fa: "flush_asn1 alloc ?ch ?start n c = bind_cbb (case cbb_buffer_add alloc extra c of
            (None, c) \<Rightarrow> Some (None, c)
          | (Some _, c) \<Rightarrow> do {
              b \<leftarrow> put (buf c) (unat (?start + extra)) (take (unat n) (drop (unat ?start) (buf c)));
              Some (Some (), c\<lparr>buf := b\<rparr>) })
          (\<lambda>_ c. do {
             b \<leftarrow> put (buf c) (unat (offset ?ch)) [of_nat (0x80 + k)];
             Some (Some (?ch\<lparr>offset := offset ?ch + 1, pending_len_len := of_nat (k + 1) - 1\<rparr>, n), c\<lparr>buf := b\<rparr>) })"
        using big True ln1 unfolding flush_asn1_def lf extra_def
        by (simp only: long k_def [symmetric] Let_def prod.case if_True if_False simp_thms cbb_child.select_convs of_nat_1)
      show ?thesis
      proof (rule add_cases [OF a ok(1), of extra])
        fix r
        assume "\<not> room alloc (limit c) (unat (len c) + unat extra)" "cbb_buffer_add alloc extra c = (None, c\<lparr>error := True, requests := r\<rparr>)"
        then show ?thesis unfolding f fa using failed [where e = True and r = r] by (simp add: ue dl)
      next
        fix fresh cp r
        assume add: "cbb_buffer_add alloc extra c = (Some (unat (len c)), c\<lparr>buf := buf c @ fresh, cap := cp, requests := r, len := len c + extra\<rparr>)"
          "length (buf c @ fresh) = unat cp" "unat (len c) + unat extra \<le> unat cp" "unat (len c + extra) = unat (len c) + unat extra"
          "limit (c\<lparr>cap := cp\<rparr>) = limit c"
        define p where "p = length (contents s)"
        have us: "unat ?start = p + 1" "unat (?start + extra) = p + 1 + k" and uo: "unat (of_nat p :: size_t) = p"
            and uo1: "unat (of_nat p + 1 :: size_t) = p + 1"
          using cf(4, 6, 7) add(4) unat_less_64 [of "len c + extra"] by (simp_all add: p_def unat_add_64 ue del: of_nat_Suc of_nat_add)
        have lc: "unat (len c) = p + 1 + length bs" "unat (len c) \<le> length (buf c)" using cf(7, 8) by (simp_all add: p_def)
        have mv: "take (unat n) (drop (unat ?start) (buf c @ fresh)) = bs"
          unfolding us un using arg_cong [OF im, of "drop (p + 1)"] lc by (simp add: p_def drop_take)
        obtain b2 where b2: "put (buf c @ fresh) (p + 1 + k) bs = Some b2"
          using add(2, 3) lc put_fits [of "p + 1 + k" bs "buf c @ fresh"] by (auto simp: ue)
        obtain b4 where b4: "put b2 p (of_nat (0x80 + k) # be_bytes k n) = Some b4"
          using add(2, 3) lc put_length [OF b2] put_fits [of p "of_nat (0x80 + k) # be_bytes k n" b2] by (auto simp: ue)
        then obtain b3 where b3: "put b2 p [of_nat (0x80 + k)] = Some b3" "put b3 (p + 1) (be_bytes k n) = Some b4"
          using put_Cons [of b2 p "of_nat (0x80 + k)" "be_bytes k n"] by (auto split: bind_splits)
        have w: "be_write b3 (p + 1) k n = Some (b4, 0)"
        proof -
          have "drop_bit (8 * k) n = 0" using k(1) by (simp only: drop_zero_unat un)
          moreover have "p + 1 + k \<le> length b3" using add(2, 3) lc put_length [OF b2] put_length [OF b3(1)] by (simp add: ue)
          ultimately show ?thesis using b3(2) by (simp add: be_write_put)
        qed
        have "flush_child alloc (last (kids c)) c = Some (Some (), c\<lparr>buf := b4, cap := cp, requests := r, len := len c + extra\<rparr>)"
        proof -
          have e: "unat (of_nat (Suc p) :: size_t) = Suc p" "unat (of_nat (Suc p) + extra :: size_t) = Suc (p + k)"
            "unat (of_nat p + 1 :: size_t) = Suc p" "unat (of_nat (Suc k) - 1 :: byte) = k"
            "take (unat n) (drop (Suc p) (buf c @ fresh)) = bs"
            using us uo1 ln(2) mv unfolding us p_def [symmetric] by (simp_all only: Suc_eq_plus1 add.assoc add.commute [of 1])
          show ?thesis unfolding f fa using add(1) b2 b3(1) w
            by (simp add: e uo p_def [symmetric] del: of_nat_add of_nat_Suc take_append drop_append)
        qed
        also have "flushed (encode_kind Element bs \<noteq> None \<and> room alloc (limit c) (unat (len c) + (length (der_length (length bs)) - 1))) lim Element bs s \<dots>"
        proof (rule flushed_by [OF l s enc])
          show "length b4 = unat cp" using put_length [OF b4] put_length [OF b2] add(2) by simp
          show "unat (len c + extra) \<le> unat cp" using add(3, 4) by simp
          show "limit (c\<lparr>cap := cp\<rparr>) = limit c" by (rule add(5))
          have "take (unat (len c + extra)) b2 = take (p + 1 + k) (buf c @ fresh) @ bs"
            using put_take(2) [OF b2] add(4) lc by (simp add: ue add.commute add.left_commute)
          also have "take (p + 1 + k) (buf c @ fresh) = contents s @ drop p (take (p + 1 + k) (buf c @ fresh))"
            using arg_cong [OF im, of "take p"] lc append_take_drop_id [of p "take (p + 1 + k) (buf c @ fresh)"]
            by (simp add: p_def min_def)
          finally have "take (unat (len c + extra)) b2 = contents s @ drop p (take (p + 1 + k) (buf c @ fresh)) @ bs" by simp
          then show "take (unat (len c + extra)) b4 = contents s @ der_length (length bs) @ bs" unfolding dl
            by (rule put_replace [OF b4 [unfolded p_def]]) (use add(2, 3) lc in \<open>simp add: ue\<close>)
        qed
        finally show ?thesis .
      qed
    qed
  qed
qed

end
