(* ===== verification/Canonical.thy ===== *)
theory Canonical
  imports Cbs
begin

text \<open>
  The interface of a reader with one encoding per value: a \<open>get\<close> accepts exactly the bytes \<open>enc v\<close> of a
  value \<open>v\<close> that is \<open>ok\<close>, and leaves what follows them.
\<close>

locale canonical =
  fixes get :: "byte list \<Rightarrow> 'a parsed" and enc :: "'a \<Rightarrow> byte list" and ok :: "'a \<Rightarrow> bool"
  assumes get_iff: "get cbs = (Some v, rest) \<longleftrightarrow> ok v \<and> cbs = enc v @ rest"
begin

lemma get_enc: "ok v \<Longrightarrow> get (enc v @ rest) = (Some v, rest)"
  by (simp add: get_iff)

lemma enc_prefix_free:
  assumes "ok v" "ok w" "enc v @ r = enc w @ s"
  shows "v = w \<and> r = s"
proof -
  have "(Some v, r) = (Some w, s)"
    by (rule trans [OF get_enc [OF assms(1), symmetric]]) (simp only: assms(3) get_enc [OF assms(2)])
  then show ?thesis by simp
qed

lemma enc_inj: "ok v \<Longrightarrow> ok w \<Longrightarrow> enc v = enc w \<Longrightarrow> v = w"
  using enc_prefix_free [of v w "[]" "[]"] by simp

lemma truncated:
  assumes "ok v" "enc v = p @ q" "q \<noteq> []"
  shows "fst (get p) = None"
proof (cases "get p")
  case (Pair x r)
  show ?thesis
  proof (cases x)
    case (Some w)
    with Pair have "ok w" "p = enc w @ r" by (simp_all add: get_iff)
    then have "v = w \<and> [] = r @ q" using assms enc_prefix_free [of v w "[]" "r @ q"] by simp
    with assms(3) show ?thesis by simp
  qed (simp add: Pair)
qed

lemma sequence_inj:
  "\<forall>v\<in>set vs. ok v \<Longrightarrow> \<forall>w\<in>set ws. ok w \<Longrightarrow> length vs = length ws \<Longrightarrow>
    concat (map enc vs) @ r = concat (map enc ws) @ s \<Longrightarrow> vs = ws \<and> r = s"
proof (induction vs arbitrary: ws)
  case (Cons v vs)
  then obtain w ws' where ws: "ws = w # ws'" "length vs = length ws'" by (cases ws) auto
  have "enc v @ concat (map enc vs) @ r = enc w @ concat (map enc ws') @ s" using Cons.prems(4) by (simp add: ws)
  then have "v = w" "concat (map enc vs) @ r = concat (map enc ws') @ s"
    using enc_prefix_free Cons.prems(1, 2) ws by (metis list.set_intros(1))+
  moreover have "vs = ws' \<and> r = s" by (rule Cons.IH) (use Cons.prems ws calculation in simp_all)
  ultimately show ?case by (simp add: ws)
qed simp

end

end
