(* ===== verification/Asn1Int.thy ===== *)
theory Asn1Int
  imports Asn1Elem Canonical
begin

text \<open>
  ASN.1 integers and booleans: the shortest two's complement content of an integer, and the proof that
  the readers accept exactly that content.
\<close>

declare bit_numeral_word_iff [simp del]

section \<open>Elements with a tag\<close>

lemma bind_cbs_Some: "bind_cbs r f = (Some v, rest) \<longleftrightarrow> (\<exists>x cbs. r = (Some x, cbs) \<and> f x cbs = (Some v, rest))"
  by (cases r; cases "fst r") auto

lemma any_element_iff:
  "CBS_get_any_asn1_element cbs = (Some (out, tag, hl), rest) \<longleftrightarrow>
    (\<exists>content. valid_tag tag \<and> length content < 2 ^ 32 \<and> out = der tag content \<and> hl = length (der_header tag (length content))
      \<and> cbs = out @ rest)"
  unfolding CBS_get_any_asn1_element_def
  by (auto simp: bind_cbs_Some element_iff split_paired_Ex)

lemma get_any_iff:
  "CBS_get_any_asn1 cbs = (Some (content, tag), rest) \<longleftrightarrow> valid_tag tag \<and> length content < 2 ^ 32 \<and> cbs = der tag content @ rest"
proof
  assume "CBS_get_any_asn1 cbs = (Some (content, tag), rest)"
  then obtain out hl where "CBS_get_any_asn1_element cbs = (Some (out, tag, hl), rest)" "content = drop hl out"
    by (auto simp: CBS_get_any_asn1_def bind_cbs_def CBS_skip_def cbs_get_def split: prod.splits option.splits if_splits)
  then show "valid_tag tag \<and> length content < 2 ^ 32 \<and> cbs = der tag content @ rest"
    by (auto simp: any_element_iff der_def)
next
  assume r: "valid_tag tag \<and> length content < 2 ^ 32 \<and> cbs = der tag content @ rest"
  then have "CBS_get_any_asn1_element cbs = (Some (der tag content, tag, length (der_header tag (length content))), rest)"
    by (auto simp: any_element_iff)
  then show "CBS_get_any_asn1 cbs = (Some (content, tag), rest)"
    by (simp add: CBS_get_any_asn1_def CBS_skip_def cbs_get_def der_def)
qed

interpretation any_asn1: canonical CBS_get_any_asn1 "\<lambda>(content, tag). der tag content"
  "\<lambda>(content, tag). valid_tag tag \<and> length content < 2 ^ 32"
  by unfold_locales (auto simp: get_any_iff)

lemma get_asn1_as_any: "CBS_get_asn1 t cbs = bind_cbs (CBS_get_any_asn1 cbs) (\<lambda>(content, tag) cbs.
    if tag \<noteq> t then (None, cbs) else (Some content, cbs))"
  unfolding CBS_get_asn1_def cbs_get_asn1_def CBS_get_any_asn1_def
  by (cases "CBS_get_any_asn1_element cbs"; cases "fst (CBS_get_any_asn1_element cbs)")
    (auto simp: bind_cbs_def CBS_skip_def cbs_get_def split: prod.splits option.splits)

lemma get_asn1_iff:
  "CBS_get_asn1 t cbs = (Some content, rest) \<longleftrightarrow> valid_tag t \<and> length content < 2 ^ 32 \<and> cbs = der t content @ rest"
proof -
  have "CBS_get_asn1 t cbs = (Some content, rest) \<longleftrightarrow> CBS_get_any_asn1 cbs = (Some (content, t), rest)"
    by (auto simp: get_asn1_as_any bind_cbs_Some split: if_splits)
  then show ?thesis by (simp only: get_any_iff)
qed

lemma bind_get_asn1_iff:
  "bind_cbs (CBS_get_asn1 t cbs) f = (Some v, rest) \<longleftrightarrow>
    (\<exists>content cbs'. valid_tag t \<and> length content < 2 ^ 32 \<and> cbs = der t content @ cbs' \<and> f content cbs' = (Some v, rest))"
  by (auto simp: bind_cbs_Some get_asn1_iff)

section \<open>The shortest content of an integer\<close>

definition uint_octets :: "u64 \<Rightarrow> nat" where
  "uint_octets v = first_count 9 (\<lambda>n. drop_bit (8 * n - 1) v = 0)"

definition int_octets :: "u64 \<Rightarrow> nat" where
  "int_octets v = first_count 8 (\<lambda>n. signed_take_bit (8 * n - 1) v = v)"

definition uint_content :: "u64 \<Rightarrow> byte list" where
  "uint_content v = be_bytes (uint_octets v) v"

definition int_content :: "u64 \<Rightarrow> byte list" where
  "int_content v = be_bytes (int_octets v) v"

lemma uint_octets_iff:
  "k = uint_octets v \<longleftrightarrow> 0 < k \<and> drop_bit (8 * k - 1) v = 0 \<and> (k = 1 \<or> drop_bit (8 * (k - 1) - 1) v \<noteq> 0)"
  unfolding uint_octets_def by (subst first_count_iff) (auto intro: drop_zero_mono)

lemma signed_take_bit_mono:
  "m \<le> n \<Longrightarrow> signed_take_bit m v = v \<Longrightarrow> signed_take_bit n v = (v :: 'a::len word)"
  by (metis min_absorb2 signed_take_bit_signed_take_bit)

lemma int_octets_iff:
  "k = int_octets v \<longleftrightarrow> 0 < k \<and> signed_take_bit (8 * k - 1) v = v \<and> (k = 1 \<or> signed_take_bit (8 * (k - 1) - 1) v \<noteq> v)"
  unfolding int_octets_def
proof (subst first_count_iff)
  show "signed_take_bit (8 * 8 - 1) v = v" for v :: u64
    by (rule bit_word_eqI) (simp add: bit_signed_take_bit_iff)
qed (auto intro: signed_take_bit_mono [rotated])

lemma uint_octets_bounds: "0 < uint_octets v" "uint_octets v \<le> 9"
  using uint_octets_iff [of "uint_octets v" v] first_count_le [of 9] by (simp_all add: uint_octets_def)

lemma int_octets_bounds: "0 < int_octets v" "int_octets v \<le> 8"
  using int_octets_iff [of "int_octets v" v] first_count_le [of 8] by (simp_all add: int_octets_def)

section \<open>The first two bytes\<close>

lemma byte_bit7: "b AND 0x80 = 0 \<longleftrightarrow> \<not> bit (b :: byte) 7"
  by (rule all_bytes [of "\<lambda>b. b AND 0x80 = 0 \<longleftrightarrow> \<not> bit b 7"]) (simp add: bit_numeral_word_iff)

lemma top_byte: "ucast (drop_bit m v) AND (0x80 :: byte) = 0 \<longleftrightarrow> \<not> bit (v :: u64) (m + 7)"
  by (simp add: byte_bit7 bit_ucast_iff bit_drop_bit_eq add.commute)

lemma drop_zero_bits: "drop_bit m v = 0 \<longleftrightarrow> (\<forall>k\<ge>m. \<not> bit (v :: 'a::len word) k)"
proof
  assume z: "drop_bit m v = 0"
  show "\<forall>k\<ge>m. \<not> bit v k"
  proof (intro allI impI)
    fix k
    assume "m \<le> k"
    then show "\<not> bit v k" using arg_cong [OF z, of "\<lambda>w. bit w (k - m)"] by (simp add: bit_drop_bit_eq)
  qed
next
  show "\<forall>k\<ge>m. \<not> bit v k \<Longrightarrow> drop_bit m v = 0" by (rule bit_word_eqI) (simp add: bit_drop_bit_eq)
qed

lemma drop_zero_step: "drop_bit n v = 0 \<longleftrightarrow> \<not> bit v n \<and> drop_bit (Suc n) v = (0 :: 'a::len word)"
  unfolding drop_zero_bits by (metis le_antisym not_less_eq_eq le_SucI order_refl)

lemma sign_bits: "signed_take_bit m v = v \<longleftrightarrow> (\<forall>k\<ge>m. k < 64 \<longrightarrow> bit (v :: u64) k = bit v m)"
proof
  assume z: "signed_take_bit m v = v"
  show "\<forall>k\<ge>m. k < 64 \<longrightarrow> bit v k = bit v m"
  proof (intro allI impI)
    fix k :: nat
    assume "m \<le> k" "k < 64"
    then show "bit v k = bit v m" using arg_cong [OF z, of "\<lambda>w. bit w k"] by (simp add: bit_signed_take_bit_iff min_def)
  qed
next
  assume a: "\<forall>k\<ge>m. k < 64 \<longrightarrow> bit v k = bit v m"
  show "signed_take_bit m v = v"
  proof (rule bit_word_eqI)
    fix k
    assume k: "k < LENGTH(64)"
    show "bit (signed_take_bit m v) k = bit v k"
    proof (cases "m \<le> k")
      case True
      then have "bit v k = bit v m" using spec [OF a, of k] k by simp
      with True k show ?thesis by (simp add: bit_signed_take_bit_iff min_absorb1)
    next
      case False
      with k show ?thesis by (simp add: bit_signed_take_bit_iff min_absorb2)
    qed
  qed
qed

lemma byte_is_bits: "ucast (drop_bit m (v :: u64)) = (if x then 0xff else 0 :: byte) \<longleftrightarrow> (\<forall>k. m \<le> k \<and> k < m + 8 \<longrightarrow> bit v k = x)"
proof -
  have b: "bit (if x then 0xff else 0 :: byte) n \<longleftrightarrow> n < 8 \<and> x" for n
    using bit_mask_iff [of 8 n, where 'a = "8 word"] by (simp add: mask_eq_exp_minus_1)
  show ?thesis
  proof
    assume e: "ucast (drop_bit m v) = (if x then 0xff else 0 :: byte)"
    show "\<forall>k. m \<le> k \<and> k < m + 8 \<longrightarrow> bit v k = x"
    proof (intro allI impI)
      fix k
      assume k: "m \<le> k \<and> k < m + 8"
      have "bit (ucast (drop_bit m v) :: byte) (k - m) \<longleftrightarrow> k - m < 8 \<and> x" unfolding e by (rule b)
      with k show "bit v k = x" by (simp add: bit_ucast_iff bit_drop_bit_eq) linarith
    qed
  next
    assume "\<forall>k. m \<le> k \<and> k < m + 8 \<longrightarrow> bit v k = x"
    then show "ucast (drop_bit m v) = (if x then 0xff else 0 :: byte)"
      by (intro bit_word_eqI) (simp add: b bit_ucast_iff bit_drop_bit_eq)
  qed
qed

lemma valid_integer_bytes:
  "CBS_is_valid_asn1_integer (be_bytes (Suc n) v) =
    (if n \<noteq> 0 \<and> (\<exists>x. \<forall>k. 8 * n - 1 \<le> k \<and> k < 8 * n + 8 \<longrightarrow> bit v k = x) then None else Some (bit v (8 * n + 7)))"
proof (cases n)
  case 0
  then show ?thesis
    by (simp add: be_bytes_Cons CBS_is_valid_asn1_integer_def CBS_get_u8_def cbs_get_def top_byte [of 0, simplified])
next
  case (Suc i)
  let ?b = "ucast (drop_bit (8 * n) v) :: byte"
  let ?c = "ucast (drop_bit (8 * i) v) :: byte"
  have low: "?c AND 0x80 = 0 \<longleftrightarrow> \<not> bit v (8 * n - 1)" using top_byte [of "8 * i" v] by (simp add: Suc add.commute [of 7])
  have top: "?b AND 0x80 = 0 \<longleftrightarrow> \<not> bit v (8 * n + 7)" by (rule top_byte)
  have all: "(?b = (if x then 0xff else 0) \<and> bit v (8 * n - 1) = x) \<longleftrightarrow> (\<forall>k. 8 * n - 1 \<le> k \<and> k < 8 * n + 8 \<longrightarrow> bit v k = x)" for x
  proof -
    have k: "8 * n - 1 \<le> k \<and> k < 8 * n + 8 \<longleftrightarrow> k = 8 * n - 1 \<or> (8 * n \<le> k \<and> k < 8 * n + 8)" for k unfolding Suc by auto
    show ?thesis unfolding byte_is_bits k by blast
  qed
  have "(?b = 0 \<and> ?c AND 0x80 = 0) \<or> (?b = 0xff \<and> ?c AND 0x80 \<noteq> 0) \<longleftrightarrow> (\<exists>x. \<forall>k. 8 * n - 1 \<le> k \<and> k < 8 * n + 8 \<longrightarrow> bit v k = x)"
    using all [of True] all [of False] low by (metis (full_types))
  moreover have "be_bytes (Suc n) v = ?b # ?c # be_bytes i v" by (simp add: Suc be_bytes_Cons)
  then have "CBS_is_valid_asn1_integer (be_bytes (Suc n) v) =
      (if (?b = 0 \<and> ?c AND 0x80 = 0) \<or> (?b = 0xff \<and> ?c AND 0x80 \<noteq> 0) then None else Some (bit v (8 * n + 7)))"
    by (simp add: CBS_is_valid_asn1_integer_def CBS_get_u8_def cbs_get_def top)
  ultimately show ?thesis using Suc by simp
qed

section \<open>Unsigned integers\<close>

lemma octet_split:
  "drop_bit 56 out = 0 \<and> push_bit 8 out OR ucast b = w \<longleftrightarrow> out = drop_bit 8 w \<and> b = ucast (w :: u64)" for b :: byte
proof (intro iffI conjI; (elim conjE)?)
  assume z: "drop_bit 56 out = 0" and w: "push_bit 8 out OR ucast b = w"
  show "out = drop_bit 8 w" unfolding w [symmetric] using z
    by (intro bit_word_eqI) (auto simp: bit_drop_bit_eq bit_or_iff bit_push_bit_iff bit_ucast_iff drop_zero_bits not_less [symmetric] dest: bit_imp_le_length)
  show "b = ucast w" unfolding w [symmetric]
    by (intro bit_word_eqI) (auto simp: bit_or_iff bit_push_bit_iff bit_ucast_iff)
next
  assume "out = drop_bit 8 w" "b = ucast w"
  then show "drop_bit 56 out = 0" "push_bit 8 out OR ucast b = w"
    by (simp, intro bit_word_eqI) (auto simp: bit_drop_bit_eq bit_or_iff bit_push_bit_iff bit_ucast_iff)
qed

lemma uint64_loop_iff: "uint64_loop out data = Some v \<longleftrightarrow> out = drop_bit (8 * length data) v \<and> data = be_bytes (length data) v"
proof (induction data arbitrary: out)
  case (Cons b data)
  have "uint64_loop out (b # data) = Some v \<longleftrightarrow>
      (drop_bit 56 out = 0 \<and> push_bit 8 out OR ucast b = drop_bit (8 * length data) v) \<and> data = be_bytes (length data) v"
    by (simp add: Cons)
  then show ?case by (simp only: octet_split) (auto simp: be_bytes_Cons add.commute)
qed auto

lemma unsigned_octets:
  "drop_bit (8 * Suc n) v = 0 \<and> CBS_is_unsigned_asn1_integer (be_bytes (Suc n) v) \<longleftrightarrow> Suc n = uint_octets v"
proof -
  define same where "same \<longleftrightarrow> (\<exists>x. \<forall>k. 8 * n - 1 \<le> k \<and> k < 8 * n + 8 \<longrightarrow> bit v k = x)"
  have "same \<longleftrightarrow> drop_bit (8 * n - 1) v = 0"
    if z: "n \<noteq> 0" "drop_bit (8 * n + 7) v = 0"
    unfolding drop_zero_bits same_def
  proof (intro iffI allI impI; (elim exE)?)
    fix x k
    assume x: "\<forall>k. 8 * n - 1 \<le> k \<and> k < 8 * n + 8 \<longrightarrow> bit v k = x" and k: "8 * n - 1 \<le> k"
    have "\<not> x" using spec [OF x, of "8 * n + 7"] z(2) by (simp add: drop_zero_bits)
    with x k z(2) show "\<not> bit v k" by (cases "k < 8 * n + 8") (simp_all add: drop_zero_bits)
  next
    assume "\<forall>k\<ge>8 * n - 1. \<not> bit v k"
    then show "\<exists>x. \<forall>k. 8 * n - 1 \<le> k \<and> k < 8 * n + 8 \<longrightarrow> bit v k = x" by (intro exI [of _ False]) simp
  qed
  moreover have "8 * Suc n - 1 = 8 * n + 7" "8 * Suc n = Suc (8 * n + 7)" "Suc n - 1 = n" by simp_all
  ultimately show ?thesis
    unfolding uint_octets_iff CBS_is_unsigned_asn1_integer_def valid_integer_bytes same_def [symmetric]
    using drop_zero_step [of "8 * n + 7" v] by (simp only:) auto
qed

lemma uint_content_iff: "CBS_is_unsigned_asn1_integer content \<and> uint64_loop 0 content = Some v \<longleftrightarrow> content = uint_content v"
proof (cases content)
  case Nil
  have "uint_content v \<noteq> []" using uint_octets_bounds [of v] by (cases "uint_octets v") (auto simp: uint_content_def be_bytes_Cons)
  then show ?thesis by (auto simp: Nil CBS_is_unsigned_asn1_integer_def CBS_is_valid_asn1_integer_def CBS_get_u8_def cbs_get_def)
next
  case (Cons b bs)
  then have "length content = Suc (length bs)" by simp
  then show ?thesis using unsigned_octets [of "length bs" v] by (auto simp: uint64_loop_iff uint_content_def)
qed

lemma valid_universal: "valid_tag CBS_ASN1_INTEGER" "valid_tag CBS_ASN1_BOOLEAN" "valid_tag CBS_ASN1_OCTETSTRING"
  by (simp_all add: valid_tag_def tag_constants CBS_ASN1_INTEGER_def CBS_ASN1_BOOLEAN_def CBS_ASN1_OCTETSTRING_def)

lemma get_uint64_iff:
  "CBS_get_asn1_uint64 cbs = (Some v, rest) \<longleftrightarrow> cbs = der CBS_ASN1_INTEGER (uint_content v) @ rest"
proof -
  have "length (uint_content v) < 2 ^ 32" using uint_octets_bounds(2) [of v] by (simp add: uint_content_def)
  moreover have "(if \<not> CBS_is_unsigned_asn1_integer content then (None, cbs') else (uint64_loop 0 content, cbs')) = (Some v, rest) \<longleftrightarrow>
      content = uint_content v \<and> cbs' = rest" for content cbs'
    using uint_content_iff [of content v] by auto
  ultimately show ?thesis unfolding CBS_get_asn1_uint64_def bind_get_asn1_iff by (auto simp: valid_universal)
qed

interpretation asn1_uint64: canonical CBS_get_asn1_uint64 "\<lambda>v. der CBS_ASN1_INTEGER (uint_content v)" "\<lambda>_. True"
  by unfold_locales (simp add: get_uint64_iff)

section \<open>Signed integers\<close>

lemma be_bytes_split: "be_bytes (a + b) v = be_bytes a (drop_bit (8 * b) v) @ be_bytes b v"
  by (induction a) (simp_all add: be_bytes_Cons add.commute)

lemma be_bytes_fill: "be_bytes a v = replicate a (if x then 0xff else 0) \<longleftrightarrow> (\<forall>k<8 * a. bit v k = x)"
proof (induction a)
  case (Suc a)
  have "k < 8 * Suc a \<longleftrightarrow> k < 8 * a \<or> (8 * a \<le> k \<and> k < 8 * a + 8)" for k by auto
  then have "(\<forall>k<8 * Suc a. bit v k = x) \<longleftrightarrow> (\<forall>k<8 * a. bit v k = x) \<and> (\<forall>k. 8 * a \<le> k \<and> k < 8 * a + 8 \<longrightarrow> bit v k = x)" by blast
  then show ?case unfolding be_bytes_Cons replicate_Suc list.inject byte_is_bits Suc by blast
qed simp

lemma bswap4_bits: "i < 4 \<Longrightarrow> j < 8 \<Longrightarrow> bit (CRYPTO_bswap4 x) (8 * i + j) = bit x (8 * (3 - i) + j)"
proof -
  have e: "(0xff00ff00 :: u32) = push_bit 8 (mask 8) OR push_bit 24 (mask 8)" "(0x00ff00ff :: u32) = mask 8 OR push_bit 16 (mask 8)"
    by (simp_all add: mask_eq_exp_minus_1 push_bit_eq_mult)
  have m: "bit (0xff00ff00 :: u32) n \<longleftrightarrow> (8 \<le> n \<and> n < 16) \<or> (24 \<le> n \<and> n < 32)" "bit (0x00ff00ff :: u32) n \<longleftrightarrow> n < 8 \<or> (16 \<le> n \<and> n < 24)" for n
    unfolding e by (auto simp: bit_or_iff bit_push_bit_iff bit_mask_iff)
  assume "i < 4" "j < 8"
  then consider "i = 0" | "i = 1" | "i = 2" | "i = 3" by linarith
  then show ?thesis
    by cases (use \<open>j < 8\<close> in \<open>auto simp: CRYPTO_bswap4_def Let_def bit_or_iff bit_push_bit_iff bit_drop_bit_eq bit_and_iff m
      dest: bit_imp_le_length\<close>)
qed

lemma bswap8_bits: "i < 8 \<Longrightarrow> j < 8 \<Longrightarrow> bit (CRYPTO_bswap8 x) (8 * i + j) = bit x (8 * (7 - i) + j)"
proof (cases "i < 4")
  case True
  assume j: "j < 8"
  have "bit (CRYPTO_bswap8 x) (8 * i + j) = bit (CRYPTO_bswap4 (ucast (drop_bit 32 x))) (8 * i + j)"
    using True j by (simp add: CRYPTO_bswap8_def bit_or_iff bit_push_bit_iff bit_ucast_iff)
  also have "\<dots> = bit x (8 * (7 - i) + j)"
  proof -
    have e: "8 * (3 - i) + j < 32" "8 * (7 - i) + j = 32 + (8 * (3 - i) + j)" using True j by auto
    then show ?thesis unfolding e(2) using True j by (simp add: bswap4_bits bit_ucast_iff bit_drop_bit_eq)
  qed
  finally show ?thesis .
next
  case False
  assume i: "i < 8" and j: "j < 8"
  have "bit (CRYPTO_bswap8 x) (8 * i + j) = bit (CRYPTO_bswap4 (ucast x)) (8 * (i - 4) + j)"
    using False i j by (auto simp: CRYPTO_bswap8_def bit_or_iff bit_push_bit_iff bit_ucast_iff algebra_simps dest: bit_imp_le_length)
  also have "\<dots> = bit x (8 * (7 - i) + j)"
  proof -
    have "8 * (7 - i) + j < 32" using False j by auto
    then show ?thesis using False i j by (simp add: bswap4_bits bit_ucast_iff)
  qed
  finally show ?thesis .
qed

lemma load_be: "length bs = 8 \<Longrightarrow> CRYPTO_load_u64_be bs = be_loop 0 bs"
proof (rule bit_word_eqI)
  fix k
  assume k: "k < LENGTH(64)" and l: "length bs = 8"
  then have i: "k div 8 < 8" "k mod 8 < 8" "8 * (k div 8) + k mod 8 = k" by auto
  then have "bit (CRYPTO_load_u64_be bs) k = bit (le_word bs :: u64) (8 * (7 - k div 8) + k mod 8)"
    using bswap8_bits [OF i(1, 2), of "le_word bs"] l by (simp add: CRYPTO_load_u64_be_def)
  also have "\<dots> = bit (be_loop 0 bs) k"
  proof -
    have "8 * (7 - k div 8) + k mod 8 < 64" using i(1, 2) by linarith
    then show ?thesis using i l k by (simp add: bit_be_loop bit_le_word rev_nth)
  qed
  finally show "bit (CRYPTO_load_u64_be bs) k = bit (be_loop 0 bs) k" .
qed

lemma be_loop_eq: "length bs = 8 \<Longrightarrow> be_loop 0 bs = v \<longleftrightarrow> bs = be_bytes 8 v"
  using be_bytes_be_loop [of bs] be_loop_be_bytes [of 8 v] by auto

lemma load_extended:
  assumes "n < 8"
  shows "length content = Suc n \<and> CRYPTO_load_u64_be (replicate (7 - n) (if x then 0xff else 0) @ content) = v \<longleftrightarrow>
    (\<forall>k. 8 * n + 8 \<le> k \<and> k < 64 \<longrightarrow> bit v k = x) \<and> content = be_bytes (Suc n) v"
proof (cases "length content = Suc n")
  case True
  have e: "(7 - n) + Suc n = 8" using assms by simp
  have "CRYPTO_load_u64_be (replicate (7 - n) (if x then 0xff else 0) @ content) = v \<longleftrightarrow>
      replicate (7 - n) (if x then 0xff else 0) @ content = be_bytes ((7 - n) + Suc n) v"
    using True assms unfolding e by (subst load_be) (simp_all add: be_loop_eq)
  also have "\<dots> \<longleftrightarrow> be_bytes (7 - n) (drop_bit (8 * Suc n) v) = replicate (7 - n) (if x then 0xff else 0) \<and> content = be_bytes (Suc n) v"
    unfolding be_bytes_split by auto
  also have "be_bytes (7 - n) (drop_bit (8 * Suc n) v) = replicate (7 - n) (if x then 0xff else 0) \<longleftrightarrow>
      (\<forall>k. 8 * n + 8 \<le> k \<and> k < 64 \<longrightarrow> bit v k = x)"
    unfolding be_bytes_fill
  proof (intro iffI)
    assume a: "\<forall>k<8 * (7 - n). bit (drop_bit (8 * Suc n) v) k = x"
    show "\<forall>k. 8 * n + 8 \<le> k \<and> k < 64 \<longrightarrow> bit v k = x"
    proof (intro allI impI)
      fix k
      assume k: "8 * n + 8 \<le> k \<and> k < 64"
      then have "k - 8 * Suc n < 8 * (7 - n)" using assms by auto
      then have "bit (drop_bit (8 * Suc n) v) (k - 8 * Suc n) = x" using a by blast
      then show "bit v k = x" using k by (simp add: bit_drop_bit_eq)
    qed
  next
    assume "\<forall>k. 8 * n + 8 \<le> k \<and> k < 64 \<longrightarrow> bit v k = x"
    then show "\<forall>k<8 * (7 - n). bit (drop_bit (8 * Suc n) v) k = x" by (simp add: bit_drop_bit_eq)
  qed
  finally show ?thesis using True by simp
next
  case False
  then show ?thesis by auto
qed

lemma signed_octets:
  assumes "n < 8"
  shows "(\<forall>k. 8 * n + 8 \<le> k \<and> k < 64 \<longrightarrow> bit v k = x) \<and> CBS_is_valid_asn1_integer (be_bytes (Suc n) v) = Some x \<longleftrightarrow>
    x = bit v (8 * n + 7) \<and> Suc n = int_octets v"
proof -
  define same where "same \<longleftrightarrow> (\<exists>x. \<forall>k. 8 * n - 1 \<le> k \<and> k < 8 * n + 8 \<longrightarrow> bit v k = x)"
  have ext: "(\<forall>k. 8 * n + 8 \<le> k \<and> k < 64 \<longrightarrow> bit v k = bit v (8 * n + 7)) \<longleftrightarrow> signed_take_bit (8 * n + 7) v = v"
    unfolding sign_bits
  proof -
    have k: "8 * n + 7 \<le> k \<longleftrightarrow> k = 8 * n + 7 \<or> 8 * n + 8 \<le> k" for k by auto
    show "(\<forall>k. 8 * n + 8 \<le> k \<and> k < 64 \<longrightarrow> bit v k = bit v (8 * n + 7)) \<longleftrightarrow>
      (\<forall>k\<ge>8 * n + 7. k < 64 \<longrightarrow> bit v k = bit v (8 * n + 7))" unfolding k by blast
  qed
  have "same \<longleftrightarrow> signed_take_bit (8 * n - 1) v = v" if s: "n \<noteq> 0" "signed_take_bit (8 * n + 7) v = v"
  proof -
    note s = s(1) spec [OF s(2) [unfolded sign_bits]]
    show ?thesis unfolding sign_bits same_def
    proof (rule iffI)
      assume "\<exists>x. \<forall>k. 8 * n - 1 \<le> k \<and> k < 8 * n + 8 \<longrightarrow> bit v k = x"
      then obtain x where x: "\<forall>k. 8 * n - 1 \<le> k \<and> k < 8 * n + 8 \<longrightarrow> bit v k = x" ..
      have "bit v k = x" if k: "8 * n - 1 \<le> k" "k < 64" for k
        using spec [OF x, of k] spec [OF x, of "8 * n + 7"] s(2) [of k] k by (cases "k < 8 * n + 8") auto
      moreover have "bit v (8 * n - 1) = x" using spec [OF x, of "8 * n - 1"] by simp
      ultimately show "\<forall>k\<ge>8 * n - 1. k < 64 \<longrightarrow> bit v k = bit v (8 * n - 1)" by blast
    next
      assume a: "\<forall>k\<ge>8 * n - 1. k < 64 \<longrightarrow> bit v k = bit v (8 * n - 1)"
      show "\<exists>x. \<forall>k. 8 * n - 1 \<le> k \<and> k < 8 * n + 8 \<longrightarrow> bit v k = x"
      proof (intro exI [of _ "bit v (8 * n - 1)"] allI impI)
        fix k
        assume "8 * n - 1 \<le> k \<and> k < 8 * n + 8"
        with assms show "bit v k = bit v (8 * n - 1)" using spec [OF a, of k] by simp
      qed
    qed
  qed
  moreover have "8 * Suc n - 1 = 8 * n + 7" "Suc n - 1 = n" by simp_all
  ultimately show ?thesis
    unfolding int_octets_iff valid_integer_bytes same_def [symmetric] using ext by (simp only:) auto
qed

lemma int_content_iff:
  "length content \<le> 8 \<and> (\<exists>x. CBS_is_valid_asn1_integer content = Some x \<and>
      CRYPTO_load_u64_be (replicate (8 - length content) (if x then 0xff else 0) @ content) = v) \<longleftrightarrow> content = int_content v"
proof -
  obtain n where n: "int_octets v = Suc n" "n < 8" using int_octets_bounds [of v] by (cases "int_octets v") auto
  show ?thesis
  proof (cases content)
    case Nil
    then show ?thesis using n by (auto simp: int_content_def be_bytes_Cons CBS_is_valid_asn1_integer_def CBS_get_u8_def cbs_get_def)
  next
    case (Cons b bs)
    define m where "m = length bs"
    have m: "length content = Suc m" by (simp add: Cons m_def)
    show ?thesis
    proof (cases "m < 8")
      case True
      define fill where "fill x \<longleftrightarrow> (\<forall>k. 8 * m + 8 \<le> k \<and> k < 64 \<longrightarrow> bit v k = x)" for x
      have ld: "CRYPTO_load_u64_be (replicate (8 - length content) (if x then 0xff else 0) @ content) = v \<longleftrightarrow>
          fill x \<and> content = be_bytes (Suc m) v" for x
        using load_extended [OF True, of content x v] m unfolding fill_def [symmetric] by simp
      have "(\<exists>x. CBS_is_valid_asn1_integer content = Some x \<and>
          CRYPTO_load_u64_be (replicate (8 - length content) (if x then 0xff else 0) @ content) = v) \<longleftrightarrow>
        content = be_bytes (Suc m) v \<and> (\<exists>x. fill x \<and> CBS_is_valid_asn1_integer (be_bytes (Suc m) v) = Some x)"
        unfolding ld by metis
      also have "\<dots> \<longleftrightarrow> content = be_bytes (Suc m) v \<and> Suc m = int_octets v"
        by (simp add: signed_octets [OF True, where v = v, folded fill_def])
      also have "\<dots> \<longleftrightarrow> content = int_content v" using m by (auto simp: int_content_def)
      finally show ?thesis using True m by simp
    next
      case False
      with m n show ?thesis by (auto simp: int_content_def)
    qed
  qed
qed

lemma get_int64_iff:
  "CBS_get_asn1_int64 cbs = (Some v, rest) \<longleftrightarrow> cbs = der CBS_ASN1_INTEGER (int_content v) @ rest"
proof -
  have "length (int_content v) < 2 ^ 32" using int_octets_bounds(2) [of v] by (simp add: int_content_def)
  moreover have "(case CBS_is_valid_asn1_integer bytes of None \<Rightarrow> (None, cbs')
     | Some is_negative \<Rightarrow> let len = length bytes in
         if len > 8 then (None, cbs')
         else (Some (CRYPTO_load_u64_be (replicate (8 - len) (if is_negative then 0xff else 0) @ bytes)), cbs')) = (Some v, rest) \<longleftrightarrow>
      bytes = int_content v \<and> cbs' = rest" for bytes cbs'
    unfolding int_content_iff [symmetric] by (auto simp: Let_def split: option.splits)
  ultimately show ?thesis unfolding CBS_get_asn1_int64_def bind_get_asn1_iff by (auto simp: valid_universal)
qed

interpretation asn1_int64: canonical CBS_get_asn1_int64 "\<lambda>v. der CBS_ASN1_INTEGER (int_content v)" "\<lambda>_. True"
  by unfold_locales (simp add: get_int64_iff)

section \<open>Booleans\<close>

lemma get_bool_iff:
  "CBS_get_asn1_bool cbs = (Some b, rest) \<longleftrightarrow> cbs = der CBS_ASN1_BOOLEAN [if b then 0xff else 0] @ rest"
proof -
  have "(if length bytes \<noteq> 1 then (None, cbs')
     else let value = hd bytes in
       if value \<noteq> 0 \<and> value \<noteq> 0xff then (None, cbs') else (Some (value \<noteq> 0), cbs')) = (Some b, rest) \<longleftrightarrow>
      bytes = [if b then 0xff else 0] \<and> cbs' = rest" for bytes cbs' :: "byte list"
    by (cases bytes) (auto simp: Let_def)
  then show ?thesis unfolding CBS_get_asn1_bool_def bind_get_asn1_iff by (auto simp: valid_universal)
qed

interpretation asn1_bool: canonical CBS_get_asn1_bool "\<lambda>b. der CBS_ASN1_BOOLEAN [if b then 0xff else 0]" "\<lambda>_. True"
  by unfold_locales (simp add: get_bool_iff)

section \<open>What the readers accept\<close>

text \<open>C23: CBS_get_any_asn1 accepts exactly the DER encodings (minimal tag, minimal length, no indefinite length) of a tag and a content of less than 2^32 bytes, and leaves what follows the element.\<close>

theorem asn1_element_iff:
  "CBS_get_any_asn1 cbs = (Some (content, tag), rest) \<longleftrightarrow>
    valid_tag tag \<and> length content < 2 ^ 32 \<and> cbs = der tag content @ rest"
  by (rule get_any_iff)

text \<open>C27: CBS_get_asn1_uint64 accepts exactly the INTEGER whose content is the shortest one of the unsigned value, and returns that value.\<close>

theorem asn1_uint64_iff: "CBS_get_asn1_uint64 cbs = (Some v, rest) \<longleftrightarrow> cbs = der CBS_ASN1_INTEGER (uint_content v) @ rest"
  by (rule get_uint64_iff)

text \<open>C26: CBS_get_asn1_int64 accepts exactly the INTEGER whose content is the shortest two's complement of the signed value, and returns that value.\<close>

theorem asn1_int64_iff: "CBS_get_asn1_int64 cbs = (Some v, rest) \<longleftrightarrow> cbs = der CBS_ASN1_INTEGER (int_content v) @ rest"
  by (rule get_int64_iff)

text \<open>no proper prefix of an element is itself accepted as an element.\<close>

theorem asn1_truncated:
  assumes "valid_tag tag" "length content < 2 ^ 32" "der tag content = p @ q" "q \<noteq> []"
  shows "fst (CBS_get_any_asn1 p) = None"
  using any_asn1.truncated [of "(content, tag)" p q] assms by simp

theorem asn1_truncated_witness: "fst (CBS_get_any_asn1 [0x04, 0x02, 0x61]) = None"
  by (rule asn1_truncated [where tag = CBS_ASN1_OCTETSTRING and content = "[0x61, 0x62]" and q = "[0x62]"])
    (simp_all add: valid_tag_def tag_constants der_def der_header_def der_tag_def der_length_def CBS_ASN1_OCTETSTRING_def)

end
