(* ===== verification/CbbSpec.thy ===== *)
theory CbbSpec
  imports CbbState Asn1Int
begin

text \<open>
  What the operations of the builder do to its stack: an operation on the \<open>CBB\<close> at depth \<open>d\<close> closes what is
  open inside it and appends. An \<open>outcome\<close> is never undefined, meets its postcondition where the code
  succeeds, and keeps the builder's layout where the code fails, which it may not do if it \<open>must\<close> succeed.
\<close>

declare bit_numeral_word_iff [simp del]

section \<open>Outcomes\<close>

definition outcome :: "bool \<Rightarrow> size_t option \<Rightarrow> nat \<Rightarrow> 'a built \<Rightarrow> ('a \<Rightarrow> cbb \<Rightarrow> bool) \<Rightarrow> bool" where
  "outcome must lim d r P \<longleftrightarrow> (case r of
     None \<Rightarrow> False
   | Some (None, c) \<Rightarrow> \<not> must \<and> cbb_ok lim c \<and> d \<le> length (kids c)
   | Some (Some x, c) \<Rightarrow> P x c)"

text \<open>Before \<open>cbb_on_error\<close>, only what is left of the builder without the children has to be in order.\<close>

definition attempt :: "bool \<Rightarrow> size_t option \<Rightarrow> nat \<Rightarrow> 'a built \<Rightarrow> ('a \<Rightarrow> cbb \<Rightarrow> bool) \<Rightarrow> bool" where
  "attempt must lim d r P \<longleftrightarrow> (case r of
     None \<Rightarrow> False
   | Some (None, c) \<Rightarrow> \<not> must \<and> cbb_ok lim (c\<lparr>kids := take d (kids c)\<rparr>) \<and> d \<le> length (kids c)
   | Some (Some x, c) \<Rightarrow> P x c)"

lemma built_cases [case_names undefined failed success]:
  fixes r :: "'a built"
  obtains "r = None" | c where "r = Some (None, c)" | x c where "r = Some (Some x, c)"
  by (cases r; cases "fst (the r)") auto

lemma outcome_simps [simp]:
  "outcome must lim d None P \<longleftrightarrow> False"
  "outcome must lim d (Some (None, c)) P \<longleftrightarrow> \<not> must \<and> cbb_ok lim c \<and> d \<le> length (kids c)"
  "outcome must lim d (Some (Some x, c)) P \<longleftrightarrow> P x c"
  by (simp_all add: outcome_def)

lemma attempt_simps [simp]:
  "attempt must lim d None P \<longleftrightarrow> False"
  "attempt must lim d (Some (None, c)) P \<longleftrightarrow> \<not> must \<and> cbb_ok lim (c\<lparr>kids := take d (kids c)\<rparr>) \<and> d \<le> length (kids c)"
  "attempt must lim d (Some (Some x, c)) P \<longleftrightarrow> P x c"
  by (simp_all add: attempt_def)

lemma outcome_bind:
  assumes "outcome m lim d r P" "\<And>x c. P x c \<Longrightarrow> outcome m lim d (f x c) Q"
  shows "outcome m lim d (bind_cbb r f) Q"
  using assms by (cases r rule: built_cases) auto

lemma attempt_bind:
  assumes "attempt m lim d r P" "\<And>x c. P x c \<Longrightarrow> attempt m lim d (f x c) Q"
  shows "attempt m lim d (bind_cbb r f) Q"
  using assms by (cases r rule: built_cases) auto

lemma outcome_mono:
  assumes "outcome m lim d r P" "m' \<Longrightarrow> m" "d' \<le> d" "\<And>x c. P x c \<Longrightarrow> Q x c"
  shows "outcome m' lim d' r Q"
  using assms by (cases r rule: built_cases) auto

lemma attempt_outcome:
  assumes "outcome m lim d' r P" "d \<le> d'"
  shows "attempt m lim d r P"
proof (cases r rule: built_cases)
  case (failed c)
  with assms obtain s where "\<not> m" "layout lim c s" "d \<le> length (kids c)" by (auto simp: cbb_ok_def)
  then show ?thesis using layout_collapse by (simp add: failed)
qed (use assms in simp_all)

lemma outcome_or_error:
  assumes "attempt m lim d r P"
  shows "outcome m lim d (or_error d r) P"
proof (cases r rule: built_cases)
  case (failed c)
  with assms have "cbb_ok lim (c\<lparr>kids := take d (kids c)\<rparr>)" by simp
  then have "cbb_ok lim (c\<lparr>error := True, kids := take d (kids c)\<rparr>)" by (simp add: cbb_ok_def layout_def buffer_ok_def)
  with assms show ?thesis by (simp add: failed or_error_def cbb_on_error_def)
qed (use assms in \<open>simp_all add: or_error_def\<close>)

lemma holds_ok: "holds lim c s \<Longrightarrow> cbb_ok lim c"
  by (auto simp: holds_def cbb_ok_def)

lemma holds_depth: "holds lim c s \<Longrightarrow> length s = length (kids c) + 1"
  by (auto simp: holds_def dest: layout_depth)

lemma holds_kids: "holds lim c s \<Longrightarrow> kids c = kids_of s"
  by (simp add: holds_def layout_def)

lemma holds_well_formed: "holds lim c s \<Longrightarrow> well_formed s"
  by (simp add: holds_def layout_def)

lemma holds_len: "holds lim c s \<Longrightarrow> unat (len c) = length (contents s)"
  by (auto simp: holds_def dest: layout_length)

section \<open>Flushing\<close>

lemma close_one_kids: "close_one s = Some t \<Longrightarrow> 2 \<le> length s \<Longrightarrow> kids_of t = take (length s - 2) (kids_of s)"
proof (cases s)
  case (Cons x u)
  assume "close_one s = Some t" "2 \<le> length s"
  then have "u \<noteq> []" "\<exists>e. t = push_bytes e u" by (cases x; auto simp: Cons)+
  then obtain e where "t = push_bytes e u" "u \<noteq> []" by blast
  then show ?thesis by (cases x) (simp add: Cons kids_of_Cons)
qed simp

lemma close_to_well_formed: "close_to d s = Some t \<Longrightarrow> well_formed s \<Longrightarrow> d < length s \<Longrightarrow> well_formed t"
proof (induction "length s - (d + 1)" arbitrary: d t)
  case 0
  then have "length s = d + 1" by simp
  with 0 show ?case by (simp add: close_to_self)
next
  case (Suc n)
  then obtain u where u: "close_to (d + 1) s = Some u" "close_one u = Some t" by (auto simp: close_to_step split: bind_splits)
  have n: "n = length s - (d + 1 + 1)" "d + 1 < length s" using Suc by simp_all
  have "well_formed u" "length u = d + 2" using Suc.hyps(1) [OF n(1) u(1) Suc.prems(2) n(2)] close_to_length [OF u(1) n(2)] by simp_all
  then show ?case using close_one_well_formed [OF u(2)] by simp
qed

lemma close_to_kids:
  "close_to d s = Some t \<Longrightarrow> d < length s \<Longrightarrow> kids_of t = take d (kids_of s)"
proof (induction "length s - (d + 1)" arbitrary: d t)
  case 0
  then have "length s = d + 1" by simp
  with 0 show ?case by (simp add: close_to_self)
next
  case (Suc n)
  then obtain u where u: "close_to (d + 1) s = Some u" "close_one u = Some t" by (auto simp: close_to_step split: bind_splits)
  then have "kids_of u = take (d + 1) (kids_of s)" "length u = d + 2" using Suc by (auto dest: close_to_length)
  with close_one_kids [OF u(2)] show ?case by (simp add: min_def)
qed

lemma close_one_grows: "close_one s = Some t \<Longrightarrow> well_formed s \<Longrightarrow> length (contents s) \<le> length (contents t)"
proof (cases s)
  case (Cons x u)
  assume c: "close_one s = Some t" and w: "well_formed s"
  obtain k bs where x: "x = (k, bs)" by (cases x)
  obtain e where e: "encode_kind k bs = Some e" "t = push_bytes e u" using c by (auto simp: Cons x)
  have "u \<noteq> []" using w e(1) by (cases u) (auto simp: Cons x)
  moreover have "width k + length bs \<le> length e"
    using e(1) by (cases k) (auto simp: der_length_def split: if_splits)
  ultimately show ?thesis by (simp add: Cons x e(2) contents_push)
qed simp

lemma flushed_mono: "flushed m lim k bs s r \<Longrightarrow> (m' \<Longrightarrow> m) \<Longrightarrow> flushed m' lim k bs s r"
  by (cases r rule: built_cases) (auto simp: flushed_def)

lemma flush_child_outcome:
  assumes l: "holds lim c ((k, bs) # s)" and s: "s \<noteq> []" and a: "sized alloc"
  shows "flushed (\<exists>e. encode_kind k bs = Some e \<and> room alloc lim (length (contents s @ e))) lim k bs s
    (flush_child alloc (last (kids c)) c)"
proof (cases k)
  case Root
  with l s show ?thesis by (auto simp: holds_def layout_def well_formed_Cons)
next
  case (Prefixed n)
  show ?thesis using flush_prefixed [OF l [unfolded Prefixed] s, of alloc] unfolding Prefixed
    by (rule flushed_mono) (auto split: if_splits)
next
  case Element
  have "limit c = lim" "unat (len c) = length (contents s) + 1 + length bs"
    using l holds_len [OF l] by (auto simp: holds_def layout_def Element)
  then have "encode_kind Element bs = Some e \<Longrightarrow> unat (len c) + (length (der_length (length bs)) - 1) = length (contents s @ e)" for e
    by (auto simp: der_length_def split: if_splits)
  then show ?thesis using flush_element [OF l [unfolded Element] s a] \<open>limit c = lim\<close> unfolding Element
    by (intro flushed_mono [OF flush_element [OF l [unfolded Element] s a]]) (auto split: if_splits)
qed

definition closes :: "allocator \<Rightarrow> size_t option \<Rightarrow> nat \<Rightarrow> builder \<Rightarrow> nat \<Rightarrow> bool" where
  "closes alloc lim d s n \<longleftrightarrow> (\<exists>t. close_to d s = Some t \<and> room alloc lim (length (contents t) + n))"

lemma flush_outcome:
  "sized alloc \<Longrightarrow> holds lim c s \<Longrightarrow> d < length s \<Longrightarrow>
    outcome (closes alloc lim d s 0) lim d (CBB_flush alloc d c) (\<lambda>_ c. \<exists>t. close_to d s = Some t \<and> holds lim c t)"
proof (induction "length s - (d + 1)" arbitrary: d)
  case 0
  then have "length s = d + 1" "length (kids c) = d" "\<not> error c" using holds_depth [OF 0(3)] by (auto simp: holds_def)
  with 0 show ?case by (subst CBB_flush.simps) (simp add: close_to_self)
next
  case (Suc n)
  note h = Suc.prems(2)
  have d: "d < length (kids c)" "\<not> error c" using Suc.hyps(2) Suc.prems(3) holds_depth [OF h] h by (auto simp: holds_def)
  have step: "close_to d s = Option.bind (close_to (d + 1) s) close_one" using d holds_depth [OF h] by (intro close_to_step) simp
  have inner: "outcome (closes alloc lim (d + 1) s 0) lim (d + 1) (CBB_flush alloc (d + 1) c)
      (\<lambda>_ c. \<exists>t. close_to (d + 1) s = Some t \<and> holds lim c t)"
    by (rule Suc.hyps(1)) (use Suc.hyps(2) Suc.prems d holds_depth [OF h] in simp_all)
  have "closes alloc lim (d + 1) s 0" if cl: "closes alloc lim d s 0"
  proof -
    obtain u t where t: "close_to (d + 1) s = Some t" "close_one t = Some u" "room alloc lim (length (contents u))"
      using cl by (cases "close_to (d + 1) s") (auto simp: closes_def step)
    moreover have "well_formed t" using close_to_well_formed [OF t(1) holds_well_formed [OF h]] d holds_depth [OF h] by simp
    ultimately show ?thesis using close_one_grows [of t u] room_less by (auto simp: closes_def)
  qed
  then have "attempt (closes alloc lim d s 0) lim d (CBB_flush alloc (d + 1) c)
      (\<lambda>_ c. \<exists>t. close_to (d + 1) s = Some t \<and> holds lim c t)"
    by (intro attempt_outcome [where d' = "d + 1"] outcome_mono [OF inner]) auto
  then have "attempt (closes alloc lim d s 0) lim d
      (bind_cbb (CBB_flush alloc (d + 1) c) (\<lambda>_ c'. bind_cbb (flush_child alloc (kids c ! d) c')
        (\<lambda>_ c. Some (Some (), c\<lparr>kids := take d (kids c)\<rparr>))))
      (\<lambda>_ c. \<exists>t. close_to d s = Some t \<and> holds lim c t)"
  proof (rule attempt_bind; elim exE conjE)
    fix c1 t
    assume t: "close_to (d + 1) s = Some t" and h1: "holds lim c1 t"
    have "length t = d + 2" using close_to_length [OF t] d holds_depth [OF h] by simp
    then obtain k bs u where u: "t = (k, bs) # u" "length u = d + 1" by (cases t; cases "hd t") auto
    then have "u \<noteq> []" by auto
    have k1: "kids c1 = take (d + 1) (kids c)"
      unfolding holds_kids [OF h1] holds_kids [OF h] by (rule close_to_kids [OF t]) (use d holds_depth [OF h] in simp)
    then have "last (kids c1) = kids c ! d" using d by (simp add: take_Suc_conv_app_nth)
    then have f: "flushed (\<exists>e. encode_kind k bs = Some e \<and> room alloc lim (length (contents u @ e))) lim k bs u
        (flush_child alloc (kids c ! d) c1)"
      using flush_child_outcome [OF h1 [unfolded u(1)] \<open>u \<noteq> []\<close> Suc.prems(1)] by simp
    have tk: "take d (kids_of ((k, bs) # u)) = kids_of u" "length (kids_of ((k, bs) # u)) = d + 1"
      using u(2) \<open>u \<noteq> []\<close> by (simp_all add: kids_of_Cons)
    have close: "close_to d s = close_one t" using step t by simp
    show "attempt (closes alloc lim d s 0) lim d (bind_cbb (flush_child alloc (kids c ! d) c1)
        (\<lambda>_ c. Some (Some (), c\<lparr>kids := take d (kids c)\<rparr>))) (\<lambda>_ c. \<exists>t. close_to d s = Some t \<and> holds lim c t)"
    proof (cases "flush_child alloc (kids c ! d) c1" rule: built_cases)
      case undefined
      with f show ?thesis by (simp add: flushed_def)
    next
      case (failed c2)
      with f tk have "cbb_ok lim (c2\<lparr>kids := take d (kids c2)\<rparr>)" "d \<le> length (kids c2)"
        "\<not> (\<exists>e. encode_kind k bs = Some e \<and> room alloc lim (length (contents u @ e)))" by (simp_all add: flushed_def)
      then show ?thesis using failed \<open>u \<noteq> []\<close> by (auto simp: closes_def close u(1) contents_push)
    next
      case (success x c2)
      with f tk show ?thesis by (auto simp: flushed_def close u(1))
    qed
  qed
  then show ?case using d by (subst CBB_flush.simps) (simp add: Let_def outcome_or_error)
qed

section \<open>Appending\<close>

text \<open>\<open>n\<close> more bytes belong to the builder, not yet written.\<close>

definition reserved :: "size_t option \<Rightarrow> cbb \<Rightarrow> builder \<Rightarrow> nat \<Rightarrow> bool" where
  "reserved lim c t n \<longleftrightarrow> well_formed t \<and> limit c = lim \<and> buffer_ok c \<and> \<not> error c \<and> kids c = kids_of t
    \<and> unat (len c) = length (contents t) + n \<and> take (length (contents t)) (buf c) = contents t"

text \<open>The operation closes what is open inside depth \<open>d\<close>, appends \<open>bs\<close> and answers \<open>y\<close>.\<close>

definition appends :: "allocator \<Rightarrow> size_t option \<Rightarrow> nat \<Rightarrow> builder \<Rightarrow> 'a built \<Rightarrow> 'a \<Rightarrow> byte list \<Rightarrow> bool" where
  "appends alloc lim d s r y bs \<longleftrightarrow> outcome (closes alloc lim d s (length bs)) lim d r
     (\<lambda>x c. x = y \<and> (\<exists>t. close_to d s = Some t \<and> holds lim c (push_bytes bs t)))"

lemma closes_less: "closes alloc lim d s n \<Longrightarrow> m \<le> n \<Longrightarrow> closes alloc lim d s m"
  by (auto simp: closes_def elim!: room_less)

lemma closes_closed: "length t = d + 1 \<Longrightarrow> closes alloc lim d t n \<longleftrightarrow> room alloc lim (length (contents t) + n)"
  by (simp add: closes_def close_to_self)

lemma buffer_add_outcome:
  assumes "sized alloc" "holds lim c t" "d \<le> length (kids c)"
  shows "outcome (room alloc lim (length (contents t) + unat n)) lim d (Some (cbb_buffer_add alloc n c))
    (\<lambda>out c. out = length (contents t) \<and> reserved lim c t (unat n))"
proof -
  have l: "layout lim c t" "\<not> error c" "buffer_ok c" "limit c = lim" "take (unat (len c)) (buf c) = contents t"
    using assms(2) by (simp_all add: holds_def layout_def)
  have n: "unat (len c) = length (contents t)" "length (contents t) \<le> length (buf c)" using layout_length [OF l(1)] by simp_all
  show ?thesis
  proof (rule add_cases [OF assms(1) l(3), of n])
    fix r
    assume r: "\<not> room alloc (limit c) (unat (len c) + unat n)" "cbb_buffer_add alloc n c = (None, c\<lparr>error := True, requests := r\<rparr>)"
    have "cbb_ok lim (c\<lparr>error := True, requests := r\<rparr>)" using l(1) by (auto simp: cbb_ok_def layout_def buffer_ok_def)
    with r assms(3) show ?thesis by (simp add: l n)
  next
    fix fresh cp r
    assume "cbb_buffer_add alloc n c = (Some (unat (len c)), c\<lparr>buf := buf c @ fresh, cap := cp, requests := r, len := len c + n\<rparr>)"
      "length (buf c @ fresh) = unat cp" "unat (len c) + unat n \<le> unat cp" "unat (len c + n) = unat (len c) + unat n"
      "limit (c\<lparr>cap := cp\<rparr>) = limit c"
    then show ?thesis using l n by (auto simp: reserved_def buffer_ok_def layout_def limit_def)
  qed
qed

lemma reserved_put:
  assumes "reserved lim c t (length bs)"
  obtains b where "put (buf c) (length (contents t)) bs = Some b" "holds lim (c\<lparr>buf := b\<rparr>) (push_bytes bs t)"
proof -
  have r: "length (contents t) + length bs \<le> length (buf c)" "t \<noteq> []" using assms by (auto simp: reserved_def buffer_ok_def)
  then obtain b where b: "put (buf c) (length (contents t)) bs = Some b" by (auto simp: put_fits)
  then show thesis using that [of b] assms r put_take(2) [OF b] put_length [OF b]
    by (simp add: reserved_def holds_def layout_def buffer_ok_def contents_push)
qed

lemma add_space_outcome:
  assumes "sized alloc" "holds lim c s" "d < length s"
  shows "outcome (closes alloc lim d s (unat n)) lim d (CBB_add_space alloc n d c)
    (\<lambda>out c. \<exists>t. close_to d s = Some t \<and> out = length (contents t) \<and> reserved lim c t (unat n))"
  unfolding CBB_add_space_def
proof (rule outcome_bind, rule outcome_mono [OF flush_outcome [OF assms]]; (elim exE conjE)?)
  fix c t
  assume t: "close_to d s = Some t" "holds lim c t"
  then have "d \<le> length (kids c)" using close_to_length [OF t(1) assms(3)] holds_depth [OF t(2)] by simp
  then show "outcome (closes alloc lim d s (unat n)) lim d (Some (cbb_buffer_add alloc n c))
      (\<lambda>out c. \<exists>t. close_to d s = Some t \<and> out = length (contents t) \<and> reserved lim c t (unat n))"
    by (rule outcome_mono [OF buffer_add_outcome [OF assms(1) t(2)]]) (auto simp: closes_def t(1))
qed (auto intro: closes_less)

lemma appends_bind:
  assumes "appends alloc lim d s r x bs" "d < length s"
    and "\<And>c t. close_to d s = Some t \<Longrightarrow> length t = d + 1 \<Longrightarrow> holds lim c (push_bytes bs t) \<Longrightarrow> appends alloc lim d (push_bytes bs t) (f x c) y bs'"
  shows "appends alloc lim d s (bind_cbb r f) y (bs @ bs')"
  unfolding appends_def
proof (rule outcome_bind)
  show "outcome (closes alloc lim d s (length (bs @ bs'))) lim d r (\<lambda>v c. v = x \<and> (\<exists>t. close_to d s = Some t \<and> holds lim c (push_bytes bs t)))"
    using assms(1) unfolding appends_def by (rule outcome_mono) (auto intro: closes_less)
  fix v c
  assume "v = x \<and> (\<exists>t. close_to d s = Some t \<and> holds lim c (push_bytes bs t))"
  then obtain t where t: "v = x" "close_to d s = Some t" "holds lim c (push_bytes bs t)" by blast
  have lt: "length t = d + 1" using close_to_length [OF t(2) assms(2)] .
  then have "contents (push_bytes bs t) = contents t @ bs" by (intro contents_push) auto
  then have "closes alloc lim d s (length (bs @ bs')) \<Longrightarrow> closes alloc lim d (push_bytes bs t) (length bs')"
    by (simp add: closes_closed lt) (simp add: closes_def t(2) add.assoc)
  then show "outcome (closes alloc lim d s (length (bs @ bs'))) lim d (f v c)
      (\<lambda>x c. x = y \<and> (\<exists>t. close_to d s = Some t \<and> holds lim c (push_bytes (bs @ bs') t)))"
    unfolding t(1) by (intro outcome_mono [OF assms(3) [OF t(2) lt t(3), unfolded appends_def]]) (auto simp: close_to_self lt t(2))
qed

lemma appends_nothing: "holds lim c t \<Longrightarrow> length t = d + 1 \<Longrightarrow> appends alloc lim d t (Some (Some y, c)) y []"
  by (simp add: appends_def close_to_self)

lemma appends_ok: "appends alloc lim d s r y bs \<Longrightarrow> d < length s \<Longrightarrow>
    outcome False lim d r (\<lambda>_ c. cbb_ok lim c \<and> d \<le> length (kids c))"
  unfolding appends_def
proof (erule outcome_mono; (elim exE conjE)?)
  fix c t
  assume "d < length s" "close_to d s = Some t" "holds lim c (push_bytes bs t)"
  then show "cbb_ok lim c \<and> d \<le> length (kids c)" using close_to_length [of d s t] holds_depth [of lim c] holds_ok by fastforce
qed auto

section \<open>Bytes and integers\<close>

lemma add_bytes_appends:
  assumes "sized alloc" "holds lim c s" "d < length s" "length bs < 2 ^ 64"
  shows "appends alloc lim d s (CBB_add_bytes alloc bs d c) () bs"
  unfolding CBB_add_bytes_def appends_def
proof (rule outcome_bind)
  have n: "unat (of_nat (length bs) :: size_t) = length bs" using assms(4) by (simp add: unat_of_nat_64)
  show "outcome (closes alloc lim d s (length bs)) lim d (CBB_add_space alloc (of_nat (length bs)) d c)
      (\<lambda>out c. \<exists>t. close_to d s = Some t \<and> out = length (contents t) \<and> reserved lim c t (length bs))"
    using add_space_outcome [OF assms(1-3), of "of_nat (length bs)"] unfolding n .
  fix out c
  assume "\<exists>t. close_to d s = Some t \<and> out = length (contents t) \<and> reserved lim c t (length bs)"
  then obtain t where t: "close_to d s = Some t" "out = length (contents t)" "reserved lim c t (length bs)" by blast
  from t(3) obtain b where "put (buf c) (length (contents t)) bs = Some b" "holds lim (c\<lparr>buf := b\<rparr>) (push_bytes bs t)"
    by (rule reserved_put)
  then show "outcome (closes alloc lim d s (length bs)) lim d (do { b \<leftarrow> put (buf c) out bs; Some (Some (), c\<lparr>buf := b\<rparr>) })
      (\<lambda>x c. x = () \<and> (\<exists>t. close_to d s = Some t \<and> holds lim c (push_bytes bs t)))"
    by (simp add: t)
qed

lemma add_zeros_appends:
  assumes "sized alloc" "holds lim c s" "d < length s"
  shows "appends alloc lim d s (CBB_add_zeros alloc n d c) () (replicate (unat n) 0)"
proof -
  have "CBB_add_zeros alloc n d c = CBB_add_bytes alloc (replicate (unat n) 0) d c"
    by (simp add: CBB_add_zeros_def CBB_add_bytes_def)
  then show ?thesis using add_bytes_appends [OF assms, of "replicate (unat n) 0"] unat_less_64 [of n] by simp
qed

lemma add_u_outcome:
  assumes "sized alloc" "holds lim c s" "d < length s" "k \<le> 8"
  shows "outcome (drop_bit (8 * k) v = 0 \<and> closes alloc lim d s k) lim d (cbb_add_u alloc v k d c)
     (\<lambda>_ c. drop_bit (8 * k) v = 0 \<and> (\<exists>t. close_to d s = Some t \<and> holds lim c (push_bytes (be_bytes k v) t)))"
  unfolding cbb_add_u_def
proof (rule outcome_bind)
  have n: "unat (of_nat k :: size_t) = k" using assms(4) by (simp add: unat_of_nat_64)
  show "outcome (drop_bit (8 * k) v = 0 \<and> closes alloc lim d s k) lim d (CBB_add_space alloc (of_nat k) d c)
      (\<lambda>out c. \<exists>t. close_to d s = Some t \<and> out = length (contents t) \<and> reserved lim c t k)"
    using add_space_outcome [OF assms(1-3), of "of_nat k"] unfolding n by (rule outcome_mono) auto
  fix out c
  assume "\<exists>t. close_to d s = Some t \<and> out = length (contents t) \<and> reserved lim c t k"
  then obtain t where t: "close_to d s = Some t" "out = length (contents t)" "reserved lim c t k" by blast
  have r: "reserved lim c t (length (be_bytes k v))" using t(3) by simp
  from r obtain b where b: "put (buf c) (length (contents t)) (be_bytes k v) = Some b"
      "holds lim (c\<lparr>buf := b\<rparr>) (push_bytes (be_bytes k v) t)" by (rule reserved_put)
  have d: "length t = d + 1" using close_to_length [OF t(1) assms(3)] .
  have "out + k \<le> length (buf c)" using t(2, 3) by (auto simp: reserved_def buffer_ok_def)
  then have w: "be_write (buf c) out k v = Some (b, drop_bit (8 * k) v)" by (simp add: be_write_put t(2) b(1))
  have "attempt False lim d (Some (None :: unit option, c\<lparr>buf := b\<rparr>)) (\<lambda>_ _. False)"
    using holds_ok [OF b(2)] holds_depth [OF b(2)] d by (intro attempt_outcome [where d' = d]) simp_all
  then have e: "outcome False lim d (or_error d (Some (None :: unit option, c\<lparr>buf := b\<rparr>))) (\<lambda>_ _. False)" by (rule outcome_or_error)
  show "outcome (drop_bit (8 * k) v = 0 \<and> closes alloc lim d s k) lim d (do {
     (b, v) \<leftarrow> be_write (buf c) out k v;
     let c = c\<lparr>buf := b\<rparr> in
     if v \<noteq> 0 then or_error d (Some (None, c)) else Some (Some (), c) })
     (\<lambda>_ c. drop_bit (8 * k) v = 0 \<and> (\<exists>t. close_to d s = Some t \<and> holds lim c (push_bytes (be_bytes k v) t)))"
  proof (cases "drop_bit (8 * k) v = 0")
    case True
    with b(2) t(1) show ?thesis by (simp add: w Let_def)
  next
    case False
    then show ?thesis using outcome_mono [OF e, of "drop_bit (8 * k) v = 0 \<and> closes alloc lim d s k" d] by (simp add: w Let_def)
  qed
qed

lemma add_u_appends:
  assumes "sized alloc" "holds lim c s" "d < length s" "k \<le> 8" "drop_bit (8 * k) v = 0"
  shows "appends alloc lim d s (cbb_add_u alloc v k d c) () (be_bytes k v)"
  unfolding appends_def by (rule outcome_mono [OF add_u_outcome [OF assms(1-4)]]) (auto simp: assms(5))

end
