(* ===== verification/CbbAsn1.thy ===== *)
theory CbbAsn1
  imports CbbSpec
begin

text \<open>
  What the builder writes: integers, children with a length prefix and ASN.1 elements; what it writes is
  what the reader of \<open>Asn1Int\<close> accepts.
\<close>

declare bit_numeral_word_iff [simp del]

section \<open>Integers of a fixed width\<close>

lemma drop_ucast: "LENGTH('a) \<le> n \<Longrightarrow> drop_bit n (ucast (v :: 'a::len word) :: u64) = 0"
  by (rule bit_word_eqI) (auto simp: bit_drop_bit_eq bit_ucast_iff dest: bit_imp_le_length)

lemma add_u8_appends:
  assumes "sized alloc" "holds lim c s" "d < length s"
  shows "appends alloc lim d s (CBB_add_u8 alloc b d c) () [b]"
proof -
  have "ucast (ucast b :: u64) = b" by (rule bit_word_eqI) (auto simp: bit_ucast_iff)
  then have "be_bytes 1 (ucast b) = [b]" by (simp add: be_bytes_Cons)
  then show ?thesis using add_u_appends [OF assms, of 1 "ucast b"] by (simp add: CBB_add_u8_def drop_ucast)
qed

lemma add_u16_appends:
  "sized alloc \<Longrightarrow> holds lim c s \<Longrightarrow> d < length s \<Longrightarrow> appends alloc lim d s (CBB_add_u16 alloc v d c) () (be_bytes 2 (ucast v))"
  unfolding CBB_add_u16_def by (rule add_u_appends) (simp_all add: drop_ucast)

lemma add_u32_appends:
  "sized alloc \<Longrightarrow> holds lim c s \<Longrightarrow> d < length s \<Longrightarrow> appends alloc lim d s (CBB_add_u32 alloc v d c) () (be_bytes 4 (ucast v))"
  unfolding CBB_add_u32_def by (rule add_u_appends) (simp_all add: drop_ucast)

lemma add_u64_appends:
  "sized alloc \<Longrightarrow> holds lim c s \<Longrightarrow> d < length s \<Longrightarrow> appends alloc lim d s (CBB_add_u64 alloc v d c) () (be_bytes 8 v)"
  unfolding CBB_add_u64_def by (rule add_u_appends) simp_all

section \<open>Children\<close>

text \<open>The operation closes what is open inside depth \<open>d\<close>, appends \<open>bs\<close> and opens a child.\<close>

definition opens :: "allocator \<Rightarrow> size_t option \<Rightarrow> nat \<Rightarrow> builder \<Rightarrow> 'a built \<Rightarrow> kind \<Rightarrow> byte list \<Rightarrow> bool" where
  "opens alloc lim d s r k bs \<longleftrightarrow> outcome (closes alloc lim d s (length bs + width k)) lim d r
     (\<lambda>_ c. \<exists>t. close_to d s = Some t \<and> holds lim c ((k, []) # push_bytes bs t))"

lemma add_child_outcome:
  assumes "sized alloc" "holds lim c t" "length t = d + 1" "unat k \<le> 8" "is_asn1 \<Longrightarrow> k = 1"
  shows "outcome (room alloc lim (length (contents t) + unat k)) lim d (cbb_add_child alloc k is_asn1 d c)
    (\<lambda>_ c. holds lim c ((if is_asn1 then Element else Prefixed (unat k), []) # t))"
proof -
  have d: "d = length (kids c)" "t \<noteq> []" using holds_depth [OF assms(2)] assms(3) by auto
  have u: "unat (ucast k :: size_t) = unat k" by (rule unat_ucast_up) simp
  have l: "len c = of_nat (length (contents t))" using holds_len [OF assms(2)] by (simp flip: holds_len [OF assms(2)])
  have "outcome (room alloc lim (length (contents t) + unat k)) lim d (Some (cbb_buffer_add alloc (ucast k) c))
      (\<lambda>out c. out = length (contents t) \<and> reserved lim c t (unat k))"
    using buffer_add_outcome [OF assms(1, 2), of d "ucast k"] d by (simp add: u)
  then show ?thesis
  proof (cases "Some (cbb_buffer_add alloc (ucast k) c)" rule: built_cases)
    case (failed c1)
    with \<open>outcome _ _ _ _ _\<close> d assms(5) show ?thesis by (auto simp: cbb_add_child_def)
  next
    case (success out c1)
    with \<open>outcome _ _ _ _ _\<close> have r: "out = length (contents t)" "reserved lim c1 t (length (replicate (unat k) (0 :: byte)))" by simp_all
    from r(2) obtain b where b: "put (buf c1) (length (contents t)) (replicate (unat k) 0) = Some b" "holds lim (c1\<lparr>buf := b\<rparr>) (push_bytes (replicate (unat k) 0) t)"
      by (rule reserved_put)
    have "kids c1 = kids_of t" using r(2) by (simp add: reserved_def)
    moreover have "k = of_nat (unat k)" by simp
    ultimately show ?thesis using success d assms(4, 5) b
      by (auto simp: cbb_add_child_def r(1) l holds_def layout_def buffer_ok_def contents_push well_formed_Cons kids_of_Cons limit_def)
  qed simp
qed

lemma add_length_prefixed_opens:
  assumes "sized alloc" "holds lim c s" "d < length s" "unat k \<le> 8"
  shows "opens alloc lim d s (cbb_add_length_prefixed alloc k d c) (Prefixed (unat k)) []"
  unfolding opens_def cbb_add_length_prefixed_def
proof (rule outcome_bind, rule outcome_mono [OF flush_outcome [OF assms(1-3)]]; (elim exE conjE)?)
  fix c t
  assume t: "close_to d s = Some t" "holds lim c t"
  then show "outcome (closes alloc lim d s (length ([] :: byte list) + width (Prefixed (unat k)))) lim d (cbb_add_child alloc k False d c)
      (\<lambda>_ c. \<exists>t. close_to d s = Some t \<and> holds lim c ((Prefixed (unat k), []) # push_bytes [] t))"
    by (intro outcome_mono [OF add_child_outcome [OF assms(1) t(2) close_to_length [OF t(1) assms(3)] assms(4)]]) (auto simp: closes_def)
qed (auto intro: closes_less)

section \<open>Tags\<close>

lemma base128_bytes_appends:
  "sized alloc \<Longrightarrow> holds lim c t \<Longrightarrow> length t = d + 1 \<Longrightarrow> appends alloc lim d t (base128_bytes alloc v k d c) () (base128 k v)"
proof (induction k arbitrary: c t)
  case 0
  then show ?case by (simp add: appends_nothing)
next
  case (Suc k)
  let ?b = "if k \<noteq> 0 then (ucast (drop_bit (7 * k) v) AND 0x7f) OR 0x80 else ucast (drop_bit (7 * k) v) AND 0x7f :: byte"
  have "appends alloc lim d t (bind_cbb (CBB_add_u8 alloc ?b d c) (\<lambda>_ c. base128_bytes alloc v k d c)) () ([?b] @ base128 k v)"
    using Suc by (intro appends_bind [OF add_u8_appends]) auto
  then show ?case by (simp add: Let_def cong: if_cong)
qed

lemma base128_digits_minimal:
  "drop_bit (7 * fuel) v = 0 \<Longrightarrow> v \<noteq> 0 \<Longrightarrow> minimal128 (base128_digits fuel v) v"
proof (induction fuel arbitrary: v)
  case (Suc f)
  have z: "drop_bit (7 * f) (drop_bit 7 v) = 0" using Suc.prems(1) by (simp add: add.commute)
  have v: "0 < v" using Suc.prems(2) by (simp add: word_gt_0)
  show ?case
  proof (cases "drop_bit 7 v = 0")
    case True
    then have "base128_digits f (drop_bit 7 v) = 0" by (cases f) simp_all
    with True v show ?thesis by (simp add: minimal128_def)
  next
    case False
    then have m: "minimal128 (base128_digits f (drop_bit 7 v)) (drop_bit 7 v)" using Suc.IH z by blast
    then obtain k where k: "base128_digits f (drop_bit 7 v) = Suc k" by (cases "base128_digits f (drop_bit 7 v)") (auto simp: minimal128_def)
    then have "minimal128 (Suc (Suc k)) v" using m False unfolding minimal128_def k by (cases "k = 0") (simp_all add: add.commute)
    with v k show ?thesis by simp
  qed
qed simp

lemma add_base128_appends:
  assumes "sized alloc" "holds lim c t" "length t = d + 1"
  shows "appends alloc lim d t (add_base128_integer alloc v d c) () (base128 (digits128 v) v)"
proof -
  have "(if base128_digits 10 v = 0 then 1 else base128_digits 10 v) = digits128 v"
  proof (cases "v = 0")
    case True
    then have "minimal128 1 v" by (simp add: minimal128_def)
    moreover have "base128_digits 10 v = 0" using True by (simp add: eval_nat_numeral)
    ultimately show ?thesis by (simp add: minimal128_iff)
  next
    case False
    then show ?thesis using base128_digits_minimal [of 10 v] by (auto simp: minimal128_iff [symmetric] minimal128_def)
  qed
  then show ?thesis using base128_bytes_appends [OF assms] by (simp add: add_base128_integer_def Let_def)
qed

lemma add_asn1_opens:
  assumes "sized alloc" "holds lim c s" "d < length s"
  shows "opens alloc lim d s (CBB_add_asn1 alloc tag d c) Element (der_tag tag)"
  unfolding opens_def CBB_add_asn1_def
proof (rule outcome_bind, rule outcome_mono [OF flush_outcome [OF assms]]; (elim exE conjE)?)
  fix c t
  assume t: "close_to d s = Some t" "holds lim c t"
  have lt: "length t = d + 1" using close_to_length [OF t(1) assms(3)] .
  let ?bits = "ucast (drop_bit 24 tag AND 0xe0) :: byte"
  let ?n = "tag AND 0x1fffffff"
  let ?w = "if ?n \<ge> 0x1f then bind_cbb (CBB_add_u8 alloc (?bits OR 0x1f) d c) (\<lambda>_ c. add_base128_integer alloc (ucast ?n) d c)
      else CBB_add_u8 alloc (?bits OR ucast ?n) d c"
  have tag: "appends alloc lim d t ?w () (der_tag tag)"
  proof (cases "?n \<ge> 0x1f")
    case True
    have "appends alloc lim d t (bind_cbb (CBB_add_u8 alloc (?bits OR 0x1f) d c) (\<lambda>_ c. add_base128_integer alloc (ucast ?n) d c)) ()
        ([?bits OR 0x1f] @ base128 (digits128 (ucast ?n)) (ucast ?n))"
      using lt t(2) assms(1) by (intro appends_bind [OF add_u8_appends] add_base128_appends) auto
    moreover have "der_tag tag = [?bits OR 0x1f] @ base128 (digits128 (ucast ?n)) (ucast ?n)" 
    proof -
      have "\<not> ?n < 0x1f" using True by (simp add: not_less)
      then show ?thesis by (simp add: der_tag_def Let_def)
    qed
    ultimately show ?thesis using True by (simp only: if_True)
  next
    case False
    then have "der_tag tag = [?bits OR ucast ?n]" by (simp add: der_tag_def Let_def not_le)
    moreover have "appends alloc lim d t (CBB_add_u8 alloc (?bits OR ucast ?n) d c) () [?bits OR ucast ?n]"
      using lt by (intro add_u8_appends assms(1) t(2)) simp
    ultimately show ?thesis using False by (simp only: if_False)
  qed
  have "outcome (closes alloc lim d t (length (der_tag tag) + 1)) lim d (bind_cbb ?w (\<lambda>_ c. cbb_add_child alloc 1 True d c))
      (\<lambda>_ c. holds lim c ((Element, []) # push_bytes (der_tag tag) t))"
  proof (rule outcome_bind, rule outcome_mono [OF tag [unfolded appends_def]]; (elim exE conjE)?)
    fix c u
    assume "close_to d t = Some u" "holds lim c (push_bytes (der_tag tag) u)"
    then have h: "holds lim c (push_bytes (der_tag tag) t)" by (simp add: close_to_self lt)
    have "t \<noteq> []" using lt by auto
    then show "outcome (closes alloc lim d t (length (der_tag tag) + 1)) lim d (cbb_add_child alloc 1 True d c)
        (\<lambda>_ c. holds lim c ((Element, []) # push_bytes (der_tag tag) t))"
      by (intro outcome_mono [OF add_child_outcome [OF assms(1) h]]) (auto simp: lt closes_closed contents_push)
  qed (auto intro: closes_less)
  then show "outcome (closes alloc lim d s (length (der_tag tag) + width Element)) lim d
      (let tag_bits = ucast (drop_bit CBS_ASN1_TAG_SHIFT tag AND 0xe0); tag_number = tag AND CBS_ASN1_TAG_NUMBER_MASK
       in bind_cbb (if tag_number \<ge> 0x1f then bind_cbb (CBB_add_u8 alloc (tag_bits OR 0x1f) d c)
             (\<lambda>_ c. add_base128_integer alloc (ucast tag_number) d c) else CBB_add_u8 alloc (tag_bits OR ucast tag_number) d c)
          (\<lambda>_ c. cbb_add_child alloc 1 True d c))
      (\<lambda>_ c. \<exists>t. close_to d s = Some t \<and> holds lim c ((Element, []) # push_bytes (der_tag tag) t))"
    unfolding Let_def tag_constants by (rule outcome_mono) (auto simp: closes_closed lt, auto simp: closes_def t(1))
qed (auto intro: closes_less)

section \<open>Integers\<close>

text \<open>What \<open>uint64_bytes\<close> writes for the bytes that are left.\<close>

definition trimmed :: "bool \<Rightarrow> byte list \<Rightarrow> byte list" where
  "trimmed started bs = (if started then bs else case dropWhile (\<lambda>b. b = 0) bs of
     [] \<Rightarrow> [] | r # rs \<Rightarrow> if r AND 0x80 \<noteq> 0 then 0 # r # rs else r # rs)"

lemma uint64_bytes_appends:
  "sized alloc \<Longrightarrow> holds lim c t \<Longrightarrow> length t = d + 1 \<Longrightarrow>
    appends alloc lim d t (uint64_bytes alloc started bs d c) (started \<or> (\<exists>b\<in>set bs. b \<noteq> 0)) (trimmed started bs)"
proof (induction alloc started bs d c arbitrary: t rule: uint64_bytes.induct)
  case (1 alloc started d c)
  then show ?case by (simp add: appends_nothing trimmed_def)
next
  case (2 alloc started b bs d c)
  have tail: "appends alloc lim d t (bind_cbb (CBB_add_u8 alloc b d c) (\<lambda>_ c. uint64_bytes alloc True bs d c)) True (b # bs)"
    if "holds lim c t" "length t = d + 1" "\<And>c t. holds lim c t \<Longrightarrow> length t = d + 1 \<Longrightarrow> appends alloc lim d t (uint64_bytes alloc True bs d c) True bs"
    for c t
  proof -
    have "appends alloc lim d t (bind_cbb (CBB_add_u8 alloc b d c) (\<lambda>_ c. uint64_bytes alloc True bs d c)) True ([b] @ bs)"
      using that "2.prems"(1) by (intro appends_bind [OF add_u8_appends]) auto
    then show ?thesis by simp
  qed
  show ?case
  proof (cases "\<not> started \<and> b = 0")
    case True
    then show ?thesis using "2.IH"(1) [OF _ _ "2.prems"] by (simp add: trimmed_def)
  next
    case False
    have rest: "appends alloc lim d t (uint64_bytes alloc True bs d c) True bs" if "holds lim c t" "length t = d + 1" for c t
    proof (cases started)
      case True
      then show ?thesis using "2.IH"(3) [OF _ "2.prems"(1) that] by (simp add: trimmed_def)
    next
      case f: False
      then show ?thesis using "2.IH"(2) [OF _ _ "2.prems"(1) that] False by (simp add: trimmed_def)
    qed
    show ?thesis
    proof (cases "started \<or> b AND 0x80 = 0")
      case True
      then show ?thesis using tail [OF "2.prems"(2, 3) rest] False by (auto simp: trimmed_def)
    next
      case high: False
      have "appends alloc lim d t (bind_cbb (CBB_add_u8 alloc 0 d c) (\<lambda>_ c. bind_cbb (CBB_add_u8 alloc b d c) (\<lambda>_ c. uint64_bytes alloc True bs d c))) True ([0] @ b # bs)"
        using "2.prems" by (intro appends_bind [OF add_u8_appends] tail rest) auto
      then show ?thesis using False high by (simp add: trimmed_def)
    qed
  qed
qed

lemma trimmed_Nil: "trimmed False bs = [] \<longleftrightarrow> (\<forall>b\<in>set bs. b = 0)"
proof -
  have "trimmed False bs = [] \<longleftrightarrow> dropWhile (\<lambda>b. b = 0) bs = []" unfolding trimmed_def
    by (cases "dropWhile (\<lambda>b. b = 0) bs") (simp_all only: if_False list.case list.distinct split: if_split, simp_all)
  then show ?thesis by (simp only: dropWhile_eq_Nil_conv)
qed

lemma uint64_loop_zeros: "uint64_loop 0 (dropWhile (\<lambda>b. b = 0) bs) = uint64_loop 0 bs"
  by (induction bs) simp_all

lemma unsigned_Cons: "CBS_is_unsigned_asn1_integer (b # bs) \<longleftrightarrow> b AND 0x80 = 0 \<and> (b = 0 \<longrightarrow> bs = [] \<or> hd bs AND 0x80 \<noteq> 0)"
  by (cases bs) (auto simp: CBS_is_unsigned_asn1_integer_def CBS_is_valid_asn1_integer_def CBS_get_u8_def cbs_get_def)

lemma trimmed_uint: "(let r = trimmed False (be_bytes 8 v) in if r = [] then [0] else r) = uint_content v"
proof -
  define r where "r = dropWhile (\<lambda>b. b = 0) (be_bytes 8 v)"
  have l: "uint64_loop 0 r = Some v" unfolding r_def uint64_loop_zeros by (simp add: uint64_loop_iff)
  have nz: "r \<noteq> [] \<Longrightarrow> hd r \<noteq> 0" unfolding r_def by (rule hd_dropWhile)
  have tr: "trimmed False (be_bytes 8 v) = (case r of [] \<Rightarrow> [] | r # rs \<Rightarrow> if r AND 0x80 \<noteq> 0 then 0 # r # rs else r # rs)"
    by (simp add: trimmed_def r_def)
  have "CBS_is_unsigned_asn1_integer (if trimmed False (be_bytes 8 v) = [] then [0] else trimmed False (be_bytes 8 v)) \<and>
      uint64_loop 0 (if trimmed False (be_bytes 8 v) = [] then [0] else trimmed False (be_bytes 8 v)) = Some v"
    unfolding tr using l nz by (cases r) (simp_all add: unsigned_Cons)
  then show ?thesis unfolding uint_content_iff by (simp add: Let_def)
qed

lemma value_bytes: "map (\<lambda>i. ucast (drop_bit (8 * (7 - i)) v)) [0..<8] = be_bytes 8 v"
  by (simp add: eval_nat_numeral be_bytes_Cons upt_rec)

text \<open>A child that holds \<open>content\<close> inside a builder to which \<open>tb\<close> was appended; it is then closed.\<close>

definition fills :: "allocator \<Rightarrow> size_t option \<Rightarrow> nat \<Rightarrow> builder \<Rightarrow> 'a built \<Rightarrow> byte list \<Rightarrow> byte list \<Rightarrow> bool" where
  "fills alloc lim d s r tb content \<longleftrightarrow> outcome (closes alloc lim d s (length (tb @ der_length (length content) @ content))) lim d r
     (\<lambda>_ c. \<exists>t. close_to d s = Some t \<and> holds lim c ((Element, content) # push_bytes tb t))"

lemma opens_fills:
  assumes "d < length s" "opens alloc lim d s r Element tb"
    and f: "\<And>c t. holds lim c t \<Longrightarrow> length t = d + 2 \<Longrightarrow> appends alloc lim (d + 1) t (f c) y content"
  shows "fills alloc lim d s (bind_cbb r (\<lambda>_. f)) tb content"
proof -
  have dl: "1 \<le> length (der_length (length content))" by (simp add: der_length_def)
  show ?thesis unfolding fills_def
  proof (rule outcome_bind, rule outcome_mono [OF assms(2) [unfolded opens_def]]; (elim exE conjE)?)
    fix c t
    assume t: "close_to d s = Some t" "holds lim c ((Element, []) # push_bytes tb t)"
    have lt: "length t = d + 1" "t \<noteq> []" using close_to_length [OF t(1) assms(1)] by auto
    show "outcome (closes alloc lim d s (length (tb @ der_length (length content) @ content))) lim d (f c)
        (\<lambda>_ c. \<exists>t. close_to d s = Some t \<and> holds lim c ((Element, content) # push_bytes tb t))"
      by (rule outcome_mono [OF f [OF t(2), unfolded appends_def]])
        (use dl lt t(1) in \<open>auto simp: closes_closed close_to_self closes_def contents_push elim!: room_less\<close>)
  qed (use dl in \<open>auto elim!: closes_less\<close>)
qed

lemma fills_or_error: "fills alloc lim d s r tb content \<Longrightarrow> fills alloc lim d s (or_error d r) tb content"
  unfolding fills_def by (rule outcome_or_error, rule attempt_outcome) auto

lemma fills_flush:
  assumes "sized alloc" "d < length s" "fills alloc lim d s r tb content" "length content \<le> 0xfffffffe"
  shows "appends alloc lim d s (bind_cbb r (\<lambda>_ c. CBB_flush alloc d c)) () (tb @ der_length (length content) @ content)"
  unfolding appends_def
proof (rule outcome_bind, rule assms(3) [unfolded fills_def]; elim exE conjE)
  fix c t
  let ?e = "tb @ der_length (length content) @ content"
  assume t: "close_to d s = Some t" "holds lim c ((Element, content) # push_bytes tb t)"
  have lt: "length t = d + 1" "t \<noteq> []" using close_to_length [OF t(1) assms(2)] by auto
  have close: "close_to d ((Element, content) # push_bytes tb t) = Some (push_bytes ?e t)"
    using lt assms(4) by (simp add: close_to_def)
  have "outcome (closes alloc lim d ((Element, content) # push_bytes tb t) 0) lim d (CBB_flush alloc d c)
      (\<lambda>_ c. \<exists>u. close_to d ((Element, content) # push_bytes tb t) = Some u \<and> holds lim c u)"
    by (rule flush_outcome [OF assms(1) t(2)]) (simp add: lt)
  then show "outcome (closes alloc lim d s (length ?e)) lim d (CBB_flush alloc d c)
      (\<lambda>x c. x = () \<and> (\<exists>t. close_to d s = Some t \<and> holds lim c (push_bytes ?e t)))"
    by (rule outcome_mono) (use lt in \<open>auto simp: close t(1) closes_def contents_push\<close>)
qed

lemma appends_or_error: "appends alloc lim d s r y bs \<Longrightarrow> appends alloc lim d s (or_error d r) y bs"
  unfolding appends_def by (rule outcome_or_error, rule attempt_outcome) auto

lemma bind_cbb_assoc: "bind_cbb (bind_cbb r f) g = bind_cbb r (\<lambda>x c. bind_cbb (f x c) g)"
  by (cases r rule: built_cases) auto

section \<open>ASN.1 values\<close>

lemma element_length: "tb = der_tag tag \<Longrightarrow> tb @ der_length (length content) @ content = der tag content"
  by (simp add: der_def der_header_def)

lemma add_uint64_appends:
  assumes "sized alloc" "holds lim c s" "d < length s"
  shows "appends alloc lim d s (CBB_add_asn1_uint64_with_tag alloc v tag d c) () (der tag (uint_content v))"
  unfolding CBB_add_asn1_uint64_with_tag_def value_bytes element_length [OF refl, symmetric]
proof (intro fills_flush fills_or_error opens_fills add_asn1_opens assms)
  fix c t
  assume t: "holds lim c t" "length t = d + 2"
  let ?r = "trimmed False (be_bytes 8 v)"
  have e: "?r = [] \<longleftrightarrow> \<not> (\<exists>b\<in>set (be_bytes 8 v). b \<noteq> 0)" by (simp add: trimmed_Nil)
  have "appends alloc lim (d + 1) t (bind_cbb (uint64_bytes alloc False (be_bytes 8 v) (d + 1) c)
      (\<lambda>started c. if \<not> started then CBB_add_u8 alloc 0 (d + 1) c else Some (Some (), c))) () (?r @ (if ?r = [] then [0] else []))"
  proof (rule appends_bind [OF uint64_bytes_appends [OF assms(1) t(1)]])
    fix c u
    assume "close_to (d + 1) t = Some u" "length u = d + 1 + 1" "holds lim c (push_bytes ?r u)"
    then show "appends alloc lim (d + 1) (push_bytes ?r u)
        (if \<not> (False \<or> (\<exists>b\<in>set (be_bytes 8 v). b \<noteq> 0)) then CBB_add_u8 alloc 0 (d + 1) c else Some (Some (), c)) ()
        (if ?r = [] then [0] else [])"
      using assms(1) by (auto simp: e intro: add_u8_appends appends_nothing)
  qed (use t in simp_all)
  moreover have "?r @ (if ?r = [] then [0] else []) = uint_content v" using trimmed_uint [of v] by (simp add: Let_def split: if_splits)
  ultimately show "appends alloc lim (d + 1) t (bind_cbb (uint64_bytes alloc False (be_bytes 8 v) (d + 1) c)
      (\<lambda>started c. if \<not> started then CBB_add_u8 alloc 0 (d + 1) c else Some (Some (), c))) () (uint_content v)" by simp
next
  show "length (uint_content v) \<le> 0xfffffffe" using uint_octets_bounds(2) [of v] by (simp add: uint_content_def)
qed

lemma add_bytes_each_appends:
  "sized alloc \<Longrightarrow> holds lim c t \<Longrightarrow> length t = d + 1 \<Longrightarrow> appends alloc lim d t (add_bytes_each alloc bs d c) () bs"
proof (induction bs arbitrary: c t)
  case Nil
  then show ?case by (simp add: appends_nothing)
next
  case (Cons b bs)
  have "appends alloc lim d t (bind_cbb (CBB_add_u8 alloc b d c) (\<lambda>_ c. add_bytes_each alloc bs d c)) () ([b] @ bs)"
    using Cons by (intro appends_bind [OF add_u8_appends]) auto
  then show ?case by simp
qed

lemma negative_extension: "bit v 63 \<Longrightarrow> signed_take_bit m v = v \<longleftrightarrow> (\<forall>k\<ge>m. k < 64 \<longrightarrow> bit (v :: u64) k)" if "m < 64"
proof -
  assume n: "bit v 63"
  show ?thesis unfolding sign_bits
  proof
    assume a: "\<forall>k\<ge>m. k < 64 \<longrightarrow> bit v k = bit v m"
    have "bit v m" using spec [OF a, of 63] n that by simp
    then show "\<forall>k\<ge>m. k < 64 \<longrightarrow> bit v k" using a by blast
  qed (use that in blast)
qed

lemma int64_start_octets:
  "bit v 63 \<Longrightarrow> i < 8 \<Longrightarrow> \<forall>k\<ge>8 * i + 7. k < 64 \<longrightarrow> bit v k \<Longrightarrow> Suc (int64_start (le_bytes 8 v) i) = int_octets v"
proof (induction i)
  case 0
  then show ?case by (simp add: int_octets_iff negative_extension)
next
  case (Suc i)
  have b: "le_bytes 8 v ! Suc i = ucast (drop_bit (8 * Suc i) v)" "le_bytes 8 v ! i = ucast (drop_bit (8 * i) v)"
    using Suc.prems(2) by (simp_all add: le_bytes_def)
  have ff: "le_bytes 8 v ! Suc i = 0xff \<longleftrightarrow> (\<forall>k. 8 * Suc i \<le> k \<and> k < 8 * Suc i + 8 \<longrightarrow> bit v k)"
    using byte_is_bits [of "8 * Suc i" v True] unfolding b by simp
  have top: "le_bytes 8 v ! i AND 0x80 \<noteq> 0 \<longleftrightarrow> bit v (8 * i + 7)" unfolding b by (simp add: top_byte)
  have split: "(\<forall>k\<ge>8 * i + 7. k < 64 \<longrightarrow> bit v k) \<longleftrightarrow> le_bytes 8 v ! Suc i = 0xff \<and> le_bytes 8 v ! i AND 0x80 \<noteq> 0"
    unfolding ff top
  proof (intro iffI conjI allI impI)
    fix k
    assume a: "(\<forall>k. 8 * Suc i \<le> k \<and> k < 8 * Suc i + 8 \<longrightarrow> bit v k) \<and> bit v (8 * i + 7)" and k: "8 * i + 7 \<le> k" "k < 64"
    consider "k = 8 * i + 7" | "8 * Suc i \<le> k" "k < 8 * Suc i + 8" | "8 * Suc i + 7 \<le> k" using k by force
    then show "bit v k" using a Suc.prems(3) k by cases auto
  qed (use Suc.prems(2) in auto)
  show ?case
  proof (cases "le_bytes 8 v ! Suc i = 0xff \<and> le_bytes 8 v ! i AND 0x80 \<noteq> 0")
    case True
    then show ?thesis using Suc.IH Suc.prems split by simp
  next
    case False
    moreover have "8 * i + 7 < 64" "8 * Suc i + 7 < 64" using Suc.prems(2) by simp_all
    moreover have e: "8 * Suc (Suc i) - 1 = 8 * Suc i + 7" "8 * (Suc (Suc i) - 1) - 1 = 8 * i + 7" by simp_all
    ultimately have "Suc (Suc i) = int_octets v" unfolding int_octets_iff e
      using Suc.prems(3) split negative_extension [of "8 * i + 7" v] negative_extension [of "8 * Suc i + 7" v] Suc.prems(1) by blast
    with False show ?thesis by auto
  qed
qed

lemma int_content_positive: "\<not> bit v 63 \<Longrightarrow> int_content v = uint_content v"
proof -
  assume n: "\<not> bit v 63"
  have e: "signed_take_bit m v = v \<longleftrightarrow> drop_bit m v = 0" if "m < 64" for m
    unfolding sign_bits drop_zero_bits
  proof
    assume a: "\<forall>k\<ge>m. k < 64 \<longrightarrow> bit v k = bit v m"
    have "\<not> bit v m" using spec [OF a, of 63] n that by simp
    show "\<forall>k\<ge>m. \<not> bit v k"
    proof (intro allI impI)
      fix k
      assume "m \<le> k"
      with \<open>\<not> bit v m\<close> show "\<not> bit v k" using spec [OF a, of k] by (cases "k < 64") (auto dest: bit_imp_le_length)
    qed
  qed (use that in blast)
  have "uint_octets v \<le> 8"
  proof -
    have "\<not> bit v k" if "63 \<le> k" for k using n that by (cases "k = 63") (auto dest: bit_imp_le_length)
    then have "drop_bit 63 v = 0" by (simp add: drop_zero_bits)
    then show ?thesis using uint_octets_iff [of "uint_octets v" v] uint_octets_bounds(2) [of v]
      drop_zero_mono [of 63 v "8 * (uint_octets v - 1) - 1"] by (cases "uint_octets v = 9") auto
  qed
  then have "uint_octets v = int_octets v" unfolding int_octets_iff
    using uint_octets_iff [of "uint_octets v" v] e by auto
  then show ?thesis by (simp add: int_content_def uint_content_def)
qed

lemma add_int64_appends:
  assumes "sized alloc" "holds lim c s" "d < length s"
  shows "appends alloc lim d s (CBB_add_asn1_int64_with_tag alloc v tag d c) () (der tag (int_content v))"
proof (cases "0 \<le> sint v")
  case True
  then have "\<not> bit v 63" using bit_last_iff [of v] by simp
  with True show ?thesis using add_uint64_appends [OF assms] by (simp add: CBB_add_asn1_int64_with_tag_def int_content_positive)
next
  case False
  then have n: "bit v 63" using bit_last_iff [of v] by simp
  have "\<forall>k\<ge>8 * 7 + 7. k < 64 \<longrightarrow> bit v k"
  proof (intro allI impI)
    fix k :: nat
    assume "8 * 7 + 7 \<le> k" "k < 64"
    then have "k = 63" by simp
    with n show "bit v k" by simp
  qed
  then have st: "int64_start (le_bytes 8 v) 7 + 1 = int_octets v" using int64_start_octets [OF n, of 7] by simp
  have "take (int_octets v) (le_bytes 8 v) = le_bytes (int_octets v) v"
    using int_octets_bounds(2) [of v] by (simp add: le_bytes_def take_map min_absorb2)
  then have c: "rev (take (int64_start (le_bytes 8 v) 7 + 1) (le_bytes 8 v)) = int_content v"
    unfolding st by (simp add: int_content_def be_bytes_def)
  have "length (int_content v) \<le> 0xfffffffe" using int_octets_bounds(2) [of v] by (simp add: int_content_def)
  then have "appends alloc lim d s (bind_cbb
          (or_error d (bind_cbb (CBB_add_asn1 alloc tag d c) (\<lambda>_ c. add_bytes_each alloc (int_content v) (d + 1) c)))
          (\<lambda>_ c. CBB_flush alloc d c)) () (der tag (int_content v))"
    unfolding element_length [OF refl, symmetric]
    by (intro fills_flush fills_or_error opens_fills add_asn1_opens assms) (auto intro!: add_bytes_each_appends assms(1))
  with False c show ?thesis by (simp add: CBB_add_asn1_int64_with_tag_def Let_def)
qed

lemma add_octet_string_appends:
  assumes "sized alloc" "holds lim c s" "d < length s" "length bs \<le> 0xfffffffe"
  shows "appends alloc lim d s (CBB_add_asn1_octet_string alloc bs d c) () (der CBS_ASN1_OCTETSTRING bs)"
  unfolding CBB_add_asn1_octet_string_def bind_cbb_assoc [symmetric] element_length [OF refl, symmetric]
  by (intro appends_or_error fills_flush opens_fills add_asn1_opens assms) (use assms(4) in \<open>auto intro!: add_bytes_appends assms(1)\<close>)

lemma add_bool_appends:
  assumes "sized alloc" "holds lim c s" "d < length s"
  shows "appends alloc lim d s (CBB_add_asn1_bool alloc b d c) () (der CBS_ASN1_BOOLEAN [if b then 0xff else 0])"
  unfolding CBB_add_asn1_bool_def bind_cbb_assoc [symmetric] element_length [OF refl, symmetric]
  by (intro appends_or_error fills_flush opens_fills add_asn1_opens assms) (auto intro!: add_u8_appends assms(1))

end
