(* ===== verification/SetOf.thy ===== *)
theory SetOf
  imports CbbAsn1 "HOL-Library.Multiset"
begin

text \<open>
  \<open>CBB_flush_asn1_set_of\<close> (\<open>crypto/bytestring/cbb.c\<close>): the elements of a SET OF put in the order that
  DER asks for.
\<close>

section \<open>The code\<close>

text \<open>Of the C library's \<open>memcmp\<close> the code uses the sign.\<close>

fun memcmp :: "byte list \<Rightarrow> byte list \<Rightarrow> int" where
  "memcmp (a # as) (b # bs) = (if a = b then memcmp as bs else if a < b then - 1 else 1)"
| "memcmp _ _ = 0"

definition compare_set_of_element :: "byte list \<Rightarrow> byte list \<Rightarrow> int" where
  "compare_set_of_element a b = (let a_len = length a; b_len = length b; min_len = (if a_len < b_len then a_len else b_len);
     ret = memcmp (take min_len a) (take min_len b) in
     if ret \<noteq> 0 then ret else if a_len = b_len then 0 else if a_len < b_len then - 1 else 1)"

text \<open>
  The C library's \<open>qsort\<close>. Elements that compare equal are equal byte strings here, so that which sorting
  algorithm it uses makes no difference.
\<close>

fun qsort_insert :: "('a \<Rightarrow> 'a \<Rightarrow> int) \<Rightarrow> 'a \<Rightarrow> 'a list \<Rightarrow> 'a list" where
  "qsort_insert cmp x [] = [x]"
| "qsort_insert cmp x (y # ys) = (if cmp x y \<le> 0 then x # y # ys else y # qsort_insert cmp x ys)"

definition qsort :: "('a \<Rightarrow> 'a \<Rightarrow> int) \<Rightarrow> 'a list \<Rightarrow> 'a list" where
  "qsort cmp xs = foldr (qsort_insert cmp) xs []"

lemma element_shorter: "CBS_get_any_asn1_element cbs = (Some x, cbs') \<Longrightarrow> length cbs' < length cbs"
proof -
  assume e: "CBS_get_any_asn1_element cbs = (Some x, cbs')"
  obtain out tag hl where x: "x = (out, tag, hl)" by (cases x)
  with e show ?thesis by (auto simp: any_element_iff der_def der_header_def der_length_def)
qed

function count_elements :: "byte list \<Rightarrow> nat option" where
  "count_elements cbs =
     (if cbs = [] then Some 0
      else case CBS_get_any_asn1_element cbs of (None, _) \<Rightarrow> None | (Some _, cbs') \<Rightarrow> map_option Suc (count_elements cbs'))"
  by pat_completeness auto
termination
  by (relation "measure length") (auto dest!: element_shorter [OF sym])

declare count_elements.simps [simp del]

fun read_children :: "nat \<Rightarrow> byte list \<Rightarrow> byte list list option" where
  "read_children 0 cbs = Some []"
| "read_children (Suc n) cbs = (case CBS_get_any_asn1_element cbs of
     (None, _) \<Rightarrow> None | (Some (out, _, _), cbs') \<Rightarrow> map_option ((#) out) (read_children n cbs'))"

text \<open>The buffer and the offset behind the elements written.\<close>

fun write_children :: "byte list \<Rightarrow> nat \<Rightarrow> byte list list \<Rightarrow> (byte list \<times> nat) option" where
  "write_children b pos [] = Some (b, pos)"
| "write_children b pos (x # xs) = do { b \<leftarrow> put b pos x; write_children b (pos + length x) xs }"

definition CBB_flush_asn1_set_of :: "allocator \<Rightarrow> nat \<Rightarrow> cbb \<Rightarrow> unit built" where
  "CBB_flush_asn1_set_of alloc d c = bind_cbb (CBB_flush alloc d c) (\<lambda>_ c. do {
     out \<leftarrow> CBB_data d c;
     buf_len \<leftarrow> CBB_len d c;
     let cbs = take (unat buf_len) (drop out (buf c));
     (case count_elements cbs of
        None \<Rightarrow> Some (None, c)
      | Some num_children \<Rightarrow>
          if num_children < 2 then Some (Some (), c)
          else let copy = alloc (requests c) (unat buf_len);
                   children = (if num_children > (2 ^ 64 - 1) div 16 then None else alloc (requests c + 1) (num_children * 16));
                   c = c\<lparr>requests := requests c + 2\<rparr> in
            if copy = None \<or> children = None then Some (None, c)
            else (case read_children num_children cbs of
                None \<Rightarrow> Some (None, c)
              | Some children \<Rightarrow> do {
                  (b, end_pos) \<leftarrow> write_children (buf c) out (qsort compare_set_of_element children);
                  if end_pos - out \<noteq> unat buf_len then None else Some (Some (), c\<lparr>buf := b\<rparr>) })) })"

section \<open>The order\<close>

definition der_order :: "byte list \<Rightarrow> byte list \<Rightarrow> bool" where
  "der_order a b \<longleftrightarrow> a = b \<or> (a, b) \<in> lexord {(x, y). x < y}"

lemma memcmp_same: "memcmp a a = 0"
  by (induction a) simp_all

lemma compare_Cons: "compare_set_of_element (a # as) (b # bs) =
    (if a = b then compare_set_of_element as bs else if a < b then - 1 else 1)"
  by (simp add: compare_set_of_element_def Let_def)

lemma compare_Nil: "compare_set_of_element [] b = (if b = [] then 0 else - 1)" "compare_set_of_element (a # as) [] = 1"
  by (simp_all add: compare_set_of_element_def)

lemma compare_order: "compare_set_of_element a b \<le> 0 \<longleftrightarrow> der_order a b"
proof (induction a arbitrary: b)
  case Nil
  show ?case by (cases b) (simp_all add: compare_Nil der_order_def)
next
  case (Cons x a)
  show ?case
  proof (cases b)
    case (Cons y bs)
    then show ?thesis using Cons.IH by (auto simp: compare_Cons der_order_def)
  qed (simp add: compare_Nil der_order_def)
qed

lemma der_order_linear: "der_order a b \<or> der_order b a"
proof -
  have "\<forall>x y. (x, y) \<in> {(x, y). x < y} \<or> x = y \<or> (y, x) \<in> {(x, y). x < (y :: byte)}" by auto
  then show ?thesis using lexord_linear [of "{(x, y). x < y}" a b] by (auto simp: der_order_def)
qed

lemma der_order_trans: "der_order a b \<Longrightarrow> der_order b c \<Longrightarrow> der_order a c"
proof -
  have "trans {(x, y). x < (y :: byte)}" by (auto simp: trans_def)
  then show "der_order a b \<Longrightarrow> der_order b c \<Longrightarrow> der_order a c"
    using lexord_trans [of a b "{(x, y). x < y}" c] by (auto simp: der_order_def)
qed

lemma qsort_mset: "mset (qsort cmp xs) = mset xs"
proof -
  have "mset (qsort_insert cmp x ys) = add_mset x (mset ys)" for x ys by (induction ys) auto
  then show ?thesis by (induction xs) (simp_all add: qsort_def)
qed

lemma qsort_sorted: "sorted_wrt der_order (qsort compare_set_of_element xs)"
proof -
  have s: "set (qsort_insert cmp x ys) = insert x (set ys)" for cmp and x :: "byte list" and ys by (induction ys) auto
  have i: "sorted_wrt der_order ys \<Longrightarrow> sorted_wrt der_order (qsort_insert compare_set_of_element x ys)" for x ys
  proof (induction ys)
    case (Cons y ys)
    show ?case
    proof (cases "der_order x y")
      case True
      with Cons.prems show ?thesis by (auto simp: compare_order intro: der_order_trans)
    next
      case False
      then have "der_order y x" using der_order_linear by blast
      with False Cons show ?thesis by (auto simp: compare_order s)
    qed
  qed simp
  show ?thesis by (induction xs) (simp_all add: qsort_def i)
qed

section \<open>The elements\<close>

lemma count_children:
  assumes "\<forall>(t, x)\<in>set es. valid_tag t \<and> length x < 2 ^ 32"
  shows "count_elements (concat (map (\<lambda>(t, x). der t x) es)) = Some (length es)
    \<and> read_children (length es) (concat (map (\<lambda>(t, x). der t x) es)) = Some (map (\<lambda>(t, x). der t x) es)"
  using assms
proof (induction es)
  case (Cons e es)
  obtain t x where e: "e = (t, x)" by (cases e)
  let ?rest = "concat (map (\<lambda>(t, x). der t x) es)"
  have el: "CBS_get_any_asn1_element (der t x @ ?rest) = (Some (der t x, t, length (der_header t (length x))), ?rest)"
    using Cons.prems by (auto simp: any_element_iff e)
  have ne: "der t x \<noteq> []" by (simp add: der_def der_header_def der_length_def)
  have "count_elements (der t x @ ?rest) = Some (Suc (length es))" using Cons el ne by (subst count_elements.simps) simp
  then show ?case using Cons el by (simp add: e)
qed (simp_all add: count_elements.simps)

lemma write_children_put: "write_children b pos xs = map_option (\<lambda>b. (b, pos + length (concat xs))) (put b pos (concat xs))" if "pos + length (concat xs) \<le> length b"
  using that
proof (induction xs arbitrary: b pos)
  case (Cons x xs)
  obtain b1 where b1: "put b pos x = Some b1" using Cons.prems put_fits [of pos x b] by auto
  have "write_children b1 (pos + length x) xs = map_option (\<lambda>b. (b, pos + length x + length (concat xs))) (put b1 (pos + length x) (concat xs))"
    using Cons.prems put_length [OF b1] by (intro Cons.IH) simp
  then show ?case by (simp add: b1 put_append add.assoc)
qed simp

lemma length_concat_mset: "mset xs = mset ys \<Longrightarrow> length (concat xs) = length (concat ys)"
  by (metis length_concat mset_map sum_mset_sum_list)

section \<open>The operation\<close>

lemma data_and_length:
  assumes h: "holds lim c ((k, bs) # s)" and d: "d = length s"
  shows "CBB_data d c = Some (length (contents s) + width k)" "CBB_len d c = Some (of_nat (length bs))"
proof -
  have kids: "length (kids c) = d" using holds_depth [OF h] d by simp
  have "CBB_data d c = Some (length (contents s) + width k) \<and> CBB_len d c = Some (of_nat (length bs))"
  proof (cases "s = []")
    case True
    have r: "k = Root" using h by (simp add: True holds_def layout_def)
    then have "unat (len c) = length bs" using holds_len [OF h] by (simp add: True)
    then have "len c = of_nat (length bs)" by (metis of_nat_unat ucast_id)
    with True d kids r show ?thesis by (simp add: CBB_data_def CBB_len_def)
  next
    case False
    note cf = child_facts [OF h False]
    let ?ch = "\<lparr>offset = of_nat (length (contents s)), pending_len_len = of_nat (width k), pending_is_asn1 = (k = Element)\<rparr>"
    have "d - 1 = length (kids_of s)" using d by simp
    then have ch: "kids c ! (d - 1) = ?ch" unfolding cf(1) by (simp only: nth_append_length)
    have le: "\<not> of_nat (length (contents s) + width k) > len c" unfolding word_less_nat_alt cf(6, 7) by simp
    have "len c - of_nat (length (contents s)) - ucast (of_nat (width k) :: byte) = of_nat (length bs)"
      using cf(9) unfolding cf(5) [symmetric] by (simp only: diff_diff_add)
    moreover have "d \<noteq> 0" using False d by simp
    ultimately show ?thesis unfolding CBB_data_def CBB_len_def Let_def ch cbb_child.select_convs cf(5, 6) using le kids
      by (simp only: simp_thms if_True if_False)
  qed
  then show "CBB_data d c = Some (length (contents s) + width k)" "CBB_len d c = Some (of_nat (length bs))" by blast+
qed

lemma holds_content:
  assumes "holds lim c ((k, bs) # s)"
  shows "take (length bs) (drop (length (contents s) + width k) (buf c)) = bs"
    "length (contents s) + width k + length bs \<le> length (buf c)"
proof -
  have l: "take (unat (len c)) (buf c) = contents s @ replicate (width k) 0 @ bs" "unat (len c) \<le> length (buf c)"
    "unat (len c) = length (contents s) + width k + length bs"
    using assms layout_length [of lim c "(k, bs) # s"] by (simp_all add: holds_def layout_def)
  show "length (contents s) + width k + length bs \<le> length (buf c)" using l by simp
  show "take (length bs) (drop (length (contents s) + width k) (buf c)) = bs"
    using arg_cong [OF l(1), of "drop (length (contents s) + width k)"] l(3) by (simp add: drop_take)
qed

lemma holds_rewritten:
  assumes "holds lim c ((k, bs) # s)" "put (buf c) (length (contents s) + width k) bs' = Some b" "length bs' = length bs"
  shows "holds lim (c\<lparr>buf := b\<rparr>) ((k, bs') # s)"
proof -
  have "take (unat (len c)) (buf c) = (contents s @ replicate (width k) 0) @ bs @ []" using assms(1) by (simp add: holds_def layout_def)
  then have "take (unat (len c)) b = (contents s @ replicate (width k) 0) @ bs' @ []"
    by (rule put_replace [rotated]) (use assms(2, 3) in simp_all)
  moreover have "well_formed ((k, bs') # s)" "kids_of ((k, bs') # s) = kids_of ((k, bs) # s)"
    using holds_well_formed [OF assms(1)] by (cases s; simp)+
  ultimately show ?thesis using assms(1) put_length [OF assms(2)] by (simp add: holds_def layout_def buffer_ok_def)
qed

lemma set_of_outcome:
  assumes a: "sized alloc" and h: "holds lim c ((k, concat (map (\<lambda>(t, x). der t x) es)) # s)" and d: "d = length s"
    and es: "\<forall>(t, x)\<in>set es. valid_tag t \<and> length x < 2 ^ 32"
  shows "outcome (plenty alloc \<and> length es \<le> (2 ^ 64 - 1) div 16) lim d (CBB_flush_asn1_set_of alloc d c)
    (\<lambda>_ c. \<exists>xs. mset xs = mset (map (\<lambda>(t, x). der t x) es) \<and> sorted_wrt der_order xs \<and> holds lim c ((k, concat xs) # s))"
proof -
  define ds where "ds = map (\<lambda>(t, x). der t x) es"
  have kids: "length (kids c) = d" "\<not> error c" using holds_depth [OF h] d h by (simp_all add: holds_def)
  then have f: "CBB_flush alloc d c = Some (Some (), c)" by (subst CBB_flush.simps) simp
  note h' = h [folded ds_def]
  note dl = data_and_length [OF h' d] and hc = holds_content [OF h']
  have u: "unat (of_nat (length (concat ds)) :: size_t) = length (concat ds)"
    using holds_len [OF h'] unat_less_64 [of "len c"] by (intro unat_of_nat_64) simp
  have count: "count_elements (concat ds) = Some (length es)" "read_children (length es) (concat ds) = Some ds"
    using count_children [OF es] by (simp_all add: ds_def)
  let ?qs = "qsort compare_set_of_element ds"
  have lq: "length (concat ?qs) = length (concat ds)" by (rule length_concat_mset) (rule qsort_mset)
  show ?thesis
  proof (cases "length es < 2")
    case True
    then have "sorted_wrt der_order ds" by (cases es; cases "tl es") (auto simp: ds_def)
    moreover have "CBB_flush_asn1_set_of alloc d c = Some (Some (), c)"
      using True by (simp add: CBB_flush_asn1_set_of_def f dl u hc Let_def count)
    ultimately show ?thesis using h' by (auto simp: ds_def [symmetric])
  next
    case False
    let ?c = "c\<lparr>requests := requests c + 2\<rparr>"
    have h2: "holds lim ?c ((k, concat ds) # s)" using h' by (simp add: holds_def)
    have "write_children (buf c) (length (contents s) + width k) ?qs =
        map_option (\<lambda>b. (b, length (contents s) + width k + length (concat ds))) (put (buf c) (length (contents s) + width k) (concat ?qs))"
      using hc(2) lq by (subst write_children_put) simp_all
    moreover obtain b where b: "put (buf c) (length (contents s) + width k) (concat ?qs) = Some b"
      using hc(2) lq put_fits [of "length (contents s) + width k" "concat ?qs" "buf c"] by auto
    ultimately have "CBB_flush_asn1_set_of alloc d c =
        Some (if alloc (requests c) (length (concat ds)) = None \<or> length es > (2 ^ 64 - 1) div 16 \<or> alloc (requests c + 1) (length es * 16) = None
          then (None, ?c) else (Some (), ?c\<lparr>buf := b\<rparr>))"
      using False by (simp add: CBB_flush_asn1_set_of_def f dl u hc Let_def count)
    moreover have "holds lim (?c\<lparr>buf := b\<rparr>) ((k, concat ?qs) # s)" by (rule holds_rewritten [OF h2]) (use b lq in simp_all)
    ultimately show ?thesis using holds_ok [OF h2] kids qsort_mset [of compare_set_of_element ds] qsort_sorted [of ds]
      by (auto simp: ds_def [symmetric] plenty_def)
  qed
qed

lemma count_elements_Some:
  "count_elements bs = Some n \<Longrightarrow> \<exists>es. length es = n \<and> bs = concat (map (\<lambda>(t, x). der t x) es) \<and> (\<forall>(t, x)\<in>set es. valid_tag t \<and> length x < 2 ^ 32)"
proof (induction bs arbitrary: n rule: count_elements.induct)
  case (1 cbs)
  show ?case
  proof (cases "cbs = []")
    case True
    with 1(2) show ?thesis by (simp add: count_elements.simps)
  next
    case False
    then obtain out t hl cbs' m where e: "CBS_get_any_asn1_element cbs = (Some (out, t, hl), cbs')" "count_elements cbs' = Some m" "n = Suc m"
      using 1(2) by (subst (asm) count_elements.simps) (auto split: prod.splits option.splits)
    obtain es where "length es = m" "cbs' = concat (map (\<lambda>(t, x). der t x) es)" "\<forall>(t, x)\<in>set es. valid_tag t \<and> length x < 2 ^ 32"
      using 1(1) [OF False e(1) [symmetric] refl e(2)] by blast
    moreover obtain x where "valid_tag t" "length x < 2 ^ 32" "cbs = der t x @ cbs'" using e(1) by (auto simp: any_element_iff)
    ultimately show ?thesis using e(3) by (intro exI [of _ "(t, x) # es"]) auto
  qed
qed

lemma set_of_ok:
  assumes "sized alloc" "holds lim c s" "d < length s"
  shows "outcome False lim d (CBB_flush_asn1_set_of alloc d c) (\<lambda>_ c. cbb_ok lim c \<and> d \<le> length (kids c))"
proof -
  define rest where "rest = (\<lambda>(_ :: unit) c. do {
     out \<leftarrow> CBB_data d c;
     buf_len \<leftarrow> CBB_len d c;
     let cbs = take (unat buf_len) (drop out (buf c));
     (case count_elements cbs of
        None \<Rightarrow> Some (None, c)
      | Some num_children \<Rightarrow>
          if num_children < 2 then Some (Some (), c)
          else let copy = alloc (requests c) (unat buf_len);
                   children = (if num_children > (2 ^ 64 - 1) div 16 then None else alloc (requests c + 1) (num_children * 16));
                   c = c\<lparr>requests := requests c + 2\<rparr> in
            if copy = None \<or> children = None then Some (None, c)
            else (case read_children num_children cbs of
                None \<Rightarrow> Some (None, c)
              | Some children \<Rightarrow> do {
                  (b, end_pos) \<leftarrow> write_children (buf c) out (qsort compare_set_of_element children);
                  if end_pos - out \<noteq> unat buf_len then None else Some (Some (), c\<lparr>buf := b\<rparr>) })) })"
  have def: "CBB_flush_asn1_set_of alloc d c = bind_cbb (CBB_flush alloc d c) rest" for c
    by (simp add: CBB_flush_asn1_set_of_def rest_def)
  show ?thesis unfolding def
  proof (rule outcome_bind, rule outcome_mono [OF flush_outcome [OF assms]]; (elim exE conjE)?)
    fix c t
    assume t: "close_to d s = Some t" "holds lim c t"
    have "length t = d + 1" using close_to_length [OF t(1) assms(3)] .
    then obtain k bs u where u: "t = (k, bs) # u" "d = length u" by (cases t; cases "hd t") auto
    note h = t(2) [unfolded u(1)]
    have kids: "length (kids c) = d" "\<not> error c" using holds_depth [OF h] u(2) h by (simp_all add: holds_def)
    then have f: "CBB_flush alloc d c = Some (Some (), c)" by (subst CBB_flush.simps) simp
    have r: "rest x c = CBB_flush_asn1_set_of alloc d c" for x unfolding def f by simp
    have le: "unat (of_nat (length bs) :: size_t) = length bs"
      using holds_len [OF h] unat_less_64 [of "len c"] by (intro unat_of_nat_64) simp
    show "outcome False lim d (rest x c) (\<lambda>_ c. cbb_ok lim c \<and> d \<le> length (kids c))" for x
    proof (cases "count_elements bs")
      case None
      have "rest x c = Some (None, c)"
        using None data_and_length [OF h u(2)] holds_content [OF h] le by (simp add: rest_def Let_def)
      with holds_ok [OF h] kids show ?thesis by simp
    next
      case (Some n)
      then obtain es where es: "bs = concat (map (\<lambda>(t, x). der t x) es)" "\<forall>(t, x)\<in>set es. valid_tag t \<and> length x < 2 ^ 32"
        using count_elements_Some by blast
      show ?thesis unfolding r
      proof (rule outcome_mono [OF set_of_outcome [OF assms(1) h [unfolded es(1)] u(2) es(2)]]; (elim exE conjE)?)
        fix c' xs
        assume "holds lim c' ((k, concat xs) # u)"
        then show "cbb_ok lim c' \<and> d \<le> length (kids c')" using holds_ok holds_depth [of lim c'] u(2) by fastforce
      qed auto
    qed
  qed auto
qed

text \<open>C13: CBB_flush_asn1_set_of on a builder whose innermost byte string is a sequence of DER elements replaces it by the same elements, as a multiset, in ascending order of their encodings; with an allocator that does not fail it succeeds.\<close>

theorem set_of_sorted:
  assumes "sized alloc" "plenty alloc" "holds lim c ((k, concat (map (\<lambda>(t, x). der t x) es)) # s)"
    and "\<forall>(t, x)\<in>set es. valid_tag t \<and> length x < 2 ^ 32" "length es \<le> (2 ^ 64 - 1) div 16"
  shows "\<exists>c' xs. CBB_flush_asn1_set_of alloc (length s) c = Some (Some (), c') \<and> holds lim c' ((k, concat xs) # s)
    \<and> mset xs = mset (map (\<lambda>(t, x). der t x) es) \<and> sorted_wrt der_order xs"
  using set_of_outcome [OF assms(1, 3) refl assms(4)] assms(2, 5)
  by (cases "CBB_flush_asn1_set_of alloc (length s) c" rule: built_cases) auto

definition sample_set :: cbb where
  "sample_set = \<lparr>buf = [0x31, 0, 4, 1, 7, 2, 1, 5], len = 8, cap = 8, can_resize = False, error = False,
     kids = [\<lparr>offset = 1, pending_len_len = 1, pending_is_asn1 = True\<rparr>], requests = 0\<rparr>"

theorem set_of_sorted_witness:
  "\<exists>c' xs. CBB_flush_asn1_set_of zeroed (length [(Root, [0x31 :: byte])]) sample_set = Some (Some (), c')
    \<and> holds (Some 8) c' ((Element, concat xs) # [(Root, [0x31])])
    \<and> mset xs = mset (map (\<lambda>(t, x). der t x) [(4, [7]), (2, [5])]) \<and> sorted_wrt der_order xs"
  by (rule set_of_sorted)
    (simp_all add: sample_set_def holds_def layout_def limit_def buffer_ok_def valid_tag_def tag_constants der_def der_header_def
      der_tag_def der_length_def)

end
