(* ===== verification/CbbBuild.thy ===== *)
theory CbbBuild
  imports SetOf
begin

text \<open>
  Whole uses of the builder: from \<open>CBB_init\<close> to \<open>CBB_finish\<close>, and any sequence of operations on it.
\<close>

declare bit_numeral_word_iff [simp del]

section \<open>Initialisation and the finished bytes\<close>

lemma init_holds: "sized alloc \<Longrightarrow> CBB_init alloc n = Some (Some (), c) \<Longrightarrow> holds None c [(Root, [])]"
  by (auto simp: CBB_init_def Let_def CBB_zero_def cbb_init_def holds_def layout_def buffer_ok_def limit_def sized_def
    word_gt_0 split: option.splits if_splits)

lemma init_plenty: "plenty alloc \<Longrightarrow> \<exists>c. CBB_init alloc n = Some (Some (), c)"
proof -
  assume "plenty alloc"
  then obtain b where "alloc 0 (unat n) = Some b" unfolding plenty_def by blast
  then show ?thesis by (simp add: CBB_init_def Let_def CBB_zero_def)
qed

lemma init_fixed_holds: "length b < 2 ^ 64 \<Longrightarrow> holds (Some (of_nat (length b))) (CBB_init_fixed b) [(Root, [])]"
  by (simp add: CBB_init_fixed_def CBB_zero_def cbb_init_def holds_def layout_def buffer_ok_def limit_def unat_of_nat_64)

lemma close_to_0: "close_to 0 s = Some t \<Longrightarrow> well_formed s \<Longrightarrow> \<exists>bs. t = [(Root, bs)]"
proof -
  assume c: "close_to 0 s = Some t" and w: "well_formed s"
  have s: "0 < length s" using w by (cases s) auto
  have "length t = 1" "well_formed t" using close_to_length [OF c s] close_to_well_formed [OF c w s] by simp_all
  then show ?thesis by (cases t rule: well_formed.cases) auto
qed

lemma finish_outcome:
  assumes "sized alloc" "holds lim c s"
  shows "outcome (closes alloc lim 0 s 0) lim 0 (CBB_finish alloc 0 c) (\<lambda>bytes _. close_to 0 s = Some [(Root, bytes)])"
proof -
  have w: "well_formed s" "0 < length s" using holds_well_formed [OF assms(2)] by (cases s; auto)+
  show ?thesis unfolding CBB_finish_def Let_def
  proof (simp, rule outcome_bind, rule flush_outcome [OF assms w(2)]; elim exE conjE)
    fix c t
    assume t: "close_to 0 s = Some t" "holds lim c t"
    obtain bs where bs: "t = [(Root, bs)]" using close_to_0 [OF t(1) w(1)] ..
    have "take (unat (len c)) (buf c) = bs" using t(2) by (simp add: holds_def layout_def bs)
    then show "outcome (closes alloc lim 0 s 0) lim 0
        (case CBB_cleanup 0 (c\<lparr>buf := []\<rparr>) of None \<Rightarrow> None | Some ca \<Rightarrow> Some (Some (take (unat (len c)) (buf c)), ca))
        (\<lambda>bytes _. close_to 0 s = Some [(Root, bytes)])"
      using t(1) by (simp add: CBB_cleanup_def bs)
  qed
qed

text \<open>A program that leaves a fresh builder with what closes to \<open>bs\<close>.\<close>

definition composes :: "allocator \<Rightarrow> (cbb \<Rightarrow> 'a built) \<Rightarrow> byte list \<Rightarrow> bool" where
  "composes alloc f bs \<longleftrightarrow> (\<forall>c. holds None c [(Root, [])] \<longrightarrow>
     outcome (room alloc None (length bs)) None 0 (f c) (\<lambda>_ c. \<exists>s. holds None c s \<and> close_to 0 s = Some [(Root, bs)]))"

lemma composes_append:
  assumes "\<And>c. holds None c [(Root, [])] \<Longrightarrow> appends alloc None 0 [(Root, [])] (f c) y bs"
  shows "composes alloc f bs"
  unfolding composes_def
proof (intro allI impI)
  fix c
  assume "holds None c [(Root, [])]"
  from assms [OF this, unfolded appends_def]
  show "outcome (room alloc None (length bs)) None 0 (f c) (\<lambda>_ c. \<exists>s. holds None c s \<and> close_to 0 s = Some [(Root, bs)])"
    by (rule outcome_mono) (auto simp: closes_closed close_to_self intro!: exI [of _ "[(Root, bs)]"])
qed

lemma built:
  assumes "sized alloc" "plenty alloc" "length bs < 2 ^ 64" "composes alloc f bs"
  shows "\<exists>c. bind_cbb (CBB_init alloc n) (\<lambda>_ c. bind_cbb (f c) (\<lambda>_ c. CBB_finish alloc 0 c)) = Some (Some bs, c)"
proof -
  obtain c where c: "CBB_init alloc n = Some (Some (), c)" using init_plenty [OF assms(2)] ..
  have h: "holds None c [(Root, [])]" by (rule init_holds [OF assms(1) c])
  have must: "room alloc None (length bs)" using assms(2, 3) by (simp add: room_def)
  have "outcome (room alloc None (length bs)) None 0 (bind_cbb (f c) (\<lambda>_ c. CBB_finish alloc 0 c)) (\<lambda>bytes _. bytes = bs)"
  proof (rule outcome_bind, rule assms(4) [unfolded composes_def, rule_format, OF h]; elim exE conjE)
    fix c s
    assume s: "holds None c s" "close_to 0 s = Some [(Root, bs)]"
    from finish_outcome [OF assms(1) s(1)]
    show "outcome (room alloc None (length bs)) None 0 (CBB_finish alloc 0 c) (\<lambda>bytes _. bytes = bs)"
      by (rule outcome_mono) (auto simp: closes_def s(2))
  qed
  then show ?thesis using must by (cases "bind_cbb (f c) (\<lambda>_ c. CBB_finish alloc 0 c)" rule: built_cases) (simp_all add: c)
qed

lemma der_length_bound: "length (der tag content) \<le> length content + 17"
  using der_tag_length [of tag] by (simp add: der_def der_header_def der_length_def octets_def)

section \<open>Writing and reading\<close>

text \<open>an unsigned integer written by CBB_add_asn1_uint64 into a fresh builder is the value CBS_get_asn1_uint64 reads back from the finished bytes, with nothing left over; with an allocator that does not fail the writer always succeeds.\<close>

theorem asn1_uint64_roundtrip:
  assumes "sized alloc" "plenty alloc"
  shows "\<exists>bytes c. bind_cbb (CBB_init alloc n) (\<lambda>_ c. bind_cbb (CBB_add_asn1_uint64 alloc v 0 c) (\<lambda>_ c. CBB_finish alloc 0 c)) = Some (Some bytes, c)
    \<and> CBS_get_asn1_uint64 bytes = (Some v, [])"
proof -
  let ?bs = "der CBS_ASN1_INTEGER (uint_content v)"
  have "length (uint_content v) \<le> 9" using uint_octets_bounds(2) [of v] by (simp add: uint_content_def)
  then have "length ?bs < 2 ^ 64" using der_length_bound [of CBS_ASN1_INTEGER "uint_content v"] by simp
  then obtain c where "bind_cbb (CBB_init alloc n) (\<lambda>_ c. bind_cbb (CBB_add_asn1_uint64 alloc v 0 c) (\<lambda>_ c. CBB_finish alloc 0 c)) = Some (Some ?bs, c)"
    using built [OF assms _ composes_append, of ?bs "CBB_add_asn1_uint64 alloc v 0" "()" n] add_uint64_appends [OF assms(1)]
    by (auto simp: CBB_add_asn1_uint64_def)
  then show ?thesis by (intro exI [of _ ?bs] exI [of _ c]) (simp add: get_uint64_iff)
qed

text \<open>C25: the same for CBB_add_asn1_int64 and CBS_get_asn1_int64.\<close>

theorem asn1_int64_roundtrip:
  assumes "sized alloc" "plenty alloc"
  shows "\<exists>bytes c. bind_cbb (CBB_init alloc n) (\<lambda>_ c. bind_cbb (CBB_add_asn1_int64 alloc v 0 c) (\<lambda>_ c. CBB_finish alloc 0 c)) = Some (Some bytes, c)
    \<and> CBS_get_asn1_int64 bytes = (Some v, [])"
proof -
  let ?bs = "der CBS_ASN1_INTEGER (int_content v)"
  have "length (int_content v) \<le> 8" using int_octets_bounds(2) [of v] by (simp add: int_content_def)
  then have "length ?bs < 2 ^ 64" using der_length_bound [of CBS_ASN1_INTEGER "int_content v"] by simp
  then obtain c where "bind_cbb (CBB_init alloc n) (\<lambda>_ c. bind_cbb (CBB_add_asn1_int64 alloc v 0 c) (\<lambda>_ c. CBB_finish alloc 0 c)) = Some (Some ?bs, c)"
    using built [OF assms _ composes_append, of ?bs "CBB_add_asn1_int64 alloc v 0" "()" n] add_int64_appends [OF assms(1)]
    by (auto simp: CBB_add_asn1_int64_def)
  then show ?thesis by (intro exI [of _ ?bs] exI [of _ c]) (simp add: get_int64_iff)
qed

text \<open>C24: an element of any tag and any content of at most 0xfffffffe bytes, written as a child that CBB_finish closes, is read back by CBS_get_any_asn1: CBB_flush rewrites the length byte it reserved into the minimal length and moves the content along.\<close>

theorem asn1_element_roundtrip:
  assumes "sized alloc" "plenty alloc" "valid_tag tag" "length content \<le> 0xfffffffe"
  shows "\<exists>bytes c. bind_cbb (CBB_init alloc n) (\<lambda>_ c. bind_cbb (bind_cbb (CBB_add_asn1 alloc tag 0 c) (\<lambda>_ c. CBB_add_bytes alloc content 1 c))
      (\<lambda>_ c. CBB_finish alloc 0 c)) = Some (Some bytes, c) \<and> CBS_get_any_asn1 bytes = (Some (content, tag), [])"
proof -
  let ?bs = "der tag content"
  let ?f = "\<lambda>c. bind_cbb (CBB_add_asn1 alloc tag 0 c) (\<lambda>_ c. CBB_add_bytes alloc content 1 c)"
  have "composes alloc ?f ?bs" unfolding composes_def
  proof (intro allI impI)
    fix c
    assume h: "holds None c [(Root, [])]"
    have "fills alloc None 0 [(Root, [])] (?f c) (der_tag tag) content"
      by (intro opens_fills add_asn1_opens assms h) (use assms(4) in \<open>auto intro!: add_bytes_appends assms(1)\<close>)
    then show "outcome (room alloc None (length ?bs)) None 0 (?f c) (\<lambda>_ c. \<exists>s. holds None c s \<and> close_to 0 s = Some [(Root, ?bs)])"
      unfolding fills_def element_length [OF refl]
    proof (rule outcome_mono; (elim exE conjE)?)
      fix c t
      assume t: "close_to 0 [(Root, [])] = Some t" "holds None c ((Element, content) # push_bytes (der_tag tag) t)"
      then have "holds None c [(Element, content), (Root, der_tag tag)]" by (auto simp: close_to_self)
      moreover have "close_to 0 [(Element, content), (Root, der_tag tag)] = Some [(Root, ?bs)]"
        using assms(4) by (simp add: close_to_def der_def der_header_def)
      ultimately show "\<exists>s. holds None c s \<and> close_to 0 s = Some [(Root, ?bs)]" by blast
    qed (simp_all add: closes_closed)
  qed
  moreover have "length ?bs < 2 ^ 64" using der_length_bound [of tag content] assms(4) by simp
  ultimately obtain c where "bind_cbb (CBB_init alloc n) (\<lambda>_ c. bind_cbb (?f c) (\<lambda>_ c. CBB_finish alloc 0 c)) = Some (Some ?bs, c)"
    using built [OF assms(1, 2), of ?bs ?f n] by auto
  then show ?thesis using assms(3, 4) by (intro exI [of _ ?bs] exI [of _ c]) (simp add: get_any_iff)
qed

section \<open>Any sequence of operations\<close>

datatype operation = Flush | Add_space size_t | Reserve size_t | Did_write size_t | Add_bytes "byte list" | Add_zeros size_t
  | Add_u8 byte | Add_u16 u16 | Add_u16le u16 | Add_u24 u32 | Add_u32 u32 | Add_u32le u32 | Add_u64 u64 | Add_u64le u64
  | Add_u8_prefixed | Add_u16_prefixed | Add_u24_prefixed | Add_asn1 CBS_ASN1_TAG | Discard_child
  | Add_uint64 u64 CBS_ASN1_TAG | Add_int64 u64 CBS_ASN1_TAG | Add_octet_string "byte list" | Add_bool bool | Add_oid "byte list" | Flush_set_of

definition returned :: "'a built \<Rightarrow> (bool \<times> cbb) option" where
  "returned r = map_option (\<lambda>(x, c). (x \<noteq> None, c)) r"

fun operate :: "allocator \<Rightarrow> operation \<Rightarrow> nat \<Rightarrow> cbb \<Rightarrow> (bool \<times> cbb) option" where
  "operate alloc Flush d c = returned (CBB_flush alloc d c)"
| "operate alloc (Add_space n) d c = returned (CBB_add_space alloc n d c)"
| "operate alloc (Reserve n) d c = returned (CBB_reserve alloc n d c)"
| "operate alloc (Did_write n) d c = returned (CBB_did_write n d c)"
| "operate alloc (Add_bytes bs) d c = returned (CBB_add_bytes alloc bs d c)"
| "operate alloc (Add_zeros n) d c = returned (CBB_add_zeros alloc n d c)"
| "operate alloc (Add_u8 v) d c = returned (CBB_add_u8 alloc v d c)"
| "operate alloc (Add_u16 v) d c = returned (CBB_add_u16 alloc v d c)"
| "operate alloc (Add_u16le v) d c = returned (CBB_add_u16le alloc v d c)"
| "operate alloc (Add_u24 v) d c = returned (CBB_add_u24 alloc v d c)"
| "operate alloc (Add_u32 v) d c = returned (CBB_add_u32 alloc v d c)"
| "operate alloc (Add_u32le v) d c = returned (CBB_add_u32le alloc v d c)"
| "operate alloc (Add_u64 v) d c = returned (CBB_add_u64 alloc v d c)"
| "operate alloc (Add_u64le v) d c = returned (CBB_add_u64le alloc v d c)"
| "operate alloc Add_u8_prefixed d c = returned (CBB_add_u8_length_prefixed alloc d c)"
| "operate alloc Add_u16_prefixed d c = returned (CBB_add_u16_length_prefixed alloc d c)"
| "operate alloc Add_u24_prefixed d c = returned (CBB_add_u24_length_prefixed alloc d c)"
| "operate alloc (Add_asn1 tag) d c = returned (CBB_add_asn1 alloc tag d c)"
| "operate alloc Discard_child d c = Some (True, CBB_discard_child d c)"
| "operate alloc (Add_uint64 v tag) d c = returned (CBB_add_asn1_uint64_with_tag alloc v tag d c)"
| "operate alloc (Add_int64 v tag) d c = returned (CBB_add_asn1_int64_with_tag alloc v tag d c)"
| "operate alloc (Add_octet_string bs) d c = returned (CBB_add_asn1_octet_string alloc bs d c)"
| "operate alloc (Add_bool b) d c = returned (CBB_add_asn1_bool alloc b d c)"
| "operate alloc (Add_oid text) d c = returned (CBB_add_asn1_oid_from_text alloc text d c)"
| "operate alloc Flush_set_of d c = returned (CBB_flush_asn1_set_of alloc d c)"

text \<open>The lengths C can pass: a \<open>size_t\<close>.\<close>

fun passable :: "operation \<Rightarrow> bool" where
  "passable (Add_bytes bs) \<longleftrightarrow> length bs < 2 ^ 64"
| "passable (Add_octet_string bs) \<longleftrightarrow> length bs < 2 ^ 64"
| "passable _ \<longleftrightarrow> True"

definition safe :: "size_t option \<Rightarrow> nat \<Rightarrow> 'a built \<Rightarrow> bool" where
  "safe lim d r \<longleftrightarrow> outcome False lim d r (\<lambda>_ c. cbb_ok lim c \<and> d \<le> length (kids c))"

lemma safe_returned: "safe lim d r \<Longrightarrow> \<exists>ok c. returned r = Some (ok, c) \<and> cbb_ok lim c \<and> d \<le> length (kids c)"
  by (cases r rule: built_cases) (auto simp: safe_def returned_def)

lemma appends_safe: "appends alloc lim d s r y bs \<Longrightarrow> d < length s \<Longrightarrow> safe lim d r"
  unfolding safe_def by (rule appends_ok)

lemma opens_safe: "opens alloc lim d s r k bs \<Longrightarrow> d < length s \<Longrightarrow> safe lim d r"
  unfolding safe_def opens_def
proof (erule outcome_mono; (elim exE conjE)?)
  fix c t
  assume "d < length s" "close_to d s = Some t" "holds lim c ((k, []) # push_bytes bs t)"
  then show "cbb_ok lim c \<and> d \<le> length (kids c)" using close_to_length [of d s t] holds_depth [of lim c] holds_ok by fastforce
qed auto

lemma error_flush: "error c \<Longrightarrow> CBB_flush alloc d c = Some (None, c)"
  by (subst CBB_flush.simps) simp

lemma error_safe:
  assumes "cbb_ok lim c" "d \<le> length (kids c)"
  shows "safe lim d (Some (None, c))" "safe lim d (or_error d (Some (None, c)))"
proof -
  show s: "safe lim d (Some (None, c))" using assms by (simp add: safe_def)
  then have "outcome False lim d (Some (None :: 'b option, c)) (\<lambda>_ c. cbb_ok lim c \<and> d \<le> length (kids c))" using assms by (simp add: safe_def)
  then show "safe lim d (or_error d (Some (None :: 'b option, c)))" unfolding safe_def
    by (intro outcome_or_error attempt_outcome) auto
qed

lemma reserved_ok: "reserved lim c t n \<Longrightarrow> t \<noteq> [] \<Longrightarrow> holds lim c (push_bytes (drop (length (contents t)) (take (unat (len c)) (buf c))) t)"
proof -
  assume r: "reserved lim c t n" and t: "t \<noteq> []"
  have "take (length (contents t)) (take (unat (len c)) (buf c)) = contents t" using r by (simp add: reserved_def min_def)
  then have "take (unat (len c)) (buf c) = contents t @ drop (length (contents t)) (take (unat (len c)) (buf c))"
    using append_take_drop_id [of "length (contents t)" "take (unat (len c)) (buf c)"] by simp
  then show ?thesis using r t by (simp add: reserved_def holds_def layout_def contents_push)
qed

lemma add_space_safe:
  assumes "sized alloc" "holds lim c s" "d < length s"
  shows "safe lim d (CBB_add_space alloc n d c)"
  unfolding safe_def
proof (rule outcome_mono [OF add_space_outcome [OF assms]]; (elim exE conjE)?)
  fix out c t
  assume t: "close_to d s = Some t" "reserved lim c t (unat n)"
  have "length t = d + 1" using close_to_length [OF t(1) assms(3)] .
  then have "holds lim c (push_bytes (drop (length (contents t)) (take (unat (len c)) (buf c))) t)" using t(2) by (intro reserved_ok) auto
  then show "cbb_ok lim c \<and> d \<le> length (kids c)" using \<open>length t = d + 1\<close> holds_ok holds_depth by fastforce
qed auto

lemma safe_bind: "safe lim d r \<Longrightarrow> (\<And>x c. r = Some (Some x, c) \<Longrightarrow> safe lim d (f x c)) \<Longrightarrow> safe lim d (bind_cbb r f)"
  by (cases r rule: built_cases) (auto simp: safe_def)

lemma flush_safe: "sized alloc \<Longrightarrow> holds lim c s \<Longrightarrow> d < length s \<Longrightarrow> safe lim d (CBB_flush alloc d c)"
  unfolding safe_def
proof (erule outcome_mono [OF flush_outcome]; (elim exE conjE)?)
  fix c' t
  assume "d < length s" "close_to d s = Some t" "holds lim c' t"
  then show "cbb_ok lim c' \<and> d \<le> length (kids c')" using close_to_length [of d s t] holds_depth [of lim c'] holds_ok by fastforce
qed auto

lemma safe_or_error: "safe lim d r \<Longrightarrow> safe lim d (or_error d r)"
  unfolding safe_def by (rule outcome_or_error, rule attempt_outcome) auto

lemma reserve_safe:
  assumes "sized alloc" "holds lim c s" "d < length s"
  shows "safe lim d (CBB_reserve alloc n d c)"
  unfolding safe_def CBB_reserve_def
proof (rule outcome_bind, rule outcome_mono [OF flush_outcome [OF assms]]; (elim exE conjE)?)
  fix c t
  assume t: "close_to d s = Some t" "holds lim c t"
  have "d \<le> length (kids c)" using close_to_length [OF t(1) assms(3)] holds_depth [OF t(2)] by simp
  then have l: "layout lim c t" "\<not> error c" "buffer_ok c" "d \<le> length (kids c)" using t(2) by (simp_all add: holds_def layout_def)
  show "outcome False lim d (Some (cbb_buffer_reserve alloc n c)) (\<lambda>_ c. cbb_ok lim c \<and> d \<le> length (kids c))"
  proof (rule reserve_cases [OF assms(1) l(3), of n])
    fix r
    assume r: "cbb_buffer_reserve alloc n c = (None, c\<lparr>error := True, requests := r\<rparr>)"
    have "cbb_ok lim (c\<lparr>error := True, requests := r\<rparr>)" using l(1) by (auto simp: cbb_ok_def layout_def buffer_ok_def)
    with r l(4) show ?thesis by simp
  next
    fix fresh cp r
    assume f: "cbb_buffer_reserve alloc n c = (Some (unat (len c)), c\<lparr>buf := buf c @ fresh, cap := cp, requests := r\<rparr>)"
      "length (buf c @ fresh) = unat cp" "unat (len c) + unat n \<le> unat cp" "limit (c\<lparr>cap := cp\<rparr>) = limit c"
    have "layout lim (c\<lparr>buf := buf c @ fresh, cap := cp, requests := r\<rparr>) t"
    proof -
      have "limit (c\<lparr>buf := buf c @ fresh, cap := cp, requests := r\<rparr>) = limit (c\<lparr>cap := cp\<rparr>)" by (simp add: limit_def)
      moreover have "unat (len c) \<le> unat cp" using f(3) by linarith
      ultimately show ?thesis using f(2, 4) l(1) layout_length [OF l(1)] by (simp add: layout_def buffer_ok_def)
    qed
    then show ?thesis using f(1) l(4) by (auto simp: cbb_ok_def)
  qed
qed auto

lemma did_write_safe:
  assumes "layout lim c s" "d < length s"
  shows "safe lim d (CBB_did_write n d c)"
proof -
  have d: "d \<le> length (kids c)" "s \<noteq> []" "cbb_ok lim c" using layout_depth [OF assms(1)] assms by (auto simp: cbb_ok_def)
  show ?thesis
  proof (cases "d \<noteq> length (kids c) \<or> len c + n < len c \<or> len c + n > cap c")
    case True
    then have "CBB_did_write n d c = Some (None, c)" using d by (auto simp: CBB_did_write_def Let_def)
    with d show ?thesis by (simp add: safe_def)
  next
    case False
    then have w: "CBB_did_write n d c = Some (Some (), c\<lparr>len := len c + n\<rparr>)" by (simp add: CBB_did_write_def Let_def)
    have n: "unat (len c + n) = unat (len c) + unat n" "unat (len c + n) \<le> unat (cap c)"
      using False unat_add_64 [of "len c" n] by (auto simp: word_less_nat_alt)
    have "take (unat (len c + n)) (buf c) = contents s @ take (unat n) (drop (unat (len c)) (buf c))"
      using assms(1) by (simp add: n(1) take_add layout_def)
    then have "layout lim (c\<lparr>len := len c + n\<rparr>) (push_bytes (take (unat n) (drop (unat (len c)) (buf c))) s)"
      using assms(1) d(2) n(2) by (simp add: layout_def buffer_ok_def contents_push)
    then have "cbb_ok lim (c\<lparr>len := len c + n\<rparr>)" by (auto simp: cbb_ok_def)
    with w d show ?thesis by (simp add: safe_def)
  qed
qed

lemma discard_layout: "layout lim c s \<Longrightarrow> d < length (kids c) \<Longrightarrow> cbb_ok lim (CBB_discard_child d c)"
proof (induction "length (kids c) - d" arbitrary: c s)
  case (Suc n)
  have ls: "length s = length (kids c) + 1" using layout_depth Suc.prems(1) .
  then obtain k bs t where s: "s = (k, bs) # t" "t \<noteq> []" using Suc.prems(2) by (cases s; cases "tl s") auto
  have kt: "kids c = kids_of t @ [\<lparr>offset = of_nat (length (contents t)), pending_len_len = of_nat (width k), pending_is_asn1 = (k = Element)\<rparr>]"
    using Suc.prems(1) s by (simp add: layout_def kids_of_Cons)
  have lt: "length (contents t) \<le> unat (len c)" "unat (len c) < 2 ^ 64" using layout_length [OF Suc.prems(1)] s by simp_all
  then have u: "unat (of_nat (length (contents t)) :: size_t) = length (contents t)" by (intro unat_of_nat_64) simp
  let ?c = "c\<lparr>len := of_nat (length (contents t)), kids := kids_of t\<rparr>"
  have "take (length (contents t)) (take (unat (len c)) (buf c)) = take (length (contents t)) (contents s)"
    using Suc.prems(1) by (simp only: layout_def)
  then have "take (length (contents t)) (buf c) = contents t" using lt(1) by (simp add: s(1) min_absorb1)
  then have l: "layout lim ?c t" using Suc.prems(1) s lt u by (simp add: layout_def buffer_ok_def well_formed_Cons)
  show ?case
  proof (cases "d = length (kids_of t)")
    case True
    then have "kids c ! d = \<lparr>offset = of_nat (length (contents t)), pending_len_len = of_nat (width k), pending_is_asn1 = (k = Element)\<rparr>"
      unfolding kt by (simp only: nth_append_length)
    with True have "CBB_discard_child d c = ?c" using Suc.prems(2) by (simp add: CBB_discard_child_def kt)
    with l show ?thesis by (auto simp: cbb_ok_def)
  next
    case False
    then have "CBB_discard_child d c = CBB_discard_child d ?c" using Suc.prems(2) kt by (simp add: CBB_discard_child_def nth_append)
    moreover have "n = length (kids ?c) - d" "d < length (kids ?c)" using Suc.hyps(2) Suc.prems(2) kt False by auto
    ultimately show ?thesis using Suc.hyps(1) [OF _ l] by simp
  qed
qed simp

lemma oid_components_safe:
  "sized alloc \<Longrightarrow> holds lim c t \<Longrightarrow> length t = d + 1 \<Longrightarrow> safe lim d (oid_components alloc cbs d c)"
proof (induction alloc cbs d c arbitrary: t rule: oid_components.induct)
  case (1 alloc cbs d c)
  have ok: "cbb_ok lim c" "d \<le> length (kids c)" using holds_ok [OF 1(3)] holds_depth [OF 1(3)] 1(4) by simp_all
  obtain r cbs' where p: "parse_dotted_decimal cbs = (r, cbs')" by (cases "parse_dotted_decimal cbs")
  show ?case
  proof (cases "cbs = [] \<or> r = None")
    case True
    then show ?thesis using ok p by (subst oid_components.simps) (auto simp: safe_def)
  next
    case False
    then obtain a where a: "r = Some a" by auto
    have app: "appends alloc lim d t (add_base128_integer alloc a d c) () (base128 (digits128 a) a)"
      by (rule add_base128_appends [OF 1(2-4)])
    have "safe lim d (bind_cbb (add_base128_integer alloc a d c) (\<lambda>_ c. oid_components alloc cbs' d c))"
    proof (rule safe_bind)
      show "safe lim d (add_base128_integer alloc a d c)" by (rule appends_safe [OF app]) (simp add: 1(4))
      fix x c1
      assume "add_base128_integer alloc a d c = Some (Some x, c1)"
      then obtain u where "close_to d t = Some u" "holds lim c1 (push_bytes (base128 (digits128 a) a) u)" using app by (auto simp: appends_def)
      then show "safe lim d (oid_components alloc cbs' d c1)" using 1(1) [OF _ p [symmetric] a] False 1(2, 4) by (auto simp: close_to_self)
    qed
    with False p a show ?thesis by (subst oid_components.simps) simp
  qed
qed

lemma holds_error_cases:
  assumes "cbb_ok lim c"
  obtains s where "holds lim c s" | "error c"
  using assms by (auto simp: cbb_ok_def holds_def)

lemma add_u_safe: "sized alloc \<Longrightarrow> holds lim c s \<Longrightarrow> d < length s \<Longrightarrow> k \<le> 8 \<Longrightarrow> safe lim d (cbb_add_u alloc v k d c)"
  unfolding safe_def
proof (erule outcome_mono [OF add_u_outcome]; (elim exE conjE)?)
  fix c' t
  assume "d < length s" "close_to d s = Some t" "holds lim c' (push_bytes (be_bytes k v) t)"
  then show "cbb_ok lim c' \<and> d \<le> length (kids c')" using close_to_length [of d s t] holds_depth [of lim c'] holds_ok by fastforce
qed auto

lemma octet_string_safe:
  assumes "sized alloc" "holds lim c s" "d < length s" "length bs < 2 ^ 64"
  shows "safe lim d (CBB_add_asn1_octet_string alloc bs d c)"
  unfolding CBB_add_asn1_octet_string_def bind_cbb_assoc [symmetric]
proof (rule safe_or_error, rule safe_bind)
  have f: "fills alloc lim d s (bind_cbb (CBB_add_asn1 alloc CBS_ASN1_OCTETSTRING d c) (\<lambda>_ c. CBB_add_bytes alloc bs (d + 1) c))
      (der_tag CBS_ASN1_OCTETSTRING) bs"
    by (intro opens_fills add_asn1_opens assms) (auto intro!: add_bytes_appends assms(1) simp: assms(4) [simplified])
  show "safe lim d (bind_cbb (CBB_add_asn1 alloc CBS_ASN1_OCTETSTRING d c) (\<lambda>_ c. CBB_add_bytes alloc bs (d + 1) c))"
    using f unfolding fills_def safe_def
  proof (rule outcome_mono; (elim exE conjE)?)
    fix c t
    assume "close_to d s = Some t" "holds lim c ((Element, bs) # push_bytes (der_tag CBS_ASN1_OCTETSTRING) t)"
    then show "cbb_ok lim c \<and> d \<le> length (kids c)" using close_to_length [of d s t] assms(3) holds_depth [of lim c] holds_ok by fastforce
  qed auto
  fix x c1
  assume "bind_cbb (CBB_add_asn1 alloc CBS_ASN1_OCTETSTRING d c) (\<lambda>_ c. CBB_add_bytes alloc bs (d + 1) c) = Some (Some x, c1)"
  then obtain t where t: "close_to d s = Some t" "holds lim c1 ((Element, bs) # push_bytes (der_tag CBS_ASN1_OCTETSTRING) t)"
    using f by (auto simp: fills_def)
  then show "safe lim d (CBB_flush alloc d c1)" using close_to_length [OF t(1) assms(3)] by (intro flush_safe [OF assms(1) t(2)]) simp
qed

lemma oid_from_text_safe:
  assumes "sized alloc" "holds lim c s" "d < length s"
  shows "safe lim d (CBB_add_asn1_oid_from_text alloc text d c)"
  unfolding CBB_add_asn1_oid_from_text_def
proof (rule safe_bind, rule flush_safe [OF assms])
  fix x c1
  assume "CBB_flush alloc d c = Some (Some x, c1)"
  then obtain t where t: "close_to d s = Some t" "holds lim c1 t" using flush_outcome [OF assms] by auto
  have lt: "length t = d + 1" using close_to_length [OF t(1) assms(3)] .
  then have ok: "cbb_ok lim c1" "d \<le> length (kids c1)" using holds_ok [OF t(2)] holds_depth [OF t(2)] by simp_all
  have tail: "safe lim d (bind_cbb (add_base128_integer alloc v d c1) (\<lambda>_ c. oid_components alloc cbs d c))" for v cbs
  proof (rule safe_bind)
    have app: "appends alloc lim d t (add_base128_integer alloc v d c1) () (base128 (digits128 v) v)"
      by (rule add_base128_appends [OF assms(1) t(2) lt])
    then show "safe lim d (add_base128_integer alloc v d c1)" by (rule appends_safe) (simp add: lt)
    fix x c2
    assume "add_base128_integer alloc v d c1 = Some (Some x, c2)"
    then obtain u where "close_to d t = Some u" "holds lim c2 (push_bytes (base128 (digits128 v) v) u)" using app by (auto simp: appends_def)
    then have "holds lim c2 (push_bytes (base128 (digits128 v) v) t)" using lt by (simp add: close_to_self)
    then show "safe lim d (oid_components alloc cbs d c2)" by (rule oid_components_safe [OF assms(1)]) (simp add: lt)
  qed
  show "safe lim d (case parse_dotted_decimal text of (None, _) \<Rightarrow> Some (None, c1)
     | (Some a, cbs) \<Rightarrow> (case parse_dotted_decimal cbs of (None, _) \<Rightarrow> Some (None, c1)
       | (Some b, cbs) \<Rightarrow> if a > 2 \<or> (a < 2 \<and> b > 39) \<or> b > - 1 - 80 then Some (None, c1)
           else bind_cbb (add_base128_integer alloc (40 * a + b) d c1) (\<lambda>_ c. oid_components alloc cbs d c)))"
    using tail error_safe(1) [OF ok, where 'a = unit] by (simp split: prod.splits option.splits)
qed

lemma set_of_safe:
  assumes "sized alloc" "holds lim c s" "d < length s"
  shows "safe lim d (CBB_flush_asn1_set_of alloc d c)"
  unfolding safe_def by (rule outcome_mono [OF set_of_ok [OF assms]]) auto

lemmas prefixed_defs = CBB_add_u8_length_prefixed_def CBB_add_u16_length_prefixed_def CBB_add_u24_length_prefixed_def
lemmas add_u_defs = CBB_add_u8_def CBB_add_u16_def CBB_add_u16le_def CBB_add_u24_def CBB_add_u32_def CBB_add_u32le_def CBB_add_u64_def CBB_add_u64le_def
lemmas flush_first_defs = CBB_add_space_def CBB_reserve_def CBB_add_bytes_def CBB_add_zeros_def cbb_add_u_def cbb_add_length_prefixed_def
  CBB_add_asn1_def CBB_add_asn1_octet_string_def CBB_add_asn1_bool_def CBB_add_asn1_oid_from_text_def CBB_add_asn1_uint64_with_tag_def
  CBB_add_asn1_int64_with_tag_def CBB_flush_asn1_set_of_def

lemma operate_holds:
  assumes "sized alloc" "holds lim c s" "d < length s" "passable op"
  shows "\<exists>ok c'. operate alloc op d c = Some (ok, c') \<and> cbb_ok lim c'"
proof -
  have s: "\<exists>ok c'. returned r = Some (ok, c') \<and> cbb_ok lim c'" if "safe lim d r" for r :: "'b built"
    using safe_returned [OF that] by blast
  have d: "d \<le> length (kids c)" "layout lim c s" using holds_depth [OF assms(2)] assms(2, 3) by (auto simp: holds_def)
  note u = add_u_safe [OF assms(1-3)] and p = opens_safe [OF add_length_prefixed_opens [OF assms(1-3)] assms(3)]
  show ?thesis
  proof (cases op)
    case (Did_write n)
    then show ?thesis using s [OF did_write_safe [OF d(2) assms(3)]] by simp
  next
    case (Add_bytes bs)
    then show ?thesis using s [OF appends_safe [OF add_bytes_appends [OF assms(1-3)] assms(3)]] assms(4) by simp
  next
    case (Add_octet_string bs)
    then show ?thesis using s [OF octet_string_safe [OF assms(1-3)]] assms(4) by simp
  next
    case Discard_child
    have "cbb_ok lim (CBB_discard_child d c)"
    proof (cases "d < length (kids c)")
      case False
      then show ?thesis using holds_ok [OF assms(2)] by (simp add: CBB_discard_child_def)
    qed (rule discard_layout [OF d(2)])
    with Discard_child show ?thesis by auto
  qed (use s [OF flush_safe [OF assms(1-3)]] s [OF add_space_safe [OF assms(1-3)]] s [OF reserve_safe [OF assms(1-3)]]
      s [OF appends_safe [OF add_zeros_appends [OF assms(1-3)] assms(3)]] s [OF u] s [OF p]
      s [OF opens_safe [OF add_asn1_opens [OF assms(1-3)] assms(3)]] s [OF appends_safe [OF add_uint64_appends [OF assms(1-3)] assms(3)]]
      s [OF appends_safe [OF add_int64_appends [OF assms(1-3)] assms(3)]] s [OF appends_safe [OF add_bool_appends [OF assms(1-3)] assms(3)]]
      s [OF oid_from_text_safe [OF assms(1-3)]] s [OF set_of_safe [OF assms(1-3)]] in \<open>simp_all add: prefixed_defs add_u_defs\<close>)
qed

lemma operate_error:
  assumes "cbb_ok lim c" "error c" "d \<le> length (kids c)"
  shows "\<exists>ok c'. operate alloc op d c = Some (ok, c') \<and> cbb_ok lim c'"
proof -
  have s: "\<exists>ok c'. returned r = Some (ok, c') \<and> cbb_ok lim c'" if "safe lim d r" for r :: "'b built"
    using safe_returned [OF that] by blast
  obtain t where l: "layout lim c t" using assms(1) by (auto simp: cbb_ok_def)
  then have t: "d < length t" using layout_depth assms(3) by fastforce
  note e = error_safe [OF assms(1, 3)] and f = error_flush [OF assms(2)]
  have eu: "safe lim d (bind_cbb (or_error d (Some (None, c))) g)" for g :: "unit \<Rightarrow> cbb \<Rightarrow> unit built"
    using e(2) [where 'b = unit] by (cases "or_error d (Some (None :: unit option, c))" rule: built_cases)
    (use assms(3) in \<open>auto simp: safe_def or_error_def cbb_on_error_def\<close>)
  show ?thesis
  proof (cases op)
    case (Did_write n)
    then show ?thesis using s [OF did_write_safe [OF l t]] by simp
  next
    case Discard_child
    have "cbb_ok lim (CBB_discard_child d c)"
    proof (cases "d < length (kids c)")
      case False
      then show ?thesis using assms(1) by (simp add: CBB_discard_child_def)
    qed (rule discard_layout [OF l])
    with Discard_child show ?thesis by auto
  qed (use s [OF e(1)] s [OF e(2)] s [OF eu] in \<open>simp_all add: prefixed_defs add_u_defs flush_first_defs f\<close>)
qed

lemma operate_ok:
  assumes "sized alloc" "cbb_ok lim c" "d \<le> length (kids c)" "passable op"
  shows "\<exists>ok c'. operate alloc op d c = Some (ok, c') \<and> cbb_ok lim c'"
proof (rule holds_error_cases [OF assms(2)])
  fix s
  assume h: "holds lim c s"
  then have "d < length s" using holds_depth assms(3) by fastforce
  then show ?thesis using operate_holds [OF assms(1) h _ assms(4)] by simp
next
  assume "error c"
  then show ?thesis using operate_error [OF assms(2) _ assms(3)] by simp
qed

text \<open>The states that operations on live handles lead to.\<close>

inductive reachable :: "allocator \<Rightarrow> cbb \<Rightarrow> cbb \<Rightarrow> bool" for alloc where
  start: "reachable alloc c c"
| step: "reachable alloc c0 c \<Longrightarrow> d \<le> length (kids c) \<Longrightarrow> passable op \<Longrightarrow> operate alloc op d c = Some (ok, c') \<Longrightarrow> reachable alloc c0 c'"

lemma reachable_ok: "reachable alloc c0 c \<Longrightarrow> sized alloc \<Longrightarrow> cbb_ok lim c0 \<Longrightarrow> cbb_ok lim c"
proof (induction rule: reachable.induct)
  case (step c0 c d op ok c')
  then show ?case using operate_ok [of alloc lim c d op] by auto
qed

text \<open>How a builder starts: with a buffer that grows, or with the caller's buffer of a fixed size.\<close>

inductive started :: "allocator \<Rightarrow> size_t option \<Rightarrow> cbb \<Rightarrow> bool" for alloc where
  growing: "CBB_init alloc n = Some (Some (), c) \<Longrightarrow> started alloc None c"
| fixed: "length b < 2 ^ 64 \<Longrightarrow> started alloc (Some (of_nat (length b))) (CBB_init_fixed b)"

lemma started_ok: "started alloc lim c \<Longrightarrow> sized alloc \<Longrightarrow> cbb_ok lim c"
proof (induction rule: started.induct)
  case (growing n c)
  then show ?case by (intro holds_ok [OF init_holds])
next
  case (fixed b)
  then show ?case by (intro holds_ok [OF init_fixed_holds])
qed

text \<open>C11: every state that any sequence of the operations that build (all but \<open>CBB_finish\<close> and \<open>CBB_cleanup\<close>, which end the builder) reaches from \<open>CBB_init\<close> or \<open>CBB_init_fixed\<close>, failed operations included, still is laid out as a stack of open byte strings inside the buffer: the length is within the capacity, the capacity is the size of the allocation and does not change when it is fixed, and each open child's offset is where its length prefix is.\<close>

theorem builder_invariant:
  assumes "sized alloc" "started alloc lim c0" "reachable alloc c0 c"
  shows "\<exists>s. layout lim c s"
  using reachable_ok [OF assms(3, 1) started_ok [OF assms(2, 1)]] by (simp add: cbb_ok_def)

lemma zeroed_init: "CBB_init zeroed 0 = Some (Some (), CBB_zero\<lparr>can_resize := True, requests := 1\<rparr>)"
  by (simp add: CBB_init_def zeroed_def CBB_zero_def cbb_init_def Let_def)

theorem builder_invariant_witness: "\<exists>s. layout None (CBB_zero\<lparr>can_resize := True, requests := 1\<rparr>) s"
  by (rule builder_invariant [OF zeroed(1) started.growing [OF zeroed_init] reachable.start])

text \<open>The operations that read the builder or end it.\<close>

lemma finish_defined:
  assumes "sized alloc" "cbb_ok lim c" "d \<le> length (kids c)"
  shows "CBB_finish alloc d c \<noteq> None"
proof -
  have "CBB_flush alloc d c \<noteq> None" using operate_ok [OF assms, of Flush] by (auto simp: returned_def)
  then obtain x c' where "CBB_flush alloc d c = Some (x, c')" by force
  then show ?thesis by (cases x; cases "d = 0") (simp_all add: CBB_finish_def CBB_cleanup_def Let_def)
qed

lemma data_inside:
  assumes "layout lim c s" "d = length (kids c)"
  shows "\<exists>n l. CBB_data d c = Some n \<and> CBB_len d c = Some l \<and> n + unat l = unat (len c) \<and> unat (len c) \<le> length (buf c)"
proof -
  obtain k bs s' where s: "s = (k, bs) # s'" using assms(1) by (cases s) (auto simp: layout_def)
  have l: "length (contents s) = unat (len c)" "unat (len c) \<le> length (buf c)" "length (contents s) < 2 ^ 64"
    using layout_length [OF assms(1)] by auto
  then have "unat (of_nat (length bs) :: size_t) = length bs" by (intro unat_of_nat_64) (simp add: s)
  moreover have "holds lim (c\<lparr>error := False\<rparr>) ((k, bs) # s')" using assms(1) s by (simp add: holds_def)
  moreover have "d = length s'" using layout_depth [OF assms(1)] assms(2) s by simp
  ultimately have "CBB_data d (c\<lparr>error := False\<rparr>) = Some (length (contents s') + width k)"
    "CBB_len d (c\<lparr>error := False\<rparr>) = Some (of_nat (length bs))" "unat (of_nat (length bs) :: size_t) = length bs"
    using data_and_length by blast+
  moreover have "CBB_data d (c\<lparr>error := False\<rparr>) = CBB_data d c" "CBB_len d (c\<lparr>error := False\<rparr>) = CBB_len d c"
    by (simp_all add: CBB_data_def CBB_len_def Let_def)
  ultimately show ?thesis using l s by simp
qed

text \<open>C10: from every such state each operation on a live handle is defined: it writes inside the buffer, fails no assertion and follows no null pointer, whether it succeeds or reports an error. So are \<open>CBB_finish\<close>, and, on the innermost handle (the header forbids them while a child is open), \<open>CBB_data\<close> and \<open>CBB_len\<close>, which answer a range that ends at the length of the builder, inside the buffer.\<close>

theorem builder_safe:
  assumes "sized alloc" "started alloc lim c0" "reachable alloc c0 c" "d \<le> length (kids c)" "passable op"
  shows "operate alloc op d c \<noteq> None \<and> CBB_finish alloc d c \<noteq> None \<and>
    (\<exists>n l. CBB_data (length (kids c)) c = Some n \<and> CBB_len (length (kids c)) c = Some l \<and>
      n + unat l = unat (len c) \<and> unat (len c) \<le> length (buf c))"
proof -
  note ok = reachable_ok [OF assms(3, 1) started_ok [OF assms(2, 1)]]
  from ok obtain s where "layout lim c s" by (auto simp: cbb_ok_def)
  with operate_ok [OF assms(1) ok assms(4, 5)] finish_defined [OF assms(1) ok assms(4)] data_inside [of lim c s "length (kids c)"]
  show ?thesis by auto
qed

theorem builder_safe_witness:
  "operate zeroed (Add_uint64 300 CBS_ASN1_INTEGER) 0 (CBB_init_fixed [0, 0, 0]) \<noteq> None \<and> CBB_finish zeroed 0 (CBB_init_fixed [0, 0, 0]) \<noteq> None \<and>
    (\<exists>n l. CBB_data (length (kids (CBB_init_fixed [0, 0, 0]))) (CBB_init_fixed [0, 0, 0]) = Some n \<and>
      CBB_len (length (kids (CBB_init_fixed [0, 0, 0]))) (CBB_init_fixed [0, 0, 0]) = Some l \<and>
      n + unat l = unat (len (CBB_init_fixed [0, 0, 0])) \<and> unat (len (CBB_init_fixed [0, 0, 0])) \<le> length (buf (CBB_init_fixed [0, 0, 0])))"
  by (rule builder_safe [OF zeroed(1) started.fixed reachable.start]) simp_all

theorem asn1_uint64_roundtrip_witness:
  "\<exists>bytes c. bind_cbb (CBB_init zeroed 0) (\<lambda>_ c. bind_cbb (CBB_add_asn1_uint64 zeroed 300 0 c) (\<lambda>_ c. CBB_finish zeroed 0 c)) = Some (Some bytes, c)
    \<and> CBS_get_asn1_uint64 bytes = (Some 300, [])"
  by (rule asn1_uint64_roundtrip) simp_all

theorem asn1_int64_roundtrip_witness:
  "\<exists>bytes c. bind_cbb (CBB_init zeroed 0) (\<lambda>_ c. bind_cbb (CBB_add_asn1_int64 zeroed (- 300) 0 c) (\<lambda>_ c. CBB_finish zeroed 0 c)) = Some (Some bytes, c)
    \<and> CBS_get_asn1_int64 bytes = (Some (- 300), [])"
  by (rule asn1_int64_roundtrip) simp_all

theorem asn1_element_roundtrip_witness:
  "\<exists>bytes c. bind_cbb (CBB_init zeroed 0) (\<lambda>_ c. bind_cbb (bind_cbb (CBB_add_asn1 zeroed 0x20000010 0 c) (\<lambda>_ c. CBB_add_bytes zeroed [1, 2] 1 c))
      (\<lambda>_ c. CBB_finish zeroed 0 c)) = Some (Some bytes, c) \<and> CBS_get_any_asn1 bytes = (Some ([1, 2], 0x20000010), [])"
  by (rule asn1_element_roundtrip) (simp_all add: valid_tag_def tag_constants)

text \<open>C12: CBB_flush refines the closing of the stack: where it succeeds, the builder holds the stack with the children inside depth d closed, each replaced by its length prefix or DER length and its bytes; it can fail only if a length does not fit its prefix or the buffer cannot grow, and it is always defined.\<close>

theorem flush_refines_stack:
  assumes "sized alloc" "holds lim c s" "d < length s"
  shows "\<exists>r c'. CBB_flush alloc d c = Some (r, c') \<and> (case r of
      Some _ \<Rightarrow> \<exists>t. close_to d s = Some t \<and> holds lim c' t
    | None \<Rightarrow> \<not> closes alloc lim d s 0 \<and> cbb_ok lim c')"
  using flush_outcome [OF assms] by (cases "CBB_flush alloc d c" rule: built_cases) simp_all

definition sample :: cbb where
  "sample = \<lparr>buf = [4, 0, 7, 0], len = 3, cap = 4, can_resize = False, error = False,
     kids = [\<lparr>offset = 1, pending_len_len = 1, pending_is_asn1 = True\<rparr>], requests = 0\<rparr>"

theorem flush_refines_stack_witness:
  "\<exists>r c'. CBB_flush zeroed 0 sample = Some (r, c') \<and> (case r of
      Some _ \<Rightarrow> \<exists>t. close_to 0 [(Element, [7]), (Root, [4])] = Some t \<and> holds (Some 4) c' t
    | None \<Rightarrow> \<not> closes zeroed (Some 4) 0 [(Element, [7]), (Root, [4])] 0 \<and> cbb_ok (Some 4) c')"
proof (rule flush_refines_stack)
  show "holds (Some 4) sample [(Element, [7]), (Root, [4])]"
    by (simp add: sample_def holds_def layout_def limit_def buffer_ok_def)
qed simp_all

end
