(* ===== verification/Stack.thy ===== *)
theory Stack
  imports Prelude
begin

text \<open>
  BoringSSL's growable array of pointers (\<open>crypto/stack/stack.c\<close>), which keeps a comparison function and a
  flag that says whether the elements are in its order. A pointer is \<open>None\<close> when null; a stack pointer
  likewise. The comparison function is known by a name of type \<open>'c\<close>, which \<open>call_cmp_func\<close> calls, as in the
  code. The allocator answers a request for \<open>n\<close> pointers with what they hold at first, or fails. A result
  \<open>None\<close> of an operation is undefined behaviour or a failed assertion.
\<close>

record ('p, 'c) stack_st =
  num :: size_t
  data :: "'p option list"
  sorted_flag :: bool
  num_alloc :: size_t
  comp :: "'c option"

type_synonym ('p, 'c) stack = "('p, 'c) stack_st option"
type_synonym 'p alloc_ptrs = "nat \<Rightarrow> (nat \<Rightarrow> 'p option) option"
type_synonym ('p, 'c) call_cmp = "'c \<Rightarrow> 'p option \<Rightarrow> 'p option \<Rightarrow> int"

definition kMinSize :: size_t where "kMinSize = 4"
definition INT_MAX :: size_t where "INT_MAX = 0x7FFFFFFF"
definition PTRDIFF_MAX :: nat where "PTRDIFF_MAX = 2 ^ 63 - 1"

text \<open>The test for a null stack that the operations begin with.\<close>

definition with_stack :: "('p, 'c) stack \<Rightarrow> 'r \<Rightarrow> (('p, 'c) stack_st \<Rightarrow> ('r \<times> ('p, 'c) stack_st) option) \<Rightarrow> ('r \<times> ('p, 'c) stack) option" where
  "with_stack sk null f = (case sk of
     None \<Rightarrow> Some (null, None)
   | Some s \<Rightarrow> (case f s of None \<Rightarrow> None | Some (r, s') \<Rightarrow> Some (r, Some s')))"

section \<open>Memory\<close>

definition cell :: "'a list \<Rightarrow> nat \<Rightarrow> 'a option" where
  "cell d i = (if i < length d then Some (d ! i) else None)"

definition set_cell :: "'a list \<Rightarrow> nat \<Rightarrow> 'a \<Rightarrow> 'a list option" where
  "set_cell d i p = (if i < length d then Some (d[i := p]) else None)"

text \<open>\<open>OPENSSL_memmove(&d[to], &d[from], n * sizeof(void *))\<close>\<close>

definition move_cells :: "'a list \<Rightarrow> nat \<Rightarrow> nat \<Rightarrow> nat \<Rightarrow> 'a list option" where
  "move_cells d to from n = (if to + n \<le> length d \<and> from + n \<le> length d
     then Some (take to d @ take n (drop from d) @ drop (to + n) d) else None)"

section \<open>Operations\<close>

definition OPENSSL_sk_new :: "bool \<Rightarrow> bool \<Rightarrow> 'c option \<Rightarrow> ('p, 'c) stack" where
  "OPENSSL_sk_new zalloc_ok calloc_ok compare =
     (if \<not> zalloc_ok \<or> \<not> calloc_ok then None
      else Some \<lparr>num = 0, data = replicate (unat kMinSize) None, sorted_flag = False, num_alloc = kMinSize, comp = compare\<rparr>)"

definition OPENSSL_sk_new_null :: "bool \<Rightarrow> bool \<Rightarrow> ('p, 'c) stack" where
  "OPENSSL_sk_new_null zalloc_ok calloc_ok = OPENSSL_sk_new zalloc_ok calloc_ok None"

definition OPENSSL_sk_num :: "('p, 'c) stack \<Rightarrow> size_t" where
  "OPENSSL_sk_num sk = (case sk of None \<Rightarrow> 0 | Some s \<Rightarrow> num s)"

definition OPENSSL_sk_zero :: "('p, 'c) stack \<Rightarrow> (unit \<times> ('p, 'c) stack) option" where
  "OPENSSL_sk_zero sk = with_stack sk () (\<lambda>s.
     if num s = 0 then Some ((), s)
     else if unat (num s) > length (data s) then None
     else Some ((), s\<lparr>data := replicate (unat (num s)) None @ drop (unat (num s)) (data s), num := 0, sorted_flag := False\<rparr>))"

definition OPENSSL_sk_value :: "('p, 'c) stack \<Rightarrow> size_t \<Rightarrow> 'p option option" where
  "OPENSSL_sk_value sk i = (case sk of
     None \<Rightarrow> Some None
   | Some s \<Rightarrow> if i \<ge> num s then Some None else cell (data s) (unat i))"

definition OPENSSL_sk_set :: "('p, 'c) stack \<Rightarrow> size_t \<Rightarrow> 'p option \<Rightarrow> ('p option \<times> ('p, 'c) stack) option" where
  "OPENSSL_sk_set sk i value = with_stack sk None (\<lambda>s.
     if i \<ge> num s then Some (None, s)
     else do { d \<leftarrow> set_cell (data s) (unat i) value; Some (value, s\<lparr>data := d\<rparr>) })"

text \<open>The pointers handed to the caller's function, in order.\<close>

definition OPENSSL_sk_pop_free_ex :: "('p, 'c) stack \<Rightarrow> 'p list option" where
  "OPENSSL_sk_pop_free_ex sk = (case sk of
     None \<Rightarrow> Some []
   | Some s \<Rightarrow> if unat (num s) > length (data s) then None
               else Some (map the (filter (\<lambda>p. p \<noteq> None) (take (unat (num s)) (data s)))))"

text \<open>Twice the size, or one more where doubling overflows; nothing on failure.\<close>

definition grow :: "'p alloc_ptrs \<Rightarrow> ('p, 'c) stack_st \<Rightarrow> ('p, 'c) stack_st option" where
  "grow realloc s = (let fits = (\<lambda>n. \<not> (n < num_alloc s \<or> (n * 8) div 8 \<noteq> n));
       new_alloc = push_bit 1 (num_alloc s);
       new_alloc = (if fits new_alloc then new_alloc else num_alloc s + 1) in
     if \<not> fits new_alloc then None
     else case realloc (unat new_alloc) of
       None \<Rightarrow> None
     | Some fresh \<Rightarrow> Some (s\<lparr>data := data s @ map fresh [length (data s)..<unat new_alloc], num_alloc := new_alloc\<rparr>))"

definition OPENSSL_sk_insert :: "'p alloc_ptrs \<Rightarrow> ('p, 'c) stack \<Rightarrow> 'p option \<Rightarrow> size_t \<Rightarrow> (size_t \<times> ('p, 'c) stack) option" where
  "OPENSSL_sk_insert realloc sk p pos = with_stack sk 0 (\<lambda>s.
     if num s \<ge> INT_MAX then Some (0, s)
     else case (if num_alloc s \<le> num s + 1 then grow realloc s else Some s) of
       None \<Rightarrow> Some (0, s)
     | Some s \<Rightarrow> do {
         d \<leftarrow> (if pos \<ge> num s then set_cell (data s) (unat (num s)) p
               else do {
                 d \<leftarrow> move_cells (data s) (unat (pos + 1)) (unat pos) (unat (num s - pos));
                 set_cell d (unat pos) p });
         Some (num s + 1, s\<lparr>data := d, num := num s + 1, sorted_flag := False\<rparr>) })"

definition OPENSSL_sk_delete :: "('p, 'c) stack \<Rightarrow> size_t \<Rightarrow> ('p option \<times> ('p, 'c) stack) option" where
  "OPENSSL_sk_delete sk pos = with_stack sk None (\<lambda>s.
     if pos \<ge> num s then Some (None, s)
     else do {
       ret \<leftarrow> cell (data s) (unat pos);
       d \<leftarrow> (if pos \<noteq> num s - 1
             then move_cells (data s) (unat pos) (unat (pos + 1)) (unat (num s - pos - 1))
             else Some (data s));
       Some (ret, s\<lparr>data := d, num := num s - 1\<rparr>) })"

text \<open>\<open>for (i = ...; i < n; i++) if (test(d[i])) return i;\<close>\<close>

function first_index :: "('a \<Rightarrow> bool) \<Rightarrow> 'a list \<Rightarrow> nat \<Rightarrow> nat \<Rightarrow> nat option option" where
  "first_index test d i n =
     (if i < n then do { x \<leftarrow> cell d i; if test x then Some (Some i) else first_index test d (i + 1) n }
      else Some None)"
  by pat_completeness auto
termination by (relation "measure (\<lambda>(_, _, i, n). n - i)") auto

declare first_index.simps [simp del]

definition OPENSSL_sk_delete_ptr :: "('p, 'c) stack \<Rightarrow> 'p option \<Rightarrow> ('p option \<times> ('p, 'c) stack) option" where
  "OPENSSL_sk_delete_ptr sk p = (case sk of
     None \<Rightarrow> Some (None, None)
   | Some s \<Rightarrow> do {
       r \<leftarrow> first_index (\<lambda>x. x = p) (data s) 0 (unat (num s));
       case r of None \<Rightarrow> Some (None, sk) | Some i \<Rightarrow> OPENSSL_sk_delete sk (of_nat i) })"

text \<open>The loop of \<open>OPENSSL_sk_delete_if\<close>: the array and \<open>new_num\<close>.\<close>

function keep_if :: "('p option \<Rightarrow> bool) \<Rightarrow> 'p option list \<Rightarrow> nat \<Rightarrow> nat \<Rightarrow> nat \<Rightarrow> ('p option list \<times> nat) option" where
  "keep_if func d i n new_num =
     (if i < n then do {
        x \<leftarrow> cell d i;
        if \<not> func x then do { d \<leftarrow> set_cell d new_num x; keep_if func d (i + 1) n (new_num + 1) }
        else keep_if func d (i + 1) n new_num }
      else Some (d, new_num))"
  by pat_completeness auto
termination by (relation "measure (\<lambda>(_, _, i, n, _). n - i)") auto

declare keep_if.simps [simp del]

definition OPENSSL_sk_delete_if :: "('p, 'c) stack \<Rightarrow> ('p option \<Rightarrow> bool) \<Rightarrow> (unit \<times> ('p, 'c) stack) option" where
  "OPENSSL_sk_delete_if sk func = with_stack sk () (\<lambda>s. do {
     (d, new_num) \<leftarrow> keep_if func (data s) 0 (unat (num s)) 0;
     Some ((), s\<lparr>data := d, num := of_nat new_num\<rparr>) })"

definition OPENSSL_sk_is_sorted :: "('p, 'c) stack \<Rightarrow> bool" where
  "OPENSSL_sk_is_sorted sk = (case sk of
     None \<Rightarrow> True
   | Some s \<Rightarrow> sorted_flag s \<or> (comp s \<noteq> None \<and> num s < 2))"

text \<open>The binary search: the index found, if any. A failed assertion is undefined.\<close>

function binary_search :: "('a \<Rightarrow> int) \<Rightarrow> 'a list \<Rightarrow> nat \<Rightarrow> nat \<Rightarrow> nat option option" where
  "binary_search cmp d lo hi =
     (if lo < hi then
        let mid = lo + (hi - lo - 1) div 2 in
        (case cell d mid of
           None \<Rightarrow> None
         | Some x \<Rightarrow> (let r = cmp x in
             if r > 0 then binary_search cmp d (mid + 1) hi
             else if r < 0 then binary_search cmp d lo mid
             else if hi - lo = 1 then Some (Some mid)
             else if mid + 1 < hi then binary_search cmp d lo (mid + 1) else None))
      else if lo = hi then Some None else None)"
  by pat_completeness auto
termination by (relation "measure (\<lambda>(_, _, lo, hi). hi - lo)") auto

declare binary_search.simps [simp del]

definition OPENSSL_sk_find :: "('p, 'c) call_cmp \<Rightarrow> ('p, 'c) stack \<Rightarrow> 'p option \<Rightarrow> nat option option" where
  "OPENSSL_sk_find call_cmp_func sk p = (case sk of
     None \<Rightarrow> Some None
   | Some s \<Rightarrow> (case comp s of
       None \<Rightarrow> first_index (\<lambda>x. x = p) (data s) 0 (unat (num s))
     | Some c \<Rightarrow>
         if p = None then Some None
         else if \<not> OPENSSL_sk_is_sorted sk then first_index (\<lambda>x. call_cmp_func c p x = 0) (data s) 0 (unat (num s))
         else binary_search (call_cmp_func c p) (data s) 0 (unat (num s))))"

definition OPENSSL_sk_shift :: "('p, 'c) stack \<Rightarrow> ('p option \<times> ('p, 'c) stack) option" where
  "OPENSSL_sk_shift sk = (case sk of
     None \<Rightarrow> Some (None, None)
   | Some s \<Rightarrow> if num s = 0 then Some (None, sk) else OPENSSL_sk_delete sk 0)"

definition OPENSSL_sk_push :: "'p alloc_ptrs \<Rightarrow> ('p, 'c) stack \<Rightarrow> 'p option \<Rightarrow> (size_t \<times> ('p, 'c) stack) option" where
  "OPENSSL_sk_push realloc sk p = (case sk of None \<Rightarrow> None | Some s \<Rightarrow> OPENSSL_sk_insert realloc sk p (num s))"

definition OPENSSL_sk_pop :: "('p, 'c) stack \<Rightarrow> ('p option \<times> ('p, 'c) stack) option" where
  "OPENSSL_sk_pop sk = (case sk of
     None \<Rightarrow> Some (None, None)
   | Some s \<Rightarrow> if num s = 0 then Some (None, sk) else OPENSSL_sk_delete sk (num s - 1))"

text \<open>A copy of the array; the two results of the allocator are parameters.\<close>

definition OPENSSL_sk_dup :: "bool \<Rightarrow> bool \<Rightarrow> ('p, 'c) stack \<Rightarrow> ('p, 'c) stack" where
  "OPENSSL_sk_dup zalloc_ok memdup_ok sk = (case sk of
     None \<Rightarrow> None
   | Some s \<Rightarrow> if \<not> zalloc_ok \<or> \<not> memdup_ok then None
       else Some \<lparr>num = num s, data = take (unat (num_alloc s)) (data s), sorted_flag = sorted_flag s, num_alloc = num_alloc s, comp = comp s\<rparr>)"

section \<open>Heap sort\<close>

definition parent_idx :: "nat \<Rightarrow> nat option" where
  "parent_idx idx = (if idx > 0 then Some ((idx - 1) div 2) else None)"

definition left_idx :: "nat \<Rightarrow> nat option" where
  "left_idx idx = (if idx \<le> PTRDIFF_MAX then Some (2 * idx + 1) else None)"

text \<open>The endless loop of \<open>down_heap\<close>, on the array.\<close>

function sift :: "('a \<Rightarrow> 'a \<Rightarrow> int) \<Rightarrow> 'a list \<Rightarrow> nat \<Rightarrow> nat \<Rightarrow> 'a list option" where
  "sift cmp d i n =
     (if \<not> (i < n \<and> n \<le> length d) then None
      else case left_idx i of None \<Rightarrow> None | Some left \<Rightarrow>
        if left \<ge> n then Some d
        else
          let nxt = (if cmp (d ! i) (d ! left) < 0 then left else i); right = left + 1;
              nxt = (if right < n \<and> cmp (d ! nxt) (d ! right) < 0 then right else nxt) in
          if i = nxt then Some d else sift cmp (d[i := d ! nxt, nxt := d ! i]) nxt n)"
  by pat_completeness auto
termination
  by (relation "measure (\<lambda>(_, _, i, n). n - i)") (auto simp: left_idx_def Let_def split: if_splits)

declare sift.simps [simp del]

definition down_heap :: "('p, 'c) call_cmp \<Rightarrow> ('p, 'c) stack_st \<Rightarrow> nat \<Rightarrow> nat \<Rightarrow> ('p, 'c) stack_st option" where
  "down_heap call_cmp_func s i n =
     (if \<not> (i < n \<and> n \<le> unat (num s)) then None
      else do { c \<leftarrow> comp s; d \<leftarrow> sift (call_cmp_func c) (data s) i n; Some (s\<lparr>data := d\<rparr>) })"

lemma down_heap_num: "down_heap call s i n = Some s' \<Longrightarrow> num s' = num s"
  by (auto simp: down_heap_def split: if_splits bind_splits)

text \<open>\<open>for (size_t i = parent_idx(sk->num - 1); i < sk->num; i--)\<close>: the loop ends when \<open>i\<close> wraps around.\<close>

function build_heap :: "('p, 'c) call_cmp \<Rightarrow> ('p, 'c) stack_st \<Rightarrow> size_t \<Rightarrow> ('p, 'c) stack_st option" where
  "build_heap call_cmp_func s i =
     (if i < num s then do { s \<leftarrow> down_heap call_cmp_func s (unat i) (unat (num s)); build_heap call_cmp_func s (i - 1) }
      else Some s)"
  by pat_completeness auto
termination
proof (relation "measure (\<lambda>(_, s, i). if i < num s then Suc (unat i) else 0)")
  fix call :: "('p, 'c) call_cmp" and s s' :: "('p, 'c) stack_st" and i :: size_t
  assume i: "i < num s" and "down_heap call s (unat i) (unat (num s)) = Some s'"
  then have n: "num s' = num s" by (simp add: down_heap_num)
  show "((call, s', i - 1), call, s, i) \<in> measure (\<lambda>(_, s, i). if i < num s then Suc (unat i) else 0)"
  proof (cases "i = 0")
    case True
    have "\<not> - 1 < num s" by (simp add: not_less)
    with True i n show ?thesis by simp
  next
    case False
    then show ?thesis using i n unat_gt_0 [of i] by (simp add: unat_minus_one)
  qed
qed simp

declare build_heap.simps [simp del]

fun take_maxima :: "('p, 'c) call_cmp \<Rightarrow> ('p, 'c) stack_st \<Rightarrow> nat \<Rightarrow> ('p, 'c) stack_st option" where
  "take_maxima call_cmp_func s 0 = Some s"
| "take_maxima call_cmp_func s (Suc i) = do {
     first \<leftarrow> cell (data s) 0;
     x \<leftarrow> cell (data s) (Suc i);
     s \<leftarrow> down_heap call_cmp_func (s\<lparr>data := (data s)[0 := x, Suc i := first]\<rparr>) 0 (Suc i);
     take_maxima call_cmp_func s i }"

definition OPENSSL_sk_sort :: "('p, 'c) call_cmp \<Rightarrow> ('p, 'c) stack \<Rightarrow> (unit \<times> ('p, 'c) stack) option" where
  "OPENSSL_sk_sort call_cmp_func sk = with_stack sk () (\<lambda>s.
     if comp s = None \<or> sorted_flag s then Some ((), s)
     else do {
       s \<leftarrow> (if num s \<ge> 2 then do {
               p \<leftarrow> parent_idx (unat (num s - 1));
               s \<leftarrow> build_heap call_cmp_func s (of_nat p);
               take_maxima call_cmp_func s (unat (num s - 1)) }
             else Some s);
       Some ((), s\<lparr>sorted_flag := True\<rparr>) })"

section \<open>The comparison function, copies and aliases\<close>

definition OPENSSL_sk_set_cmp_func :: "('p, 'c) stack_st \<Rightarrow> 'c option \<Rightarrow> 'c option \<times> ('p, 'c) stack_st" where
  "OPENSSL_sk_set_cmp_func s c = (comp s, (if comp s \<noteq> c then s\<lparr>sorted_flag := False\<rparr> else s)\<lparr>comp := c\<rparr>)"

text \<open>The loop of \<open>OPENSSL_sk_deep_copy\<close>: the copied elements, or those it frees before it gives up.\<close>

fun copy_elements :: "('p \<Rightarrow> 'p option) \<Rightarrow> 'p option list \<Rightarrow> 'p option list \<Rightarrow> 'p list + 'p option list" where
  "copy_elements copy done [] = Inr done"
| "copy_elements copy done (None # xs) = copy_elements copy (done @ [None]) xs"
| "copy_elements copy done (Some p # xs) = (case copy p of
     None \<Rightarrow> Inl (map the (filter (\<lambda>q. q \<noteq> None) done))
   | Some q \<Rightarrow> copy_elements copy (done @ [Some q]) xs)"

definition OPENSSL_sk_deep_copy :: "bool \<Rightarrow> bool \<Rightarrow> ('p \<Rightarrow> 'p option) \<Rightarrow> ('p, 'c) stack \<Rightarrow> (('p, 'c) stack \<times> 'p list) option" where
  "OPENSSL_sk_deep_copy zalloc_ok memdup_ok copy sk = (case OPENSSL_sk_dup zalloc_ok memdup_ok sk of
     None \<Rightarrow> Some (None, [])
   | Some ret \<Rightarrow> if unat (num ret) > length (data ret) then None
       else (case copy_elements copy [] (take (unat (num ret)) (data ret)) of
           Inl freed \<Rightarrow> Some (None, freed)
         | Inr d \<Rightarrow> Some (Some (ret\<lparr>data := d @ drop (unat (num ret)) (data ret)\<rparr>), [])))"

end
