(* ===== verification/StackSort.thy ===== *)
theory StackSort
  imports Stack SetOf
begin

text \<open>
  The heap sort and the binary search of \<open>stack.c\<close>, for a comparison function that keeps the contract of
  \<open>qsort\<close> and \<open>bsearch\<close>: the locale \<open>comparison\<close>, interpreted on \<open>compare_set_of_element\<close>, the comparison
  function of \<open>cbb.c\<close>.
\<close>

section \<open>Comparison functions\<close>

locale comparison =
  fixes cmp :: "'a \<Rightarrow> 'a \<Rightarrow> int"
  assumes cmp_swap: "0 < cmp x y \<longleftrightarrow> cmp y x < 0"
    and cmp_trans: "cmp x y \<le> 0 \<Longrightarrow> cmp y z \<le> 0 \<Longrightarrow> cmp x z \<le> 0"
begin

lemma cmp_same: "cmp x x = 0"
  using cmp_swap [of x x] by linarith

lemma cmp_total: "\<not> cmp x y \<le> 0 \<Longrightarrow> cmp y x \<le> 0"
  using cmp_swap [of x y] by simp

end

text \<open>Slot \<open>k\<close> is in order with its parent, for every slot below \<open>n\<close> whose parent is not below \<open>lo\<close>.\<close>

abbreviation up :: "nat \<Rightarrow> nat" where "up k \<equiv> (k - 1) div 2"

definition heap_from :: "('a \<Rightarrow> 'a \<Rightarrow> int) \<Rightarrow> 'a list \<Rightarrow> nat \<Rightarrow> nat \<Rightarrow> bool" where
  "heap_from cmp d lo n \<longleftrightarrow> (\<forall>k. 0 < k \<and> k < n \<and> lo \<le> up k \<longrightarrow> cmp (d ! k) (d ! up k) \<le> 0)"

text \<open>The same but for the children of \<open>i\<close>, which are in order with the parent of \<open>i\<close> instead.\<close>

definition heap_but :: "('a \<Rightarrow> 'a \<Rightarrow> int) \<Rightarrow> 'a list \<Rightarrow> nat \<Rightarrow> nat \<Rightarrow> nat \<Rightarrow> bool" where
  "heap_but cmp d lo n i \<longleftrightarrow> (\<forall>k. 0 < k \<and> k < n \<and> lo \<le> up k \<longrightarrow>
     (if up k = i then 0 < i \<and> lo \<le> up i \<longrightarrow> cmp (d ! k) (d ! up i) \<le> 0 else cmp (d ! k) (d ! up k) \<le> 0))"

definition rearranged :: "'a list \<Rightarrow> 'a list \<Rightarrow> nat \<Rightarrow> bool" where
  "rearranged d d' n \<longleftrightarrow> mset (take n d') = mset (take n d) \<and> drop n d' = drop n d"

lemma rearranged_same [simp]: "rearranged d d n"
  by (simp add: rearranged_def)

lemma rearranged_trans: "rearranged d d' n \<Longrightarrow> rearranged d' d'' n \<Longrightarrow> rearranged d d'' n"
  by (simp add: rearranged_def)

lemma rearranged_length: "rearranged d d' n \<Longrightarrow> n \<le> length d \<Longrightarrow> length d' = length d"
  by (metis append_take_drop_id length_append mset_eq_length rearranged_def)

lemma rearranged_swap: "i < n \<Longrightarrow> j < n \<Longrightarrow> n \<le> length d \<Longrightarrow> rearranged d (d[i := d ! j, j := d ! i]) n"
proof -
  assume *: "i < n" "j < n" "n \<le> length d"
  then have "take n (d[i := d ! j, j := d ! i]) = (take n d)[i := take n d ! j, j := take n d ! i]"
    by (simp add: take_update_swap)
  with * mset_swap [of j "take n d" i] show ?thesis by (simp add: rearranged_def)
qed

lemma rearranged_more:
  assumes "rearranged d d' n" and "n \<le> m"
  shows "rearranged d d' m"
proof -
  have t: "take m xs = take n xs @ take (m - n) (drop n xs)" for xs :: "'a list"
    using assms(2) by (metis le_add_diff_inverse take_add)
  have "drop m xs = drop (m - n) (drop n xs)" for xs :: "'a list" using assms(2) by simp
  then have "drop m d' = drop m d" using assms(1) by (metis rearranged_def)
  with assms t show ?thesis by (simp add: rearranged_def)
qed

lemma rearranged_set: "rearranged d d' n \<Longrightarrow> set (take n d') = set (take n d)"
  by (metis mset_eq_setD rearranged_def)

lemma rearranged_nth: "rearranged d d' n \<Longrightarrow> n \<le> length d \<Longrightarrow> n \<le> k \<Longrightarrow> d' ! k = d ! k"
  by (metis le_add_diff_inverse nth_drop rearranged_def rearranged_length)

context comparison
begin

lemma heap_butD:
  assumes "heap_but cmp d lo n i" and "0 < k" and "k < n" and "lo \<le> up k"
  shows "up k \<noteq> i \<Longrightarrow> cmp (d ! k) (d ! up k) \<le> 0" and "up k = i \<Longrightarrow> 0 < i \<Longrightarrow> lo \<le> up i \<Longrightarrow> cmp (d ! k) (d ! up i) \<le> 0"
  using assms unfolding heap_but_def by presburger+

lemma sift_step:
  assumes h: "heap_but cmp d lo n i" and b: "i < n" "nxt < n" "n \<le> length d" and nx: "up nxt = i" "i < nxt" and lo: "lo \<le> i"
    and less: "cmp (d ! i) (d ! nxt) < 0" and max: "\<And>k. up k = i \<Longrightarrow> 0 < k \<Longrightarrow> k < n \<Longrightarrow> cmp (d ! k) (d ! nxt) \<le> 0"
  shows "heap_but cmp (d[i := d ! nxt, nxt := d ! i]) lo n nxt"
proof -
  define d' where "d' = d[i := d ! nxt, nxt := d ! i]"
  have d': "d' ! i = d ! nxt" "d' ! nxt = d ! i" "\<And>k. k \<noteq> i \<Longrightarrow> k \<noteq> nxt \<Longrightarrow> d' ! k = d ! k"
    using b nx(2) by (simp_all add: d'_def)
  have "cmp (d' ! k) (d' ! up k) \<le> 0" if k: "0 < k" "k < n" "lo \<le> up k" "up k \<noteq> nxt" for k
  proof -
    consider (child) "k = nxt" | (sibling) "k \<noteq> nxt" "up k = i" | (self) "k = i" | (other) "k \<noteq> nxt" "k \<noteq> i" "up k \<noteq> i" by blast
    then show ?thesis
    proof cases
      case child
      with less nx(1) d' show ?thesis by simp
    next
      case sibling
      then have "k \<noteq> i" using k(1) by linarith
      with sibling k d' max [of k] show ?thesis by simp
    next
      case self
      then have "up i \<noteq> i" "up i \<noteq> nxt" using k nx(2) by linarith+
      moreover have "cmp (d ! nxt) (d ! up i) \<le> 0"
        using heap_butD(2) [OF h _ b(2)] nx lo self k by simp
      ultimately show ?thesis using self d' by simp
    next
      case other
      with k d' heap_butD(1) [OF h k(1-3)] show ?thesis by simp
    qed
  qed
  moreover have "cmp (d' ! k) (d' ! up nxt) \<le> 0" if k: "0 < k" "k < n" "up k = nxt" for k
  proof -
    have "k \<noteq> nxt" "k \<noteq> i" "up k \<noteq> i" "lo \<le> up k" using k nx(2) lo by linarith+
    with k d' nx(1) heap_butD(1) [OF h k(1,2)] show ?thesis by simp
  qed
  ultimately show ?thesis unfolding heap_but_def d'_def [symmetric] by simp
qed

text \<open>From a heap with the wrong element at \<open>i\<close>, the loop makes a heap.\<close>

lemma sift_heap:
  assumes "heap_but cmp d lo n i" and "lo \<le> i" and "i < n" and "n \<le> length d" and "n \<le> PTRDIFF_MAX"
  shows "\<exists>d'. sift cmp d i n = Some d' \<and> heap_from cmp d' lo n \<and> rearranged d d' n"
  using assms
proof (induction "n - i" arbitrary: d i rule: less_induct)
  case less
  define left where "left = 2 * i + 1"
  have children: "up k = i \<Longrightarrow> 0 < k \<Longrightarrow> k = left \<or> k = Suc left" for k unfolding left_def by presburger
  have li: "left_idx i = Some left" using less.prems by (simp add: left_idx_def left_def)
  show ?case
  proof (cases "left < n")
    case False
    have "up k \<noteq> i" if "0 < k" "k < n" for k using children [of k] that False by auto
    then have "heap_from cmp d lo n" using less.prems(1) by (simp add: heap_but_def heap_from_def)
    with False li less.prems show ?thesis by (subst sift.simps) simp
  next
    case True
    define n1 where "n1 = (if cmp (d ! i) (d ! left) < 0 then left else i)"
    define nxt where "nxt = (if Suc left < n \<and> cmp (d ! n1) (d ! Suc left) < 0 then Suc left else n1)"
    have m1: "cmp (d ! i) (d ! n1) \<le> 0" "cmp (d ! left) (d ! n1) \<le> 0"
      using cmp_same cmp_swap [of "d ! left" "d ! i"] by (auto simp: n1_def)
    have m2: "cmp (d ! n1) (d ! nxt) \<le> 0" "Suc left < n \<Longrightarrow> cmp (d ! Suc left) (d ! nxt) \<le> 0"
      using cmp_same cmp_swap [of "d ! Suc left" "d ! n1"] by (auto simp: nxt_def)
    have max: "cmp (d ! k) (d ! nxt) \<le> 0" if "up k = i" "0 < k" "k < n" for k
      using children [OF that(1,2)] that(3) m1 m2 cmp_trans by blast
    have "i \<noteq> left" "i \<noteq> Suc left" by (auto simp: left_def)
    then have run: "sift cmp d i n = (if i = nxt then Some d else sift cmp (d[i := d ! nxt, nxt := d ! i]) nxt n)"
      using True li less.prems by (subst sift.simps) (auto simp: Let_def n1_def nxt_def)
    show ?thesis
    proof (cases "i = nxt")
      case True
      then have "cmp (d ! k) (d ! up k) \<le> 0" if "0 < k" "k < n" "lo \<le> up k" for k
        using heap_butD(1) [OF less.prems(1) that] max [of k] that by metis
      then have "heap_from cmp d lo n" by (simp add: heap_from_def)
      with True run show ?thesis by simp
    next
      case False
      have c: "nxt = left \<or> nxt = Suc left" "nxt < n" using False True by (auto simp: nxt_def n1_def split: if_splits)
      have s: "cmp (d ! i) (d ! nxt) < 0"
      proof (cases "nxt = n1")
        case False
        then have "cmp (d ! n1) (d ! nxt) < 0" by (auto simp: nxt_def split: if_splits)
        with m1(1) cmp_trans [of "d ! nxt" "d ! i" "d ! n1"] cmp_swap show ?thesis by (metis linorder_not_less)
      qed (use False in \<open>auto simp: n1_def split: if_splits\<close>)
      have u: "up nxt = i" "i < nxt" using c(1) by (auto simp: left_def)
      let ?d = "d[i := d ! nxt, nxt := d ! i]"
      have "heap_but cmp ?d lo n nxt"
        using sift_step [OF less.prems(1,3) c(2) less.prems(4) u less.prems(2) s max] .
      moreover have "n - nxt < n - i" "lo \<le> nxt" "n \<le> length ?d" using u(2) c(2) less.prems(2,4) by auto
      ultimately obtain d' where "sift cmp ?d nxt n = Some d'" "heap_from cmp d' lo n" "rearranged ?d d' n"
        using less.hyps c(2) less.prems(5) by meson
      moreover have "rearranged d ?d n" using rearranged_swap less.prems(3,4) c(2) by blast
      ultimately show ?thesis using run False rearranged_trans by auto
    qed
  qed
qed

lemma heap_top:
  assumes "heap_from cmp d 0 n" and "k < n"
  shows "cmp (d ! k) (d ! 0) \<le> 0"
  using assms(2)
proof (induction k rule: less_induct)
  case (less k)
  show ?case
  proof (cases "k = 0")
    case False
    then have "up k < k" by linarith
    then have "cmp (d ! up k) (d ! 0) \<le> 0" using less by simp
    moreover have "cmp (d ! k) (d ! up k) \<le> 0" using False less.prems assms(1) by (simp add: heap_from_def)
    ultimately show ?thesis by (rule cmp_trans [rotated])
  qed (simp add: cmp_same)
qed

end

text \<open>The elements: the pointers in use.\<close>

definition elems :: "('p, 'c) stack_st \<Rightarrow> 'p option list" where
  "elems s = take (unat (num s)) (data s)"

definition stack_ok :: "('p, 'c) stack_st \<Rightarrow> bool" where
  "stack_ok s \<longleftrightarrow> length (data s) = unat (num_alloc s) \<and> num s \<le> INT_MAX \<and> num s < num_alloc s"

lemma stack_okD:
  assumes "stack_ok s"
  shows "unat (num s) < length (data s)" and "unat (num s) \<le> PTRDIFF_MAX" and "unat (num s) \<le> 0x7FFFFFFF"
  using assms by (auto simp: stack_ok_def INT_MAX_def PTRDIFF_MAX_def word_less_nat_alt word_le_nat_alt)

lemma down_heap_ok:
  assumes "comparison (call c)" and "comp s = Some c" and "stack_ok s"
    and "heap_but (call c) (data s) lo n i" and "lo \<le> i" and "i < n" and "n \<le> unat (num s)"
  shows "\<exists>d. down_heap call s i n = Some (s\<lparr>data := d\<rparr>) \<and> heap_from (call c) d lo n \<and> rearranged (data s) d n"
proof -
  have "n \<le> length (data s)" "n \<le> PTRDIFF_MAX" using stack_okD [OF assms(3)] assms(7) by linarith+
  from comparison.sift_heap [OF assms(1,4-6) this] show ?thesis using assms(2,6,7) by (auto simp: down_heap_def)
qed

lemma heap_from_but: "heap_from cmp d (Suc i) n \<Longrightarrow> heap_but cmp d i n i"
  unfolding heap_from_def heap_but_def by (auto simp: le_Suc_eq)

lemma build_step:
  assumes "comparison (call c)" and "comp s = Some c" and "stack_ok s"
    and "heap_from (call c) (data s) (Suc (unat i)) (unat (num s))" and "i < num s"
  obtains d where "down_heap call s (unat i) (unat (num s)) = Some (s\<lparr>data := d\<rparr>)" and "stack_ok (s\<lparr>data := d\<rparr>)"
    and "heap_from (call c) d (unat i) (unat (num s))" and "rearranged (data s) d (unat (num s))"
proof -
  have "unat i < unat (num s)" using assms(5) by (simp add: word_less_nat_alt)
  from down_heap_ok [of call c, OF assms(1-3) heap_from_but [OF assms(4)] order_refl this order_refl]
  obtain d where d: "down_heap call s (unat i) (unat (num s)) = Some (s\<lparr>data := d\<rparr>)"
    "heap_from (call c) d (unat i) (unat (num s))" "rearranged (data s) d (unat (num s))" by blast
  moreover have "stack_ok (s\<lparr>data := d\<rparr>)"
    using assms(3) rearranged_length [OF d(3)] stack_okD(1) [OF assms(3)] by (simp add: stack_ok_def)
  ultimately show thesis using that by blast
qed

lemma build_heap_ok:
  assumes "comparison (call c)" and "comp s = Some c" and "stack_ok s"
    and "heap_from (call c) (data s) (Suc (unat i)) (unat (num s))" and "i < num s"
  shows "\<exists>d. build_heap call s i = Some (s\<lparr>data := d\<rparr>) \<and> heap_from (call c) d 0 (unat (num s)) \<and> rearranged (data s) d (unat (num s))"
  using assms(2-5)
proof (induction "unat i" arbitrary: s i)
  case (0 i)
  then have i: "i = 0" "unat i = 0" by (simp_all add: unat_eq_zero)
  from build_step [of call c, OF assms(1) 0(2-5)] obtain d where d: "down_heap call s (unat i) (unat (num s)) = Some (s\<lparr>data := d\<rparr>)"
    "heap_from (call c) d (unat i) (unat (num s))" "rearranged (data s) d (unat (num s))" .
  have "\<not> - 1 < num s" by (simp add: not_less)
  then have "build_heap call (s\<lparr>data := d\<rparr>) (- 1) = Some (s\<lparr>data := d\<rparr>)" by (subst build_heap.simps) simp
  then have "build_heap call s i = Some (s\<lparr>data := d\<rparr>)" using d i 0 by (subst build_heap.simps) simp
  with d i show ?case by auto
next
  case (Suc m i)
  have "i \<noteq> 0" using Suc.hyps(2) by auto
  then have i: "unat (i - 1) = m" "i \<noteq> 0" using Suc.hyps(2) by (simp_all add: unat_minus_one)
  from build_step [of call c, OF assms(1) Suc.prems] obtain d where d: "down_heap call s (unat i) (unat (num s)) = Some (s\<lparr>data := d\<rparr>)"
    "stack_ok (s\<lparr>data := d\<rparr>)" "heap_from (call c) d (unat i) (unat (num s))" "rearranged (data s) d (unat (num s))" .
  let ?s = "s\<lparr>data := d\<rparr>"
  have "i - 1 < num s" using Suc.hyps(2) Suc.prems(4) i by (simp add: word_less_nat_alt)
  then obtain d' where "build_heap call ?s (i - 1) = Some (?s\<lparr>data := d'\<rparr>)" "heap_from (call c) d' 0 (unat (num s))"
      "rearranged d d' (unat (num s))"
    using Suc.hyps(1) [of "i - 1" ?s] Suc.prems(1) Suc.hyps(2) d(2,3) i by auto
  with d Suc.prems(4) show ?case by (subst build_heap.simps) (auto intro: rearranged_trans)
qed

definition tail_sorted :: "('a \<Rightarrow> 'a \<Rightarrow> int) \<Rightarrow> 'a list \<Rightarrow> nat \<Rightarrow> nat \<Rightarrow> bool" where
  "tail_sorted cmp d m n \<longleftrightarrow> (\<forall>a b. a \<le> b \<and> m \<le> b \<and> b < n \<longrightarrow> cmp (d ! a) (d ! b) \<le> 0)"

lemma rearranged_source:
  assumes "rearranged d d' m" and "a < m" and "m \<le> length d"
  shows "\<exists>j < m. d' ! a = d ! j"
proof -
  have "length d' = length d" using rearranged_length [OF assms(1,3)] .
  then have "d' ! a \<in> set (take m d')" using assms(2,3) by (auto simp: in_set_conv_nth intro!: exI [of _ a])
  then show ?thesis using rearranged_set [OF assms(1)] assms(3) by (auto simp: in_set_conv_nth)
qed

lemma tail_sorted_step:
  assumes "comparison cmp" and "tail_sorted cmp d (Suc m) n" and "heap_from cmp d 0 (Suc m)" and "Suc m \<le> length d"
    and "rearranged d d' (Suc m)" and "d' ! m = d ! 0"
  shows "tail_sorted cmp d' m n"
  unfolding tail_sorted_def
proof (intro allI impI; elim conjE)
  fix a b assume *: "a \<le> b" "m \<le> b" "b < n"
  have src: "\<exists>j. d' ! a = d ! j \<and> (a \<le> m \<longrightarrow> j \<le> m) \<and> (m < a \<longrightarrow> j = a)"
    using rearranged_source [OF assms(5) _ assms(4), of a] rearranged_nth [OF assms(5,4), of a]
    by (cases "a \<le> m") (auto simp: less_Suc_eq_le)
  then obtain j where j: "d' ! a = d ! j" "a \<le> m \<longrightarrow> j \<le> m" "m < a \<longrightarrow> j = a" by blast
  show "cmp (d' ! a) (d' ! b) \<le> 0"
  proof (cases "b = m")
    case True
    then show ?thesis using j * assms(6) comparison.heap_top [OF assms(1,3)] by (simp add: less_Suc_eq_le)
  next
    case False
    then have "d' ! b = d ! b" "j \<le> b" using rearranged_nth [OF assms(5,4), of b] j * by auto
    then show ?thesis using assms(2) j * False by (simp add: tail_sorted_def)
  qed
qed

lemma take_maxima_ok:
  assumes "comparison (call c)" and "comp s = Some c" and "stack_ok s" and "i < unat (num s)"
    and "heap_from (call c) (data s) 0 (Suc i)" and "tail_sorted (call c) (data s) (Suc i) (unat (num s))"
  shows "\<exists>d. take_maxima call s i = Some (s\<lparr>data := d\<rparr>) \<and> tail_sorted (call c) d 1 (unat (num s)) \<and> rearranged (data s) d (unat (num s))"
  using assms(2-)
proof (induction i arbitrary: s)
  case 0
  then show ?case by (auto intro!: exI [of _ "data s"])
next
  case (Suc i)
  let ?d = "(data s)[0 := data s ! Suc i, Suc i := data s ! 0]"
  have len: "Suc (Suc i) \<le> length (data s)" using stack_okD(1) [OF Suc.prems(2)] Suc.prems(3) by linarith
  have "heap_but (call c) ?d 0 (Suc i) 0" using Suc.prems(4) len by (auto simp: heap_but_def heap_from_def)
  moreover have "stack_ok (s\<lparr>data := ?d\<rparr>)" using Suc.prems(2) by (simp add: stack_ok_def)
  ultimately obtain d where d: "down_heap call (s\<lparr>data := ?d\<rparr>) 0 (Suc i) = Some (s\<lparr>data := d\<rparr>)"
    "heap_from (call c) d 0 (Suc i)" "rearranged ?d d (Suc i)"
    using down_heap_ok [of call c "s\<lparr>data := ?d\<rparr>" 0 "Suc i" 0] assms(1) Suc.prems(1,3) by auto
  have r: "rearranged (data s) d (Suc (Suc i))"
    using rearranged_trans [OF rearranged_swap rearranged_more [OF d(3)]] len by simp
  have "d ! Suc i = data s ! 0" using rearranged_nth [OF d(3), of "Suc i"] len by simp
  from tail_sorted_step [OF assms(1) Suc.prems(5,4) len r this]
  have t: "tail_sorted (call c) d (Suc i) (unat (num s))" .
  have "stack_ok (s\<lparr>data := d\<rparr>)" using Suc.prems(2) rearranged_length [OF r len] by (simp add: stack_ok_def)
  then obtain d' where "take_maxima call (s\<lparr>data := d\<rparr>) i = Some (s\<lparr>data := d'\<rparr>)" "tail_sorted (call c) d' 1 (unat (num s))"
      "rearranged d d' (unat (num s))"
    using Suc.IH [of "s\<lparr>data := d\<rparr>"] Suc.prems(1,3) d(2) t by auto
  moreover have "rearranged (data s) d (unat (num s))" using rearranged_more [OF r] Suc.prems(3) by simp
  ultimately show ?case using d(1) len by (auto simp: cell_def intro: rearranged_trans)
qed

lemma sort_ok:
  assumes "comparison (call c)" and "comp s = Some c" and "stack_ok s" and "\<not> sorted_flag s"
  shows "\<exists>d. OPENSSL_sk_sort call (Some s) = Some ((), Some (s\<lparr>data := d, sorted_flag := True\<rparr>)) \<and>
    rearranged (data s) d (unat (num s)) \<and> sorted_wrt (\<lambda>x y. call c x y \<le> 0) (take (unat (num s)) d)"
proof (cases "num s < 2")
  case True
  then have "unat (num s) \<le> 1" by (simp add: word_less_nat_alt)
  then have "sorted_wrt (\<lambda>x y. call c x y \<le> 0) (take (unat (num s)) (data s))"
    by (auto simp: sorted_wrt_iff_nth_less)
  with True assms(2,4) show ?thesis by (auto simp: OPENSSL_sk_sort_def with_stack_def intro!: exI [of _ "data s"])
next
  case False
  define n where "n = unat (num s)"
  have n: "2 \<le> n" "unat (num s - 1) = n - 1" "n < length (data s)"
    using False stack_okD [OF assms(3)] unat_minus_one [of "num s"]
    by (cases "num s = 0"; simp add: n_def word_less_nat_alt)+
  define p where "p = up (n - 1)"
  have p: "unat (of_nat p :: size_t) = p" "p < n" "parent_idx (n - 1) = Some p"
    using n stack_okD(3) [OF assms(3)] by (auto simp: p_def n_def parent_idx_def unat_of_nat take_bit_nat_eq_self)
  have "up k \<le> p" if "0 < k" "k < n" for k using that unfolding p_def by (intro div_le_mono) linarith
  then have "heap_from (call c) (data s) (Suc p) n" unfolding heap_from_def using not_less_eq_eq by blast
  then obtain d1 where d1: "build_heap call s (of_nat p) = Some (s\<lparr>data := d1\<rparr>)" "heap_from (call c) d1 0 n" "rearranged (data s) d1 n"
    using build_heap_ok [of call c s "of_nat p"] assms(1-3) p by (auto simp: word_less_nat_alt n_def)
  have "stack_ok (s\<lparr>data := d1\<rparr>)" using assms(3) rearranged_length [OF d1(3)] n by (simp add: stack_ok_def)
  moreover have "tail_sorted (call c) d1 n n" by (simp add: tail_sorted_def)
  ultimately obtain d where d: "take_maxima call (s\<lparr>data := d1\<rparr>) (n - 1) = Some (s\<lparr>data := d\<rparr>)" "tail_sorted (call c) d 1 n"
      "rearranged d1 d n"
    using take_maxima_ok [of call c "s\<lparr>data := d1\<rparr>" "n - 1"] assms(1,2) d1(2) n by (auto simp: n_def)
  have "sorted_wrt (\<lambda>x y. call c x y \<le> 0) (take n d)"
    using d(2) by (auto simp: sorted_wrt_iff_nth_less tail_sorted_def)
  moreover have "OPENSSL_sk_sort call (Some s) = Some ((), Some (s\<lparr>data := d, sorted_flag := True\<rparr>))"
    using False assms(2,4) d1(1) d(1) n p by (simp add: OPENSSL_sk_sort_def with_stack_def n_def not_less)
  ultimately show ?thesis using rearranged_trans [OF d1(3) d(3)] by (auto simp: n_def intro!: exI [of _ d])
qed

section \<open>Searches\<close>

lemma first_index_ends: "n \<le> i \<Longrightarrow> first_index t d i n = Some None"
  by (subst first_index.simps) simp

lemma first_index_none:
  "n \<le> length d \<Longrightarrow> (\<And>k. i \<le> k \<Longrightarrow> k < n \<Longrightarrow> \<not> t (d ! k)) \<Longrightarrow> first_index t d i n = Some None"
proof (induction t d i n rule: first_index.induct)
  case (1 t d i n)
  then show ?case by (subst first_index.simps) (auto simp: cell_def)
qed

lemma first_index_some:
  "n \<le> length d \<Longrightarrow> i \<le> k \<Longrightarrow> k < n \<Longrightarrow> t (d ! k) \<Longrightarrow> (\<And>j. i \<le> j \<Longrightarrow> j < k \<Longrightarrow> \<not> t (d ! j)) \<Longrightarrow> first_index t d i n = Some (Some k)"
proof (induction t d i n rule: first_index.induct)
  case (1 t d i n)
  show ?case
  proof (cases "i = k")
    case True
    with 1 show ?thesis by (subst first_index.simps) (simp add: cell_def)
  next
    case False
    with 1 show ?thesis by (subst first_index.simps) (auto simp: cell_def)
  qed
qed

lemma first_index_split:
  "i \<le> m \<Longrightarrow> m \<le> n \<Longrightarrow> n \<le> length d \<Longrightarrow>
   first_index t d i n = (case first_index t d i m of Some None \<Rightarrow> first_index t d m n | r \<Rightarrow> r)"
proof (induction "m - i" arbitrary: i)
  case 0
  then show ?case by (simp add: first_index_ends)
next
  case (Suc j)
  then have "i < m" "i < n" "i < length d" by linarith+
  with Suc show ?case by (subst (1 2) first_index.simps) (simp add: cell_def)
qed

lemma first_index_cases:
  assumes "n \<le> length d"
  obtains (none) "first_index t d i n = Some None" and "\<And>k. i \<le> k \<Longrightarrow> k < n \<Longrightarrow> \<not> t (d ! k)"
  | (found) k where "first_index t d i n = Some (Some k)" and "i \<le> k" and "k < n" and "t (d ! k)" and "\<And>j. i \<le> j \<Longrightarrow> j < k \<Longrightarrow> \<not> t (d ! j)"
proof (cases "\<exists>k. i \<le> k \<and> k < n \<and> t (d ! k)")
  case True
  define k where "k = (LEAST k. i \<le> k \<and> k < n \<and> t (d ! k))"
  have k: "i \<le> k" "k < n" "t (d ! k)" using LeastI_ex [OF True] by (simp_all add: k_def)
  have l: "\<not> t (d ! j)" if "i \<le> j" "j < k" for j
    using not_less_Least [of j "\<lambda>k. i \<le> k \<and> k < n \<and> t (d ! k)"] that k(2) by (simp add: k_def)
  show thesis using found [OF first_index_some [of n d i k t, OF assms k l] k l] by blast
next
  case False
  then show thesis using none first_index_none [OF assms] by blast
qed

text \<open>Where the comparisons with the elements go from positive to negative, the binary search finds what the linear one does.\<close>

definition falling :: "('a \<Rightarrow> int) \<Rightarrow> 'a list \<Rightarrow> nat \<Rightarrow> nat \<Rightarrow> bool" where
  "falling f d lo hi \<longleftrightarrow> (\<forall>a b. lo \<le> a \<and> a \<le> b \<and> b < hi \<longrightarrow> sgn (f (d ! b)) \<le> sgn (f (d ! a)))"

lemma falling_within: "falling f d lo hi \<Longrightarrow> lo \<le> lo' \<Longrightarrow> hi' \<le> hi \<Longrightarrow> falling f d lo' hi'"
  by (simp add: falling_def)

lemma fallingD:
  assumes "falling f d lo hi" and "lo \<le> a" and "a \<le> b" and "b < hi"
  shows "0 < f (d ! b) \<Longrightarrow> 0 < f (d ! a)" and "f (d ! a) < 0 \<Longrightarrow> f (d ! b) < 0"
proof -
  have "sgn (f (d ! b)) \<le> sgn (f (d ! a))" using assms by (simp add: falling_def)
  then show "0 < f (d ! b) \<Longrightarrow> 0 < f (d ! a)" and "f (d ! a) < 0 \<Longrightarrow> f (d ! b) < 0"
    by (auto simp: sgn_if split: if_splits)
qed

lemma binary_search_linear:
  assumes "lo \<le> hi" and "hi \<le> length d" and "falling f d lo hi"
  shows "binary_search f d lo hi = first_index (\<lambda>x. f x = 0) d lo hi"
  using assms
proof (induction "hi - lo" arbitrary: lo hi rule: less_induct)
  case less
  define m where "m = lo + (hi - lo - 1) div 2"
  let ?t = "\<lambda>x. f x = 0"
  show ?case
  proof (cases "lo < hi")
    case True
    then have m: "lo \<le> m" "m < hi" unfolding m_def by linarith+
    have run: "binary_search f d lo hi =
       (if 0 < f (d ! m) then binary_search f d (m + 1) hi else if f (d ! m) < 0 then binary_search f d lo m
        else if hi - lo = 1 then Some (Some m) else if m + 1 < hi then binary_search f d lo (m + 1) else None)"
      unfolding binary_search.simps [of f d lo hi] Let_def m_def [symmetric]
      using True m(2) less.prems(2) by (simp add: cell_def)
    consider (high) "0 < f (d ! m)" | (low) "f (d ! m) < 0" | (single) "f (d ! m) = 0" "hi - lo = 1"
      | (match) "f (d ! m) = 0" "hi - lo \<noteq> 1" "m + 1 < hi" using True unfolding m_def by linarith
    then show ?thesis
    proof cases
      case high
      then have "\<not> ?t (d ! k)" if "lo \<le> k" "k < m + 1" for k using fallingD(1) [OF less.prems(3) that(1), of m] that high m by simp
      then have "first_index ?t d lo hi = first_index ?t d (m + 1) hi"
        using first_index_split [of lo "m + 1" hi d ?t] first_index_none [of "m + 1" d lo ?t] less.prems(2) m by simp
      moreover have "falling f d (m + 1) hi" using falling_within [OF less.prems(3)] m by simp
      ultimately show ?thesis using high run less.hyps [of hi "m + 1"] less.prems(1,2) m by simp
    next
      case low
      then have "\<not> ?t (d ! k)" if "m \<le> k" "k < hi" for k using fallingD(2) [OF less.prems(3) m(1) that] low by simp
      then have "first_index ?t d lo hi = first_index ?t d lo m"
        using first_index_split [of lo m hi d ?t] first_index_none [of hi d m ?t] less.prems(2) m
        by (simp split: option.splits)
      moreover have "falling f d lo m" using falling_within [OF less.prems(3)] m by simp
      ultimately show ?thesis using low run less.hyps [of m lo] less.prems(1,2) m by simp
    next
      case single
      then have "m = lo" unfolding m_def by linarith
      then show ?thesis using run single m less.prems(2) first_index_some [of hi d lo lo ?t] by simp
    next
      case match
      have "m + 1 \<le> length d" using match(3) less.prems(2) by linarith
      then have "first_index ?t d lo hi = first_index ?t d lo (m + 1)"
      proof (cases rule: first_index_cases [of "m + 1" d ?t lo, case_names none found])
        case none
        then show ?thesis using match(1) m(1) by simp
      next
        case (found k)
        then show ?thesis using first_index_split [of lo "m + 1" hi d ?t] match(3) less.prems(2) m(1) by simp
      qed
      moreover have "falling f d lo (m + 1)" using falling_within [OF less.prems(3)] m by simp
      ultimately show ?thesis using match run less.hyps [of "m + 1" lo] less.prems(1,2) m by simp
    qed
  next
    case False
    with less.prems(1) show ?thesis by (subst binary_search.simps) (simp add: first_index_ends)
  qed
qed

context comparison
begin

lemma sorted_falling:
  assumes "sorted_wrt (\<lambda>x y. cmp x y \<le> 0) (take n d)" and "n \<le> length d"
  shows "falling (cmp p) d 0 n"
  unfolding falling_def
proof (intro allI impI; elim conjE)
  fix a b assume *: "0 \<le> a" "a \<le> b" "b < n"
  have le: "cmp (d ! a) (d ! b) \<le> 0"
    using * assms by (cases "a = b") (auto simp: cmp_same sorted_wrt_iff_nth_less)
  have "0 < cmp p (d ! a)" if "0 < cmp p (d ! b)" using cmp_trans [OF _ le, of p] that by linarith
  moreover have "cmp p (d ! b) < 0" if "cmp p (d ! a) < 0"
    using cmp_trans [OF le, of p] cmp_swap [of "d ! a" p] cmp_swap [of "d ! b" p] that by linarith
  ultimately show "sgn (cmp p (d ! b)) \<le> sgn (cmp p (d ! a))" by (cases "cmp p (d ! a)" "0 :: int" rule: linorder_cases; cases "cmp p (d ! b)" "0 :: int" rule: linorder_cases) simp_all
qed

end

section \<open>The comparison function of \<open>cbb.c\<close>\<close>

lemma compare_swap: "0 < compare_set_of_element a b \<longleftrightarrow> compare_set_of_element b a < 0"
proof (induction a arbitrary: b)
  case Nil
  show ?case by (cases b) (simp_all add: compare_Nil)
next
  case (Cons x a)
  then show ?case by (cases b) (auto simp: compare_Cons compare_Nil)
qed

interpretation set_elements: comparison compare_set_of_element
  by unfold_locales (auto simp: compare_swap compare_order intro: der_order_trans)

end
