(* ===== verification/StackSpec.thy ===== *)
theory StackSpec
  imports StackSort
begin

text \<open>
  A stack is a list of pointers with a comparison function, a flag and a capacity: the specification \<open>sk_spec\<close>
  of the operations of \<open>stack.c\<close> on that abstract state, refusals included, and the proof that the code keeps
  it. The invariant says that the array has a spare slot, that there are at most \<open>INT_MAX\<close> elements, and that
  the flag \<open>sorted\<close> is true of the elements.
\<close>

section \<open>Operations and their specification\<close>

datatype ('p, 'c) sk_op =
    Sk_num | Sk_zero | Sk_value size_t | Sk_set size_t "'p option" | Sk_insert "'p option" size_t | Sk_push "'p option"
  | Sk_delete size_t | Sk_delete_ptr "'p option" | Sk_delete_if "'p option \<Rightarrow> bool" | Sk_find "'p option" | Sk_shift | Sk_pop
  | Sk_sort | Sk_is_sorted | Sk_set_cmp_func "'c option"

datatype ('p, 'c) sk_result = Sk_done | Sk_count size_t | Sk_pointer "'p option" | Sk_index "nat option" | Sk_bool bool | Sk_func "'c option"

definition returned_by :: "('r \<Rightarrow> 'q) \<Rightarrow> ('r \<times> 's) option \<Rightarrow> ('q \<times> 's) option" where
  "returned_by f r = map_option (map_prod f id) r"

fun sk_operate :: "('p, 'c) call_cmp \<Rightarrow> 'p alloc_ptrs \<Rightarrow> ('p, 'c) sk_op \<Rightarrow> ('p, 'c) stack \<Rightarrow> (('p, 'c) sk_result \<times> ('p, 'c) stack) option" where
  "sk_operate call realloc Sk_num sk = Some (Sk_count (OPENSSL_sk_num sk), sk)"
| "sk_operate call realloc Sk_zero sk = returned_by (\<lambda>_. Sk_done) (OPENSSL_sk_zero sk)"
| "sk_operate call realloc (Sk_value i) sk = map_option (\<lambda>p. (Sk_pointer p, sk)) (OPENSSL_sk_value sk i)"
| "sk_operate call realloc (Sk_set i v) sk = returned_by Sk_pointer (OPENSSL_sk_set sk i v)"
| "sk_operate call realloc (Sk_insert p i) sk = returned_by Sk_count (OPENSSL_sk_insert realloc sk p i)"
| "sk_operate call realloc (Sk_push p) sk = returned_by Sk_count (OPENSSL_sk_push realloc sk p)"
| "sk_operate call realloc (Sk_delete i) sk = returned_by Sk_pointer (OPENSSL_sk_delete sk i)"
| "sk_operate call realloc (Sk_delete_ptr p) sk = returned_by Sk_pointer (OPENSSL_sk_delete_ptr sk p)"
| "sk_operate call realloc (Sk_delete_if f) sk = returned_by (\<lambda>_. Sk_done) (OPENSSL_sk_delete_if sk f)"
| "sk_operate call realloc (Sk_find p) sk = map_option (\<lambda>i. (Sk_index i, sk)) (OPENSSL_sk_find call sk p)"
| "sk_operate call realloc Sk_shift sk = returned_by Sk_pointer (OPENSSL_sk_shift sk)"
| "sk_operate call realloc Sk_pop sk = returned_by Sk_pointer (OPENSSL_sk_pop sk)"
| "sk_operate call realloc Sk_sort sk = returned_by (\<lambda>_. Sk_done) (OPENSSL_sk_sort call sk)"
| "sk_operate call realloc Sk_is_sorted sk = Some (Sk_bool (OPENSSL_sk_is_sorted sk), sk)"
| "sk_operate call realloc (Sk_set_cmp_func c) sk = (case sk of
     None \<Rightarrow> None | Some s \<Rightarrow> (let (old, s) = OPENSSL_sk_set_cmp_func s c in Some (Sk_func old, Some s)))"

text \<open>The first index whose element matches.\<close>

definition first_match :: "('a \<Rightarrow> bool) \<Rightarrow> 'a list \<Rightarrow> nat option" where
  "first_match t xs = (let n = length (takeWhile (\<lambda>x. \<not> t x) xs) in if n < length xs then Some n else None)"

definition sorted_by :: "('a \<Rightarrow> 'a \<Rightarrow> int) \<Rightarrow> 'a list \<Rightarrow> bool" where
  "sorted_by cmp xs \<longleftrightarrow> sorted_wrt (\<lambda>x y. cmp x y \<le> 0) xs"

definition del_at :: "nat \<Rightarrow> 'a list \<Rightarrow> 'a list" where
  "del_at i xs = take i xs @ drop (Suc i) xs"

definition matches :: "('p, 'c) call_cmp \<Rightarrow> 'c option \<Rightarrow> 'p option \<Rightarrow> 'p option \<Rightarrow> bool" where
  "matches call cf p x \<longleftrightarrow> (case cf of None \<Rightarrow> x = p | Some c \<Rightarrow> p \<noteq> None \<and> call c p x = 0)"

text \<open>The abstract state, and what it is for a stack.\<close>

record ('p, 'c) sk_state =
  cmp_of :: "'c option"
  in_order :: bool
  room :: nat
  items :: "'p option list"

definition sk_abs :: "('p, 'c) stack_st \<Rightarrow> ('p, 'c) sk_state" where
  "sk_abs s = \<lparr>cmp_of = comp s, in_order = sorted_flag s, room = unat (num_alloc s), items = elems s\<rparr>"

lemma sk_abs_sel [simp]:
  "cmp_of (sk_abs s) = comp s" "in_order (sk_abs s) = sorted_flag s" "room (sk_abs s) = unat (num_alloc s)" "items (sk_abs s) = elems s"
  by (simp_all add: sk_abs_def)

lemma sk_abs_eq_iff:
  "sk_abs s = A \<longleftrightarrow> comp s = cmp_of A \<and> sorted_flag s = in_order A \<and> unat (num_alloc s) = room A \<and> elems s = items A"
  by (cases A) (simp add: sk_abs_def)

text \<open>
  An insertion is refused at \<open>INT_MAX\<close> elements, or when no slot is to spare and the allocator does not give
  an array of twice the size; that is the capacity after one that is not refused.
\<close>

definition refuses :: "'p alloc_ptrs \<Rightarrow> ('p, 'c) sk_state \<Rightarrow> bool" where
  "refuses realloc A \<longleftrightarrow> 0x7FFFFFFF \<le> length (items A) \<or> room A \<le> length (items A) + 1 \<and> realloc (2 * room A) = None"

definition room_after :: "('p, 'c) sk_state \<Rightarrow> nat" where
  "room_after A = (if room A \<le> length (items A) + 1 then 2 * room A else room A)"

definition inserted_at :: "nat \<Rightarrow> 'p option \<Rightarrow> ('p, 'c) sk_state \<Rightarrow> ('p, 'c) sk_state" where
  "inserted_at i p A = A\<lparr>in_order := False, room := room_after A, items := take i (items A) @ [p] @ drop i (items A)\<rparr>"

text \<open>
  The state before, the result, the state after. The specification is a function but for sorting, which may
  choose among the sorted permutations. The flag goes with \<open>OPENSSL_sk_zero\<close>, an insertion and a change of the
  comparison function; \<open>OPENSSL_sk_set\<close> leaves it.
\<close>

fun sk_spec :: "('p, 'c) call_cmp \<Rightarrow> 'p alloc_ptrs \<Rightarrow> ('p, 'c) sk_op \<Rightarrow> ('p, 'c) sk_state \<Rightarrow> ('p, 'c) sk_result \<Rightarrow> ('p, 'c) sk_state \<Rightarrow> bool" where
  "sk_spec call realloc Sk_num A r B \<longleftrightarrow> r = Sk_count (of_nat (length (items A))) \<and> B = A"
| "sk_spec call realloc Sk_zero A r B \<longleftrightarrow> r = Sk_done \<and> B = A\<lparr>in_order := in_order A \<and> items A = [], items := []\<rparr>"
| "sk_spec call realloc (Sk_value i) A r B \<longleftrightarrow> r = Sk_pointer (if unat i < length (items A) then items A ! unat i else None) \<and> B = A"
| "sk_spec call realloc (Sk_set i v) A r B \<longleftrightarrow>
     r = Sk_pointer (if unat i < length (items A) then v else None) \<and> B = A\<lparr>items := (items A)[unat i := v]\<rparr>"
| "sk_spec call realloc (Sk_insert p i) A r B \<longleftrightarrow> (if refuses realloc A then r = Sk_count 0 \<and> B = A
     else r = Sk_count (of_nat (Suc (length (items A)))) \<and> B = inserted_at (unat i) p A)"
| "sk_spec call realloc (Sk_push p) A r B \<longleftrightarrow> (if refuses realloc A then r = Sk_count 0 \<and> B = A
     else r = Sk_count (of_nat (Suc (length (items A)))) \<and> B = inserted_at (length (items A)) p A)"
| "sk_spec call realloc (Sk_delete i) A r B \<longleftrightarrow>
     r = Sk_pointer (if unat i < length (items A) then items A ! unat i else None) \<and> B = A\<lparr>items := del_at (unat i) (items A)\<rparr>"
| "sk_spec call realloc (Sk_delete_ptr p) A r B \<longleftrightarrow>
     r = Sk_pointer (if p \<in> set (items A) then p else None) \<and> B = A\<lparr>items := remove1 p (items A)\<rparr>"
| "sk_spec call realloc (Sk_delete_if t) A r B \<longleftrightarrow> r = Sk_done \<and> B = A\<lparr>items := filter (\<lambda>x. \<not> t x) (items A)\<rparr>"
| "sk_spec call realloc (Sk_find p) A r B \<longleftrightarrow> r = Sk_index (first_match (matches call (cmp_of A) p) (items A)) \<and> B = A"
| "sk_spec call realloc Sk_shift A r B \<longleftrightarrow> r = Sk_pointer (if items A = [] then None else hd (items A)) \<and> B = A\<lparr>items := tl (items A)\<rparr>"
| "sk_spec call realloc Sk_pop A r B \<longleftrightarrow> r = Sk_pointer (if items A = [] then None else last (items A)) \<and> B = A\<lparr>items := butlast (items A)\<rparr>"
| "sk_spec call realloc Sk_sort A r B \<longleftrightarrow> r = Sk_done \<and> (if cmp_of A = None \<or> in_order A then B = A
     else B = A\<lparr>in_order := True, items := items B\<rparr> \<and> mset (items B) = mset (items A) \<and> sorted_by (call (the (cmp_of A))) (items B))"
| "sk_spec call realloc Sk_is_sorted A r B \<longleftrightarrow> r = Sk_bool (in_order A \<or> cmp_of A \<noteq> None \<and> length (items A) < 2) \<and> B = A"
| "sk_spec call realloc (Sk_set_cmp_func c) A r B \<longleftrightarrow> r = Sk_func (cmp_of A) \<and> B = A\<lparr>cmp_of := c, in_order := in_order A \<and> cmp_of A = c\<rparr>"

definition sk_invariant :: "('p, 'c) call_cmp \<Rightarrow> ('p, 'c) stack_st \<Rightarrow> bool" where
  "sk_invariant call s \<longleftrightarrow> stack_ok s \<and> (sorted_flag s \<longrightarrow> (\<exists>c. comp s = Some c \<and> sorted_by (call c) (elems s)))"

section \<open>The operations one by one\<close>

lemma sk_invariantD:
  assumes "sk_invariant call s"
  shows "stack_ok s" and "unat (num s) < length (data s)" and "unat (num s) \<le> 0x7FFFFFFF" and "length (elems s) = unat (num s)"
    and "length (data s) = unat (num_alloc s)"
  using assms stack_okD [of s] by (auto simp: sk_invariant_def elems_def stack_ok_def)

definition meets :: "('p, 'c) call_cmp \<Rightarrow> 'p alloc_ptrs \<Rightarrow> ('p, 'c) sk_op \<Rightarrow> ('p, 'c) stack_st \<Rightarrow> (('p, 'c) sk_result \<times> ('p, 'c) stack) option \<Rightarrow> bool" where
  "meets call realloc op s x \<longleftrightarrow> (\<exists>r s'. x = Some (r, Some s') \<and> sk_spec call realloc op (sk_abs s) r (sk_abs s') \<and> sk_invariant call s')"

lemma meetsI: "x = Some (r, Some s') \<Longrightarrow> sk_spec call realloc op (sk_abs s) r (sk_abs s') \<Longrightarrow> sk_invariant call s' \<Longrightarrow> meets call realloc op s x"
  by (auto simp: meets_def)

lemma nth_elems: "stack_ok s \<Longrightarrow> unat i < unat (num s) \<Longrightarrow> elems s ! unat i = data s ! unat i"
  using stack_okD(1) by (simp add: elems_def)

lemma zero_meets:
  assumes "sk_invariant call s"
  shows "meets call realloc Sk_zero s (sk_operate call realloc Sk_zero (Some s))"
proof (cases "num s = 0")
  case True
  then have "elems s = []" by (simp add: elems_def)
  with True assms show ?thesis
    by (intro meetsI [where r = Sk_done and s' = s]) (simp_all add: OPENSSL_sk_zero_def with_stack_def returned_by_def sk_abs_def)
next
  case False
  note inv = sk_invariantD [OF assms]
  let ?s = "s\<lparr>data := replicate (unat (num s)) None @ drop (unat (num s)) (data s), num := 0, sorted_flag := False\<rparr>"
  have "elems s \<noteq> []" using False inv(4) by (metis list.size(3) unat_eq_zero)
  then have "sk_abs ?s = (sk_abs s)\<lparr>in_order := in_order (sk_abs s) \<and> items (sk_abs s) = [], items := []\<rparr>"
    by (simp add: sk_abs_def elems_def)
  moreover have "0 < num_alloc s" using inv(1) by (auto simp: stack_ok_def intro: le_less_trans)
  then have "sk_invariant call ?s" using inv by (simp add: sk_invariant_def stack_ok_def)
  ultimately show ?thesis using False inv(2)
    by (intro meetsI [where r = Sk_done and s' = ?s]) (simp_all add: OPENSSL_sk_zero_def with_stack_def returned_by_def)
qed

lemma value_meets: "sk_invariant call s \<Longrightarrow> meets call realloc (Sk_value i) s (sk_operate call realloc (Sk_value i) (Some s))"
  using sk_invariantD [of call s] nth_elems [of s i]
  by (auto simp: OPENSSL_sk_value_def meets_def cell_def word_le_nat_alt not_le)

text \<open>Setting an element keeps the array in shape always, and the flag true if it is not set.\<close>

lemma set_outcome:
  assumes "sk_invariant call s"
  shows "\<exists>r s'. sk_operate call realloc (Sk_set i v) (Some s) = Some (r, Some s') \<and>
    sk_spec call realloc (Sk_set i v) (sk_abs s) r (sk_abs s') \<and> stack_ok s' \<and> (sorted_flag s \<or> sk_invariant call s')"
  using assms sk_invariantD [OF assms(1)]
  by (auto simp: OPENSSL_sk_set_def with_stack_def returned_by_def set_cell_def word_le_nat_alt not_le elems_def sk_abs_def
      sk_invariant_def stack_ok_def take_update_swap list_update_beyond)

text \<open>Doubling does not overflow here, and the larger array has a spare slot behind the one to be filled.\<close>

lemma grow_ok:
  assumes "stack_ok s" and "num_alloc s \<le> num s + 1" and "num s < INT_MAX"
  obtains (none) "realloc (2 * unat (num_alloc s)) = None" "grow realloc s = None"
  | (some) d a where "realloc (2 * unat (num_alloc s)) \<noteq> None" and "grow realloc s = Some (s\<lparr>data := data s @ d, num_alloc := a\<rparr>)"
      and "length (data s @ d) = unat a" and "unat a = 2 * unat (num_alloc s)" and "num s + 1 < a"
proof -
  have n: "unat (num s) < 0x7FFFFFFF" "unat (num s + 1) = unat (num s) + 1"
    using assms(3) by (auto simp: INT_MAX_def word_less_nat_alt unat_word_ariths)
  have a: "num_alloc s = num s + 1" "unat (num_alloc s) = unat (num s) + 1"
    using assms(1,2) n by (auto simp: stack_ok_def word_less_nat_alt word_le_nat_alt word_unat_eq_iff)
  define b where "b = push_bit 1 (num_alloc s)"
  have b: "unat b = 2 * unat (num_alloc s)" using a n by (simp add: b_def push_bit_eq_mult unat_word_ariths)
  have "(b * 8) div 8 = b" using a n b by (simp add: word_unat_eq_iff unat_word_ariths unat_div)
  moreover have "\<not> b < num_alloc s" using b by (simp add: word_less_nat_alt)
  ultimately have g: "grow realloc s = map_option (\<lambda>fresh. s\<lparr>data := data s @ map fresh [length (data s)..<unat b], num_alloc := b\<rparr>) (realloc (unat b))"
    unfolding grow_def Let_def b_def [symmetric] by (simp split: option.split)
  have l: "length (data s) = unat (num_alloc s)" using assms(1) by (simp add: stack_ok_def)
  show thesis
  proof (cases "realloc (unat b)")
    case None
    then show thesis using none g b by simp
  next
    case (Some fresh)
    show thesis
    proof (rule some)
      show "grow realloc s = Some (s\<lparr>data := data s @ map fresh [length (data s)..<unat b], num_alloc := b\<rparr>)" using g Some by simp
      show "num s + 1 < b" using a b n by (simp add: word_less_nat_alt)
    qed (use Some a b l in simp_all)
  qed
qed

lemma insert_room:
  assumes "length d = unat a" and "unat n < length d" and "n \<le> INT_MAX"
  obtains d' where "(if i \<ge> n then set_cell d (unat n) p
      else Option.bind (move_cells d (unat (i + 1)) (unat i) (unat (n - i))) (\<lambda>d. set_cell d (unat i) p)) = Some d'"
    and "length d' = length d" and "take (unat n + 1) d' = take (unat i) (take (unat n) d) @ [p] @ drop (unat i) (take (unat n) d)"
proof (cases "n \<le> i")
  case True
  then have "unat n \<le> unat i" by (simp add: word_le_nat_alt)
  then show thesis using that [of "d[unat n := p]"] True assms(2) by (simp add: set_cell_def take_Suc_conv_app_nth)
next
  case False
  then have i: "unat i < unat n" by (simp add: word_le_nat_alt)
  have u: "unat (i + 1) = unat i + 1" "unat (n - i) = unat n - unat i"
    using i assms(3) by (simp_all add: unat_word_ariths unat_sub False word_le_nat_alt INT_MAX_def)
  let ?d = "take (unat i + 1) d @ take (unat n - unat i) (drop (unat i) d) @ drop (unat n + 1) d"
  have l: "length ?d = length d" using i assms(2) by simp
  have m: "move_cells d (unat (i + 1)) (unat i) (unat (n - i)) = Some ?d"
    using i assms(2) u by (simp add: move_cells_def)
  have "take (unat i + 1) d = take (unat i) d @ [d ! unat i]" using i assms(2) by (simp add: take_Suc_conv_app_nth)
  then have "?d[unat i := p] = take (unat i) d @ p # take (unat n - unat i) (drop (unat i) d) @ drop (unat n + 1) d"
    using i assms(2) by (simp add: list_update_append)
  moreover have "Suc (unat n) - unat i = Suc (unat n - unat i)" using i by simp
  ultimately have "take (unat n + 1) (?d[unat i := p]) = take (unat i) (take (unat n) d) @ [p] @ drop (unat i) (take (unat n) d)"
    using i assms(2) by (simp add: drop_take min_def)
  then show thesis using that [of "?d[unat i := p]"] False l m i assms(2) by (simp add: set_cell_def)
qed

lemma insert_outcome:
  assumes "sk_invariant call s"
  obtains (full) "refuses realloc (sk_abs s)" and "OPENSSL_sk_insert realloc (Some s) p i = Some (0, Some s)"
  | (inserted) s' where "\<not> refuses realloc (sk_abs s)"
      and "OPENSSL_sk_insert realloc (Some s) p i = Some (of_nat (Suc (length (elems s))), Some s')"
      and "sk_abs s' = inserted_at (unat i) p (sk_abs s)" and "sk_invariant call s'"
proof (cases "num s \<ge> INT_MAX")
  case True
  then show thesis using full sk_invariantD(4) [OF assms]
    by (auto simp: OPENSSL_sk_insert_def with_stack_def refuses_def word_le_nat_alt INT_MAX_def)
next
  case False
  note inv = sk_invariantD [OF assms]
  have n: "unat (num s + 1) = unat (num s) + 1" using inv(3) by (simp add: unat_word_ariths)
  have less: "num s < INT_MAX" "unat (num s) < 0x7FFFFFFF" using False by (simp_all add: word_less_nat_alt word_le_nat_alt INT_MAX_def)
  have alloc: "num_alloc s \<le> num s + 1 \<longleftrightarrow> unat (num_alloc s) \<le> unat (num s) + 1" using n by (simp add: word_le_nat_alt)
  consider (fail) "num_alloc s \<le> num s + 1" "grow realloc s = None" "realloc (2 * unat (num_alloc s)) = None"
    | (ok) s1 d a where "\<not> refuses realloc (sk_abs s)" "(if num_alloc s \<le> num s + 1 then grow realloc s else Some s) = Some s1"
      "s1 = s\<lparr>data := data s @ d, num_alloc := a\<rparr>" "length (data s @ d) = unat a" "num s + 1 < a" "unat a = room_after (sk_abs s)"
  proof (cases "num_alloc s \<le> num s + 1")
    case True
    show thesis
    proof (cases rule: grow_ok [OF inv(1) True less(1), of realloc])
      case 1
      then show thesis using fail True by blast
    next
      case (2 d a)
      have "\<not> refuses realloc (sk_abs s)" "unat a = room_after (sk_abs s)"
        using 2 True alloc inv(4) less(2) by (simp_all add: refuses_def room_after_def)
      then show thesis using 2 True by (intro ok [OF _ _ refl]) simp_all
    qed
  next
    case False
    have "\<not> refuses realloc (sk_abs s)" "unat (num_alloc s) = room_after (sk_abs s)"
      using False alloc inv(4) less(2) by (simp_all add: refuses_def room_after_def)
    moreover have "s = s\<lparr>data := data s @ [], num_alloc := num_alloc s\<rparr>" by simp
    ultimately show thesis using False inv(5) by (intro ok [of s "num_alloc s" "[]"]) simp_all
  qed
  then show thesis
  proof cases
    case fail
    then have "refuses realloc (sk_abs s)" using alloc inv(4) by (simp add: refuses_def)
    then show thesis using full fail False by (simp add: OPENSSL_sk_insert_def with_stack_def)
  next
    case s1: ok
    have num1: "num s < a" using s1(5) n by (simp add: word_less_nat_alt)
    then have "unat (num s) < length (data s @ d)" using s1(4) by (simp add: word_less_nat_alt)
    moreover have "num s \<le> INT_MAX" using inv(1) by (simp add: stack_ok_def)
    ultimately obtain d' where d': "(if i \<ge> num s then set_cell (data s @ d) (unat (num s)) p
        else Option.bind (move_cells (data s @ d) (unat (i + 1)) (unat i) (unat (num s - i))) (\<lambda>d. set_cell d (unat i) p)) = Some d'"
      "length d' = length (data s @ d)"
      "take (unat (num s) + 1) d' = take (unat i) (take (unat (num s)) (data s @ d)) @ [p] @ drop (unat i) (take (unat (num s)) (data s @ d))"
      using insert_room [OF s1(4)] by metis
    let ?s = "s\<lparr>data := d', num := num s + 1, sorted_flag := False, num_alloc := a\<rparr>"
    have "OPENSSL_sk_insert realloc (Some s) p i = Some (num s + 1, Some ?s)"
      using False d'(1) s1(2,3) by (cases "num s \<le> i") (auto simp: OPENSSL_sk_insert_def with_stack_def bind_eq_Some_conv)
    moreover have "num s + 1 \<le> INT_MAX" using False n by (simp add: word_le_nat_alt INT_MAX_def)
    then have "sk_invariant call ?s" using s1(4,5) d'(2) by (simp add: sk_invariant_def stack_ok_def)
    moreover have "elems ?s = take (unat i) (elems s) @ [p] @ drop (unat i) (elems s)" using d'(3) n inv(2) by (simp add: elems_def)
    then have "sk_abs ?s = inserted_at (unat i) p (sk_abs s)" using s1(6) by (simp add: sk_abs_def inserted_at_def)
    moreover have "num s + 1 = of_nat (Suc (length (elems s)))" using inv(4) by simp
    ultimately show thesis using inserted [of ?s] s1(1) by (simp add: add.commute)
  qed
qed

lemma insert_meets:
  assumes "sk_invariant call s"
  shows "meets call realloc (Sk_insert p i) s (sk_operate call realloc (Sk_insert p i) (Some s))"
  by (rule insert_outcome [OF assms, of realloc p i]) (use assms in \<open>auto simp: returned_by_def meets_def\<close>)

lemma push_meets:
  assumes "sk_invariant call s"
  shows "meets call realloc (Sk_push p) s (sk_operate call realloc (Sk_push p) (Some s))"
  by (rule insert_outcome [OF assms, of realloc p "num s"])
    (use assms sk_invariantD(4) [OF assms] in \<open>auto simp: OPENSSL_sk_push_def returned_by_def meets_def\<close>)

lemma sorted_del_at: "sorted_by cmp xs \<Longrightarrow> sorted_by cmp (del_at i xs)"
proof (cases "i < length xs")
  case True
  assume "sorted_by cmp xs"
  then have "sorted_wrt (\<lambda>x y. cmp x y \<le> 0) (take i xs @ xs ! i # drop (Suc i) xs)"
    using id_take_nth_drop [OF True] by (simp add: sorted_by_def)
  then show ?thesis by (simp add: sorted_by_def del_at_def sorted_wrt_append)
qed (simp add: del_at_def)

lemma delete_beyond: "num s \<le> i \<Longrightarrow> OPENSSL_sk_delete (Some s) i = Some (None, Some s)"
  by (simp add: OPENSSL_sk_delete_def with_stack_def)

lemma delete_outcome:
  assumes "sk_invariant call s" and "i < num s"
  obtains s' where "OPENSSL_sk_delete (Some s) i = Some (elems s ! unat i, Some s')"
    and "sk_abs s' = (sk_abs s)\<lparr>items := del_at (unat i) (elems s)\<rparr>" and "sk_invariant call s'"
proof -
  note inv = sk_invariantD [OF assms(1)]
  have i: "unat i < unat (num s)" using assms(2) by (simp add: word_less_nat_alt)
  then have "num s \<noteq> 0" by auto
  then have n: "unat (num s - 1) = unat (num s) - 1" by (simp add: unat_minus_one)
  have u: "unat (i + 1) = unat i + 1" using i inv(3) by (simp add: unat_word_ariths)
  have m: "unat (num s - i - 1) = unat (num s) - unat i - 1"
    using i unat_sub [of i "num s"] unat_minus_one [of "num s - i"] assms(2) by (auto simp: word_le_nat_alt)
  obtain d where d: "(if i \<noteq> num s - 1 then move_cells (data s) (unat i) (unat (i + 1)) (unat (num s - i - 1)) else Some (data s)) = Some d"
    "length d = length (data s)" "take (unat (num s) - 1) d = del_at (unat i) (elems s)"
  proof (cases "i = num s - 1")
    case True
    then have "unat i = unat (num s) - 1" using n by simp
    then show thesis using that [of "data s"] True i by (simp add: del_at_def elems_def)
  next
    case False
    then have "unat i \<noteq> unat (num s) - 1" using n by (metis word_unat_eq_iff)
    let ?d = "take (unat i) (data s) @ take (unat (num s) - unat i - 1) (drop (unat i + 1) (data s)) @ drop (unat (num s) - 1) (data s)"
    have e: "unat i + (unat (num s) - unat i - 1) = unat (num s) - 1" using i by simp
    have l: "length (take (unat i) (data s) @ take (unat (num s) - unat i - 1) (drop (unat i + 1) (data s))) = unat (num s) - 1"
      using i inv(2) by simp
    then have "length ?d = length (data s)" using inv(2) by simp
    moreover have "take (unat (num s) - 1) ?d = take (unat i) (data s) @ take (unat (num s) - unat i - 1) (drop (unat i + 1) (data s))"
      using l by (metis append.assoc append_eq_conv_conj)
    then have "take (unat (num s) - 1) ?d = del_at (unat i) (elems s)"
      using i by (simp add: del_at_def elems_def drop_take)
    moreover have "move_cells (data s) (unat i) (unat (i + 1)) (unat (num s - i - 1)) = Some ?d"
      using i inv(2) u m e by (simp add: move_cells_def)
    ultimately show thesis using that [of ?d] False by presburger
  qed
  let ?s = "s\<lparr>data := d, num := num s - 1\<rparr>"
  have "OPENSSL_sk_delete (Some s) i = Some (elems s ! unat i, Some ?s)"
    using assms(2) [folded not_le] d(1) i inv(2) by (simp add: OPENSSL_sk_delete_def with_stack_def cell_def elems_def)
  moreover have "elems ?s = del_at (unat i) (elems s)" using d(3) n by (simp add: elems_def)
  moreover have "num s - 1 \<le> INT_MAX" "num s - 1 < num_alloc s"
    using inv n by (auto simp: word_le_nat_alt word_less_nat_alt INT_MAX_def)
  then have "sk_invariant call ?s"
    using assms(1) d(2) \<open>elems ?s = _\<close> sorted_del_at by (auto simp: sk_invariant_def stack_ok_def)
  ultimately show thesis using that [of ?s] by (simp add: sk_abs_def)
qed

lemma delete_meets:
  assumes "sk_invariant call s"
  shows "meets call realloc (Sk_delete i) s (sk_operate call realloc (Sk_delete i) (Some s))"
proof (cases "i < num s")
  case True
  then have "unat i < length (elems s)" using sk_invariantD(4) [OF assms] by (simp add: word_less_nat_alt)
  then show ?thesis by (rule_tac delete_outcome [OF assms True]) (auto simp: meets_def returned_by_def)
next
  case False
  then have "length (elems s) \<le> unat i" using sk_invariantD(4) [OF assms] by (simp add: word_le_nat_alt not_less)
  then show ?thesis using False assms delete_beyond [of s i] by (auto simp: meets_def returned_by_def del_at_def)
qed

lemma shift_meets:
  assumes "sk_invariant call s"
  shows "meets call realloc Sk_shift s (sk_operate call realloc Sk_shift (Some s))"
proof (cases "num s = 0")
  case True
  then have "elems s = []" by (simp add: elems_def)
  with True assms show ?thesis by (auto simp: OPENSSL_sk_shift_def meets_def returned_by_def)
next
  case False
  then have "unat (num s) \<noteq> 0" by (simp add: unat_eq_zero)
  then have n: "0 < num s" "elems s \<noteq> []" using False sk_invariantD(4) [OF assms] by (auto simp: word_gt_0)
  show ?thesis
    by (rule delete_outcome [OF assms n(1)])
      (use n False in \<open>auto simp: OPENSSL_sk_shift_def meets_def returned_by_def hd_conv_nth del_at_def drop_Suc\<close>)
qed

lemma pop_meets:
  assumes "sk_invariant call s"
  shows "meets call realloc Sk_pop s (sk_operate call realloc Sk_pop (Some s))"
proof (cases "num s = 0")
  case True
  then have "elems s = []" by (simp add: elems_def)
  with True assms show ?thesis by (auto simp: OPENSSL_sk_pop_def meets_def returned_by_def)
next
  case False
  then have "unat (num s) \<noteq> 0" by (simp add: unat_eq_zero)
  then have n: "num s - 1 < num s" "elems s \<noteq> []" "unat (num s - 1) = length (elems s) - 1"
    using False sk_invariantD(4) [OF assms] by (auto simp: unat_minus_one word_less_nat_alt)
  show ?thesis
    by (rule delete_outcome [OF assms n(1)])
      (use n False in \<open>auto simp: OPENSSL_sk_pop_def meets_def returned_by_def last_conv_nth del_at_def butlast_conv_take\<close>)
qed

text \<open>The searches.\<close>

lemma matches_eqs: "matches call None p = (\<lambda>x. x = p)" "matches call (Some c) None = (\<lambda>x. False)"
  "matches call (Some c) (Some q) = (\<lambda>x. call c (Some q) x = 0)"
  by (simp_all add: fun_eq_iff matches_def)

lemma first_match_simps [simp]: "first_match t [] = None"
  "first_match t (x # xs) = (if t x then Some 0 else map_option Suc (first_match t xs))"
  by (simp_all add: first_match_def)

lemma first_match_None: "(\<And>x. x \<in> set xs \<Longrightarrow> \<not> t x) \<Longrightarrow> first_match t xs = None"
  by (induction xs) auto

lemma first_match_Some:
  assumes "k < length xs" and "t (xs ! k)" and "\<And>j. j < k \<Longrightarrow> \<not> t (xs ! j)"
  shows "first_match t xs = Some k"
proof -
  have "takeWhile (\<lambda>x. \<not> t x) xs = take k xs" using assms by (intro takeWhile_eq_take_P_nth) auto
  with assms(1) show ?thesis by (simp add: first_match_def)
qed

lemma first_index_match:
  assumes "n \<le> length d"
  shows "first_index t d 0 n = Some (first_match t (take n d))"
proof (cases rule: first_index_cases [OF assms, of t 0, case_names none found])
  case none
  then have "first_match t (take n d) = None" using assms by (intro first_match_None) (auto simp: in_set_conv_nth)
  with none(1) show ?thesis by simp
next
  case (found k)
  with assms show ?thesis using first_match_Some [of k "take n d" t] by simp
qed

lemma remove1_first_match: "remove1 p xs = (case first_match (\<lambda>x. x = p) xs of None \<Rightarrow> xs | Some k \<Rightarrow> del_at k xs)"
  by (induction xs) (auto simp: del_at_def split: option.splits)

lemma first_match_member: "first_match (\<lambda>x. x = p) xs = None \<Longrightarrow> p \<notin> set xs"
  "first_match (\<lambda>x. x = p) xs = Some k \<Longrightarrow> k < length xs \<and> xs ! k = p \<and> p \<in> set xs"
  by (induction xs arbitrary: k) (auto split: if_splits)

lemma delete_ptr_meets:
  assumes "sk_invariant call s"
  shows "meets call realloc (Sk_delete_ptr p) s (sk_operate call realloc (Sk_delete_ptr p) (Some s))"
proof -
  note inv = sk_invariantD [OF assms]
  have f: "first_index (\<lambda>x. x = p) (data s) 0 (unat (num s)) = Some (first_match (\<lambda>x. x = p) (elems s))"
    using first_index_match [OF less_imp_le [OF inv(2)]] by (simp add: elems_def)
  show ?thesis
  proof (cases "first_match (\<lambda>x. x = p) (elems s)")
    case None
    with f assms show ?thesis using remove1_first_match [of p "elems s"] first_match_member(1) [OF None]
      by (auto simp: OPENSSL_sk_delete_ptr_def meets_def returned_by_def)
  next
    case (Some k)
    note k = first_match_member(2) [OF Some]
    have u: "unat (of_nat k :: size_t) = k" using k inv(3,4) by (simp add: unat_of_nat take_bit_nat_eq_self)
    then have "of_nat k < num s" using k inv(4) by (simp add: word_less_nat_alt)
    then show ?thesis
      by (rule delete_outcome [OF assms])
        (use f Some k u remove1_first_match [of p "elems s"] in \<open>auto simp: OPENSSL_sk_delete_ptr_def meets_def returned_by_def\<close>)
  qed
qed

lemma find_meets:
  assumes "sk_invariant call s" and "\<And>c. comp s = Some c \<Longrightarrow> comparison (call c)"
  shows "meets call realloc (Sk_find p) s (sk_operate call realloc (Sk_find p) (Some s))"
proof -
  have len: "unat (num s) \<le> length (data s)" using sk_invariantD(2) [OF assms(1)] by simp
  have "OPENSSL_sk_find call (Some s) p = Some (first_match (matches call (comp s) p) (elems s))"
  proof (cases "comp s")
    case None
    then show ?thesis using first_index_match [OF len, of "\<lambda>x. x = p"]
      by (simp add: OPENSSL_sk_find_def elems_def matches_eqs)
  next
    case (Some c)
    have lin: "first_index (\<lambda>x. call c p x = 0) (data s) 0 (unat (num s)) = Some (first_match (\<lambda>x. call c p x = 0) (elems s))"
      using first_index_match [OF len] by (simp add: elems_def)
    have "binary_search (call c p) (data s) 0 (unat (num s)) = first_index (\<lambda>x. call c p x = 0) (data s) 0 (unat (num s))"
      if "OPENSSL_sk_is_sorted (Some s)"
    proof (rule binary_search_linear [OF le0 len comparison.sorted_falling [OF assms(2) [OF Some] _ len]])
      show "sorted_wrt (\<lambda>x y. call c x y \<le> 0) (take (unat (num s)) (data s))"
      proof (cases "sorted_flag s")
        case True
        then show ?thesis using assms(1) Some by (auto simp: sk_invariant_def sorted_by_def elems_def)
      next
        case False
        then have "unat (num s) < 2" using that by (simp add: OPENSSL_sk_is_sorted_def word_less_nat_alt)
        then show ?thesis by (auto simp: sorted_wrt_iff_nth_less)
      qed
    qed
    with lin Some show ?thesis by (cases p) (auto simp: OPENSSL_sk_find_def matches_eqs first_match_None)
  qed
  with assms(1) show ?thesis by (auto simp: meets_def)
qed

lemma keep_if_filter:
  assumes "m \<le> i" and "i \<le> n" and "n \<le> length d"
  shows "\<exists>d'. keep_if t d i n m = Some (d', m + length (filter (\<lambda>x. \<not> t x) (drop i (take n d)))) \<and> length d' = length d \<and>
    take (m + length (filter (\<lambda>x. \<not> t x) (drop i (take n d)))) d' = take m d @ filter (\<lambda>x. \<not> t x) (drop i (take n d))"
  using assms
proof (induction "n - i" arbitrary: d i m)
  case 0
  then show ?case by (subst keep_if.simps) simp
next
  case (Suc k)
  then have i: "i < n" "i < length d" by linarith+
  then have dr: "drop i (take n d) = d ! i # drop (Suc i) (take n d)"
    using Suc.prems(3) by (metis Cons_nth_drop_Suc length_take min.absorb2 nth_take)
  show ?case
  proof (cases "t (d ! i)")
    case True
    then have "keep_if t d i n m = keep_if t d (Suc i) n m" using i by (subst keep_if.simps) (simp add: cell_def)
    with Suc.hyps(1) [of "Suc i" m d] Suc.hyps(2) Suc.prems i dr True show ?thesis by auto
  next
    case False
    let ?d = "d[m := d ! i]"
    have run: "keep_if t d i n m = keep_if t ?d (Suc i) n (Suc m)"
      using i False Suc.prems by (subst keep_if.simps) (simp add: cell_def set_cell_def)
    have "drop (Suc i) (take n ?d) = drop (Suc i) (take n d)" using Suc.prems(1) by (simp add: take_update_swap)
    moreover have "take (Suc m) ?d = take m d @ [d ! i]" using Suc.prems i by (simp add: take_Suc_conv_app_nth)
    ultimately show ?thesis using Suc.hyps(1) [of "Suc i" "Suc m" ?d] Suc.hyps(2) Suc.prems i dr False run by auto
  qed
qed

lemma delete_if_meets:
  assumes "sk_invariant call s"
  shows "meets call realloc (Sk_delete_if t) s (sk_operate call realloc (Sk_delete_if t) (Some s))"
proof -
  note inv = sk_invariantD [OF assms]
  let ?ys = "filter (\<lambda>x. \<not> t x) (elems s)"
  obtain d where d: "keep_if t (data s) 0 (unat (num s)) 0 = Some (d, length ?ys)" "length d = length (data s)" "take (length ?ys) d = ?ys"
    using keep_if_filter [of 0 0 "unat (num s)" "data s" t] inv(2) by (auto simp: elems_def)
  have le: "length ?ys \<le> unat (num s)" using inv(4) by (metis length_filter_le)
  then have u: "unat (of_nat (length ?ys) :: size_t) = length ?ys" using inv(3) by (simp add: unat_of_nat take_bit_nat_eq_self)
  let ?s = "s\<lparr>data := d, num := of_nat (length ?ys)\<rparr>"
  have e: "elems ?s = ?ys" using d(3) u by (simp add: elems_def)
  have "of_nat (length ?ys) \<le> num s" using le u by (simp add: word_le_nat_alt)
  then have "stack_ok ?s" using inv(1) d(2) by (auto simp: stack_ok_def)
  moreover have "sorted_by (call c) ?ys" if "sorted_by (call c) (elems s)" for c
    using that by (simp add: sorted_by_def sorted_wrt_filter)
  ultimately have "sk_invariant call ?s" using assms e by (auto simp: sk_invariant_def)
  with e d(1) show ?thesis by (auto simp: OPENSSL_sk_delete_if_def with_stack_def returned_by_def meets_def)
qed

lemma sort_meets:
  assumes "sk_invariant call s" and "\<And>c. comp s = Some c \<Longrightarrow> comparison (call c)"
  shows "meets call realloc Sk_sort s (sk_operate call realloc Sk_sort (Some s))"
proof (cases "\<exists>c. comp s = Some c \<and> \<not> sorted_flag s")
  case False
  then show ?thesis using assms(1)
    by (cases "comp s") (auto simp: OPENSSL_sk_sort_def with_stack_def returned_by_def meets_def sk_invariant_def)
next
  case True
  then obtain c where c: "comp s = Some c" "\<not> sorted_flag s" by blast
  note inv = sk_invariantD [OF assms(1)]
  obtain d where d: "OPENSSL_sk_sort call (Some s) = Some ((), Some (s\<lparr>data := d, sorted_flag := True\<rparr>))"
    "rearranged (data s) d (unat (num s))" "sorted_wrt (\<lambda>x y. call c x y \<le> 0) (take (unat (num s)) d)"
    using sort_ok [of call c s, OF assms(2) [OF c(1)] c(1) inv(1) c(2)] by blast
  let ?s = "s\<lparr>data := d, sorted_flag := True\<rparr>"
  have "stack_ok ?s" using rearranged_length [OF d(2)] inv(1,2) by (simp add: stack_ok_def)
  then have "sk_invariant call ?s" using c(1) d(3) by (simp add: sk_invariant_def sorted_by_def elems_def)
  moreover have "mset (elems ?s) = mset (elems s)" using d(2) by (simp add: rearranged_def elems_def)
  moreover have "sorted_by (call c) (elems ?s)" using d(3) by (simp add: sorted_by_def elems_def)
  moreover have "sk_abs ?s = (sk_abs s)\<lparr>in_order := True, items := items (sk_abs ?s)\<rparr>" by (simp add: sk_abs_def)
  ultimately show ?thesis using c d(1)
    by (intro meetsI [where r = Sk_done and s' = ?s]) (simp_all add: returned_by_def del: sk_abs_sel(1, 2, 3) add: sk_abs_sel(1, 2))
qed

lemma num_meets: "sk_invariant call s \<Longrightarrow> meets call realloc Sk_num s (sk_operate call realloc Sk_num (Some s))"
  using sk_invariantD(4) [of call s] by (auto simp: OPENSSL_sk_num_def meets_def)

lemma is_sorted_meets:
  assumes "sk_invariant call s"
  shows "meets call realloc Sk_is_sorted s (sk_operate call realloc Sk_is_sorted (Some s))"
proof -
  have "sorted_by (call c) (elems s)" if "num s < 2" for c
    using that by (auto simp: sorted_by_def elems_def word_less_nat_alt sorted_wrt_iff_nth_less)
  moreover have "num s < 2 \<longleftrightarrow> length (elems s) < 2" using sk_invariantD(4) [OF assms] by (simp add: word_less_nat_alt)
  ultimately show ?thesis using assms by (auto simp: OPENSSL_sk_is_sorted_def meets_def sk_invariant_def)
qed

lemma set_cmp_func_meets:
  "sk_invariant call s \<Longrightarrow> meets call realloc (Sk_set_cmp_func c) s (sk_operate call realloc (Sk_set_cmp_func c) (Some s))"
  by (auto simp: OPENSSL_sk_set_cmp_func_def meets_def sk_invariant_def stack_ok_def elems_def)

lemmas sk_meets = num_meets zero_meets value_meets insert_meets push_meets delete_meets delete_ptr_meets delete_if_meets
  find_meets shift_meets pop_meets sort_meets is_sorted_meets set_cmp_func_meets

text \<open>The comparison function of a stack of byte strings: \<open>compare_set_of_element\<close> on what the pointers point to.\<close>

definition call_compare :: "(byte list, unit) call_cmp" where
  "call_compare c x y = compare_set_of_element (the x) (the y)"

interpretation stack_elements: comparison "call_compare c"
  by unfold_locales (auto simp: call_compare_def set_elements.cmp_swap intro: set_elements.cmp_trans)

text \<open>The copies that \<open>OPENSSL_sk_deep_copy\<close> makes.\<close>

lemma copy_elements_all:
  "(\<And>p. Some p \<in> set xs \<Longrightarrow> copy p \<noteq> None) \<Longrightarrow> copy_elements copy ys xs = Inr (ys @ map (\<lambda>x. Option.bind x copy) xs)"
proof (induction copy ys xs rule: copy_elements.induct)
  case (3 copy ys p xs)
  then obtain q where "copy p = Some q" by fastforce
  with 3 show ?case by simp
qed auto

lemma copy_elements_fail:
  "copy p = None \<Longrightarrow> (\<And>q. Some q \<in> set xs \<Longrightarrow> copy q \<noteq> None) \<Longrightarrow>
   copy_elements copy ys (xs @ Some p # zs) = Inl (map the (filter (\<lambda>q. q \<noteq> None) (ys @ map (\<lambda>x. Option.bind x copy) xs)))"
proof (induction copy ys xs rule: copy_elements.induct)
  case (3 copy ys q xs)
  then obtain r where "copy q = Some r" by fastforce
  with 3 show ?case by simp
qed auto

section \<open>Properties\<close>

text \<open>C16: On a stack whose flag is true of its elements, every operation returns (no read or write outside the array, no failed assertion) and does to the elements, the comparison function, the flag and the capacity what its specification says; an insertion is refused only at \<open>INT_MAX\<close> elements or when the array is full and twice the size cannot be had. The array stays in shape, and the flag true of the elements, but for \<open>OPENSSL_sk_set\<close> on a stack whose flag is set.\<close>

theorem stack_refines_list:
  assumes "sk_invariant call s" and "\<forall>c. comp s = Some c \<longrightarrow> comparison (call c)"
  shows "\<exists>r s'. sk_operate call realloc op (Some s) = Some (r, Some s') \<and>
    sk_spec call realloc op (sk_abs s) r (sk_abs s') \<and> stack_ok s' \<and>
    (sk_invariant call s' \<or> sorted_flag s \<and> (\<exists>i v. op = Sk_set i v))"
proof (cases "\<exists>i v. op = Sk_set i v")
  case True
  then show ?thesis using set_outcome [OF assms(1)] by blast
next
  case False
  then have "meets call realloc op s (sk_operate call realloc op (Some s))"
    using assms by (cases op) (auto intro: sk_meets simp del: sk_operate.simps)
  then show ?thesis unfolding meets_def using sk_invariantD(1) by blast
qed

text \<open>C17: \<open>OPENSSL_sk_sort\<close>, which is a heap sort in place, returns and leaves the same elements in ascending order; from then on \<open>OPENSSL_sk_find\<close>, which is a binary search, finds for every pointer the first element that compares equal, or nothing when none does.\<close>

theorem sort_then_find:
  assumes "sk_invariant call s" and "comp s = Some c" and "comparison (call c)"
  shows "\<exists>s'. OPENSSL_sk_sort call (Some s) = Some ((), Some s') \<and> mset (elems s') = mset (elems s) \<and>
    sorted_by (call c) (elems s') \<and>
    (\<forall>q. OPENSSL_sk_find call (Some s') (Some q) = Some (first_match (\<lambda>x. call c (Some q) x = 0) (elems s')))"
proof -
  have c: "comp s = Some c' \<Longrightarrow> comparison (call c')" for c' using assms(2,3) by simp
  from sort_meets [OF assms(1) c, of undefined] obtain s' where s': "OPENSSL_sk_sort call (Some s) = Some ((), Some s')"
    "mset (elems s') = mset (elems s)" "sorted_by (call c) (elems s')" "comp s' = Some c" "sk_invariant call s'"
    using assms(1,2) by (auto simp: meets_def returned_by_def sk_abs_eq_iff sk_invariant_def split: if_splits)
  have "OPENSSL_sk_find call (Some s') (Some q) = Some (first_match (\<lambda>x. call c (Some q) x = 0) (elems s'))" for q
    using find_meets [OF s'(5), where p = "Some q" and realloc = "\<lambda>_. None"] s'(4) assms(3) by (auto simp: meets_def matches_eqs)
  with s' show ?thesis by blast
qed

text \<open>C18: \<open>OPENSSL_sk_deep_copy\<close> copies every element that is not null; if the first that cannot be copied is \<open>p\<close>, it gives the stack up and frees the copies of the elements before \<open>p\<close>, each once and nothing else.\<close>

theorem deep_copy_frees:
  assumes "stack_ok s" and "elems s = xs @ Some p # zs" and "copy p = None" and "\<forall>q. Some q \<in> set xs \<longrightarrow> copy q \<noteq> None"
  shows "OPENSSL_sk_deep_copy True True copy (Some s) = Some (None, map (\<lambda>q. the (copy q)) (map the (filter (\<lambda>x. x \<noteq> None) xs)))"
proof -
  have "map the (filter (\<lambda>q. q \<noteq> None) (map (\<lambda>x. Option.bind x copy) xs)) = map (\<lambda>q. the (copy q)) (map the (filter (\<lambda>x. x \<noteq> None) xs))"
    using assms(4)
  proof (induction xs)
    case (Cons x xs)
    then show ?case by (cases x) auto
  qed simp
  with copy_elements_fail [of copy p xs "[]" zs] assms(2-4) stack_okD(1) [OF assms(1)] assms(1) show ?thesis
    by (simp add: OPENSSL_sk_deep_copy_def OPENSSL_sk_dup_def elems_def stack_ok_def)
qed





definition three_unsorted :: "(byte list, unit) stack_st" where
  "three_unsorted = \<lparr>num = 3, data = [Some [2], Some [1], Some [2], None], sorted_flag = False, num_alloc = 4, comp = Some ()\<rparr>"

lemma three_unsorted_ok: "sk_invariant call_compare three_unsorted"
  by (simp add: three_unsorted_def sk_invariant_def stack_ok_def INT_MAX_def)

lemma stack_refines_list_witness:
  "\<exists>r s'. sk_operate call_compare (\<lambda>_. None) (Sk_push (Some [7])) (Some three_unsorted) = Some (r, Some s') \<and>
    sk_spec call_compare (\<lambda>_. None) (Sk_push (Some [7])) (sk_abs three_unsorted) r (sk_abs s') \<and> stack_ok s' \<and>
    (sk_invariant call_compare s' \<or> sorted_flag three_unsorted \<and> (\<exists>i v. Sk_push (Some [7 :: byte]) = (Sk_set i v :: (byte list, unit) sk_op)))"
  by (rule stack_refines_list) (simp_all only: three_unsorted_ok stack_elements.comparison_axioms simp_thms)

lemma sort_then_find_witness:
  "\<exists>s'. OPENSSL_sk_sort call_compare (Some three_unsorted) = Some ((), Some s') \<and> mset (elems s') = mset (elems three_unsorted) \<and>
    sorted_by (call_compare ()) (elems s') \<and>
    (\<forall>q. OPENSSL_sk_find call_compare (Some s') (Some q) = Some (first_match (\<lambda>x. call_compare () (Some q) x = 0) (elems s')))"
proof (rule sort_then_find [OF three_unsorted_ok _ stack_elements.comparison_axioms])
  show "comp three_unsorted = Some ()" by (simp add: three_unsorted_def)
qed

lemma deep_copy_frees_witness:
  "OPENSSL_sk_deep_copy True True (\<lambda>p. if p = [1] then None else Some (0 # p)) (Some three_unsorted) = Some (None, [[0, 2]])"
proof -
  have e: "elems three_unsorted = [Some [2]] @ Some [1] # [Some [2]]" by code_simp
  have "stack_ok three_unsorted" using three_unsorted_ok by (simp add: sk_invariant_def)
  from deep_copy_frees [OF this e, of "\<lambda>p. if p = [1] then None else Some (0 # p)"] show ?thesis by simp
qed

end
