(* ===== verification/SipHash.thy ===== *)
theory SipHash
  imports Cbs
begin

text \<open>
  SipHash-2-4 (\<open>crypto/siphash/siphash.c\<close>), with which BoringSSL hashes buffers, and its specification: the
  words of the padded message absorbed one after the other. The state \<open>v[4]\<close> is a quadruple.
\<close>

declare bit_numeral_word_iff [simp del]

type_synonym sip_state = "u64 \<times> u64 \<times> u64 \<times> u64"

definition CRYPTO_rotl_u64 :: "u64 \<Rightarrow> nat \<Rightarrow> u64" where
  "CRYPTO_rotl_u64 v shift = push_bit shift v OR drop_bit ((64 - shift) mod 64) v"

definition siphash_round :: "sip_state \<Rightarrow> sip_state" where
  "siphash_round = (\<lambda>(v0, v1, v2, v3).
     let v0 = v0 + v1; v2 = v2 + v3;
         v1 = CRYPTO_rotl_u64 v1 13; v3 = CRYPTO_rotl_u64 v3 16;
         v1 = v1 XOR v0; v3 = v3 XOR v2;
         v0 = CRYPTO_rotl_u64 v0 32; v2 = v2 + v1;
         v0 = v0 + v3; v1 = CRYPTO_rotl_u64 v1 17;
         v3 = CRYPTO_rotl_u64 v3 21; v1 = v1 XOR v2;
         v3 = v3 XOR v0; v2 = CRYPTO_rotl_u64 v2 32
     in (v0, v1, v2, v3))"

text \<open>A word goes into \<open>v[3]\<close>, two rounds run, and it goes into \<open>v[0]\<close>.\<close>

definition sip_absorb :: "u64 \<Rightarrow> sip_state \<Rightarrow> sip_state" where
  "sip_absorb m = (\<lambda>(v0, v1, v2, v3).
     let (v0, v1, v2, v3) = siphash_round (siphash_round (v0, v1, v2, v3 XOR m)) in (v0 XOR m, v1, v2, v3))"

text \<open>The loop over whole words: the state and the input left.\<close>

function sip_words :: "sip_state \<Rightarrow> byte list \<Rightarrow> sip_state \<times> byte list" where
  "sip_words v input = (if length input \<ge> 8 then sip_words (sip_absorb (CRYPTO_load_u64_le input) v) (drop 8 input) else (v, input))"
  by pat_completeness auto
termination by (relation "measure (\<lambda>(_, input). length input)") auto

declare sip_words.simps [simp del]

definition sip_init :: "u64 \<times> u64 \<Rightarrow> sip_state" where
  "sip_init key = (fst key XOR 0x736f6d6570736575, snd key XOR 0x646f72616e646f6d, fst key XOR 0x6c7967656e657261, snd key XOR 0x7465646279746573)"

definition sip_finish :: "sip_state \<Rightarrow> u64" where
  "sip_finish = (\<lambda>(v0, v1, v2, v3).
     let (v0, v1, v2, v3) = siphash_round (siphash_round (siphash_round (siphash_round (v0, v1, v2 XOR 0xff, v3)))) in
     v0 XOR v1 XOR v2 XOR v3)"

definition SIPHASH_24 :: "u64 \<times> u64 \<Rightarrow> byte list \<Rightarrow> u64" where
  "SIPHASH_24 key input = (let (v, rest) = sip_words (sip_init key) input;
     last_block = replicate 8 0;
     last_block = rest @ drop (length rest) last_block;
     last_block = last_block[7 := ucast ((of_nat (length input) :: size_t) AND 0xff)];
     v = sip_absorb (CRYPTO_load_u64_le last_block) v
   in sip_finish v)"

section \<open>Specification\<close>

text \<open>The message, zeros up to a multiple of eight but one, and the length modulo 256.\<close>

definition sip_padded :: "byte list \<Rightarrow> byte list" where
  "sip_padded input = input @ replicate (7 - length input mod 8) 0 @ [of_nat (length input)]"

fun chunks :: "nat \<Rightarrow> 'a list \<Rightarrow> 'a list list" where
  "chunks 0 xs = []"
| "chunks (Suc n) xs = take 8 xs # chunks n (drop 8 xs)"

definition sip_spec :: "u64 \<times> u64 \<Rightarrow> byte list \<Rightarrow> u64" where
  "sip_spec key input = sip_finish (fold sip_absorb (map le_word (chunks (length input div 8 + 1) (sip_padded input))) (sip_init key))"

lemma sip_words_fold:
  "length rest < 8 \<Longrightarrow> sip_words v (input @ rest) = (fold sip_absorb (map le_word (chunks n (input @ rest))) v, rest)"
  if "length input = 8 * n" for n
  using that
proof (induction n arbitrary: v input)
  case 0
  then show ?case by (subst sip_words.simps) simp
next
  case (Suc n)
  then have "8 \<le> length (input @ rest)" by simp
  moreover have "drop 8 (input @ rest) = drop 8 input @ rest" using Suc.prems by simp
  moreover have "length (drop 8 input) = 8 * n" using Suc.prems by simp
  ultimately show ?case using Suc.IH [of "drop 8 input"] Suc.prems(1)
    by (subst sip_words.simps) (simp add: CRYPTO_load_u64_le_def)
qed

lemma chunks_append: "length xs = 8 * n \<Longrightarrow> chunks (n + m) (xs @ ys) = chunks n xs @ chunks m ys"
proof (induction n arbitrary: xs)
  case (Suc n)
  then show ?case by simp
qed simp

text \<open>C22: \<open>SIPHASH_24\<close>, which reads the message word by word and pads the rest in a buffer of its own, is the hash of the message padded as a whole.\<close>

theorem siphash_padded: "SIPHASH_24 key input = sip_spec key input"
proof -
  define n where "n = length input div 8"
  define a where "a = take (8 * n) input"
  define r where "r = drop (8 * n) input"
  have ar: "input = a @ r" "length a = 8 * n" "length r < 8" "length r = length input mod 8"
    by (simp_all add: a_def r_def n_def minus_mult_div_eq_mod [symmetric])
  have w: "sip_words (sip_init key) input = (fold sip_absorb (map le_word (chunks n a)) (sip_init key), r)"
    using sip_words_fold [OF ar(2,3), of "sip_init key"] chunks_append [OF ar(2), of 0 r] ar(1) by simp
  define x where "x = (of_nat (length input) :: byte)"
  have m: "(0xff :: size_t) = mask 8" by (simp add: mask_eq_exp_minus_1)
  have u: "ucast ((of_nat (length input) :: size_t) AND 0xff) = x"
    unfolding m by (intro bit_word_eqI) (auto simp: x_def bit_unsigned_iff bit_and_iff bit_mask_iff bit_of_nat_iff)
  have "replicate (8 - length r) (0 :: byte) = replicate (7 - length r) 0 @ [0]"
    using ar(3) by (simp add: replicate_append_same Suc_diff_le flip: replicate_Suc)
  then have l: "(r @ replicate (8 - length r) 0)[7 := x] = r @ replicate (7 - length r) 0 @ [x]"
    using ar(3) by (simp add: list_update_append)
  have t: "take 8 (r @ replicate (7 - length r) 0 @ [x]) = r @ replicate (7 - length r) 0 @ [x]" using ar(3) by simp
  have run: "SIPHASH_24 key input = sip_finish (sip_absorb (le_word (r @ replicate (7 - length r) 0 @ [x])) (fold sip_absorb (map le_word (chunks n a)) (sip_init key)))"
    unfolding SIPHASH_24_def w Let_def prod.case drop_replicate u l CRYPTO_load_u64_le_def t ..
  have "sip_padded input = a @ r @ replicate (7 - length r) 0 @ [x]"
    unfolding sip_padded_def x_def ar(4) using ar(1) by (metis append.assoc)
  moreover have "chunks 1 (r @ replicate (7 - length r) 0 @ [x]) = [r @ replicate (7 - length r) 0 @ [x]]"
    unfolding One_nat_def chunks.simps t ..
  ultimately have "chunks (n + 1) (sip_padded input) = chunks n a @ [r @ replicate (7 - length r) 0 @ [x]]"
    by (simp only: chunks_append [OF ar(2)])
  then show ?thesis by (simp add: run sip_spec_def n_def)
qed

end
