(* ===== verification/LHash.thy ===== *)
theory LHash
  imports Prelude
begin

text \<open>
  BoringSSL's hash table (\<open>crypto/lhash/lhash.c\<close>). A chain is the list of its items, and a pointer to the
  pointer to an item, as \<open>get_next_ptr_and_hash\<close> answers it, is the number of a bucket and a position
  in its chain; the position behind the last item is where the null pointer is. The hash and comparison functions
  are known by names, which the helpers of the caller call. The allocator says for each size whether it succeeds.
  A result \<open>None\<close> is a failed assertion, a division by zero or an access outside the array.
\<close>

record 'a lhash_item_st =
  item_data :: 'a
  item_hash :: u32

record ('a, 'h, 'c) lhash_st =
  num_items :: size_t
  buckets :: "'a lhash_item_st list list"
  num_buckets :: size_t
  callback_depth :: u32
  lh_comp :: 'c
  lh_hash :: 'h

type_synonym ('a, 'h) call_hash = "'h \<Rightarrow> 'a \<Rightarrow> u32"
type_synonym ('a, 'c) call_lh_cmp = "'c \<Rightarrow> 'a \<Rightarrow> 'a \<Rightarrow> int"

definition kMinNumBuckets :: size_t where "kMinNumBuckets = 16"
definition kMaxAverageChainLength :: size_t where "kMaxAverageChainLength = 2"
definition kMinAverageChainLength :: size_t where "kMinAverageChainLength = 1"

definition OPENSSL_lh_new :: "bool \<Rightarrow> bool \<Rightarrow> 'h \<Rightarrow> 'c \<Rightarrow> ('a, 'h, 'c) lhash_st option" where
  "OPENSSL_lh_new zalloc_ok calloc_ok hash compare =
     (if \<not> zalloc_ok \<or> \<not> calloc_ok then None
      else Some \<lparr>num_items = 0, buckets = replicate (unat kMinNumBuckets) [], num_buckets = kMinNumBuckets,
                 callback_depth = 0, lh_comp = compare, lh_hash = hash\<rparr>)"

definition OPENSSL_lh_num_items :: "('a, 'h, 'c) lhash_st \<Rightarrow> size_t" where
  "OPENSSL_lh_num_items lh = num_items lh"

section \<open>Searching\<close>

text \<open>\<open>hash % num_buckets\<close>, for a table that has this bucket.\<close>

definition bucket_of :: "('a, 'h, 'c) lhash_st \<Rightarrow> u32 \<Rightarrow> nat option" where
  "bucket_of lh h = (if num_buckets lh = 0 then None
     else let b = unat ((ucast h :: size_t) mod num_buckets lh) in if b < length (buckets lh) then Some b else None)"

fun chain_search :: "('a \<Rightarrow> int) \<Rightarrow> 'a lhash_item_st list \<Rightarrow> nat" where
  "chain_search cmp [] = 0"
| "chain_search cmp (cur # items) = (if cmp (item_data cur) = 0 then 0 else Suc (chain_search cmp items))"

definition get_next_ptr_and_hash :: "('a, 'h) call_hash \<Rightarrow> ('a, 'c) call_lh_cmp \<Rightarrow> ('a, 'h, 'c) lhash_st \<Rightarrow> 'a \<Rightarrow> (u32 \<times> nat \<times> nat) option" where
  "get_next_ptr_and_hash call_hash_func call_cmp_func lh x = (let h = call_hash_func (lh_hash lh) x in do {
     b \<leftarrow> bucket_of lh h;
     Some (h, b, chain_search (\<lambda>y. call_cmp_func (lh_comp lh) y x) (buckets lh ! b)) })"

definition get_next_ptr_by_key :: "('a, 'h, 'c) lhash_st \<Rightarrow> u32 \<Rightarrow> ('a \<Rightarrow> int) \<Rightarrow> (nat \<times> nat) option" where
  "get_next_ptr_by_key lh key_hash cmp_key = do {
     b \<leftarrow> bucket_of lh key_hash;
     Some (b, chain_search cmp_key (buckets lh ! b)) }"

text \<open>\<open>*next_ptr\<close>\<close>

definition item_at :: "('a, 'h, 'c) lhash_st \<Rightarrow> nat \<Rightarrow> nat \<Rightarrow> 'a lhash_item_st option" where
  "item_at lh b k = (if k < length (buckets lh ! b) then Some (buckets lh ! b ! k) else None)"

definition OPENSSL_lh_retrieve :: "('a, 'h) call_hash \<Rightarrow> ('a, 'c) call_lh_cmp \<Rightarrow> ('a, 'h, 'c) lhash_st \<Rightarrow> 'a \<Rightarrow> 'a option option" where
  "OPENSSL_lh_retrieve call_hash_func call_cmp_func lh x = do {
     (_, b, k) \<leftarrow> get_next_ptr_and_hash call_hash_func call_cmp_func lh x;
     Some (map_option item_data (item_at lh b k)) }"

definition OPENSSL_lh_retrieve_key :: "('a, 'h, 'c) lhash_st \<Rightarrow> u32 \<Rightarrow> ('a \<Rightarrow> int) \<Rightarrow> 'a option option" where
  "OPENSSL_lh_retrieve_key lh key_hash cmp_key = do {
     (b, k) \<leftarrow> get_next_ptr_by_key lh key_hash cmp_key;
     Some (map_option item_data (item_at lh b k)) }"

section \<open>Resizing\<close>

text \<open>An item goes to the front of its new chain.\<close>

definition rebucket_item :: "size_t \<Rightarrow> 'a lhash_item_st \<Rightarrow> 'a lhash_item_st list list \<Rightarrow> 'a lhash_item_st list list" where
  "rebucket_item new_num_buckets cur new_buckets = (let b = unat ((ucast (item_hash cur) :: size_t) mod new_num_buckets) in
     new_buckets[b := cur # new_buckets ! b])"

definition lh_rebucket :: "(nat \<Rightarrow> bool) \<Rightarrow> ('a, 'h, 'c) lhash_st \<Rightarrow> size_t \<Rightarrow> ('a, 'h, 'c) lhash_st option" where
  "lh_rebucket zalloc lh new_num_buckets = (let alloc_size = 8 * new_num_buckets in
     if alloc_size div 8 \<noteq> new_num_buckets \<or> \<not> zalloc (unat alloc_size) then Some lh
     else if length (buckets lh) < unat (num_buckets lh) \<or> new_num_buckets = 0 then None
     else Some (lh\<lparr>buckets := fold (rebucket_item new_num_buckets) (concat (take (unat (num_buckets lh)) (buckets lh)))
                                (replicate (unat new_num_buckets) []),
                   num_buckets := new_num_buckets\<rparr>))"

definition lh_maybe_resize :: "(nat \<Rightarrow> bool) \<Rightarrow> ('a, 'h, 'c) lhash_st \<Rightarrow> ('a, 'h, 'c) lhash_st option" where
  "lh_maybe_resize zalloc lh =
     (if callback_depth lh > 0 then Some lh
      else if num_buckets lh < kMinNumBuckets then None
      else let avg_chain_length = num_items lh div num_buckets lh in
        if avg_chain_length > kMaxAverageChainLength then
          let new_num_buckets = num_buckets lh * 2 in
          if new_num_buckets > num_buckets lh then lh_rebucket zalloc lh new_num_buckets else Some lh
        else if avg_chain_length < kMinAverageChainLength \<and> num_buckets lh > kMinNumBuckets then
          let new_num_buckets = num_buckets lh div 2;
              new_num_buckets = (if new_num_buckets < kMinNumBuckets then kMinNumBuckets else new_num_buckets) in
          lh_rebucket zalloc lh new_num_buckets
        else Some lh)"

section \<open>Changing the table\<close>

text \<open>The C result, what goes to \<open>*old_data\<close>, and the table.\<close>

definition OPENSSL_lh_insert :: "bool \<Rightarrow> (nat \<Rightarrow> bool) \<Rightarrow> ('a, 'h) call_hash \<Rightarrow> ('a, 'c) call_lh_cmp \<Rightarrow> ('a, 'h, 'c) lhash_st \<Rightarrow> 'a \<Rightarrow> (bool \<times> 'a option \<times> ('a, 'h, 'c) lhash_st) option" where
  "OPENSSL_lh_insert malloc_ok zalloc call_hash_func call_cmp_func lh x = do {
     (h, b, k) \<leftarrow> get_next_ptr_and_hash call_hash_func call_cmp_func lh x;
     (case item_at lh b k of
        Some item \<Rightarrow> Some (True, Some (item_data item), lh\<lparr>buckets := (buckets lh)[b := (buckets lh ! b)[k := item\<lparr>item_data := x\<rparr>]]\<rparr>)
      | None \<Rightarrow>
          if \<not> malloc_ok then Some (False, None, lh)
          else do {
            lh \<leftarrow> lh_maybe_resize zalloc (lh\<lparr>buckets := (buckets lh)[b := buckets lh ! b @ [\<lparr>item_data = x, item_hash = h\<rparr>]],
                                              num_items := num_items lh + 1\<rparr>);
            Some (True, None, lh) }) }"

definition OPENSSL_lh_delete :: "(nat \<Rightarrow> bool) \<Rightarrow> ('a, 'h) call_hash \<Rightarrow> ('a, 'c) call_lh_cmp \<Rightarrow> ('a, 'h, 'c) lhash_st \<Rightarrow> 'a \<Rightarrow> ('a option \<times> ('a, 'h, 'c) lhash_st) option" where
  "OPENSSL_lh_delete zalloc call_hash_func call_cmp_func lh x = do {
     (_, b, k) \<leftarrow> get_next_ptr_and_hash call_hash_func call_cmp_func lh x;
     (case item_at lh b k of
        None \<Rightarrow> Some (None, lh)
      | Some item \<Rightarrow> do {
          lh \<leftarrow> lh_maybe_resize zalloc (lh\<lparr>buckets := (buckets lh)[b := take k (buckets lh ! b) @ drop (Suc k) (buckets lh ! b)],
                                            num_items := num_items lh - 1\<rparr>);
          Some (Some (item_data item), lh) }) }"

text \<open>
  The items are passed to the caller's function, a change of the caller's state \<open>s\<close>; it does not use the
  table here. The depth counts up and down again without wrapping around.
\<close>

definition OPENSSL_lh_doall_arg :: "(nat \<Rightarrow> bool) \<Rightarrow> ('a \<Rightarrow> 's \<Rightarrow> 's) \<Rightarrow> ('a, 'h, 'c) lhash_st option \<Rightarrow> 's \<Rightarrow> (('a, 'h, 'c) lhash_st option \<times> 's) option" where
  "OPENSSL_lh_doall_arg zalloc func lh s = (case lh of
     None \<Rightarrow> Some (None, s)
   | Some lh \<Rightarrow>
       let lh = (if callback_depth lh < 0xFFFFFFFF then lh\<lparr>callback_depth := callback_depth lh + 1\<rparr> else lh) in
       if length (buckets lh) < unat (num_buckets lh) then None
       else let s = fold (\<lambda>item. func (item_data item)) (concat (take (unat (num_buckets lh)) (buckets lh))) s;
                lh = (if callback_depth lh < 0xFFFFFFFF then lh\<lparr>callback_depth := callback_depth lh - 1\<rparr> else lh) in
         do { lh \<leftarrow> lh_maybe_resize zalloc lh; Some (Some lh, s) })"

end
