(* ===== verification/LHashSpec.thy ===== *)
theory LHashSpec
  imports LHash "HOL-Library.Multiset"
begin

text \<open>
  What a hash table promises: the locale \<open>keyed_table\<close>, over the multiset of the elements, of which at most one
  is equal to any given one. The locale \<open>hashing\<close> is what \<open>lhash.c\<close> asks of its caller's functions, that
  comparing equal is an equivalence and that equal elements have equal hashes; under it the code keeps the promise.
\<close>

section \<open>Interfaces\<close>

locale hashing =
  fixes hash :: "'a \<Rightarrow> u32" and cmp :: "'a \<Rightarrow> 'a \<Rightarrow> int"
  assumes equal_refl: "cmp x x = 0"
    and equal_sym: "cmp x y = 0 \<Longrightarrow> cmp y x = 0"
    and equal_trans: "cmp x y = 0 \<Longrightarrow> cmp y z = 0 \<Longrightarrow> cmp x z = 0"
    and equal_hash: "cmp x y = 0 \<Longrightarrow> hash x = hash y"

definition matching :: "('a \<Rightarrow> 'a \<Rightarrow> int) \<Rightarrow> 'a multiset \<Rightarrow> 'a \<Rightarrow> 'a multiset" where
  "matching cmp E x = filter_mset (\<lambda>y. cmp y x = 0) E"

lemma minus_matching: "E - matching cmp E x = filter_mset (\<lambda>y. cmp y x \<noteq> 0) E"
  by (metis add_diff_cancel_left' matching_def multiset_partition)

definition at_most_one :: "('a \<Rightarrow> 'a \<Rightarrow> int) \<Rightarrow> 'a multiset \<Rightarrow> bool" where
  "at_most_one cmp E \<longleftrightarrow> (\<forall>x. size (matching cmp E x) \<le> 1)"

definition opt_mset :: "'a option \<Rightarrow> 'a multiset" where
  "opt_mset r = (case r of None \<Rightarrow> {#} | Some y \<Rightarrow> {#y#})"

lemma opt_mset_simps [simp]: "opt_mset None = {#}" "opt_mset (Some y) = {#y#}"
  by (simp_all add: opt_mset_def)

locale keyed_table =
  fixes ok :: "'t \<Rightarrow> bool" and elements :: "'t \<Rightarrow> 'a multiset" and cmp :: "'a \<Rightarrow> 'a \<Rightarrow> int"
    and look :: "'t \<Rightarrow> 'a \<Rightarrow> 'a option option"
    and ins :: "bool \<Rightarrow> (nat \<Rightarrow> bool) \<Rightarrow> 't \<Rightarrow> 'a \<Rightarrow> (bool \<times> 'a option \<times> 't) option"
    and del :: "(nat \<Rightarrow> bool) \<Rightarrow> 't \<Rightarrow> 'a \<Rightarrow> ('a option \<times> 't) option"
  assumes unique: "ok t \<Longrightarrow> at_most_one cmp (elements t)"
    and look: "ok t \<Longrightarrow> \<exists>r. look t x = Some r \<and> opt_mset r = matching cmp (elements t) x"
    and ins: "ok t \<Longrightarrow> \<exists>b old t'. ins m z t x = Some (b, old, t') \<and> ok t' \<and> opt_mset old = matching cmp (elements t) x \<and>
      b = (m \<or> old \<noteq> None) \<and> elements t' = (if b then elements t - matching cmp (elements t) x + {#x#} else elements t)"
    and del: "ok t \<Longrightarrow> \<exists>r t'. del z t x = Some (r, t') \<and> ok t' \<and> opt_mset r = matching cmp (elements t) x \<and>
      elements t' = elements t - matching cmp (elements t) x"
    and refl: "cmp x x = 0"
begin

text \<open>The client's view: what was inserted is found, what was deleted is not.\<close>

lemma look_inserted:
  assumes "ok t" and "ins m z t x = Some (True, old, t')"
  shows "ok t'" and "look t' x = Some (Some x)"
proof -
  from ins [OF assms(1), of m z x] assms(2) have t': "ok t'" "elements t' = elements t - matching cmp (elements t) x + {#x#}" by auto
  obtain r where r: "look t' x = Some r" "opt_mset r = matching cmp (elements t') x" using look [OF t'(1)] by blast
  have "x \<in># matching cmp (elements t') x" using t'(2) refl by (simp add: matching_def)
  moreover have "size (matching cmp (elements t') x) \<le> 1" using unique [OF t'(1)] by (simp add: at_most_one_def)
  ultimately have "matching cmp (elements t') x = {#x#}" by (auto dest!: multi_member_split)
  with r have "r = Some x" by (cases r) auto
  with r(1) t'(1) show "ok t'" "look t' x = Some (Some x)" by simp_all
qed

lemma look_deleted:
  assumes "ok t" and "del z t x = Some (r, t')"
  shows "ok t'" and "look t' x = Some None"
proof -
  from del [OF assms(1), of z x] assms(2) have t': "ok t'" "elements t' = elements t - matching cmp (elements t) x" by auto
  then have "matching cmp (elements t') x = {#}" by (simp add: minus_matching) (simp add: matching_def)
  with look [OF t'(1), of x] show "ok t'" "look t' x = Some None" using t'(1) by (auto simp: opt_mset_def split: option.splits)
qed

end

section \<open>The invariant\<close>

definition items :: "('a, 'h, 'c) lhash_st \<Rightarrow> 'a lhash_item_st list" where
  "items lh = concat (buckets lh)"

definition lh_elements :: "('a, 'h, 'c) lhash_st \<Rightarrow> 'a multiset" where
  "lh_elements lh = mset (map item_data (items lh))"

text \<open>Each item lies in the bucket of its hash, which is the hash of its data.\<close>

definition placed :: "('a \<Rightarrow> u32) \<Rightarrow> size_t \<Rightarrow> 'a lhash_item_st list list \<Rightarrow> bool" where
  "placed hash n bs \<longleftrightarrow> (\<forall>b < length bs. \<forall>i \<in> set (bs ! b). item_hash i = hash (item_data i) \<and> unat ((ucast (item_hash i) :: size_t) mod n) = b)"

definition lh_ok :: "('a, 'h) call_hash \<Rightarrow> ('a, 'c) call_lh_cmp \<Rightarrow> ('a, 'h, 'c) lhash_st \<Rightarrow> bool" where
  "lh_ok call_hash call_cmp lh \<longleftrightarrow> length (buckets lh) = unat (num_buckets lh) \<and> kMinNumBuckets \<le> num_buckets lh \<and>
     num_items lh = of_nat (size (lh_elements lh)) \<and> placed (call_hash (lh_hash lh)) (num_buckets lh) (buckets lh) \<and>
     at_most_one (call_cmp (lh_comp lh)) (lh_elements lh)"

lemma placedD: "placed hash n bs \<Longrightarrow> b < length bs \<Longrightarrow> i \<in> set (bs ! b) \<Longrightarrow>
    item_hash i = hash (item_data i) \<and> b = unat ((ucast (item_hash i) :: size_t) mod n)"
  unfolding placed_def by (metis (no_types))

lemma mset_concat_update:
  "b < length bs \<Longrightarrow> mset (concat (bs[b := c])) + mset (bs ! b) = mset (concat bs) + mset c"
proof (induction bs arbitrary: b)
  case (Cons x bs)
  then show ?case by (cases b) (auto simp: ac_simps)
qed simp

lemma mod_less: "n \<noteq> 0 \<Longrightarrow> unat ((w :: size_t) mod n) < unat n"
proof -
  assume "n \<noteq> 0"
  then have "w mod n < n" by (intro word_mod_less_divisor) (simp only: word_gt_0 not_False_eq_True)
  then show ?thesis by (simp only: word_less_nat_alt)
qed

lemma rebucket_step:
  assumes "length bs = unat n" and "n \<noteq> 0" and "placed hash n bs" and "item_hash i = hash (item_data i)"
  shows "length (rebucket_item n i bs) = unat n \<and> placed hash n (rebucket_item n i bs) \<and>
    mset (concat (rebucket_item n i bs)) = add_mset i (mset (concat bs))"
proof -
  define b where "b = unat ((ucast (item_hash i) :: size_t) mod n)"
  have b: "b < length bs" using mod_less [OF assms(2)] assms(1) by (simp add: b_def)
  have r: "rebucket_item n i bs = bs[b := i # bs ! b]" by (simp add: rebucket_item_def b_def Let_def)
  have "placed hash n (bs[b := i # bs ! b])"
    unfolding placed_def
  proof (intro allI impI ballI)
    fix k j assume *: "k < length (bs[b := i # bs ! b])" "j \<in> set (bs[b := i # bs ! b] ! k)"
    show "item_hash j = hash (item_data j) \<and> unat ((ucast (item_hash j) :: size_t) mod n) = k"
    proof (cases "k = b")
      case True
      then have "j = i \<or> j \<in> set (bs ! b)" using * b by simp
      then show ?thesis using assms(3,4) b True unfolding placed_def b_def by blast
    next
      case False
      then have "k < length bs" "j \<in> set (bs ! k)" using * by simp_all
      then show ?thesis using assms(3) unfolding placed_def by blast
    qed
  qed
  moreover have "mset (concat (bs[b := i # bs ! b])) = add_mset i (mset (concat bs))"
    using mset_concat_update [OF b, of "i # bs ! b"] by simp
  ultimately show ?thesis using assms(1) r by simp
qed

lemma rebucket_all:
  assumes "length bs = unat n" and "n \<noteq> 0" and "placed hash n bs" and "\<forall>i \<in> set xs. item_hash i = hash (item_data i)"
  shows "length (fold (rebucket_item n) xs bs) = unat n \<and> placed hash n (fold (rebucket_item n) xs bs) \<and>
    mset (concat (fold (rebucket_item n) xs bs)) = mset xs + mset (concat bs)"
  using assms
proof (induction xs arbitrary: bs)
  case (Cons i xs)
  have "item_hash i = hash (item_data i)" using Cons.prems(4) by simp
  note s = rebucket_step [OF Cons.prems(1-3) this]
  with Cons.IH [of "rebucket_item n i bs"] Cons.prems(2,4) show ?case by auto
qed simp

lemma lh_okD:
  assumes "lh_ok call_hash call_cmp lh"
  shows "length (buckets lh) = unat (num_buckets lh)" and "num_buckets lh \<noteq> 0" and "kMinNumBuckets \<le> num_buckets lh"
    and "placed (call_hash (lh_hash lh)) (num_buckets lh) (buckets lh)" and "at_most_one (call_cmp (lh_comp lh)) (lh_elements lh)"
    and "num_items lh = of_nat (size (lh_elements lh))"
  using assms by (auto simp: lh_ok_def kMinNumBuckets_def)

lemma lh_elements_mset: "lh_elements lh = image_mset item_data (mset (concat (buckets lh)))"
  by (simp add: lh_elements_def items_def)

text \<open>The same elements in another arrangement.\<close>

definition resized :: "('a, 'h) call_hash \<Rightarrow> ('a, 'c) call_lh_cmp \<Rightarrow> ('a, 'h, 'c) lhash_st \<Rightarrow> ('a, 'h, 'c) lhash_st option \<Rightarrow> bool" where
  "resized call_hash call_cmp lh x \<longleftrightarrow> (\<exists>lh'. x = Some lh' \<and> lh_ok call_hash call_cmp lh' \<and> lh_elements lh' = lh_elements lh \<and>
     lh_hash lh' = lh_hash lh \<and> lh_comp lh' = lh_comp lh \<and> callback_depth lh' = callback_depth lh)"

lemma rebucket_ok:
  assumes "lh_ok call_hash call_cmp lh" and "kMinNumBuckets \<le> n"
  shows "resized call_hash call_cmp lh (lh_rebucket zalloc lh n)"
proof (cases "(8 * n) div 8 \<noteq> n \<or> \<not> zalloc (unat (8 * n))")
  case True
  with assms(1) show ?thesis by (auto simp: resized_def lh_rebucket_def Let_def)
next
  case False
  note ok = lh_okD [OF assms(1)]
  have n: "n \<noteq> 0" using assms(2) by (auto simp: kMinNumBuckets_def)
  let ?bs = "fold (rebucket_item n) (concat (buckets lh)) (replicate (unat n) [])"
  let ?lh = "lh\<lparr>buckets := ?bs, num_buckets := n\<rparr>"
  have "\<forall>i \<in> set (concat (buckets lh)). item_hash i = call_hash (lh_hash lh) (item_data i)"
    using ok(4) unfolding placed_def by (fastforce simp: in_set_conv_nth)
  moreover have "placed (call_hash (lh_hash lh)) n (replicate (unat n) [])" by (simp add: placed_def)
  ultimately have b: "length ?bs = unat n" "placed (call_hash (lh_hash lh)) n ?bs" "mset (concat ?bs) = mset (concat (buckets lh))"
    using rebucket_all [of "replicate (unat n) []" n "call_hash (lh_hash lh)" "concat (buckets lh)"] n by (auto simp: concat_replicate_trivial)
  have e: "lh_elements ?lh = lh_elements lh" using b(3) by (simp add: lh_elements_mset)
  have "lh_ok call_hash call_cmp ?lh" using ok assms(2) b(1,2) e by (simp add: lh_ok_def)
  moreover have "lh_rebucket zalloc lh n = Some ?lh" using False ok(1) n by (simp add: lh_rebucket_def Let_def)
  ultimately show ?thesis using e by (simp add: resized_def)
qed

lemma resized_same: "lh_ok call_hash call_cmp lh \<Longrightarrow> resized call_hash call_cmp lh (Some lh)"
  by (simp add: resized_def)

lemma maybe_resize_ok:
  assumes "lh_ok call_hash call_cmp lh"
  shows "resized call_hash call_cmp lh (lh_maybe_resize zalloc lh)"
proof -
  note same = resized_same [OF assms] and re = rebucket_ok [OF assms]
  have "\<not> num_buckets lh < kMinNumBuckets" using lh_okD(3) [OF assms] by simp
  moreover have "kMinNumBuckets \<le> num_buckets lh * 2" if "num_buckets lh < num_buckets lh * 2"
    using order_trans [OF lh_okD(3) [OF assms] less_imp_le [OF that]] .
  ultimately show ?thesis by (auto simp: lh_maybe_resize_def Let_def intro: same re)
qed

section \<open>Searching\<close>

lemma chain_search_cases:
  obtains (none) "chain_search cmp xs = length xs" and "filter (\<lambda>i. cmp (item_data i) = 0) xs = []"
  | (found) "chain_search cmp xs < length xs" and "cmp (item_data (xs ! chain_search cmp xs)) = 0"
      and "filter (\<lambda>i. cmp (item_data i) = 0) xs \<noteq> []" and "hd (filter (\<lambda>i. cmp (item_data i) = 0) xs) = xs ! chain_search cmp xs"
proof -
  have "(chain_search cmp xs = length xs \<and> filter (\<lambda>i. cmp (item_data i) = 0) xs = []) \<or>
    (chain_search cmp xs < length xs \<and> cmp (item_data (xs ! chain_search cmp xs)) = 0 \<and>
     filter (\<lambda>i. cmp (item_data i) = 0) xs \<noteq> [] \<and> hd (filter (\<lambda>i. cmp (item_data i) = 0) xs) = xs ! chain_search cmp xs)"
    by (induction xs) auto
  then show thesis using none found by blast
qed

lemma filter_concat_one:
  "b < length bs \<Longrightarrow> (\<And>k. k < length bs \<Longrightarrow> k \<noteq> b \<Longrightarrow> filter P (bs ! k) = []) \<Longrightarrow> filter P (concat bs) = filter P (bs ! b)"
proof (induction bs arbitrary: b)
  case (Cons x bs)
  show ?case
  proof (cases b)
    case 0
    have "filter P (bs ! k) = []" if "k < length bs" for k using Cons.prems(2) [of "Suc k"] that 0 by simp
    then have "\<not> P i" if "i \<in> set (concat bs)" for i using that by (fastforce simp: in_set_conv_nth filter_empty_conv)
    then have "filter P (concat bs) = []" by (simp add: filter_empty_conv)
    with 0 show ?thesis by simp
  next
    case (Suc c)
    have "filter P x = []" using Cons.prems(2) [of 0] Suc by simp
    moreover have "filter P (concat bs) = filter P (bs ! c)"
    proof (rule Cons.IH)
      show "c < length bs" using Cons.prems(1) Suc by simp
      show "filter P (bs ! k) = []" if "k < length bs" "k \<noteq> c" for k using Cons.prems(2) [of "Suc k"] that Suc by simp
    qed
    ultimately show ?thesis using Suc by simp
  qed
qed simp

text \<open>What the pointer to the next pointer leads to is the element equal to \<open>x\<close>, or nothing when there is none.\<close>

lemma next_ptr:
  assumes "lh_ok call_hash call_cmp lh" and "hashing (call_hash (lh_hash lh)) (call_cmp (lh_comp lh))"
  obtains b k where "get_next_ptr_and_hash call_hash call_cmp lh x = Some (call_hash (lh_hash lh) x, b, k)"
    and "b < length (buckets lh)" and "b = unat ((ucast (call_hash (lh_hash lh) x) :: size_t) mod num_buckets lh)"
    and "matching (call_cmp (lh_comp lh)) (lh_elements lh) x = opt_mset (map_option item_data (item_at lh b k))"
    and "\<And>item. item_at lh b k = Some item \<Longrightarrow> k < length (buckets lh ! b) \<and> item = buckets lh ! b ! k \<and> call_cmp (lh_comp lh) (item_data item) x = 0"
proof -
  note ok = lh_okD [OF assms(1)]
  define H where "H = call_hash (lh_hash lh)"
  define C where "C = call_cmp (lh_comp lh)"
  define b where "b = unat ((ucast (H x) :: size_t) mod num_buckets lh)"
  define k where "k = chain_search (\<lambda>y. C y x) (buckets lh ! b)"
  have b: "b < length (buckets lh)" using mod_less [OF ok(2)] ok(1) by (simp add: b_def)
  have n: "get_next_ptr_and_hash call_hash call_cmp lh x = Some (H x, b, k)"
    using b ok(2) by (simp add: get_next_ptr_and_hash_def bucket_of_def Let_def H_def C_def b_def k_def)
  have "filter (\<lambda>i. C (item_data i) x = 0) (buckets lh ! j) = []" if "j < length (buckets lh)" "j \<noteq> b" for j
  proof -
    have "H (item_data i) = H x" if "C (item_data i) x = 0" for i
      using hashing.equal_hash [OF assms(2)] that by (simp add: H_def C_def)
    then show ?thesis using that ok(4) unfolding placed_def H_def [symmetric] b_def filter_empty_conv by metis
  qed
  from filter_concat_one [OF b this]
  have f: "matching C (lh_elements lh) x = image_mset item_data (mset (filter (\<lambda>i. C (item_data i) x = 0) (buckets lh ! b)))"
    by (simp add: matching_def lh_elements_mset filter_mset_image_mset flip: mset_filter)
  have "size (matching C (lh_elements lh) x) \<le> 1" using ok(5) by (simp add: at_most_one_def C_def)
  then have one: "length (filter (\<lambda>i. C (item_data i) x = 0) (buckets lh ! b)) \<le> 1"
    unfolding f size_image_mset size_mset .
  have "matching C (lh_elements lh) x = opt_mset (map_option item_data (item_at lh b k)) \<and>
    (\<forall>item. item_at lh b k = Some item \<longrightarrow> k < length (buckets lh ! b) \<and> item = buckets lh ! b ! k \<and> C (item_data item) x = 0)"
  proof (cases rule: chain_search_cases [of "\<lambda>y. C y x" "buckets lh ! b", case_names none found])
    case none
    then show ?thesis using f by (simp add: item_at_def k_def)
  next
    case found
    then have "filter (\<lambda>i. C (item_data i) x = 0) (buckets lh ! b) = [buckets lh ! b ! k]"
      using one by (cases "filter (\<lambda>i. C (item_data i) x = 0) (buckets lh ! b)") (simp_all add: k_def)
    then show ?thesis using f found by (simp add: item_at_def k_def)
  qed
  with that [of b k] n b show thesis by (simp add: H_def C_def b_def)
qed

section \<open>The operations\<close>

context hashing
begin

lemma replaced_one:
  assumes "at_most_one cmp E"
  shows "at_most_one cmp (E - matching cmp E x + {#x#})"
  unfolding at_most_one_def
proof
  fix z
  show "size (matching cmp (E - matching cmp E x + {#x#}) z) \<le> 1"
  proof (cases "cmp x z = 0")
    case True
    have "cmp y x = 0" if "cmp y z = 0" for y using equal_trans [OF that equal_sym [OF True]] .
    then have "matching cmp (filter_mset (\<lambda>y. cmp y x \<noteq> 0) E) z = {#}" by (auto simp: matching_def)
    then show ?thesis using True by (simp add: minus_matching) (simp add: matching_def)
  next
    case False
    have "size (matching cmp (E - matching cmp E x) z) \<le> size (matching cmp E z)"
      by (simp add: matching_def multiset_filter_mono size_mset_mono)
    then show ?thesis using assms False order_trans by (fastforce simp: at_most_one_def matching_def)
  qed
qed

lemma removed_one: "at_most_one cmp E \<Longrightarrow> at_most_one cmp (E - matching cmp E x)"
proof -
  have "size (matching cmp (E - matching cmp E x) z) \<le> size (matching cmp E z)" for z
    unfolding matching_def by (intro size_mset_mono multiset_filter_mono) simp
  then show "at_most_one cmp E \<Longrightarrow> at_most_one cmp (E - matching cmp E x)"
    unfolding at_most_one_def using order_trans by blast
qed

end

lemma placed_update:
  assumes "placed hash n bs" and "\<And>i. i \<in> set c \<Longrightarrow> item_hash i = hash (item_data i) \<and> unat ((ucast (item_hash i) :: size_t) mod n) = b"
  shows "placed hash n (bs[b := c])"
  unfolding placed_def
proof (intro allI impI ballI)
  fix k j assume *: "k < length (bs[b := c])" "j \<in> set (bs[b := c] ! k)"
  show "item_hash j = hash (item_data j) \<and> unat ((ucast (item_hash j) :: size_t) mod n) = k"
  proof (cases "k = b")
    case True
    then have "j \<in> set c" using * by simp
    then show ?thesis using assms(2) [of j] True by blast
  next
    case False
    then have "k < length bs" "j \<in> set (bs ! k)" using * by simp_all
    then show ?thesis using assms(1) unfolding placed_def by blast
  qed
qed

lemma retrieve_ok:
  assumes "lh_ok call_hash call_cmp lh" and "hashing (call_hash (lh_hash lh)) (call_cmp (lh_comp lh))"
  shows "\<exists>r. OPENSSL_lh_retrieve call_hash call_cmp lh x = Some r \<and> opt_mset r = matching (call_cmp (lh_comp lh)) (lh_elements lh) x"
  by (rule next_ptr [OF assms, of x]) (simp add: OPENSSL_lh_retrieve_def)

lemma resizedD:
  assumes "resized call_hash call_cmp lh x"
  obtains lh' where "x = Some lh'" and "lh_ok call_hash call_cmp lh'" and "lh_elements lh' = lh_elements lh"
    and "lh_hash lh' = lh_hash lh" and "lh_comp lh' = lh_comp lh"
  using assms by (auto simp: resized_def)

lemma update_elements:
  assumes "b < length (buckets lh)"
  shows "lh_elements (lh\<lparr>buckets := (buckets lh)[b := c], num_items := n\<rparr>) + mset (map item_data (buckets lh ! b)) =
    lh_elements lh + mset (map item_data c)"
  using arg_cong [OF mset_concat_update [OF assms, of c], of "image_mset item_data"] by (simp add: lh_elements_mset)

lemma update_ok:
  assumes "lh_ok call_hash call_cmp lh" and "hashing (call_hash (lh_hash lh)) (call_cmp (lh_comp lh))" and "b < length (buckets lh)"
    and "\<And>i. i \<in> set c \<Longrightarrow> i \<in> set (buckets lh ! b) \<or> (item_hash i = call_hash (lh_hash lh) (item_data i) \<and>
      b = unat ((ucast (item_hash i) :: size_t) mod num_buckets lh))"
    and "at_most_one (call_cmp (lh_comp lh)) (lh_elements (lh\<lparr>buckets := (buckets lh)[b := c], num_items := n\<rparr>))"
    and "n = of_nat (size (lh_elements (lh\<lparr>buckets := (buckets lh)[b := c], num_items := n\<rparr>)))"
  shows "lh_ok call_hash call_cmp (lh\<lparr>buckets := (buckets lh)[b := c], num_items := n\<rparr>)"
proof -
  note ok = lh_okD [OF assms(1)]
  have "placed (call_hash (lh_hash lh)) (num_buckets lh) ((buckets lh)[b := c])"
  proof (rule placed_update [OF ok(4)])
    fix i assume "i \<in> set c"
    with assms(4) show "item_hash i = call_hash (lh_hash lh) (item_data i) \<and> unat ((ucast (item_hash i) :: size_t) mod num_buckets lh) = b"
      using ok(4) assms(3) unfolding placed_def by blast
  qed
  with ok assms(5,6) show ?thesis by (simp add: lh_ok_def)
qed

lemma mset_list_update: "k < length xs \<Longrightarrow> mset (xs[k := x]) + {#xs ! k#} = mset xs + {#x#}"
  by (simp add: mset_update)

lemma mset_remove_nth: "k < length xs \<Longrightarrow> mset (take k xs @ drop (Suc k) xs) + {#xs ! k#} = mset xs"
  using arg_cong [OF id_take_nth_drop [of k xs], of mset] by simp

lemma mset_move: "E' + M = E + M' \<Longrightarrow> M' + A = M + B \<Longrightarrow> E' + A = E + (B :: 'a multiset)"
proof -
  assume 1: "E' + M = E + M'" and 2: "M' + A = M + B"
  have "E' + A + M = (E' + M) + A" by (simp add: ac_simps)
  also have "\<dots> = E + (M' + A)" by (simp add: 1 add.assoc)
  also have "\<dots> = E + B + M" by (simp only: 2) (simp add: ac_simps)
  finally show ?thesis by simp
qed

lemma matching_member: "matching cmp E x = {#y#} \<Longrightarrow> y \<in># E"
proof -
  assume "matching cmp E x = {#y#}"
  then have "y \<in># matching cmp E x" by simp
  then show ?thesis by (simp add: matching_def)
qed

text \<open>The three changes of a chain: an element replaced by an equal one, added, and taken out.\<close>

lemma replace_step:
  assumes "lh_ok call_hash call_cmp lh" and "hashing (call_hash (lh_hash lh)) (call_cmp (lh_comp lh))" and "b < length (buckets lh)"
    and "k < length (buckets lh ! b)" and "call_cmp (lh_comp lh) (item_data (buckets lh ! b ! k)) x = 0"
    and "matching (call_cmp (lh_comp lh)) (lh_elements lh) x = {#item_data (buckets lh ! b ! k)#}"
  defines "lh' \<equiv> lh\<lparr>buckets := (buckets lh)[b := (buckets lh ! b)[k := (buckets lh ! b ! k)\<lparr>item_data := x\<rparr>]]\<rparr>"
  shows "lh_ok call_hash call_cmp lh'" and "lh_elements lh' = lh_elements lh - matching (call_cmp (lh_comp lh)) (lh_elements lh) x + {#x#}"
proof -
  note ok = lh_okD [OF assms(1)]
  define c where "c = buckets lh ! b"
  define c' where "c' = c[k := (c ! k)\<lparr>item_data := x\<rparr>]"
  define y where "y = item_data (c ! k)"
  have lh': "lh' = lh\<lparr>buckets := (buckets lh)[b := c'], num_items := num_items lh\<rparr>" by (simp add: lh'_def c'_def c_def)
  have "mset (map item_data c') + {#y#} = mset (map item_data c) + {#x#}"
    using mset_list_update [of k "map item_data c" x] assms(4) by (simp add: c'_def map_update y_def c_def)
  from mset_move [OF update_elements [OF assms(3), where c = c' and n = "num_items lh", folded lh' c_def] this]
  have s: "lh_elements lh' + {#y#} = lh_elements lh + {#x#}" .
  have "y \<in># lh_elements lh" using matching_member [OF assms(6)] by (simp add: y_def c_def)
  with s show e: "lh_elements lh' = lh_elements lh - matching (call_cmp (lh_comp lh)) (lh_elements lh) x + {#x#}"
    unfolding assms(6) y_def [unfolded c_def, symmetric]
    by (metis add_diff_cancel_right' add_mset_add_single diff_union_swap2)
  have "call_hash (lh_hash lh) y = call_hash (lh_hash lh) x"
    using hashing.equal_hash [OF assms(2,5)] by (simp add: y_def c_def)
  moreover have "c ! k \<in> set c" using assms(4) by (simp add: c_def)
  then have "item_hash (c ! k) = call_hash (lh_hash lh) y \<and> b = unat ((ucast (item_hash (c ! k)) :: size_t) mod num_buckets lh)"
    using placedD [OF ok(4) assms(3)] unfolding y_def c_def by blast
  moreover have "set c' \<subseteq> insert ((c ! k)\<lparr>item_data := x\<rparr>) (set c)" unfolding c'_def by (rule set_update_subset_insert)
  ultimately have i: "i \<in> set c \<or> (item_hash i = call_hash (lh_hash lh) (item_data i) \<and>
      b = unat ((ucast (item_hash i) :: size_t) mod num_buckets lh))" if "i \<in> set c'" for i
    using that by auto
  have sz: "size (lh_elements lh') = size (lh_elements lh)" using arg_cong [OF s, of size] by simp
  show "lh_ok call_hash call_cmp lh'" unfolding lh'
  proof (rule update_ok [OF assms(1-3) i [unfolded c_def]])
    show "at_most_one (call_cmp (lh_comp lh)) (lh_elements (lh\<lparr>buckets := (buckets lh)[b := c'], num_items := num_items lh\<rparr>))"
      using hashing.replaced_one [OF assms(2) ok(5)] e [unfolded lh'] by simp
    show "num_items lh = of_nat (size (lh_elements (lh\<lparr>buckets := (buckets lh)[b := c'], num_items := num_items lh\<rparr>)))"
      using ok(6) sz [unfolded lh'] by simp
  qed
qed

lemma append_step:
  assumes "lh_ok call_hash call_cmp lh" and "hashing (call_hash (lh_hash lh)) (call_cmp (lh_comp lh))" and "b < length (buckets lh)"
    and "b = unat ((ucast (call_hash (lh_hash lh) x) :: size_t) mod num_buckets lh)"
    and "matching (call_cmp (lh_comp lh)) (lh_elements lh) x = {#}"
  defines "lh' \<equiv> lh\<lparr>buckets := (buckets lh)[b := buckets lh ! b @ [\<lparr>item_data = x, item_hash = call_hash (lh_hash lh) x\<rparr>]], num_items := num_items lh + 1\<rparr>"
  shows "lh_ok call_hash call_cmp lh'" and "lh_elements lh' = lh_elements lh + {#x#}"
proof -
  note ok = lh_okD [OF assms(1)]
  let ?c = "buckets lh ! b @ [\<lparr>item_data = x, item_hash = call_hash (lh_hash lh) x\<rparr>]"
  show e: "lh_elements lh' = lh_elements lh + {#x#}"
    using update_elements [OF assms(3), where c = ?c and n = "num_items lh + 1"] by (simp add: lh'_def)
  show "lh_ok call_hash call_cmp lh'" unfolding lh'_def
  proof (rule update_ok [OF assms(1-3)], goal_cases)
    case (1 i)
    then show ?case using assms(4) by auto
  next
    case 2
    show ?case using hashing.replaced_one [OF assms(2) ok(5), of x] assms(5) e [unfolded lh'_def] by simp
  next
    case 3
    show ?case using ok(6) e [unfolded lh'_def] by simp
  qed
qed

lemma remove_step:
  assumes "lh_ok call_hash call_cmp lh" and "hashing (call_hash (lh_hash lh)) (call_cmp (lh_comp lh))" and "b < length (buckets lh)"
    and "k < length (buckets lh ! b)" and "matching (call_cmp (lh_comp lh)) (lh_elements lh) x = {#item_data (buckets lh ! b ! k)#}"
  defines "lh' \<equiv> lh\<lparr>buckets := (buckets lh)[b := take k (buckets lh ! b) @ drop (Suc k) (buckets lh ! b)], num_items := num_items lh - 1\<rparr>"
  shows "lh_ok call_hash call_cmp lh'" and "lh_elements lh' = lh_elements lh - matching (call_cmp (lh_comp lh)) (lh_elements lh) x"
proof -
  note ok = lh_okD [OF assms(1)]
  let ?c = "take k (buckets lh ! b) @ drop (Suc k) (buckets lh ! b)"
  have "mset (map item_data ?c) + {#item_data (buckets lh ! b ! k)#} = mset (map item_data (buckets lh ! b)) + {#}"
    using arg_cong [OF mset_remove_nth [OF assms(4)], of "image_mset item_data"] by simp
  from mset_move [OF update_elements [OF assms(3), where c = ?c and n = "num_items lh - 1", folded lh'_def] this]
  have s: "lh_elements lh' + {#item_data (buckets lh ! b ! k)#} = lh_elements lh" by simp
  then show e: "lh_elements lh' = lh_elements lh - matching (call_cmp (lh_comp lh)) (lh_elements lh) x"
    unfolding assms(5) by (metis add_diff_cancel_right')
  show "lh_ok call_hash call_cmp lh'" unfolding lh'_def
  proof (rule update_ok [OF assms(1-3)], goal_cases)
    case (1 i)
    then show ?case by (auto dest: in_set_takeD in_set_dropD)
  next
    case 2
    show ?case using hashing.removed_one [OF assms(2) ok(5)] e [unfolded lh'_def] by simp
  next
    case 3
    have "size (lh_elements lh) = Suc (size (lh_elements lh'))" using arg_cong [OF s, of size] by simp
    then have "num_items lh - 1 = of_nat (size (lh_elements lh'))" using ok(6) by simp
    then show ?case unfolding lh'_def .
  qed
qed

lemma insert_ok:
  assumes "lh_ok call_hash call_cmp lh" and "hashing (call_hash (lh_hash lh)) (call_cmp (lh_comp lh))"
  shows "\<exists>b old lh'. OPENSSL_lh_insert m zalloc call_hash call_cmp lh x = Some (b, old, lh') \<and> lh_ok call_hash call_cmp lh' \<and>
    lh_hash lh' = lh_hash lh \<and> lh_comp lh' = lh_comp lh \<and> opt_mset old = matching (call_cmp (lh_comp lh)) (lh_elements lh) x \<and>
    b = (m \<or> old \<noteq> None) \<and>
    lh_elements lh' = (if b then lh_elements lh - matching (call_cmp (lh_comp lh)) (lh_elements lh) x + {#x#} else lh_elements lh)"
proof (rule next_ptr [OF assms, of x])
  fix b k
  assume n: "get_next_ptr_and_hash call_hash call_cmp lh x = Some (call_hash (lh_hash lh) x, b, k)" "b < length (buckets lh)"
      "b = unat ((ucast (call_hash (lh_hash lh) x) :: size_t) mod num_buckets lh)"
      "matching (call_cmp (lh_comp lh)) (lh_elements lh) x = opt_mset (map_option item_data (item_at lh b k))"
    and it: "\<And>item. item_at lh b k = Some item \<Longrightarrow> k < length (buckets lh ! b) \<and> item = buckets lh ! b ! k \<and> call_cmp (lh_comp lh) (item_data item) x = 0"
  show ?thesis
  proof (cases "item_at lh b k")
    case (Some item)
    then have i: "k < length (buckets lh ! b)" "item = buckets lh ! b ! k" "call_cmp (lh_comp lh) (item_data item) x = 0" using it by blast+
    then have "matching (call_cmp (lh_comp lh)) (lh_elements lh) x = {#item_data (buckets lh ! b ! k)#}" using n(4) Some by simp
    note r = replace_step [OF assms n(2) i(1) i(3) [unfolded i(2)] this]
    show ?thesis using r n(1,4) Some i(2) by (simp add: OPENSSL_lh_insert_def) (rule exI [of _ True], rule TrueI)
  next
    case None
    then have "matching (call_cmp (lh_comp lh)) (lh_elements lh) x = {#}" using n(4) by simp
    note a = append_step [OF assms n(2,3) this]
    show ?thesis
    proof (cases m)
      case True
      obtain lh' where "lh_maybe_resize zalloc (lh\<lparr>buckets := (buckets lh)[b := buckets lh ! b @ [\<lparr>item_data = x, item_hash = call_hash (lh_hash lh) x\<rparr>]],
          num_items := num_items lh + 1\<rparr>) = Some lh'" "lh_ok call_hash call_cmp lh'" "lh_elements lh' = lh_elements lh + {#x#}"
        "lh_hash lh' = lh_hash lh" "lh_comp lh' = lh_comp lh"
        using resizedD [OF maybe_resize_ok [OF a(1), of zalloc]] a(2) by auto
      then show ?thesis using True None n(1,4) by (simp add: OPENSSL_lh_insert_def) (rule exI [of _ True], rule TrueI)
    next
      case False
      then show ?thesis using None n(1,4) assms(1) by (simp add: OPENSSL_lh_insert_def) (rule exI [of _ False], simp)
    qed
  qed
qed

lemma delete_ok:
  assumes "lh_ok call_hash call_cmp lh" and "hashing (call_hash (lh_hash lh)) (call_cmp (lh_comp lh))"
  shows "\<exists>r lh'. OPENSSL_lh_delete zalloc call_hash call_cmp lh x = Some (r, lh') \<and> lh_ok call_hash call_cmp lh' \<and>
    lh_hash lh' = lh_hash lh \<and> lh_comp lh' = lh_comp lh \<and> opt_mset r = matching (call_cmp (lh_comp lh)) (lh_elements lh) x \<and>
    lh_elements lh' = lh_elements lh - matching (call_cmp (lh_comp lh)) (lh_elements lh) x"
proof (rule next_ptr [OF assms, of x])
  fix b k
  assume n: "get_next_ptr_and_hash call_hash call_cmp lh x = Some (call_hash (lh_hash lh) x, b, k)" "b < length (buckets lh)"
      "matching (call_cmp (lh_comp lh)) (lh_elements lh) x = opt_mset (map_option item_data (item_at lh b k))"
    and it: "\<And>item. item_at lh b k = Some item \<Longrightarrow> k < length (buckets lh ! b) \<and> item = buckets lh ! b ! k \<and> call_cmp (lh_comp lh) (item_data item) x = 0"
  show ?thesis
  proof (cases "item_at lh b k")
    case None
    then show ?thesis using n assms(1) by (simp add: OPENSSL_lh_delete_def)
  next
    case (Some item)
    then have i: "k < length (buckets lh ! b)" "item = buckets lh ! b ! k" using it by blast+
    then have "matching (call_cmp (lh_comp lh)) (lh_elements lh) x = {#item_data (buckets lh ! b ! k)#}" using n(3) Some by simp
    note r = remove_step [OF assms n(2) i(1) this]
    obtain lh' where "lh_maybe_resize zalloc (lh\<lparr>buckets := (buckets lh)[b := take k (buckets lh ! b) @ drop (Suc k) (buckets lh ! b)],
        num_items := num_items lh - 1\<rparr>) = Some lh'" "lh_ok call_hash call_cmp lh'"
      "lh_elements lh' = lh_elements lh - matching (call_cmp (lh_comp lh)) (lh_elements lh) x" "lh_hash lh' = lh_hash lh" "lh_comp lh' = lh_comp lh"
      using resizedD [OF maybe_resize_ok [OF r(1), of zalloc]] r(2) by auto
    then show ?thesis using n(1,3) Some by (simp add: OPENSSL_lh_delete_def)
  qed
qed

lemma new_ok: "OPENSSL_lh_new True True h c = Some lh \<Longrightarrow> lh_ok call_hash call_cmp lh \<and> lh_elements lh = {#} \<and> lh_hash lh = h \<and> lh_comp lh = c"
  by (auto simp: OPENSSL_lh_new_def lh_ok_def lh_elements_mset placed_def at_most_one_def matching_def)

text \<open>A search by key finds what a search by an element does that has this hash and compares alike.\<close>

lemma retrieve_key_same:
  assumes "\<And>y. cmp_key y = 0 \<longleftrightarrow> call_cmp (lh_comp lh) y x = 0"
  shows "OPENSSL_lh_retrieve_key lh (call_hash (lh_hash lh) x) cmp_key = OPENSSL_lh_retrieve call_hash call_cmp lh x"
proof -
  have "chain_search cmp_key items = chain_search (\<lambda>y. call_cmp (lh_comp lh) y x) items" for items
    by (induction items) (simp_all add: assms)
  then show ?thesis
    by (simp add: OPENSSL_lh_retrieve_key_def OPENSSL_lh_retrieve_def get_next_ptr_by_key_def get_next_ptr_and_hash_def Let_def split: bind_split)
qed

section \<open>Sequences of operations\<close>

datatype 'a lh_op = Lh_insert bool 'a | Lh_delete 'a | Lh_retrieve 'a | Lh_num_items

datatype 'a lh_result = Lh_inserted bool "'a option" | Lh_found "'a option" | Lh_count size_t

fun lh_operate :: "(nat \<Rightarrow> bool) \<Rightarrow> ('a, 'h) call_hash \<Rightarrow> ('a, 'c) call_lh_cmp \<Rightarrow> 'a lh_op \<Rightarrow> ('a, 'h, 'c) lhash_st \<Rightarrow> ('a lh_result \<times> ('a, 'h, 'c) lhash_st) option" where
  "lh_operate zalloc call_hash call_cmp (Lh_insert m x) lh = map_option (\<lambda>(b, old, lh). (Lh_inserted b old, lh)) (OPENSSL_lh_insert m zalloc call_hash call_cmp lh x)"
| "lh_operate zalloc call_hash call_cmp (Lh_delete x) lh = map_option (\<lambda>(r, lh). (Lh_found r, lh)) (OPENSSL_lh_delete zalloc call_hash call_cmp lh x)"
| "lh_operate zalloc call_hash call_cmp (Lh_retrieve x) lh = map_option (\<lambda>r. (Lh_found r, lh)) (OPENSSL_lh_retrieve call_hash call_cmp lh x)"
| "lh_operate zalloc call_hash call_cmp Lh_num_items lh = Some (Lh_count (OPENSSL_lh_num_items lh), lh)"

text \<open>A list without two equal elements, as a specification: the element equal to \<open>x\<close> is looked up, replaced or taken out.\<close>

definition assoc_find :: "('a \<Rightarrow> 'a \<Rightarrow> int) \<Rightarrow> 'a list \<Rightarrow> 'a \<Rightarrow> 'a option" where
  "assoc_find cmp xs x = find (\<lambda>y. cmp y x = 0) xs"

definition assoc_remove :: "('a \<Rightarrow> 'a \<Rightarrow> int) \<Rightarrow> 'a list \<Rightarrow> 'a \<Rightarrow> 'a list" where
  "assoc_remove cmp xs x = filter (\<lambda>y. cmp y x \<noteq> 0) xs"

fun assoc_operate :: "('a \<Rightarrow> 'a \<Rightarrow> int) \<Rightarrow> 'a lh_op \<Rightarrow> 'a list \<Rightarrow> 'a lh_result \<times> 'a list" where
  "assoc_operate cmp (Lh_insert m x) xs = (let b = m \<or> assoc_find cmp xs x \<noteq> None in
     (Lh_inserted b (assoc_find cmp xs x), if b then x # assoc_remove cmp xs x else xs))"
| "assoc_operate cmp (Lh_delete x) xs = (Lh_found (assoc_find cmp xs x), assoc_remove cmp xs x)"
| "assoc_operate cmp (Lh_retrieve x) xs = (Lh_found (assoc_find cmp xs x), xs)"
| "assoc_operate cmp Lh_num_items xs = (Lh_count (of_nat (length xs)), xs)"

fun lh_run :: "(nat \<Rightarrow> bool) \<Rightarrow> ('a, 'h) call_hash \<Rightarrow> ('a, 'c) call_lh_cmp \<Rightarrow> 'a lh_op list \<Rightarrow> ('a, 'h, 'c) lhash_st \<Rightarrow> 'a lh_result list option" where
  "lh_run zalloc call_hash call_cmp [] lh = Some []"
| "lh_run zalloc call_hash call_cmp (op # ops) lh = do {
     (r, lh) \<leftarrow> lh_operate zalloc call_hash call_cmp op lh;
     rs \<leftarrow> lh_run zalloc call_hash call_cmp ops lh;
     Some (r # rs) }"

fun assoc_run :: "('a \<Rightarrow> 'a \<Rightarrow> int) \<Rightarrow> 'a lh_op list \<Rightarrow> 'a list \<Rightarrow> 'a lh_result list" where
  "assoc_run cmp [] xs = []"
| "assoc_run cmp (op # ops) xs = (let (r, xs) = assoc_operate cmp op xs in r # assoc_run cmp ops xs)"

lemma find_filter: "find P xs = (case filter P xs of [] \<Rightarrow> None | y # _ \<Rightarrow> Some y)"
  by (induction xs) auto

lemma matching_find:
  assumes "mset xs = E" and "opt_mset r = matching cmp E x"
  shows "assoc_find cmp xs x = r"
proof -
  have "mset (filter (\<lambda>y. cmp y x = 0) xs) = opt_mset r" using assms by (simp add: matching_def)
  then have "filter (\<lambda>y. cmp y x = 0) xs = (case r of None \<Rightarrow> [] | Some y \<Rightarrow> [y])"
    by (cases r) (simp_all only: opt_mset_simps mset_zero_iff mset_single_iff option.simps)
  then show ?thesis by (cases r) (simp_all add: assoc_find_def find_filter)
qed

lemma matching_remove: "mset xs = E \<Longrightarrow> mset (assoc_remove cmp xs x) = E - matching cmp E x"
  by (auto simp: assoc_remove_def minus_matching)

lemma table_operate_ok:
  assumes "lh_ok call_hash call_cmp lh" and "hashing (call_hash (lh_hash lh)) (call_cmp (lh_comp lh))" and "mset xs = lh_elements lh"
  shows "\<exists>lh'. lh_operate zalloc call_hash call_cmp op lh = Some (fst (assoc_operate (call_cmp (lh_comp lh)) op xs), lh') \<and>
    lh_ok call_hash call_cmp lh' \<and> mset (snd (assoc_operate (call_cmp (lh_comp lh)) op xs)) = lh_elements lh' \<and>
    lh_hash lh' = lh_hash lh \<and> lh_comp lh' = lh_comp lh"
proof (cases op)
  case (Lh_insert m x)
  obtain b old lh' where i: "OPENSSL_lh_insert m zalloc call_hash call_cmp lh x = Some (b, old, lh')" "lh_ok call_hash call_cmp lh'"
    "lh_hash lh' = lh_hash lh" "lh_comp lh' = lh_comp lh" "opt_mset old = matching (call_cmp (lh_comp lh)) (lh_elements lh) x" "b = (m \<or> old \<noteq> None)"
    "lh_elements lh' = (if b then lh_elements lh - matching (call_cmp (lh_comp lh)) (lh_elements lh) x + {#x#} else lh_elements lh)"
    using insert_ok [OF assms(1,2), of m zalloc x] by blast
  then show ?thesis using Lh_insert matching_find [OF assms(3) i(5)] matching_remove [OF assms(3)] assms(3)
    by (auto simp: Let_def)
next
  case (Lh_delete x)
  with delete_ok [OF assms(1,2), of zalloc x] matching_find [OF assms(3)] matching_remove [OF assms(3)] show ?thesis by fastforce
next
  case (Lh_retrieve x)
  with retrieve_ok [OF assms(1,2), of x] matching_find [OF assms(3)] assms show ?thesis by fastforce
next
  case Lh_num_items
  have "length xs = size (lh_elements lh)" using assms(3) by (metis size_mset)
  with Lh_num_items assms lh_okD(6) [OF assms(1)] show ?thesis by (simp add: OPENSSL_lh_num_items_def)
qed

lemma run_ok:
  assumes "lh_ok call_hash call_cmp lh" and "hashing (call_hash (lh_hash lh)) (call_cmp (lh_comp lh))" and "mset xs = lh_elements lh"
  shows "lh_run zalloc call_hash call_cmp ops lh = Some (assoc_run (call_cmp (lh_comp lh)) ops xs)"
  using assms
proof (induction ops arbitrary: lh xs)
  case (Cons op ops)
  obtain lh' where "lh_operate zalloc call_hash call_cmp op lh = Some (fst (assoc_operate (call_cmp (lh_comp lh)) op xs), lh')"
    "lh_ok call_hash call_cmp lh'" "mset (snd (assoc_operate (call_cmp (lh_comp lh)) op xs)) = lh_elements lh'"
    "lh_hash lh' = lh_hash lh" "lh_comp lh' = lh_comp lh"
    using table_operate_ok [OF Cons.prems] by blast
  with Cons.IH [of lh'] Cons.prems(2) show ?case by (simp add: case_prod_beta Let_def)
qed simp

lemma doall_ok:
  assumes "lh_ok call_hash call_cmp lh"
  shows "\<exists>lh'. OPENSSL_lh_doall_arg zalloc (\<lambda>x. add_mset x) (Some lh) {#} = Some (Some lh', lh_elements lh) \<and>
    lh_ok call_hash call_cmp lh' \<and> lh_elements lh' = lh_elements lh"
proof -
  have f: "fold (\<lambda>item. add_mset (item_data item)) is E = E + image_mset item_data (mset is)" for "is" E
    by (induction "is" arbitrary: E) auto
  have ok: "lh_ok call_hash call_cmp (lh\<lparr>callback_depth := d\<rparr>) \<and> lh_elements (lh\<lparr>callback_depth := d\<rparr>) = lh_elements lh" for d
    using assms by (simp add: lh_ok_def lh_elements_mset)
  define lh1 where "lh1 = (if callback_depth lh < 0xFFFFFFFF then lh\<lparr>callback_depth := callback_depth lh + 1\<rparr> else lh)"
  define lh2 where "lh2 = (if callback_depth lh1 < 0xFFFFFFFF then lh1\<lparr>callback_depth := callback_depth lh1 - 1\<rparr> else lh1)"
  have d: "lh1 = lh\<lparr>callback_depth := callback_depth lh1\<rparr>" "lh2 = lh\<lparr>callback_depth := callback_depth lh2\<rparr>"
    by (simp_all add: lh1_def lh2_def)
  have b: "take (unat (num_buckets lh)) (buckets lh) = buckets lh" using lh_okD(1) [OF assms] by simp
  have ok2: "lh_ok call_hash call_cmp lh2" "lh_elements lh2 = lh_elements lh" using ok [of "callback_depth lh2"] d(2) by metis+
  obtain lh' where r: "lh_maybe_resize zalloc lh2 = Some lh'" "lh_ok call_hash call_cmp lh'" "lh_elements lh' = lh_elements lh"
    using resizedD [OF maybe_resize_ok [OF ok2(1), of zalloc]] ok2(2) by metis
  have "buckets lh1 = buckets lh" "num_buckets lh1 = num_buckets lh" by (simp_all add: lh1_def)
  with r b lh_okD(1) [OF assms] f [of "concat (buckets lh)" "{#}"] show ?thesis
    unfolding OPENSSL_lh_doall_arg_def option.case lh1_def [symmetric] Let_def lh2_def [symmetric]
    by (simp add: lh_elements_mset)
qed

end
