(* ===== verification/Pool.thy ===== *)
theory Pool
  imports SipHash SetOf LHashSpec
begin

text \<open>
  BoringSSL's pool of immutable buffers (\<open>crypto/pool/pool.c\<close>), which keeps one buffer per content in a hash
  table, and its reference counts (\<open>crypto/refcount.c\<close>). A \<open>CRYPTO_BUFFER\<close> has an address; its fields but
  the count do not change and are kept with the pointer in the table, and in the map \<open>heap\<close> of the buffers
  allocated. There is one pool; \<open>in_pool\<close> says whether the field \<open>pool\<close> is set. Allocators answer
  parameters. A result \<open>None\<close> is the use of a freed buffer, a failed assertion or \<open>abort\<close>.
\<close>

record crypto_buffer_st =
  buf_id :: nat
  in_pool :: bool
  buf_bytes :: "byte list"
  data_is_static :: bool

type_synonym hash_key = "u64 \<times> u64"

record crypto_buffer_pool_st =
  bufs :: "(crypto_buffer_st, hash_key, unit) lhash_st"
  heap :: "nat \<Rightarrow> crypto_buffer_st option"
  references :: "nat \<Rightarrow> u32"

section \<open>Reference counts\<close>

definition CRYPTO_REFCOUNT_MAX :: u32 where "CRYPTO_REFCOUNT_MAX = 0xffffffff"

text \<open>The loops around compare-and-exchange leave the count as if the change were made at once.\<close>

definition CRYPTO_refcount_inc :: "u32 \<Rightarrow> u32" where
  "CRYPTO_refcount_inc n = (if n \<noteq> CRYPTO_REFCOUNT_MAX then n + 1 else n)"

definition CRYPTO_refcount_dec_and_test_zero :: "u32 \<Rightarrow> (bool \<times> u32) option" where
  "CRYPTO_refcount_dec_and_test_zero n = (if n = 0 then None else if n = CRYPTO_REFCOUNT_MAX then Some (False, n) else Some (n - 1 = 0, n - 1))"

section \<open>Buffers\<close>

definition CRYPTO_BUFFER_hash :: "hash_key \<Rightarrow> crypto_buffer_st \<Rightarrow> u32" where
  "CRYPTO_BUFFER_hash key b = ucast (SIPHASH_24 key (buf_bytes b))"

definition CRYPTO_BUFFER_cmp :: "unit \<Rightarrow> crypto_buffer_st \<Rightarrow> crypto_buffer_st \<Rightarrow> int" where
  "CRYPTO_BUFFER_cmp _ a b = (if length (buf_bytes a) \<noteq> length (buf_bytes b) then 1 else memcmp (buf_bytes a) (buf_bytes b))"

text \<open>The pool, when its two allocations (the second one by \<open>lh_CRYPTO_BUFFER_new\<close>) succeed.\<close>

definition CRYPTO_BUFFER_POOL_new :: "bool \<Rightarrow> bool \<Rightarrow> bool \<Rightarrow> hash_key \<Rightarrow> (nat \<Rightarrow> crypto_buffer_st option) \<Rightarrow> (nat \<Rightarrow> u32) \<Rightarrow> crypto_buffer_pool_st option" where
  "CRYPTO_BUFFER_POOL_new pool_ok zalloc_ok calloc_ok key hp refs =
     (if \<not> pool_ok then None
      else map_option (\<lambda>lh. \<lparr>bufs = lh, heap = hp, references = refs\<rparr>) (OPENSSL_lh_new zalloc_ok calloc_ok key ()))"

text \<open>Every comparison of the table reads a buffer of it, which has to be allocated and of the pool.\<close>

definition readable :: "crypto_buffer_pool_st \<Rightarrow> bool" where
  "readable p \<longleftrightarrow> list_all (\<lambda>i. heap p (buf_id (item_data i)) = Some (item_data i) \<and> in_pool (item_data i)) (items (bufs p))"

definition lh_CRYPTO_BUFFER_retrieve :: "crypto_buffer_pool_st \<Rightarrow> crypto_buffer_st \<Rightarrow> crypto_buffer_st option option" where
  "lh_CRYPTO_BUFFER_retrieve p b = (if \<not> readable p then None else OPENSSL_lh_retrieve CRYPTO_BUFFER_hash CRYPTO_BUFFER_cmp (bufs p) b)"

definition CRYPTO_BUFFER_up_ref :: "crypto_buffer_pool_st \<Rightarrow> nat \<Rightarrow> crypto_buffer_pool_st option" where
  "CRYPTO_BUFFER_up_ref p a = (if heap p a = None then None
     else Some (p\<lparr>references := (references p)(a := CRYPTO_refcount_inc (references p a))\<rparr>))"

definition crypto_buffer_free_object :: "crypto_buffer_pool_st \<Rightarrow> nat \<Rightarrow> crypto_buffer_pool_st option" where
  "crypto_buffer_free_object p a = (if heap p a = None then None else Some (p\<lparr>heap := (heap p)(a := None)\<rparr>))"

text \<open>The search both critical sections begin with: a buffer with static data may replace one without.\<close>

definition find_duplicate :: "crypto_buffer_pool_st \<Rightarrow> crypto_buffer_st \<Rightarrow> bool \<Rightarrow> crypto_buffer_st option option" where
  "find_duplicate p b static = do {
     duplicate \<leftarrow> lh_CRYPTO_BUFFER_retrieve p b;
     Some (case duplicate of
       None \<Rightarrow> None
     | Some e \<Rightarrow> if static \<and> \<not> data_is_static e then None else Some e) }"

text \<open>Under the lock for reading: the duplicate, one reference up.\<close>

definition new_lookup :: "crypto_buffer_pool_st \<Rightarrow> byte list \<Rightarrow> bool \<Rightarrow> (nat option \<times> crypto_buffer_pool_st) option" where
  "new_lookup p bytes static = do {
     duplicate \<leftarrow> find_duplicate p \<lparr>buf_id = 0, in_pool = True, buf_bytes = bytes, data_is_static = static\<rparr> static;
     (case duplicate of
        None \<Rightarrow> Some (None, p)
      | Some e \<Rightarrow> do { p \<leftarrow> CRYPTO_BUFFER_up_ref p (buf_id e); Some (Some (buf_id e), p) }) }"

text \<open>Without the lock: the new buffer, at the address the allocator answers.\<close>

definition new_object :: "nat option \<Rightarrow> bool \<Rightarrow> crypto_buffer_pool_st \<Rightarrow> byte list \<Rightarrow> bool \<Rightarrow> bool \<Rightarrow> nat option \<times> crypto_buffer_pool_st" where
  "new_object zalloc memdup_ok p bytes static pooled = (case zalloc of
     None \<Rightarrow> (None, p)
   | Some a \<Rightarrow>
       if \<not> static \<and> bytes \<noteq> [] \<and> \<not> memdup_ok then (None, p)
       else (Some a, p\<lparr>heap := (heap p)(a \<mapsto> \<lparr>buf_id = a, in_pool = pooled, buf_bytes = bytes, data_is_static = static\<rparr>),
                       references := (references p)(a := 1)\<rparr>))"

text \<open>Under the lock for writing, and what follows it: the buffer goes into the table, or it is freed for the duplicate.\<close>

definition new_insert :: "bool \<Rightarrow> (nat \<Rightarrow> bool) \<Rightarrow> crypto_buffer_pool_st \<Rightarrow> nat \<Rightarrow> (nat option \<times> crypto_buffer_pool_st) option" where
  "new_insert malloc_ok zalloc p a = do {
     buf \<leftarrow> heap p a;
     duplicate \<leftarrow> find_duplicate p buf (data_is_static buf);
     (inserted, p) \<leftarrow> (case duplicate of
        None \<Rightarrow> do {
          (inserted, _, lh) \<leftarrow> OPENSSL_lh_insert malloc_ok zalloc CRYPTO_BUFFER_hash CRYPTO_BUFFER_cmp (bufs p) buf;
          Some (inserted, p\<lparr>bufs := lh\<rparr>) }
      | Some e \<Rightarrow> do { p \<leftarrow> CRYPTO_BUFFER_up_ref p (buf_id e); Some (False, p) });
     if \<not> inserted then do { p \<leftarrow> crypto_buffer_free_object p a; Some (map_option buf_id duplicate, p) }
     else Some (Some a, p) }"

text \<open>The whole function, when no other thread comes between; \<open>pooled\<close> says whether a pool is given.\<close>

definition crypto_buffer_new :: "nat option \<Rightarrow> bool \<Rightarrow> bool \<Rightarrow> (nat \<Rightarrow> bool) \<Rightarrow> crypto_buffer_pool_st \<Rightarrow> byte list \<Rightarrow> bool \<Rightarrow> bool \<Rightarrow> (nat option \<times> crypto_buffer_pool_st) option" where
  "crypto_buffer_new zalloc memdup_ok malloc_ok rezalloc p bytes static pooled = do {
     (duplicate, p) \<leftarrow> (if pooled then new_lookup p bytes static else Some (None, p));
     if duplicate \<noteq> None then Some (duplicate, p)
     else (case new_object zalloc memdup_ok p bytes static pooled of
         (None, p) \<Rightarrow> Some (None, p)
       | (Some a, p) \<Rightarrow> if \<not> pooled then Some (Some a, p) else new_insert malloc_ok rezalloc p a) }"

definition CRYPTO_BUFFER_new :: "nat option \<Rightarrow> bool \<Rightarrow> bool \<Rightarrow> (nat \<Rightarrow> bool) \<Rightarrow> crypto_buffer_pool_st \<Rightarrow> byte list \<Rightarrow> bool \<Rightarrow> (nat option \<times> crypto_buffer_pool_st) option" where
  "CRYPTO_BUFFER_new zalloc memdup_ok malloc_ok rezalloc p bytes pooled = crypto_buffer_new zalloc memdup_ok malloc_ok rezalloc p bytes False pooled"

definition CRYPTO_BUFFER_new_from_static_data_unsafe :: "nat option \<Rightarrow> bool \<Rightarrow> bool \<Rightarrow> (nat \<Rightarrow> bool) \<Rightarrow> crypto_buffer_pool_st \<Rightarrow> byte list \<Rightarrow> bool \<Rightarrow> (nat option \<times> crypto_buffer_pool_st) option" where
  "CRYPTO_BUFFER_new_from_static_data_unsafe zalloc memdup_ok malloc_ok rezalloc p bytes pooled = crypto_buffer_new zalloc memdup_ok malloc_ok rezalloc p bytes True pooled"

definition CRYPTO_BUFFER_free :: "(nat \<Rightarrow> bool) \<Rightarrow> crypto_buffer_pool_st \<Rightarrow> nat option \<Rightarrow> crypto_buffer_pool_st option" where
  "CRYPTO_BUFFER_free zalloc p ptr = (case ptr of
     None \<Rightarrow> Some p
   | Some a \<Rightarrow> do {
       buf \<leftarrow> heap p a;
       (zero, n) \<leftarrow> CRYPTO_refcount_dec_and_test_zero (references p a);
       let p = p\<lparr>references := (references p)(a := n)\<rparr>;
       if \<not> zero then Some p
       else if \<not> in_pool buf then crypto_buffer_free_object p a
       else do {
         found \<leftarrow> lh_CRYPTO_BUFFER_retrieve p buf;
         p \<leftarrow> (if map_option buf_id found = Some a then do {
                 (found, lh) \<leftarrow> OPENSSL_lh_delete zalloc CRYPTO_BUFFER_hash CRYPTO_BUFFER_cmp (bufs p) buf;
                 if map_option buf_id found = Some a then Some (p\<lparr>bufs := lh\<rparr>) else None }
               else Some p);
         crypto_buffer_free_object p a } })"

definition CRYPTO_BUFFER_data :: "crypto_buffer_pool_st \<Rightarrow> nat \<Rightarrow> byte list option" where
  "CRYPTO_BUFFER_data p a = map_option buf_bytes (heap p a)"

definition CRYPTO_BUFFER_len :: "crypto_buffer_pool_st \<Rightarrow> nat \<Rightarrow> size_t option" where
  "CRYPTO_BUFFER_len p a = map_option (\<lambda>b. of_nat (length (buf_bytes b))) (heap p a)"

section \<open>The table of the pool\<close>

lemma memcmp_equal: "length xs = length ys \<Longrightarrow> memcmp xs ys = 0 \<longleftrightarrow> xs = ys"
  by (induction xs ys rule: memcmp.induct) auto

lemma buffer_cmp_equal: "CRYPTO_BUFFER_cmp u a b = 0 \<longleftrightarrow> buf_bytes a = buf_bytes b"
  by (auto simp: CRYPTO_BUFFER_cmp_def memcmp_equal)

interpretation buffer_hashing: hashing "CRYPTO_BUFFER_hash key" "CRYPTO_BUFFER_cmp u"
  by unfold_locales (auto simp: buffer_cmp_equal CRYPTO_BUFFER_hash_def)

interpretation buffer_table: keyed_table "lh_ok CRYPTO_BUFFER_hash CRYPTO_BUFFER_cmp" lh_elements "CRYPTO_BUFFER_cmp ()"
  "OPENSSL_lh_retrieve CRYPTO_BUFFER_hash CRYPTO_BUFFER_cmp"
  "\<lambda>m z. OPENSSL_lh_insert m z CRYPTO_BUFFER_hash CRYPTO_BUFFER_cmp"
  "\<lambda>z. OPENSSL_lh_delete z CRYPTO_BUFFER_hash CRYPTO_BUFFER_cmp"
proof unfold_locales
  fix t :: "(crypto_buffer_st, hash_key, unit) lhash_st" and x m z
  assume ok: "lh_ok CRYPTO_BUFFER_hash CRYPTO_BUFFER_cmp t"
  have u: "CRYPTO_BUFFER_cmp (lh_comp t) = CRYPTO_BUFFER_cmp ()" by simp
  show "at_most_one (CRYPTO_BUFFER_cmp ()) (lh_elements t)" using lh_okD(5) [OF ok] by simp
  show "\<exists>r. OPENSSL_lh_retrieve CRYPTO_BUFFER_hash CRYPTO_BUFFER_cmp t x = Some r \<and> opt_mset r = matching (CRYPTO_BUFFER_cmp ()) (lh_elements t) x"
    using retrieve_ok [OF ok buffer_hashing.hashing_axioms] by simp
  show "\<exists>b old t'. OPENSSL_lh_insert m z CRYPTO_BUFFER_hash CRYPTO_BUFFER_cmp t x = Some (b, old, t') \<and> lh_ok CRYPTO_BUFFER_hash CRYPTO_BUFFER_cmp t' \<and>
      opt_mset old = matching (CRYPTO_BUFFER_cmp ()) (lh_elements t) x \<and> b = (m \<or> old \<noteq> None) \<and>
      lh_elements t' = (if b then lh_elements t - matching (CRYPTO_BUFFER_cmp ()) (lh_elements t) x + {#x#} else lh_elements t)"
    using insert_ok [OF ok buffer_hashing.hashing_axioms, of m z x] unfolding u by blast
  show "\<exists>r t'. OPENSSL_lh_delete z CRYPTO_BUFFER_hash CRYPTO_BUFFER_cmp t x = Some (r, t') \<and> lh_ok CRYPTO_BUFFER_hash CRYPTO_BUFFER_cmp t' \<and>
      opt_mset r = matching (CRYPTO_BUFFER_cmp ()) (lh_elements t) x \<and>
      lh_elements t' = lh_elements t - matching (CRYPTO_BUFFER_cmp ()) (lh_elements t) x"
    using delete_ok [OF ok buffer_hashing.hashing_axioms, of z x] unfolding u by blast
qed (simp add: buffer_cmp_equal)

end
