(* ===== verification/PoolSpec.thy ===== *)
theory PoolSpec
  imports Pool
begin

text \<open>
  The pool shared by threads. Each critical section of \<open>pool.c\<close> is one step, as the lock of the pool makes
  it (sections under the lock for reading change nothing but a count, with an atomic operation), and between the
  sections of one call the other threads take any steps. The references that clients hold are counted in a
  multiset. The invariant says that counts are the numbers of references held, unless they are saturated, so that
  nothing held or in the table is ever freed. Taking and giving back the lock is not modelled: a section that would
  wait is a step that comes later, and a lock that is never given back cannot be expressed.
\<close>

section \<open>Threads\<close>

datatype phase = Idle | Missed "byte list" bool | Built nat

record sys =
  pool :: crypto_buffer_pool_st
  phase_of :: "nat \<Rightarrow> phase"
  held :: "nat multiset"

text \<open>
  \<open>crypto_buffer_new\<close> on thread \<open>t\<close> goes from \<open>Idle\<close> to \<open>Missed\<close> (nothing found under the lock for reading),
  to \<open>Built\<close> (a buffer allocated) and back to \<open>Idle\<close> with a reference, or without one when memory is short.
\<close>

inductive pool_step :: "nat \<Rightarrow> sys \<Rightarrow> sys \<Rightarrow> bool" where
  hit: "phase_of S t = Idle \<Longrightarrow> new_lookup (pool S) bytes static = Some (Some a, p) \<Longrightarrow>
    pool_step t S (S\<lparr>pool := p, held := add_mset a (held S)\<rparr>)"
| miss: "phase_of S t = Idle \<Longrightarrow> new_lookup (pool S) bytes static = Some (None, p) \<Longrightarrow>
    pool_step t S (S\<lparr>pool := p, phase_of := (phase_of S)(t := Missed bytes static)\<rparr>)"
| build: "phase_of S t = Missed bytes static \<Longrightarrow> heap (pool S) a = None \<Longrightarrow> new_object (Some a) memdup_ok (pool S) bytes static True = (Some b, p) \<Longrightarrow>
    pool_step t S (S\<lparr>pool := p, phase_of := (phase_of S)(t := Built b)\<rparr>)"
| no_memory: "phase_of S t = Missed bytes static \<Longrightarrow> new_object zalloc memdup_ok (pool S) bytes static True = (None, p) \<Longrightarrow>
    pool_step t S (S\<lparr>pool := p, phase_of := (phase_of S)(t := Idle)\<rparr>)"
| insert: "phase_of S t = Built a \<Longrightarrow> new_insert malloc_ok zalloc (pool S) a = Some (r, p) \<Longrightarrow>
    pool_step t S (S\<lparr>pool := p, phase_of := (phase_of S)(t := Idle), held := opt_mset r + held S\<rparr>)"
| unpooled: "phase_of S t = Idle \<Longrightarrow> heap (pool S) a = None \<Longrightarrow> new_object (Some a) memdup_ok (pool S) bytes static False = (Some b, p) \<Longrightarrow>
    pool_step t S (S\<lparr>pool := p, held := add_mset b (held S)\<rparr>)"
| up_ref: "phase_of S t = Idle \<Longrightarrow> a \<in># held S \<Longrightarrow> CRYPTO_BUFFER_up_ref (pool S) a = Some p \<Longrightarrow>
    pool_step t S (S\<lparr>pool := p, held := add_mset a (held S)\<rparr>)"
| free: "phase_of S t = Idle \<Longrightarrow> a \<in># held S \<Longrightarrow> CRYPTO_BUFFER_free zalloc (pool S) (Some a) = Some p \<Longrightarrow>
    pool_step t S (S\<lparr>pool := p, held := held S - {#a#}\<rparr>)"

inductive pool_reach :: "hash_key \<Rightarrow> sys \<Rightarrow> bool" for key where
  start: "CRYPTO_BUFFER_POOL_new True True True key (\<lambda>_. None) refs = Some p \<Longrightarrow>
    pool_reach key \<lparr>pool = p, phase_of = (\<lambda>_. Idle), held = {#}\<rparr>"
| step: "pool_reach key S \<Longrightarrow> pool_step t S S' \<Longrightarrow> pool_reach key S'"

text \<open>
  A whole call of \<open>crypto_buffer_new\<close> on thread \<open>t\<close> with the bytes asked for, between whose sections other
  threads take any steps: the states before and after, and the buffer it answers. What the caller asked for is
  passed from section to section as the C function passes its parameters and its local variable \<open>buf\<close>.
\<close>

abbreviation others :: "nat \<Rightarrow> sys \<Rightarrow> sys \<Rightarrow> bool" where
  "others t \<equiv> (\<lambda>S S'. \<exists>u. u \<noteq> t \<and> pool_step u S S')\<^sup>*\<^sup>*"

inductive pool_call :: "nat \<Rightarrow> byte list \<Rightarrow> bool \<Rightarrow> bool \<Rightarrow> sys \<Rightarrow> nat option \<Rightarrow> sys \<Rightarrow> bool" where
  found: "phase_of S t = Idle \<Longrightarrow> new_lookup (pool S) bytes static = Some (Some a, p) \<Longrightarrow>
    pool_call t bytes static True S (Some a) (S\<lparr>pool := p, held := add_mset a (held S)\<rparr>)"
| made: "phase_of S t = Idle \<Longrightarrow> new_lookup (pool S) bytes static = Some (None, p) \<Longrightarrow>
    others t (S\<lparr>pool := p, phase_of := (phase_of S)(t := Missed bytes static)\<rparr>) S1 \<Longrightarrow>
    heap (pool S1) c = None \<Longrightarrow> new_object (Some c) memdup_ok (pool S1) bytes static True = (Some b, q) \<Longrightarrow>
    others t (S1\<lparr>pool := q, phase_of := (phase_of S1)(t := Built b)\<rparr>) S2 \<Longrightarrow>
    new_insert malloc_ok zalloc (pool S2) b = Some (r, p') \<Longrightarrow>
    pool_call t bytes static True S r (S2\<lparr>pool := p', phase_of := (phase_of S2)(t := Idle), held := opt_mset r + held S2\<rparr>)"
| failed: "phase_of S t = Idle \<Longrightarrow> new_lookup (pool S) bytes static = Some (None, p) \<Longrightarrow>
    others t (S\<lparr>pool := p, phase_of := (phase_of S)(t := Missed bytes static)\<rparr>) S1 \<Longrightarrow>
    new_object zalloc memdup_ok (pool S1) bytes static True = (None, q) \<Longrightarrow>
    pool_call t bytes static True S None (S1\<lparr>pool := q, phase_of := (phase_of S1)(t := Idle)\<rparr>)"
| alone: "phase_of S t = Idle \<Longrightarrow> heap (pool S) c = None \<Longrightarrow>
    new_object (Some c) memdup_ok (pool S) bytes static False = (Some b, p) \<Longrightarrow>
    pool_call t bytes static False S (Some b) (S\<lparr>pool := p, held := add_mset b (held S)\<rparr>)"

section \<open>The invariant\<close>

definition counted :: "crypto_buffer_pool_st \<Rightarrow> nat multiset \<Rightarrow> nat \<Rightarrow> bool" where
  "counted p H a \<longleftrightarrow> references p a \<noteq> 0 \<and> (references p a = CRYPTO_REFCOUNT_MAX \<or> unat (references p a) = count H a)"

definition table_ok :: "sys \<Rightarrow> bool" where
  "table_ok S \<longleftrightarrow> lh_ok CRYPTO_BUFFER_hash CRYPTO_BUFFER_cmp (bufs (pool S)) \<and>
     (\<forall>e. e \<in># lh_elements (bufs (pool S)) \<longrightarrow>
        heap (pool S) (buf_id e) = Some e \<and> in_pool e \<and> (\<forall>t. phase_of S t \<noteq> Built (buf_id e)))"

definition built_ok :: "sys \<Rightarrow> bool" where
  "built_ok S \<longleftrightarrow> (\<forall>t a. phase_of S t = Built a \<longrightarrow>
     references (pool S) a = 1 \<and> a \<notin># held S \<and> (\<exists>b. heap (pool S) a = Some b \<and> in_pool b) \<and> (\<forall>u. phase_of S u = Built a \<longrightarrow> u = t))"

definition heap_ok :: "sys \<Rightarrow> bool" where
  "heap_ok S \<longleftrightarrow> (\<forall>a b. heap (pool S) a = Some b \<longrightarrow> buf_id b = a \<and> ((\<forall>t. phase_of S t \<noteq> Built a) \<longrightarrow> counted (pool S) (held S) a)) \<and>
     (\<forall>a. a \<in># held S \<longrightarrow> heap (pool S) a \<noteq> None)"

definition sys_ok :: "sys \<Rightarrow> bool" where
  "sys_ok S \<longleftrightarrow> table_ok S \<and> built_ok S \<and> heap_ok S"

lemma sys_okD:
  assumes "sys_ok S"
  shows "lh_ok CRYPTO_BUFFER_hash CRYPTO_BUFFER_cmp (bufs (pool S))"
    and "e \<in># lh_elements (bufs (pool S)) \<Longrightarrow> heap (pool S) (buf_id e) = Some e \<and> in_pool e \<and> phase_of S t \<noteq> Built (buf_id e)"
    and "phase_of S t = Built a \<Longrightarrow> references (pool S) a = 1 \<and> a \<notin># held S \<and> (\<exists>b. heap (pool S) a = Some b \<and> in_pool b \<and> buf_id b = a)"
    and "phase_of S t = Built a \<Longrightarrow> phase_of S u = Built a \<Longrightarrow> u = t"
    and "heap (pool S) a = Some b \<Longrightarrow> buf_id b = a"
    and "heap (pool S) a = Some b \<Longrightarrow> (\<And>t. phase_of S t \<noteq> Built a) \<Longrightarrow> counted (pool S) (held S) a"
    and "a \<in># held S \<Longrightarrow> heap (pool S) a \<noteq> None"
  using assms unfolding sys_ok_def table_ok_def built_ok_def heap_ok_def by blast+

lemma readable_iff: "readable p \<longleftrightarrow> (\<forall>e. e \<in># lh_elements (bufs p) \<longrightarrow> heap p (buf_id e) = Some e \<and> in_pool e)"
  by (auto simp: readable_def lh_elements_def list_all_iff)

lemma sys_readable: "sys_ok S \<Longrightarrow> readable (pool S)"
  using sys_okD(2) by (auto simp: readable_iff)

text \<open>Both searches return; what they find is the one buffer of the table with these bytes, unless it is to be replaced.\<close>

lemma retrieve_outcome:
  assumes "sys_ok S"
  obtains r where "lh_CRYPTO_BUFFER_retrieve (pool S) b = Some r"
    and "opt_mset r = matching (CRYPTO_BUFFER_cmp ()) (lh_elements (bufs (pool S))) b"
    and "\<And>e. r = Some e \<Longrightarrow> e \<in># lh_elements (bufs (pool S)) \<and> buf_bytes e = buf_bytes b"
proof -
  obtain r where r: "OPENSSL_lh_retrieve CRYPTO_BUFFER_hash CRYPTO_BUFFER_cmp (bufs (pool S)) b = Some r"
    "opt_mset r = matching (CRYPTO_BUFFER_cmp ()) (lh_elements (bufs (pool S))) b"
    using buffer_table.look [OF sys_okD(1) [OF assms]] by blast
  have "e \<in># lh_elements (bufs (pool S)) \<and> buf_bytes e = buf_bytes b" if "r = Some e" for e
  proof -
    have "e \<in># matching (CRYPTO_BUFFER_cmp ()) (lh_elements (bufs (pool S))) b" using r(2) that by (simp flip: r(2))
    then show ?thesis by (simp add: matching_def buffer_cmp_equal)
  qed
  with r that sys_readable [OF assms] show thesis by (simp add: lh_CRYPTO_BUFFER_retrieve_def)
qed

lemma duplicate_outcome:
  assumes "sys_ok S"
  obtains r where "find_duplicate (pool S) b static = Some r"
    and "\<And>e. r = Some e \<Longrightarrow> e \<in># lh_elements (bufs (pool S)) \<and> buf_bytes e = buf_bytes b \<and> (static \<longrightarrow> data_is_static e)"
proof (rule retrieve_outcome [OF assms, of b])
  fix r assume "lh_CRYPTO_BUFFER_retrieve (pool S) b = Some r"
    and "\<And>e. r = Some e \<Longrightarrow> e \<in># lh_elements (bufs (pool S)) \<and> buf_bytes e = buf_bytes b"
  then show thesis by (intro that [of "case r of None \<Rightarrow> None | Some e \<Rightarrow> if static \<and> \<not> data_is_static e then None else Some e"])
      (auto simp: find_duplicate_def split: option.splits if_splits)
qed

section \<open>Steps keep the invariant\<close>

lemma counted_inc:
  assumes "counted p H a"
  shows "counted (p\<lparr>references := (references p)(a := CRYPTO_refcount_inc (references p a))\<rparr>) (add_mset a H) a"
proof (cases "references p a = CRYPTO_REFCOUNT_MAX")
  case True
  then show ?thesis by (simp add: counted_def CRYPTO_refcount_inc_def CRYPTO_REFCOUNT_MAX_def)
next
  case False
  then have "unat (references p a) < 2 ^ 32 - 1"
    using unsigned_less [of "references p a", where 'a = nat] by (auto simp: CRYPTO_REFCOUNT_MAX_def word_unat_eq_iff)
  then have "unat (references p a + 1) = unat (references p a) + 1" by (simp add: unat_word_ariths)
  then show ?thesis using assms False by (auto simp: counted_def CRYPTO_refcount_inc_def word_unat_eq_iff)
qed

lemma counted_up:
  assumes "counted p H b"
  shows "counted (p\<lparr>references := (references p)(a := CRYPTO_refcount_inc (references p a))\<rparr>) (add_mset a H) b"
proof (cases "b = a")
  case True
  then show ?thesis using counted_inc assms by blast
next
  case False
  then show ?thesis using assms by (simp add: counted_def)
qed

lemma up_ref_ok:
  assumes "sys_ok S" and "heap (pool S) a \<noteq> None" and "\<And>t. phase_of S t \<noteq> Built a"
  shows "\<exists>p. CRYPTO_BUFFER_up_ref (pool S) a = Some p \<and> sys_ok (S\<lparr>pool := p, held := add_mset a (held S)\<rparr>) \<and> bufs p = bufs (pool S) \<and> heap p = heap (pool S)"
proof -
  let ?p = "(pool S)\<lparr>references := (references (pool S))(a := CRYPTO_refcount_inc (references (pool S) a))\<rparr>"
  let ?S = "S\<lparr>pool := ?p, held := add_mset a (held S)\<rparr>"
  have "table_ok ?S" using assms(1) by (simp add: sys_ok_def table_ok_def)
  moreover have "built_ok ?S" unfolding built_ok_def
  proof (intro allI impI)
    fix t b assume b: "phase_of ?S t = Built b"
    then have "b \<noteq> a" using assms(3) by auto
    with b show "references (pool ?S) b = 1 \<and> b \<notin># held ?S \<and> (\<exists>e. heap (pool ?S) b = Some e \<and> in_pool e) \<and> (\<forall>u. phase_of ?S u = Built b \<longrightarrow> u = t)"
      using assms(1) by (auto simp: sys_ok_def built_ok_def)
  qed
  moreover have "heap_ok ?S" using assms(1,2) by (auto simp: sys_ok_def heap_ok_def intro: counted_up)
  ultimately show ?thesis using assms(2) by (simp add: CRYPTO_BUFFER_up_ref_def sys_ok_def)
qed

lemma lookup_ok:
  assumes "sys_ok S"
  shows "\<exists>r p. new_lookup (pool S) bytes static = Some (r, p) \<and>
    (case r of None \<Rightarrow> p = pool S
     | Some a \<Rightarrow> sys_ok (S\<lparr>pool := p, held := add_mset a (held S)\<rparr>) \<and>
         (\<exists>b. heap p a = Some b \<and> in_pool b \<and> buf_bytes b = bytes \<and> (static \<longrightarrow> data_is_static b)))"
proof (rule duplicate_outcome [OF assms, of "\<lparr>buf_id = 0, in_pool = True, buf_bytes = bytes, data_is_static = static\<rparr>" static])
  fix r assume r: "find_duplicate (pool S) \<lparr>buf_id = 0, in_pool = True, buf_bytes = bytes, data_is_static = static\<rparr> static = Some r"
    and e: "\<And>e. r = Some e \<Longrightarrow> e \<in># lh_elements (bufs (pool S)) \<and>
      buf_bytes e = buf_bytes \<lparr>buf_id = 0, in_pool = True, buf_bytes = bytes, data_is_static = static\<rparr> \<and> (static \<longrightarrow> data_is_static e)"
  show ?thesis
  proof (cases r)
    case None
    with r show ?thesis by (simp add: new_lookup_def)
  next
    case (Some d)
    then have d: "heap (pool S) (buf_id d) = Some d" "in_pool d" "\<And>t. phase_of S t \<noteq> Built (buf_id d)" "buf_bytes d = bytes" "static \<longrightarrow> data_is_static d"
      using e sys_okD(2) [OF assms, of d] by auto
    then have "heap (pool S) (buf_id d) \<noteq> None" by simp
    from up_ref_ok [OF assms this d(3)] d r Some show ?thesis by (auto simp: new_lookup_def)
  qed
qed

lemma new_object_ok:
  assumes "sys_ok S" and "heap (pool S) a = None" and "new_object (Some a) memdup_ok (pool S) bytes static pooled = (Some b, p)"
  shows "b = a" and "pooled \<Longrightarrow> phase_of S t = Missed bytes static \<Longrightarrow> sys_ok (S\<lparr>pool := p, phase_of := (phase_of S)(t := Built b)\<rparr>)"
    and "\<not> pooled \<Longrightarrow> sys_ok (S\<lparr>pool := p, held := add_mset b (held S)\<rparr>)"
proof -
  let ?b = "\<lparr>buf_id = a, in_pool = pooled, buf_bytes = bytes, data_is_static = static\<rparr>"
  have p: "b = a" "p = (pool S)\<lparr>heap := (heap (pool S))(a \<mapsto> ?b), references := (references (pool S))(a := 1)\<rparr>"
    using assms(3) by (auto simp: new_object_def split: if_splits)
  then show "b = a" by simp
  have fresh: "a \<notin># held S" "\<And>t. phase_of S t \<noteq> Built a" "\<And>e. e \<in># lh_elements (bufs (pool S)) \<Longrightarrow> buf_id e \<noteq> a"
    using assms(1,2) sys_okD(2,3,7) [OF assms(1)] by fastforce+
  have cnt: "counted p H c = counted (pool S) H c" if "c \<noteq> a" for H c using that p(2) by (simp add: counted_def)
  show "sys_ok (S\<lparr>pool := p, phase_of := (phase_of S)(t := Built b)\<rparr>)" if "pooled" "phase_of S t = Missed bytes static"
    unfolding sys_ok_def
  proof (intro conjI)
    show "table_ok (S\<lparr>pool := p, phase_of := (phase_of S)(t := Built b)\<rparr>)"
      using assms(1) fresh(3) p by (auto simp: sys_ok_def table_ok_def)
    show "built_ok (S\<lparr>pool := p, phase_of := (phase_of S)(t := Built b)\<rparr>)"
      using assms(1) fresh p that by (auto simp: sys_ok_def built_ok_def)
    show "heap_ok (S\<lparr>pool := p, phase_of := (phase_of S)(t := Built b)\<rparr>)"
      unfolding heap_ok_def
    proof (intro conjI allI impI)
      fix c e assume e: "heap (pool (S\<lparr>pool := p, phase_of := (phase_of S)(t := Built b)\<rparr>)) c = Some e"
      then show "buf_id e = c" using p sys_okD(5) [OF assms(1)] by (auto split: if_splits)
      assume n: "\<forall>u. phase_of (S\<lparr>pool := p, phase_of := (phase_of S)(t := Built b)\<rparr>) u \<noteq> Built c"
      have c: "c \<noteq> a" using spec [OF n, of t] p(1) by auto
      have "phase_of S u \<noteq> Built c" for u using spec [OF n, of u] that(2) by (cases "u = t") auto
      with e c sys_okD(6) [OF assms(1), of c e] show "counted (pool (S\<lparr>pool := p, phase_of := (phase_of S)(t := Built b)\<rparr>)) (held (S\<lparr>pool := p, phase_of := (phase_of S)(t := Built b)\<rparr>)) c"
        using cnt p(2) by simp
    next
      fix c assume "c \<in># held (S\<lparr>pool := p, phase_of := (phase_of S)(t := Built b)\<rparr>)"
      then show "heap (pool (S\<lparr>pool := p, phase_of := (phase_of S)(t := Built b)\<rparr>)) c \<noteq> None"
        using sys_okD(7) [OF assms(1)] p(2) by simp
    qed
  qed
  show "sys_ok (S\<lparr>pool := p, held := add_mset b (held S)\<rparr>)" if "\<not> pooled"
    unfolding sys_ok_def
  proof (intro conjI)
    show "table_ok (S\<lparr>pool := p, held := add_mset b (held S)\<rparr>)" using assms(1) fresh(3) p by (auto simp: sys_ok_def table_ok_def)
    show "built_ok (S\<lparr>pool := p, held := add_mset b (held S)\<rparr>)" using assms(1) fresh p by (auto simp: sys_ok_def built_ok_def)
    have "counted p (add_mset a (held S)) a" using p(2) fresh(1) by (simp add: counted_def CRYPTO_REFCOUNT_MAX_def count_eq_zero_iff)
    moreover have "counted p (add_mset a (held S)) c = counted (pool S) (held S) c" if "c \<noteq> a" for c
      using that p(2) by (simp add: counted_def)
    ultimately show "heap_ok (S\<lparr>pool := p, held := add_mset b (held S)\<rparr>)"
      using assms(1) p by (auto simp: sys_ok_def heap_ok_def)
  qed
qed

text \<open>A buffer that is built and then freed, or taken over by the client, leaves its thread.\<close>

lemma discard_ok:
  assumes "sys_ok S" and "phase_of S t = Built a"
  shows "\<exists>p. crypto_buffer_free_object (pool S) a = Some p \<and> sys_ok (S\<lparr>pool := p, phase_of := (phase_of S)(t := Idle)\<rparr>)"
proof -
  note b = sys_okD(3) [OF assms] and u = sys_okD(4) [OF assms(1,2)]
  let ?S = "S\<lparr>pool := (pool S)\<lparr>heap := (heap (pool S))(a := None)\<rparr>, phase_of := (phase_of S)(t := Idle)\<rparr>"
  have t: "buf_id e \<noteq> a" if "e \<in># lh_elements (bufs (pool S))" for e using sys_okD(2) [OF assms(1) that] assms(2) by metis
  have "table_ok ?S" using assms(1) t by (auto simp: sys_ok_def table_ok_def)
  moreover have "built_ok ?S" using assms u unfolding sys_ok_def built_ok_def by (auto split: if_splits)
  moreover have "heap_ok ?S" unfolding heap_ok_def
  proof (intro conjI allI impI)
    fix c e assume e: "heap (pool ?S) c = Some e"
    then have c: "c \<noteq> a" "heap (pool S) c = Some e" by (auto split: if_splits)
    then show "buf_id e = c" using sys_okD(5) [OF assms(1)] by blast
    assume n: "\<forall>u. phase_of ?S u \<noteq> Built c"
    then have "phase_of S u \<noteq> Built c" for u using assms(2) c(1) by (cases "u = t") (auto dest: spec [of _ u])
    with sys_okD(6) [OF assms(1) c(2)] show "counted (pool ?S) (held ?S) c" by (simp add: counted_def)
  next
    fix c assume "c \<in># held ?S"
    then show "heap (pool ?S) c \<noteq> None" using sys_okD(7) [OF assms(1), of c] b by auto
  qed
  ultimately show ?thesis using b by (auto simp: crypto_buffer_free_object_def sys_ok_def)
qed

lemma publish_ok:
  assumes "sys_ok S" and "phase_of S t = Built a" and "heap (pool S) a = Some b" and "lh_ok CRYPTO_BUFFER_hash CRYPTO_BUFFER_cmp lh"
    and "\<And>e. e \<in># lh_elements lh \<Longrightarrow> e = b \<or> e \<in># lh_elements (bufs (pool S))"
  shows "sys_ok (S\<lparr>pool := (pool S)\<lparr>bufs := lh\<rparr>, phase_of := (phase_of S)(t := Idle), held := add_mset a (held S)\<rparr>)" (is "sys_ok ?S")
proof -
  note b = sys_okD(3) [OF assms(1,2)] and u = sys_okD(4) [OF assms(1,2)]
  have id: "buf_id b = a" "in_pool b" using b assms(3) by auto
  have idle: "phase_of ?S v \<noteq> Built a" for v using u [of v] by auto
  have "table_ok ?S" unfolding table_ok_def
  proof (intro conjI allI impI)
    show "lh_ok CRYPTO_BUFFER_hash CRYPTO_BUFFER_cmp (bufs (pool ?S))" using assms(4) by simp
    fix e assume "e \<in># lh_elements (bufs (pool ?S))"
    then have e: "e = b \<or> e \<in># lh_elements (bufs (pool S))" using assms(5) by simp
    then show "heap (pool ?S) (buf_id e) = Some e" "in_pool e" using sys_okD(2) [OF assms(1)] assms(3) id by auto
    show "phase_of ?S v \<noteq> Built (buf_id e)" for v using e idle [of v] id sys_okD(2) [OF assms(1), of e v] by auto
  qed
  moreover have "built_ok ?S" using assms(1) u unfolding sys_ok_def built_ok_def by auto
  moreover have "heap_ok ?S" unfolding heap_ok_def
  proof (intro conjI allI impI)
    fix c e assume e: "heap (pool ?S) c = Some e"
    then show "buf_id e = c" using sys_okD(5) [OF assms(1)] by simp
    assume n: "\<forall>v. phase_of ?S v \<noteq> Built c"
    show "counted (pool ?S) (held ?S) c"
    proof (cases "c = a")
      case True
      then show ?thesis using b by (auto simp: counted_def count_eq_zero_iff)
    next
      case False
      then have "phase_of S v \<noteq> Built c" for v using spec [OF n, of v] assms(2) by (cases "v = t") auto
      with sys_okD(6) [OF assms(1), of c e] e False show ?thesis by (simp add: counted_def)
    qed
  next
    fix c assume "c \<in># held ?S"
    then show "heap (pool ?S) c \<noteq> None" using sys_okD(7) [OF assms(1), of c] b by auto
  qed
  ultimately show ?thesis by (simp add: sys_ok_def)
qed

lemma insert_step_ok:
  assumes "sys_ok S" and "phase_of S t = Built a" and "heap (pool S) a = Some b"
  shows "\<exists>r p. new_insert malloc_ok zalloc (pool S) a = Some (r, p) \<and>
    sys_ok (S\<lparr>pool := p, phase_of := (phase_of S)(t := Idle), held := opt_mset r + held S\<rparr>) \<and>
    (\<forall>c. r = Some c \<longrightarrow> (\<exists>e. heap p c = Some e \<and> in_pool e \<and> buf_bytes e = buf_bytes b \<and> (data_is_static b \<longrightarrow> data_is_static e)))"
proof (rule duplicate_outcome [OF assms(1), of b "data_is_static b"])
  fix r assume r: "find_duplicate (pool S) b (data_is_static b) = Some r"
    and e: "\<And>e. r = Some e \<Longrightarrow> e \<in># lh_elements (bufs (pool S)) \<and> buf_bytes e = buf_bytes b \<and> (data_is_static b \<longrightarrow> data_is_static e)"
  note ok = sys_okD(1) [OF assms(1)]
  have inp: "in_pool b" using sys_okD(3) [OF assms(1,2)] assms(3) by auto
  show ?thesis
  proof (cases r)
    case None
    obtain i old lh where lh: "OPENSSL_lh_insert malloc_ok zalloc CRYPTO_BUFFER_hash CRYPTO_BUFFER_cmp (bufs (pool S)) b = Some (i, old, lh)"
      "lh_ok CRYPTO_BUFFER_hash CRYPTO_BUFFER_cmp lh"
      "lh_elements lh = (if i then lh_elements (bufs (pool S)) - matching (CRYPTO_BUFFER_cmp ()) (lh_elements (bufs (pool S))) b + {#b#} else lh_elements (bufs (pool S)))"
      using buffer_table.ins [OF ok, of malloc_ok zalloc b] by blast
    have el: "e = b \<or> e \<in># lh_elements (bufs (pool S))" if "e \<in># lh_elements lh" for e
      using that lh(3) by (auto split: if_splits dest: in_diffD)
    show ?thesis
    proof (cases i)
      case True
      have "new_insert malloc_ok zalloc (pool S) a = Some (Some a, (pool S)\<lparr>bufs := lh\<rparr>)"
        using assms(3) r None lh(1) True by (simp add: new_insert_def)
      with publish_ok [OF assms lh(2) el] assms(3) inp show ?thesis by auto
    next
      case False
      let ?S = "S\<lparr>pool := (pool S)\<lparr>bufs := lh\<rparr>\<rparr>"
      have "sys_ok ?S" using assms(1) lh(2,3) False by (auto simp: sys_ok_def table_ok_def built_ok_def heap_ok_def counted_def)
      from discard_ok [OF this, of t a] obtain p where "crypto_buffer_free_object ((pool S)\<lparr>bufs := lh\<rparr>) a = Some p"
        "sys_ok (S\<lparr>pool := p, phase_of := (phase_of S)(t := Idle)\<rparr>)" using assms(2) by auto
      then show ?thesis using assms(3) r None lh(1) False by (simp add: new_insert_def)
    qed
  next
    case (Some d)
    note d = e [OF Some] and h = sys_okD(2) [OF assms(1), of d]
    have "heap (pool S) (buf_id d) \<noteq> None" using d h by simp
    from up_ref_ok [OF assms(1) this] d h obtain p where p: "CRYPTO_BUFFER_up_ref (pool S) (buf_id d) = Some p"
      "sys_ok (S\<lparr>pool := p, held := add_mset (buf_id d) (held S)\<rparr>)" "heap p = heap (pool S)" by blast
    from discard_ok [OF p(2), of t a] obtain q where q: "crypto_buffer_free_object p a = Some q"
      "sys_ok (S\<lparr>held := add_mset (buf_id d) (held S), pool := q, phase_of := (phase_of S)(t := Idle)\<rparr>)" using assms(2) by auto
    moreover have "S\<lparr>held := add_mset (buf_id d) (held S), pool := q, phase_of := (phase_of S)(t := Idle)\<rparr> =
      S\<lparr>pool := q, phase_of := (phase_of S)(t := Idle), held := add_mset (buf_id d) (held S)\<rparr>" by simp
    ultimately have q2: "sys_ok (S\<lparr>pool := q, phase_of := (phase_of S)(t := Idle), held := add_mset (buf_id d) (held S)\<rparr>)" by simp
    have "buf_id d \<noteq> a" using h [of t] d assms(2) by auto
    then have "heap q (buf_id d) = Some d" using q(1) p(3) d h by (auto simp: crypto_buffer_free_object_def split: if_splits)
    moreover have "new_insert malloc_ok zalloc (pool S) a = Some (Some (buf_id d), q)"
      using assms(3) r Some p(1) q(1) by (simp add: new_insert_def)
    ultimately show ?thesis using q2 d h by auto
  qed
qed

text \<open>A reference given back: the buffer stays while others hold it, and leaves the table before it is freed.\<close>

lemma drop_last_ok:
  assumes "sys_ok S" and "a \<in># held S" and "count (held S) a = 1" and "lh_ok CRYPTO_BUFFER_hash CRYPTO_BUFFER_cmp lh"
    and "\<And>e. e \<in># lh_elements lh \<Longrightarrow> e \<in># lh_elements (bufs (pool S)) \<and> buf_id e \<noteq> a"
    and "p = (pool S)\<lparr>references := (references (pool S))(a := 0), bufs := lh, heap := (heap (pool S))(a := None)\<rparr>"
  shows "sys_ok (S\<lparr>pool := p, held := held S - {#a#}\<rparr>)" (is "sys_ok ?S")
proof -
  have gone: "a \<notin># held S - {#a#}" using assms(3) by (simp add: not_in_iff)
  have idle: "phase_of S t \<noteq> Built a" for t using sys_okD(3) [OF assms(1)] assms(2) by blast
  have "table_ok ?S" using assms(4,5,6) sys_okD(2) [OF assms(1)] by (auto simp: table_ok_def)
  moreover have "built_ok ?S" using assms(1,6) idle unfolding sys_ok_def built_ok_def by (auto dest: in_diffD)
  moreover have "heap_ok ?S" unfolding heap_ok_def
  proof (intro conjI allI impI)
    fix c e assume e: "heap (pool ?S) c = Some e"
    then have c: "c \<noteq> a" "heap (pool S) c = Some e" using assms(6) by (auto split: if_splits)
    then show "buf_id e = c" using sys_okD(5) [OF assms(1)] by blast
    assume "\<forall>t. phase_of ?S t \<noteq> Built c"
    with sys_okD(6) [OF assms(1) c(2)] c(1) assms(6) show "counted (pool ?S) (held ?S) c" by (simp add: counted_def)
  next
    fix c assume "c \<in># held ?S"
    then have "c \<in># held S - {#a#}" by simp
    then show "heap (pool ?S) c \<noteq> None" using sys_okD(7) [OF assms(1), of c] gone assms(6) by (auto dest: in_diffD)
  qed
  ultimately show ?thesis by (simp add: sys_ok_def)
qed

lemma drop_ok:
  assumes "sys_ok S" and "a \<in># held S" and "references (pool S) a = CRYPTO_REFCOUNT_MAX \<and> n = CRYPTO_REFCOUNT_MAX \<or>
    references (pool S) a \<noteq> CRYPTO_REFCOUNT_MAX \<and> n = references (pool S) a - 1 \<and> n \<noteq> 0"
  shows "sys_ok (S\<lparr>pool := (pool S)\<lparr>references := (references (pool S))(a := n)\<rparr>, held := held S - {#a#}\<rparr>)" (is "sys_ok ?S")
proof -
  have idle: "phase_of S t \<noteq> Built a" for t using sys_okD(3) [OF assms(1)] assms(2) by blast
  obtain b where "heap (pool S) a = Some b" using sys_okD(7) [OF assms(1,2)] by auto
  then have c: "counted (pool S) (held S) a" using sys_okD(6) [OF assms(1)] idle by blast
  have "table_ok ?S" using assms(1) by (simp add: sys_ok_def table_ok_def)
  moreover have "built_ok ?S" using assms(1) idle unfolding sys_ok_def built_ok_def by (auto dest: in_diffD)
  moreover have "counted (pool ?S) (held ?S) a"
  proof (cases "n = CRYPTO_REFCOUNT_MAX")
    case True
    then show ?thesis by (simp add: counted_def CRYPTO_REFCOUNT_MAX_def)
  next
    case False
    then have "n = references (pool S) a - 1" "references (pool S) a \<noteq> 0" "n \<noteq> 0" "unat (references (pool S) a) = count (held S) a"
      using assms(3) c by (auto simp: counted_def)
    then show ?thesis by (simp add: counted_def unat_minus_one)
  qed
  then have "heap_ok ?S" using assms(1) unfolding sys_ok_def heap_ok_def counted_def by (auto dest: in_diffD)
  ultimately show ?thesis by (simp add: sys_ok_def)
qed

lemma free_ok:
  assumes "sys_ok S" and "a \<in># held S"
  shows "\<exists>p. CRYPTO_BUFFER_free zalloc (pool S) (Some a) = Some p \<and> sys_ok (S\<lparr>pool := p, held := held S - {#a#}\<rparr>)"
proof -
  have idle: "phase_of S t \<noteq> Built a" for t using sys_okD(3) [OF assms(1)] assms(2) by blast
  obtain b where b: "heap (pool S) a = Some b" "buf_id b = a" using sys_okD(7) [OF assms] sys_okD(5) [OF assms(1)] by blast
  then have c: "references (pool S) a \<noteq> 0" "references (pool S) a = CRYPTO_REFCOUNT_MAX \<or> unat (references (pool S) a) = count (held S) a"
    using sys_okD(6) [OF assms(1)] idle by (auto simp: counted_def)
  consider (saturated) "references (pool S) a = CRYPTO_REFCOUNT_MAX" | (more) "references (pool S) a \<noteq> CRYPTO_REFCOUNT_MAX" "references (pool S) a \<noteq> 1"
    | (single) "references (pool S) a = 1" by blast
  then show ?thesis
  proof cases
    case saturated
    then show ?thesis using drop_ok [OF assms, of CRYPTO_REFCOUNT_MAX] b c
      by (auto simp: CRYPTO_BUFFER_free_def CRYPTO_refcount_dec_and_test_zero_def)
  next
    case more
    then have "references (pool S) a - 1 \<noteq> 0" by simp
    then show ?thesis using drop_ok [OF assms, of "references (pool S) a - 1"] b c more
      by (auto simp: CRYPTO_BUFFER_free_def CRYPTO_refcount_dec_and_test_zero_def)
  next
    case single
    let ?E = "lh_elements (bufs (pool S))"
    define p where "p = (pool S)\<lparr>references := (references (pool S))(a := 0)\<rparr>"
    have one: "count (held S) a = 1" using c single by (auto simp: CRYPTO_REFCOUNT_MAX_def)
    have dec: "CRYPTO_refcount_dec_and_test_zero (references (pool S) a) = Some (True, 0)"
      using single by (simp add: CRYPTO_refcount_dec_and_test_zero_def CRYPTO_REFCOUNT_MAX_def)
    have el: "e = b" "in_pool b" if "e \<in># ?E" "buf_id e = a" for e using sys_okD(2) [OF assms(1) that(1)] that(2) b by auto
    have fin: "\<exists>q. crypto_buffer_free_object (p\<lparr>bufs := lh\<rparr>) a = Some q \<and> sys_ok (S\<lparr>pool := q, held := held S - {#a#}\<rparr>)"
      if "lh_ok CRYPTO_BUFFER_hash CRYPTO_BUFFER_cmp lh" "\<And>e. e \<in># lh_elements lh \<Longrightarrow> e \<in># ?E \<and> buf_id e \<noteq> a" for lh
      using drop_last_ok [OF assms one that refl] b by (simp add: crypto_buffer_free_object_def p_def)
    show ?thesis
    proof (cases "in_pool b")
      case False
      then have "e \<in># ?E \<Longrightarrow> buf_id e \<noteq> a" for e using el by blast
      then show ?thesis using fin [OF sys_okD(1) [OF assms(1)]] b dec False by (simp add: CRYPTO_BUFFER_free_def p_def)
    next
      case True
      obtain r where r: "lh_CRYPTO_BUFFER_retrieve (pool S) b = Some r" "opt_mset r = matching (CRYPTO_BUFFER_cmp ()) ?E b"
        using retrieve_outcome [OF assms(1)] by metis
      have rp: "lh_CRYPTO_BUFFER_retrieve p b = Some r" using r(1) by (simp add: lh_CRYPTO_BUFFER_retrieve_def readable_def p_def split: if_splits)
      show ?thesis
      proof (cases "map_option buf_id r = Some a")
        case False
        have "buf_id e \<noteq> a" if "e \<in># ?E" for e
        proof
          assume "buf_id e = a"
          then have "b \<in># matching (CRYPTO_BUFFER_cmp ()) ?E b" using el(1) [OF that] that by (simp add: matching_def buffer_cmp_equal)
          then have "b \<in># opt_mset r" by (simp only: r(2))
          then have "r = Some b" by (cases r) auto
          with False b show False by simp
        qed
        then show ?thesis using fin [OF sys_okD(1) [OF assms(1)]] b dec rp False True by (cases r) (simp_all add: CRYPTO_BUFFER_free_def p_def Let_def)
      next
        case found: True
        obtain r' lh where lh: "OPENSSL_lh_delete zalloc CRYPTO_BUFFER_hash CRYPTO_BUFFER_cmp (bufs (pool S)) b = Some (r', lh)"
          "lh_ok CRYPTO_BUFFER_hash CRYPTO_BUFFER_cmp lh" "opt_mset r' = matching (CRYPTO_BUFFER_cmp ()) ?E b"
          "lh_elements lh = ?E - matching (CRYPTO_BUFFER_cmp ()) ?E b"
          using buffer_table.del [OF sys_okD(1) [OF assms(1)], of zalloc b] by blast
        have "opt_mset r' = opt_mset r" using r(2) lh(3) by simp
        then have "r' = r" by (cases r; cases r') auto
        moreover have "e \<in># ?E \<and> buf_id e \<noteq> a" if "e \<in># lh_elements lh" for e
          using that el(1) [of e] unfolding lh(4) minus_matching by (auto simp: buffer_cmp_equal)
        ultimately show ?thesis using fin [OF lh(2)] b dec rp found True lh(1) by (simp add: CRYPTO_BUFFER_free_def p_def)
      qed
    qed
  qed
qed

section \<open>Reachable states\<close>

lemma start_ok:
  assumes "CRYPTO_BUFFER_POOL_new True True True key (\<lambda>_. None) refs = Some p"
  shows "sys_ok \<lparr>pool = p, phase_of = (\<lambda>_. Idle), held = {#}\<rparr>"
proof -
  obtain lh where "OPENSSL_lh_new True True key () = Some lh" "p = \<lparr>bufs = lh, heap = (\<lambda>_. None), references = refs\<rparr>"
    using assms by (auto simp: CRYPTO_BUFFER_POOL_new_def)
  with new_ok [of key "()" lh CRYPTO_BUFFER_hash CRYPTO_BUFFER_cmp] show ?thesis
    by (simp add: sys_ok_def table_ok_def built_ok_def heap_ok_def)
qed

lemma step_ok:
  assumes "pool_step t S S'" and "sys_ok S"
  shows "sys_ok S'"
  using assms
proof (induction rule: pool_step.induct)
  case (hit S t bytes static a p)
  then show ?case using lookup_ok [of S bytes static] by auto
next
  case (miss S t bytes static p)
  then have p: "p = pool S" using lookup_ok [of S bytes static] by auto
  have "phase_of (S\<lparr>pool := p, phase_of := (phase_of S)(t := Missed bytes static)\<rparr>) u = Built a \<longleftrightarrow> phase_of S u = Built a" for u a
    using miss.hyps(1) by auto
  then show ?case using miss.prems p unfolding sys_ok_def table_ok_def built_ok_def heap_ok_def by simp
next
  case (build S t bytes static a memdup_ok b p)
  then show ?case using new_object_ok(2) [of S a memdup_ok bytes static True b p t] by simp
next
  case (no_memory S t bytes static zalloc memdup_ok p)
  have p: "p = pool S" using no_memory.hyps(2) by (auto simp: new_object_def split: option.splits if_splits)
  have "phase_of (S\<lparr>pool := p, phase_of := (phase_of S)(t := Idle)\<rparr>) u = Built a \<longleftrightarrow> phase_of S u = Built a" for u a
    using no_memory.hyps(1) by auto
  then show ?case using no_memory.prems p unfolding sys_ok_def table_ok_def built_ok_def heap_ok_def by simp
next
  case (insert S t a malloc_ok zalloc r p)
  obtain b where "heap (pool S) a = Some b" using sys_okD(3) [OF insert.prems insert.hyps(1)] by blast
  with insert_step_ok [OF insert.prems insert.hyps(1), of b malloc_ok zalloc] insert.hyps(2) show ?case by auto
next
  case (unpooled S t a memdup_ok bytes static b p)
  then show ?case using new_object_ok(3) [of S a memdup_ok bytes static False b p] by simp
next
  case (up_ref S t a p)
  then have "\<And>u. phase_of S u \<noteq> Built a" "heap (pool S) a \<noteq> None" using sys_okD(3,7) [OF up_ref.prems] by blast+
  with up_ref_ok [OF up_ref.prems, of a] up_ref.hyps(3) show ?case by auto
next
  case (free S t a zalloc p)
  with free_ok [of S a zalloc] show ?case by auto
qed

lemma reach_ok: "pool_reach key S \<Longrightarrow> sys_ok S"
  by (induction rule: pool_reach.induct) (auto intro: start_ok step_ok)

text \<open>A buffer of the table is what a search for its bytes finds, but for a request with static data that it has not.\<close>

lemma retrieve_member:
  assumes "sys_ok S" and "e \<in># lh_elements (bufs (pool S))" and "buf_bytes b = buf_bytes e"
  shows "lh_CRYPTO_BUFFER_retrieve (pool S) b = Some (Some e)"
proof -
  obtain r where r: "lh_CRYPTO_BUFFER_retrieve (pool S) b = Some r" "opt_mset r = matching (CRYPTO_BUFFER_cmp ()) (lh_elements (bufs (pool S))) b"
    using retrieve_outcome [OF assms(1)] by metis
  have "e \<in># matching (CRYPTO_BUFFER_cmp ()) (lh_elements (bufs (pool S))) b" using assms(2,3) by (simp add: matching_def buffer_cmp_equal)
  then have "e \<in># opt_mset r" by (simp only: r(2))
  then have "r = Some e" by (cases r) auto
  with r(1) show ?thesis by simp
qed

lemma lookup_member:
  assumes "sys_ok S" and "e \<in># lh_elements (bufs (pool S))"
  shows "static \<and> \<not> data_is_static e \<Longrightarrow> new_lookup (pool S) (buf_bytes e) static = Some (None, pool S)"
    and "\<not> (static \<and> \<not> data_is_static e) \<Longrightarrow> \<exists>p. new_lookup (pool S) (buf_bytes e) static = Some (Some (buf_id e), p)"
proof -
  let ?x = "\<lparr>buf_id = 0, in_pool = True, buf_bytes = buf_bytes e, data_is_static = static\<rparr>"
  have r: "lh_CRYPTO_BUFFER_retrieve (pool S) ?x = Some (Some e)" using assms by (rule retrieve_member) simp
  have "heap (pool S) (buf_id e) \<noteq> None" using sys_okD(2) [OF assms] by simp
  with r show "static \<and> \<not> data_is_static e \<Longrightarrow> new_lookup (pool S) (buf_bytes e) static = Some (None, pool S)"
    "\<not> (static \<and> \<not> data_is_static e) \<Longrightarrow> \<exists>p. new_lookup (pool S) (buf_bytes e) static = Some (Some (buf_id e), p)"
    by (auto simp: new_lookup_def find_duplicate_def CRYPTO_BUFFER_up_ref_def)
qed

lemma find_duplicate_member:
  assumes "sys_ok S" and "find_duplicate (pool S) b static = Some (Some e)"
  shows "e \<in># lh_elements (bufs (pool S)) \<and> buf_bytes e = buf_bytes b"
  by (rule duplicate_outcome [OF assms(1), of b static]) (use assms(2) in auto)

lemma up_ref_same: "CRYPTO_BUFFER_up_ref p a = Some q \<Longrightarrow> bufs q = bufs p \<and> heap q = heap p"
  by (auto simp: CRYPTO_BUFFER_up_ref_def split: if_splits)

text \<open>The buffer a call answers is in the table.\<close>

lemma lookup_in_table:
  assumes "sys_ok S" and "new_lookup (pool S) bytes static = Some (Some a, p)"
  shows "\<exists>e. e \<in># lh_elements (bufs p) \<and> buf_id e = a \<and> buf_bytes e = bytes"
  using assms(2) find_duplicate_member [OF assms(1)] up_ref_same
  by (fastforce simp: new_lookup_def bind_eq_Some_conv split: option.splits)

lemma insert_in_table:
  assumes "sys_ok S" and "heap (pool S) a = Some b" and "new_insert malloc_ok zalloc (pool S) a = Some (Some c, p)"
    and "buf_id b = a"
  shows "\<exists>e. e \<in># lh_elements (bufs p) \<and> buf_id e = c \<and> buf_bytes e = buf_bytes b"
proof (rule duplicate_outcome [OF assms(1), of b "data_is_static b"])
  fix r assume r: "find_duplicate (pool S) b (data_is_static b) = Some r"
    and e: "\<And>e. r = Some e \<Longrightarrow> e \<in># lh_elements (bufs (pool S)) \<and> buf_bytes e = buf_bytes b \<and> (data_is_static b \<longrightarrow> data_is_static e)"
  show ?thesis
  proof (cases r)
    case None
    obtain i old lh where lh: "OPENSSL_lh_insert malloc_ok zalloc CRYPTO_BUFFER_hash CRYPTO_BUFFER_cmp (bufs (pool S)) b = Some (i, old, lh)"
      "lh_elements lh = (if i then lh_elements (bufs (pool S)) - matching (CRYPTO_BUFFER_cmp ()) (lh_elements (bufs (pool S))) b + {#b#} else lh_elements (bufs (pool S)))"
      using buffer_table.ins [OF sys_okD(1) [OF assms(1)], of malloc_ok zalloc b] by blast
    then have "i" "c = a" "bufs p = lh" using assms(2,3) r None
      by (auto simp: new_insert_def bind_eq_Some_conv split: if_splits)
    with lh(2) assms(4) show ?thesis by auto
  next
    case (Some d)
    then have "c = buf_id d" "bufs p = bufs (pool S)" using assms(2,3) r up_ref_same
      by (auto simp: new_insert_def bind_eq_Some_conv crypto_buffer_free_object_def split: if_splits)
    with e [OF Some] show ?thesis by auto
  qed
qed

section \<open>Whole calls\<close>

text \<open>What the sections leave alone.\<close>

lemma lookup_same: "new_lookup p bytes static = Some (r, q) \<Longrightarrow> bufs q = bufs p \<and> heap q = heap p"
  using up_ref_same by (fastforce simp: new_lookup_def bind_eq_Some_conv split: option.splits)

lemma object_same: "new_object z md p bytes static pooled = (r, q) \<Longrightarrow> bufs q = bufs p \<and> (\<forall>c. z \<noteq> Some c \<longrightarrow> heap q c = heap p c)"
  by (auto simp: new_object_def split: option.splits if_splits)

lemma free_object_same: "crypto_buffer_free_object p a = Some q \<Longrightarrow> bufs q = bufs p \<and> (\<forall>c. c \<noteq> a \<longrightarrow> heap q c = heap p c)"
  by (auto simp: crypto_buffer_free_object_def split: if_splits)

lemma insert_same:
  assumes "new_insert m z p a = Some (r, q)" and "c \<noteq> a"
  shows "heap q c = heap p c"
proof -
  obtain buf dup i p1 where d: "heap p a = Some buf" "find_duplicate p buf (data_is_static buf) = Some dup"
    "(case dup of
        None \<Rightarrow> Option.bind (OPENSSL_lh_insert m z CRYPTO_BUFFER_hash CRYPTO_BUFFER_cmp (bufs p) buf) (\<lambda>(i, _, lh). Some (i, p\<lparr>bufs := lh\<rparr>))
      | Some e \<Rightarrow> Option.bind (CRYPTO_BUFFER_up_ref p (buf_id e)) (\<lambda>p. Some (False, p))) = Some (i, p1)"
    "(if \<not> i then Option.bind (crypto_buffer_free_object p1 a) (\<lambda>q. Some (map_option buf_id dup, q)) else Some (Some a, p1)) = Some (r, q)"
    using assms(1) unfolding new_insert_def by (auto simp: bind_eq_Some_conv)
  have "heap p1 = heap p" using d(3) up_ref_same by (cases dup) (auto simp: bind_eq_Some_conv)
  moreover have "heap q c = heap p1 c"
    using d(4) assms(2) free_object_same by (cases i) (auto simp: bind_eq_Some_conv)
  ultimately show ?thesis by simp
qed

text \<open>A reference given back: the count goes down, or the buffer is freed, with or without its entry of the table.\<close>

lemma free_cases:
  assumes "CRYPTO_BUFFER_free z p (Some a) = Some q"
  obtains (more) n where "q = p\<lparr>references := (references p)(a := n)\<rparr>"
  | (freed) n where "CRYPTO_refcount_dec_and_test_zero (references p a) = Some (True, n)" and "bufs q = bufs p" and "\<forall>c. c \<noteq> a \<longrightarrow> heap q c = heap p c"
  | (deleted) n buf r where "CRYPTO_refcount_dec_and_test_zero (references p a) = Some (True, n)" and "heap p a = Some buf"
      and "OPENSSL_lh_delete z CRYPTO_BUFFER_hash CRYPTO_BUFFER_cmp (bufs p) buf = Some (r, bufs q)" and "map_option buf_id r = Some a"
      and "\<forall>c. c \<noteq> a \<longrightarrow> heap q c = heap p c"
proof -
  obtain buf zero n where b: "heap p a = Some buf" "CRYPTO_refcount_dec_and_test_zero (references p a) = Some (zero, n)"
    using assms unfolding CRYPTO_BUFFER_free_def by (auto simp: bind_eq_Some_conv)
  let ?p = "p\<lparr>references := (references p)(a := n)\<rparr>"
  note run = assms [unfolded CRYPTO_BUFFER_free_def, simplified, unfolded b, simplified, unfolded Let_def]
  consider "\<not> zero" | "zero" "\<not> in_pool buf" | "zero" "in_pool buf" by blast
  then show thesis
  proof cases
    case 1
    then show thesis using more run by auto
  next
    case 2
    then have "crypto_buffer_free_object ?p a = Some q" using run by simp
    with 2 freed [of n] b(2) free_object_same [of ?p a q] show thesis by simp
  next
    case 3
    then obtain f p1 where f: "lh_CRYPTO_BUFFER_retrieve ?p buf = Some f"
      "(if map_option buf_id f = Some a then Option.bind (OPENSSL_lh_delete z CRYPTO_BUFFER_hash CRYPTO_BUFFER_cmp (bufs ?p) buf)
          (\<lambda>(r, lh). if map_option buf_id r = Some a then Some (?p\<lparr>bufs := lh\<rparr>) else None) else Some ?p) = Some p1"
      "crypto_buffer_free_object p1 a = Some q"
      using run by (auto simp: bind_eq_Some_conv simp del: map_option_eq_Some)
    have q: "bufs q = bufs p1" "\<forall>c. c \<noteq> a \<longrightarrow> heap q c = heap p1 c" using free_object_same [OF f(3)] by auto
    show thesis
    proof (cases "map_option buf_id f = Some a")
      case True
      with f(2) obtain r lh where "OPENSSL_lh_delete z CRYPTO_BUFFER_hash CRYPTO_BUFFER_cmp (bufs p) buf = Some (r, lh)"
        "map_option buf_id r = Some a" "p1 = ?p\<lparr>bufs := lh\<rparr>" by (auto simp: bind_eq_Some_conv simp del: map_option_eq_Some split: if_splits)
      with deleted [of n buf r] b 3 q show thesis by simp
    next
      case False
      then have "p1 = ?p" using f(2) unfolding if_not_P [OF False] by simp
      with freed [of n] b(2) 3 q show thesis by simp
    qed
  qed
qed

lemma free_same: "CRYPTO_BUFFER_free z p (Some a) = Some q \<Longrightarrow> c \<noteq> a \<Longrightarrow> heap q c = heap p c"
  by (erule free_cases) auto

text \<open>A buffer that a thread has built stays as it is until the thread puts it into the table.\<close>

lemma step_built:
  assumes "pool_step u S S'" and "u \<noteq> t" and "sys_ok S" and "phase_of S t = Built b"
  shows "heap (pool S') b = heap (pool S) b"
proof -
  note b = sys_okD(3,4) [OF assms(3,4)]
  show ?thesis
    using assms(1)
  proof cases
    case (hit bytes static a p)
    then show ?thesis using lookup_same by simp
  next
    case (miss bytes static p)
    then show ?thesis using lookup_same by simp
  next
    case (build bytes static a memdup_ok c p)
    then have "a \<noteq> b" using b(1) by auto
    then show ?thesis using object_same [OF build(4)] build(1) by simp
  next
    case (no_memory bytes static zalloc memdup_ok p)
    then show ?thesis by (auto simp: new_object_def split: option.splits if_splits)
  next
    case (insert a malloc_ok zalloc r p)
    then have "b \<noteq> a" using b(2) [of u] assms(2) by auto
    then show ?thesis using insert_same [OF insert(3)] insert(1) by simp
  next
    case (unpooled a memdup_ok bytes static c p)
    then have "a \<noteq> b" using b(1) by auto
    then show ?thesis using object_same [OF unpooled(4)] unpooled(1) by simp
  next
    case (up_ref a p)
    then show ?thesis using up_ref_same by simp
  next
    case (free a zalloc p)
    then have "b \<noteq> a" using b(1) by auto
    then show ?thesis using free_same [OF free(4)] free(1) by simp
  qed
qed

lemma step_phase: "pool_step u S S' \<Longrightarrow> u \<noteq> t \<Longrightarrow> phase_of S' t = phase_of S t"
  by (auto elim: pool_step.cases)

lemma others_keep:
  assumes "others t S S'" and "pool_reach key S"
  shows "pool_reach key S' \<and> phase_of S' t = phase_of S t \<and> (\<forall>b. phase_of S t = Built b \<longrightarrow> heap (pool S') b = heap (pool S) b)"
  using assms(1)
proof induction
  case base
  then show ?case using assms(2) by simp
next
  case (step T T')
  then obtain u where u: "u \<noteq> t" "pool_step u T T'" and T: "pool_reach key T" "phase_of T t = phase_of S t"
    "\<And>b. phase_of S t = Built b \<Longrightarrow> heap (pool T) b = heap (pool S) b" by blast
  have "heap (pool T') b = heap (pool S) b" if "phase_of S t = Built b" for b
    using step_built [OF u(2,1) reach_ok [OF T(1)], of b] T(2,3) that by simp
  with u T show ?case using pool_reach.step [OF T(1) u(2)] step_phase [OF u(2,1)] by simp
qed

text \<open>The states of a call that makes a buffer, up to the section that puts it into the table.\<close>

lemma call_made:
  assumes "pool_reach key S" and "phase_of S t = Idle" and "new_lookup (pool S) bytes static = Some (None, p)"
    and "others t (S\<lparr>pool := p, phase_of := (phase_of S)(t := Missed bytes static)\<rparr>) S1"
  shows "pool_reach key S1 \<and> phase_of S1 t = Missed bytes static"
  using others_keep [OF assms(4) pool_reach.step [OF assms(1) pool_step.miss [OF assms(2,3)]]] by simp

lemma call_built:
  assumes "pool_reach key S1" and "phase_of S1 t = Missed bytes static" and "heap (pool S1) c = None"
    and "new_object (Some c) memdup_ok (pool S1) bytes static True = (Some b, q)"
    and "others t (S1\<lparr>pool := q, phase_of := (phase_of S1)(t := Built b)\<rparr>) S2"
  shows "pool_reach key S2 \<and> phase_of S2 t = Built b \<and>
    heap (pool S2) b = Some \<lparr>buf_id = b, in_pool = True, buf_bytes = bytes, data_is_static = static\<rparr>"
proof -
  have "heap q b = Some \<lparr>buf_id = b, in_pool = True, buf_bytes = bytes, data_is_static = static\<rparr>"
    using assms(4) by (auto simp: new_object_def split: if_splits)
  then show ?thesis using others_keep [OF assms(5) pool_reach.step [OF assms(1) pool_step.build [OF assms(2-4)]]] by simp
qed

lemma call_reach: "pool_reach key S \<Longrightarrow> pool_call t bytes static pooled S r S' \<Longrightarrow> pool_reach key S'"
proof (erule pool_call.cases, goal_cases)
  case (1 S t bytes static a p)
  then show ?case using pool_reach.step pool_step.hit by blast
next
  case (2 S t bytes static p S1 c memdup_ok b q S2 malloc_ok zalloc r p')
  then have S1: "pool_reach key S1" "phase_of S1 t = Missed bytes static" using call_made by blast+
  from 2 call_built [OF S1, of c memdup_ok b q S2] show ?case using pool_reach.step pool_step.insert by blast
next
  case (3 S t bytes static p S1 zalloc memdup_ok q)
  then have "pool_reach key S1" "phase_of S1 t = Missed bytes static" using call_made by blast+
  with 3 show ?case using pool_reach.step pool_step.no_memory by blast
next
  case (4 S t c memdup_ok bytes static b p)
  then show ?case using pool_reach.step pool_step.unpooled by blast
qed

text \<open>What a call answers.\<close>

lemma call_answer:
  assumes "pool_reach key S" and "pool_call t bytes static pooled S (Some a) S'"
  shows "\<exists>b. heap (pool S') a = Some b \<and> buf_bytes b = bytes \<and> (static \<longrightarrow> data_is_static b) \<and> a \<in># held S'"
  using assms(2)
proof cases
  case (found p)
  then show ?thesis using lookup_ok [OF reach_ok [OF assms(1)], of bytes static] by auto
next
  case (made p S1 c memdup_ok b q S2 malloc_ok zalloc p')
  have S1: "pool_reach key S1" "phase_of S1 t = Missed bytes static" using call_made [OF assms(1) made(3-5)] by blast+
  have S2: "pool_reach key S2" "phase_of S2 t = Built b"
    "heap (pool S2) b = Some \<lparr>buf_id = b, in_pool = True, buf_bytes = bytes, data_is_static = static\<rparr>"
    using call_built [OF S1 made(6-8)] by blast+
  show ?thesis using insert_step_ok [OF reach_ok [OF S2(1)] S2(2,3), of malloc_ok zalloc] made(2,9) by auto
next
  case (alone c memdup_ok p)
  then show ?thesis by (auto simp: new_object_def split: if_splits)
qed

lemma call_in_table:
  assumes "pool_reach key S" and "pool_call t bytes static True S (Some a) S'"
  shows "\<exists>e. e \<in># lh_elements (bufs (pool S')) \<and> buf_id e = a \<and> buf_bytes e = bytes"
  using assms(2)
proof cases
  case (found p)
  then show ?thesis using lookup_in_table [OF reach_ok [OF assms(1)]] by simp
next
  case (made p S1 c memdup_ok b q S2 malloc_ok zalloc p')
  have S1: "pool_reach key S1" "phase_of S1 t = Missed bytes static" using call_made [OF assms(1) made(2-4)] by blast+
  have S2: "pool_reach key S2" "phase_of S2 t = Built b"
    "heap (pool S2) b = Some \<lparr>buf_id = b, in_pool = True, buf_bytes = bytes, data_is_static = static\<rparr>"
    using call_built [OF S1 made(5-7)] by blast+
  show ?thesis using insert_in_table [OF reach_ok [OF S2(1)] S2(3) made(8)] made(1) by simp
qed simp

text \<open>\<open>crypto_buffer_new\<close> as one function is such a call, between whose sections nothing happens.\<close>

lemma crypto_buffer_new_call:
  assumes "pool_reach key S" and "phase_of S t = Idle" and "heap (pool S) c = None"
    and "crypto_buffer_new (Some c) memdup_ok malloc_ok zalloc (pool S) bytes static True = Some (r, p)"
  shows "\<exists>S'. pool_call t bytes static True S r S' \<and> pool S' = p"
proof -
  obtain d q where l: "new_lookup (pool S) bytes static = Some (d, q)" using lookup_ok [OF reach_ok [OF assms(1)], of bytes static] by blast
  show ?thesis
  proof (cases d)
    case (Some a)
    with l assms(4) have "r = Some a" "p = q" by (auto simp: crypto_buffer_new_def)
    with pool_call.found [OF assms(2)] l Some show ?thesis by fastforce
  next
    case None
    note l = l [unfolded None]
    let ?S1 = "S\<lparr>pool := q, phase_of := (phase_of S)(t := Missed bytes static)\<rparr>"
    obtain b q' where o: "new_object (Some c) memdup_ok (pool ?S1) bytes static True = (b, q')" by force
    show ?thesis
    proof (cases b)
      case None
      with l o assms(4) have "r = None" "p = q'" by (auto simp: crypto_buffer_new_def)
      with pool_call.failed [OF assms(2) l rtranclp.rtrancl_refl o [unfolded None]] show ?thesis by fastforce
    next
      case (Some a)
      let ?S2 = "?S1\<lparr>pool := q', phase_of := (phase_of ?S1)(t := Built a)\<rparr>"
      have h: "heap (pool ?S1) c = None" using assms(3) lookup_same [OF l] by simp
      have "new_insert malloc_ok zalloc (pool ?S2) a = Some (r, p)" using l o Some assms(4) by (auto simp: crypto_buffer_new_def)
      from pool_call.made [OF assms(2) l rtranclp.rtrancl_refl h o [unfolded Some] rtranclp.rtrancl_refl this] show ?thesis by fastforce
    qed
  qed
qed

section \<open>How long a buffer stays in the table\<close>

text \<open>
  A step after which buffer \<open>a\<close> is held and has not been replaced: if it is not static, no static buffer
  with its bytes is in the table.
\<close>

definition kept :: "nat \<Rightarrow> sys \<Rightarrow> sys \<Rightarrow> bool" where
  "kept a S S' \<longleftrightarrow> (\<exists>t. pool_step t S S') \<and> a \<in># held S' \<and>
     (map_option data_is_static (heap (pool S) a) = Some False \<longrightarrow>
       (\<forall>d. d \<in># lh_elements (bufs (pool S')) \<longrightarrow> data_is_static d \<longrightarrow> CRYPTO_BUFFER_data (pool S) a \<noteq> Some (buf_bytes d)))"

lemma insert_keeps:
  assumes "sys_ok S" and "phase_of S t = Built c" and "new_insert m z (pool S) c = Some (r, p)" and "e \<in># lh_elements (bufs (pool S))"
    and "e \<notin># lh_elements (bufs p)"
  shows "\<not> data_is_static e \<and> (\<exists>d. d \<in># lh_elements (bufs p) \<and> data_is_static d \<and> buf_bytes d = buf_bytes e)"
proof -
  obtain b where b: "heap (pool S) c = Some b" using sys_okD(3) [OF assms(1,2)] by blast
  show ?thesis
  proof (rule duplicate_outcome [OF assms(1), of b "data_is_static b"])
    fix r' assume r': "find_duplicate (pool S) b (data_is_static b) = Some r'"
    show ?thesis
    proof (cases r')
      case (Some d)
      then have "bufs p = bufs (pool S)" using assms(3) b r' up_ref_same free_object_same
        by (auto simp: new_insert_def bind_eq_Some_conv)
      with assms(4,5) show ?thesis by simp
    next
      case None
      obtain i old lh where lh: "OPENSSL_lh_insert m z CRYPTO_BUFFER_hash CRYPTO_BUFFER_cmp (bufs (pool S)) b = Some (i, old, lh)"
        "lh_elements lh = (if i then lh_elements (bufs (pool S)) - matching (CRYPTO_BUFFER_cmp ()) (lh_elements (bufs (pool S))) b + {#b#} else lh_elements (bufs (pool S)))"
        using buffer_table.ins [OF sys_okD(1) [OF assms(1)], of m z b] by blast
      have p: "bufs p = lh" using assms(3) b r' None lh(1) free_object_same
        by (cases i) (auto simp: new_insert_def bind_eq_Some_conv)
      then have i: "i" using assms(4,5) lh(2) by (cases i) auto
      have same: "buf_bytes b = buf_bytes e"
        using assms(4,5) i unfolding p lh(2) minus_matching by (auto simp: buffer_cmp_equal)
      then have "data_is_static b \<and> \<not> data_is_static e"
        using r' None retrieve_member [OF assms(1,4) same] by (auto simp: find_duplicate_def split: if_splits)
      moreover have "b \<in># lh_elements (bufs p)" using i by (simp add: p lh(2))
      ultimately show ?thesis using same by blast
    qed
  qed
qed

lemma free_keeps:
  assumes "sys_ok S" and "c \<in># held S" and "CRYPTO_BUFFER_free z (pool S) (Some c) = Some p" and "e \<in># lh_elements (bufs (pool S))"
    and "buf_id e \<in># held S - {#c#}"
  shows "e \<in># lh_elements (bufs p)"
  using assms(3)
proof (cases rule: free_cases)
  case (deleted n buf r)
  obtain r' lh where lh: "OPENSSL_lh_delete z CRYPTO_BUFFER_hash CRYPTO_BUFFER_cmp (bufs (pool S)) buf = Some (r', lh)"
    "opt_mset r' = matching (CRYPTO_BUFFER_cmp ()) (lh_elements (bufs (pool S))) buf"
    "lh_elements lh = lh_elements (bufs (pool S)) - matching (CRYPTO_BUFFER_cmp ()) (lh_elements (bufs (pool S))) buf"
    using buffer_table.del [OF sys_okD(1) [OF assms(1)], of z buf] by blast
  have l: "lh = bufs p" "r' = r" using lh(1) deleted(3) by simp_all
  have "count (held S) c = 1"
  proof -
    have "phase_of S t \<noteq> Built c" for t using sys_okD(3) [OF assms(1)] assms(2) by blast
    then have "counted (pool S) (held S) c" using sys_okD(6) [OF assms(1) deleted(2)] by blast
    with deleted(1) show ?thesis
      by (auto simp: counted_def CRYPTO_refcount_dec_and_test_zero_def split: if_splits)
  qed
  then have "c \<notin># held S - {#c#}" by (simp add: not_in_iff)
  then have ne: "buf_id e \<noteq> c" using assms(5) by blast
  have "e \<notin># matching (CRYPTO_BUFFER_cmp ()) (lh_elements (bufs (pool S))) buf"
  proof
    assume "e \<in># matching (CRYPTO_BUFFER_cmp ()) (lh_elements (bufs (pool S))) buf"
    then have "e \<in># opt_mset r" by (simp only: lh(2) flip: l(2))
    then have "r = Some e" by (cases r) auto
    with deleted(4) ne show False by simp
  qed
  then show ?thesis using assms(4) unfolding l(1) [symmetric] lh(3) minus_matching
    by (auto simp: matching_def)
qed (use assms(4) in simp_all)

lemma kept_step:
  assumes "kept a S S'" and "sys_ok S" and "e \<in># lh_elements (bufs (pool S))" and "buf_id e = a"
  shows "e \<in># lh_elements (bufs (pool S'))"
proof -
  obtain t where t: "pool_step t S S'" and h: "a \<in># held S'" using assms(1) by (auto simp: kept_def)
  have e: "heap (pool S) a = Some e" using sys_okD(2) [OF assms(2,3)] assms(4) by simp
  show ?thesis
    using t
  proof cases
    case (insert c m z r p)
    show ?thesis
    proof (rule ccontr)
      assume "e \<notin># lh_elements (bufs (pool S'))"
      then have "\<not> data_is_static e \<and> (\<exists>d. d \<in># lh_elements (bufs (pool S')) \<and> data_is_static d \<and> buf_bytes d = buf_bytes e)"
        using insert_keeps [OF assms(2) insert(2,3) assms(3)] insert(1) by simp
      with assms(1) e show False by (auto simp: kept_def CRYPTO_BUFFER_data_def)
    qed
  next
    case (free c z p)
    then show ?thesis using free_keeps [OF assms(2) free(3,4) assms(3)] h assms(4) by simp
  qed (use assms(3) in \<open>simp_all add: lookup_same object_same up_ref_same\<close>)
qed

lemma kept_trace:
  assumes "(kept a)\<^sup>*\<^sup>* S S'" and "pool_reach key S" and "e \<in># lh_elements (bufs (pool S))" and "buf_id e = a"
  shows "pool_reach key S' \<and> e \<in># lh_elements (bufs (pool S'))"
  using assms(1)
proof induction
  case base
  then show ?case using assms(2,3) by simp
next
  case (step T T')
  then have T: "pool_reach key T" "e \<in># lh_elements (bufs (pool T))" by blast+
  from step(2) obtain t where "pool_step t T T'" by (auto simp: kept_def)
  with T show ?case using kept_step [OF step(2) reach_ok [OF T(1)] T(2) assms(4)] pool_reach.step by blast
qed

section \<open>Properties\<close>

text \<open>C14: However the threads interleave, no call uses a freed buffer, fails an assertion or aborts: every buffer that a client or the table refers to is allocated, and every critical section that a thread may enter returns.\<close>

theorem pool_safe:
  assumes "pool_reach key S"
  shows "(\<forall>a. a \<in># held S \<longrightarrow> heap (pool S) a \<noteq> None) \<and> readable (pool S) \<and>
    (\<forall>bytes static. new_lookup (pool S) bytes static \<noteq> None) \<and>
    (\<forall>t a malloc_ok zalloc. phase_of S t = Built a \<longrightarrow> new_insert malloc_ok zalloc (pool S) a \<noteq> None) \<and>
    (\<forall>a zalloc. a \<in># held S \<longrightarrow> CRYPTO_BUFFER_up_ref (pool S) a \<noteq> None \<and> CRYPTO_BUFFER_free zalloc (pool S) (Some a) \<noteq> None)"
proof -
  note ok = reach_ok [OF assms]
  have "new_insert m z (pool S) a \<noteq> None" if "phase_of S t = Built a" for t a m z
    using sys_okD(3) [OF ok that] insert_step_ok [OF ok that, of _ m z] by fastforce
  moreover have "new_lookup (pool S) bytes static \<noteq> None" for bytes static using lookup_ok [OF ok, of bytes static] by auto
  moreover have "CRYPTO_BUFFER_free z (pool S) (Some a) \<noteq> None" if "a \<in># held S" for z a using free_ok [OF ok that, of z] by auto
  moreover have "CRYPTO_BUFFER_up_ref (pool S) a \<noteq> None" if "a \<in># held S" for a
    using sys_okD(7) [OF ok that] by (simp add: CRYPTO_BUFFER_up_ref_def)
  ultimately show ?thesis using sys_okD(7) [OF ok] sys_readable [OF ok] by blast
qed

text \<open>C21: The buffer that \<open>crypto_buffer_new\<close> answers has the bytes the caller asked for, and static data where the caller gave static data, and the caller holds it: whether it was found, went into the table, was answered after losing a race, or was made without a pool, and whatever other threads did between the sections of the call.\<close>

theorem pool_answers_bytes:
  assumes "pool_reach key S" and "pool_call t bytes static pooled S (Some a) S'"
  shows "CRYPTO_BUFFER_data (pool S') a = Some bytes \<and> CRYPTO_BUFFER_len (pool S') a = Some (of_nat (length bytes)) \<and>
    (static \<longrightarrow> map_option data_is_static (heap (pool S') a) = Some True) \<and> a \<in># held S' \<and> pool_reach key S'"
proof -
  obtain b where "heap (pool S') a = Some b" "buf_bytes b = bytes" "static \<longrightarrow> data_is_static b" "a \<in># held S'"
    using call_answer [OF assms] by blast
  then show ?thesis using call_reach [OF assms] by (simp add: CRYPTO_BUFFER_data_def CRYPTO_BUFFER_len_def)
qed

text \<open>C20: Buffers are shared. The table has one buffer per content at most; and once a call on a pool has answered a buffer, asking for the same bytes again with \<open>CRYPTO_BUFFER_new\<close>, now or later, answers that buffer, as long as it is held and, if it is not static, no static buffer with the same bytes has taken its place, whatever the threads do meanwhile. A request with static data is answered with it too when its data are static; otherwise such a request does not take it, but goes on to make a buffer that replaces it.\<close>

theorem pool_shares:
  assumes "pool_reach key S" and "pool_call t bytes static True S (Some a) S1" and "(kept a)\<^sup>*\<^sup>* S1 S2"
  shows "at_most_one (CRYPTO_BUFFER_cmp ()) (lh_elements (bufs (pool S2))) \<and>
    (\<exists>p. CRYPTO_BUFFER_new z md m rz (pool S2) bytes True = Some (Some a, p)) \<and>
    (if map_option data_is_static (heap (pool S2) a) = Some True
     then \<exists>p. CRYPTO_BUFFER_new_from_static_data_unsafe z md m rz (pool S2) bytes True = Some (Some a, p)
     else new_lookup (pool S2) bytes True = Some (None, pool S2))"
proof -
  obtain e where e: "e \<in># lh_elements (bufs (pool S1))" "buf_id e = a" "buf_bytes e = bytes" using call_in_table [OF assms(1,2)] by blast
  have e2: "e \<in># lh_elements (bufs (pool S2))" and ok: "sys_ok S2"
    using kept_trace [OF assms(3) call_reach [OF assms(1,2)] e(1,2)] reach_ok by blast+
  have h: "heap (pool S2) a = Some e" using sys_okD(2) [OF ok e2] e(2) by simp
  have hit: "\<exists>p. crypto_buffer_new z md m rz (pool S2) bytes st True = Some (Some a, p)" if "st \<longrightarrow> data_is_static e" for st
    using lookup_member(2) [OF ok e2, of st] that e(2,3) by (auto simp: crypto_buffer_new_def)
  have "\<exists>p. CRYPTO_BUFFER_new z md m rz (pool S2) bytes True = Some (Some a, p)"
    using hit [of False] by (simp add: CRYPTO_BUFFER_new_def)
  moreover have "if map_option data_is_static (heap (pool S2) a) = Some True
     then \<exists>p. CRYPTO_BUFFER_new_from_static_data_unsafe z md m rz (pool S2) bytes True = Some (Some a, p)
     else new_lookup (pool S2) bytes True = Some (None, pool S2)"
    using hit [of True] lookup_member(1) [OF ok e2, of True] h e(3) by (simp add: CRYPTO_BUFFER_new_from_static_data_unsafe_def)
  ultimately show ?thesis using buffer_table.unique [OF sys_okD(1) [OF ok]] by blast
qed

text \<open>C15: A hash table, started empty, answers every sequence of insertions, deletions, searches and counts as a list without equal elements does, whatever the resizing allocations do.\<close>

theorem table_run:
  assumes "OPENSSL_lh_new True True h c = Some lh" and "hashing (call_hash h) (call_cmp c)"
  shows "lh_run zalloc call_hash call_cmp ops lh = Some (assoc_run (call_cmp c) ops [])"
  using run_ok [of call_hash call_cmp lh "[]" zalloc ops] new_ok [OF assms(1), of call_hash call_cmp] assms(2) by simp

section \<open>Witnesses\<close>

text \<open>A pool in which one thread has built a buffer that is not in the table yet.\<close>

definition key0 :: hash_key where "key0 = (0, 0)"

definition empty_pool :: crypto_buffer_pool_st where
  "empty_pool = the (CRYPTO_BUFFER_POOL_new True True True key0 (\<lambda>_. None) (\<lambda>_. 0))"

definition start_sys :: sys where
  "start_sys = \<lparr>pool = empty_pool, phase_of = (\<lambda>_. Idle), held = {#}\<rparr>"

lemma empty_pool_new: "CRYPTO_BUFFER_POOL_new True True True key0 (\<lambda>_. None) (\<lambda>_. 0) = Some empty_pool"
  by (simp add: empty_pool_def CRYPTO_BUFFER_POOL_new_def OPENSSL_lh_new_def)

lemma start_reach: "pool_reach key0 start_sys"
  unfolding start_sys_def by (rule pool_reach.start [OF empty_pool_new])

definition seven :: crypto_buffer_st where
  "seven = \<lparr>buf_id = 1, in_pool = True, buf_bytes = [7], data_is_static = False\<rparr>"

lemma table_run_witness:
  "lh_run (\<lambda>_. False) CRYPTO_BUFFER_hash CRYPTO_BUFFER_cmp [Lh_insert True seven, Lh_num_items, Lh_delete seven, Lh_retrieve seven] (bufs empty_pool) =
    Some [Lh_inserted True None, Lh_count 1, Lh_found (Some seven), Lh_found None]"
proof -
  have "OPENSSL_lh_new True True key0 () = Some (bufs empty_pool)"
    by (simp add: empty_pool_def CRYPTO_BUFFER_POOL_new_def OPENSSL_lh_new_def)
  from table_run [of key0 "()" "bufs empty_pool" CRYPTO_BUFFER_hash CRYPTO_BUFFER_cmp "\<lambda>_. False"
      "[Lh_insert True seven, Lh_num_items, Lh_delete seven, Lh_retrieve seven]", OF this buffer_hashing.hashing_axioms]
  show ?thesis by (simp del: lh_run.simps add: assoc_find_def assoc_remove_def buffer_cmp_equal)
qed

lemma empty_elements: "lh_elements (bufs empty_pool) = {#}"
  using new_ok [of key0 "()" "bufs empty_pool" CRYPTO_BUFFER_hash CRYPTO_BUFFER_cmp] by (simp add: empty_pool_def CRYPTO_BUFFER_POOL_new_def OPENSSL_lh_new_def)

lemma empty_lookup: "new_lookup (pool start_sys) bytes static = Some (None, pool start_sys)"
proof -
  obtain r p where l: "new_lookup (pool start_sys) bytes static = Some (r, p)" and
    "case r of None \<Rightarrow> p = pool start_sys | Some a \<Rightarrow> True"
    using lookup_ok [OF reach_ok [OF start_reach], of bytes static] by (auto split: option.splits)
  moreover have "r = None"
    using lookup_in_table [OF reach_ok [OF start_reach], of bytes static] l lookup_ok [OF reach_ok [OF start_reach], of bytes static]
      empty_elements up_ref_same
    by (cases r) (auto simp: start_sys_def new_lookup_def bind_eq_Some_conv split: option.splits)
  ultimately show ?thesis by simp
qed

definition missed_sys :: sys where
  "missed_sys = start_sys\<lparr>pool := pool start_sys, phase_of := (phase_of start_sys)(0 := Missed [7] False)\<rparr>"

lemma missed_reach: "pool_reach key0 missed_sys"
  unfolding missed_sys_def
  by (rule pool_reach.step [OF start_reach pool_step.miss [OF _ empty_lookup]]) (simp add: start_sys_def)

definition built_sys :: sys where
  "built_sys = missed_sys\<lparr>pool := snd (new_object (Some 5) True (pool missed_sys) [7] False True), phase_of := (phase_of missed_sys)(0 := Built 5)\<rparr>"

lemma built_reach: "pool_reach key0 built_sys"
  unfolding built_sys_def
  by (rule pool_reach.step [OF missed_reach pool_step.build [where bytes = "[7]" and static = False and a = 5 and memdup_ok = True]])
    (simp_all add: new_object_def missed_sys_def start_sys_def empty_pool_def CRYPTO_BUFFER_POOL_new_def OPENSSL_lh_new_def)

lemma built_pool: "bufs (pool built_sys) = bufs empty_pool" "phase_of built_sys 0 = Built 5"
  "heap (pool built_sys) 5 = Some \<lparr>buf_id = 5, in_pool = True, buf_bytes = [7], data_is_static = False\<rparr>"
  by (simp_all add: built_sys_def missed_sys_def start_sys_def new_object_def)

lemma built_insert: "\<exists>p. new_insert True (\<lambda>_. True) (pool built_sys) 5 = Some (Some 5, p)"
proof -
  let ?b = "\<lparr>buf_id = 5, in_pool = True, buf_bytes = [7], data_is_static = False\<rparr>"
  note ok = reach_ok [OF built_reach]
  obtain r where r: "lh_CRYPTO_BUFFER_retrieve (pool built_sys) ?b = Some r" "opt_mset r = {#}"
    using retrieve_outcome [OF ok, of ?b] built_pool(1) empty_elements by (metis matching_def filter_empty_mset)
  then have "r = None" by (cases r) auto
  moreover obtain i old lh where "OPENSSL_lh_insert True (\<lambda>_. True) CRYPTO_BUFFER_hash CRYPTO_BUFFER_cmp (bufs (pool built_sys)) ?b = Some (i, old, lh)" "i"
    using buffer_table.ins [OF sys_okD(1) [OF ok], of True "\<lambda>_. True" ?b] by auto
  ultimately show ?thesis using r built_pool by (simp add: new_insert_def find_duplicate_def)
qed

lemma pool_safe_witness: "readable (pool built_sys) \<and> new_insert False (\<lambda>_. False) (pool built_sys) 5 \<noteq> None"
  using pool_safe [OF built_reach] built_pool(2) by blast

lemma start_call: "\<exists>S'. pool_call 0 [7] False True start_sys (Some 5) S'"
proof -
  obtain p where p: "new_insert True (\<lambda>_. True) (pool built_sys) 5 = Some (Some 5, p)" using built_insert by blast
  have s: "phase_of start_sys 0 = Idle" "heap (pool missed_sys) 5 = None"
    by (simp_all add: missed_sys_def start_sys_def empty_pool_def CRYPTO_BUFFER_POOL_new_def OPENSSL_lh_new_def)
  have "others 0 (start_sys\<lparr>pool := pool start_sys, phase_of := (phase_of start_sys)(0 := Missed [7] False)\<rparr>) missed_sys"
    by (simp add: missed_sys_def)
  moreover obtain q where q: "new_object (Some 5) True (pool missed_sys) [7] False True = (Some 5, q)" by (simp add: new_object_def)
  moreover have "others 0 (missed_sys\<lparr>pool := q, phase_of := (phase_of missed_sys)(0 := Built 5)\<rparr>) built_sys"
    using q by (simp add: built_sys_def)
  ultimately show ?thesis using pool_call.made [OF s(1) empty_lookup _ s(2) _ _ p] by blast
qed

lemma pool_answers_bytes_witness:
  "\<exists>S' :: sys. CRYPTO_BUFFER_data (pool S') 5 = Some [7] \<and> CRYPTO_BUFFER_len (pool S') 5 = Some (of_nat (length [7 :: byte])) \<and> 5 \<in># held S'"
proof -
  obtain S' where "pool_call 0 [7] False True start_sys (Some 5) S'" using start_call ..
  from pool_answers_bytes [OF start_reach this] show ?thesis by (intro exI [of _ S']) simp
qed

lemma pool_shares_witness: "\<exists>(S :: sys) p. CRYPTO_BUFFER_new None False False (\<lambda>_. False) (pool S) [7] True = Some (Some 5, p)"
proof -
  obtain S' where "pool_call 0 [7] False True start_sys (Some 5) S'" using start_call ..
  from pool_shares [OF start_reach this rtranclp.rtrancl_refl, of None False False "\<lambda>_. False"] show ?thesis by auto
qed

end
