(* ===== verification/Spec2Isabelle.thy ===== *)
theory Spec2Isabelle
  imports PbMessage PbTransport PbEncodeOk Base64Stream CalendarSpec CbbBuild StackSpec PoolSpec
begin

text \<open>
  A verification library for the C code of the iOS app. The repository is a Flutter application; its Dart
  sources contain no C, and the C it ships is that of the pods under \<open>src/ios/Pods\<close>. Two of them carry
  the logic this library models: nanopb, the protobuf runtime through which the Firebase SDKs encode and
  decode their messages, with generated message tables; and the parts of
  BoringSSL that parse and build byte strings, with its array of pointers, hash table
  and pool of shared buffers.

  \<^bold>\<open>How the C is translated.\<close> Integers keep their width (\<open>byte\<close>, \<open>u32\<close>, \<open>u64\<close>, \<open>size_t\<close>; LP64), so that
  wrap-around is the one of C. A nanopb function is a computation \<open>cm\<close> (\<open>CMem\<close>) over a stream and a
  flat, byte-addressed memory (\<open>Heap\<close>): no result at all is undefined behaviour, \<open>None\<close> is the C result
  \<open>false\<close>, \<open>Some\<close> carries the out-parameters. In BoringSSL a reader (\<open>CBS\<close>) is the list of the bytes it
  still has, a parser answers its result and the reader it leaves, and the builder (\<open>CBB\<close>) is a record of
  the shared buffer and the open children; a stack is a record of its array, count and flag. What is not in the sources is a parameter: libc's allocator is
  an oracle that may fail at each request, stream and field callbacks and extension types are fields of
  the record \<open>env\<close>.

  \<^bold>\<open>nanopb\<close> (\<open>src/ios/Pods/nanopb\<close>).
  \<^item> \<open>PbTypes\<close>: the types, constants and macros of \<open>pb.h\<close>, the streams of \<open>pb_decode.h\<close> and \<open>pb_encode.h\<close>.
  \<^item> \<open>PbCommon\<close>: the field iterator of \<open>pb_common.c\<close>. The locale \<open>cyclic_cursor\<close> states what its search
    loops rely on and is interpreted on the iterator; the walk visits the fields in order at the
    addresses \<open>field_off\<close>, the search ends and finds a field exactly when there is one.
  \<^item> \<open>PbIstream\<close>, \<open>PbOstream\<close>: the streams and the wire-level readers and writers of \<open>pb_decode.c\<close> and
    \<open>pb_encode.c\<close>. \<open>PbInput\<close> and \<open>PbOutput\<close> say what reading from and writing to a buffer does,
    \<open>PbVarint\<close> and \<open>PbWire\<close> what each wire type is, and \<open>PbTransport\<close> proves through the locale \<open>codec\<close>
    that every reader inverts its writer, that skipping goes exactly past a value, that writes stay
    within \<open>max_size\<close>, and what the varint readers do on every input.
  \<^item> \<open>PbDefaults\<close>, \<open>PbDecode\<close>, \<open>PbEncode\<close>: default values and release, the message decoder and the
    message encoder, function by function. The field decoders take the decoder of submessages as an
    argument, and \<open>pb_decode\<close> ties the knot with a bound on the nesting.
  \<^item> \<open>PbObject\<close>, \<open>PbSafe\<close>, \<open>PbMessage\<close>: \<open>desc_ok\<close> says when descriptors describe a structure; for these,
    decoding is defined on every input, returns, and touches only the input and the message. The locale
    \<open>submessage_decoder\<close> is the contract of the decoder of submessages, discharged by induction on the
    nesting.
  \<^item> \<open>PbProduce\<close>, \<open>PbEncodeSpec\<close>, \<open>PbEncodeOk\<close>: \<open>message_bytes\<close> gives the protobuf encoding of a structure in
    memory, pointers and arrays included, without a stream; the encoder produces exactly these bytes, its
    counting pass their number, and it writes inside the given buffer only. The app encodes each message
    this way, first counting and then into a buffer of that size. \<open>submessage_encoder\<close> is the contract of
    the encoder of submessages.
  \<^item> \<open>CStruct\<close>, \<open>PbTables\<close>, \<open>PbFirestore\<close>: how the compiler lays out structures and unions, the descriptor
    macros of \<open>pb.h\<close>, and the generated structures, enumerations, defaults and descriptor arrays of the
    telemetry messages of the Firebase SDKs (\<open>PbTables\<close>: \<open>cct\<close>, \<open>client_metrics\<close>, \<open>compliance\<close>,
    \<open>external_*_context\<close>, \<open>me\<close>) and of the messages of Firestore that hold no pointer (\<open>PbFirestore\<close>: time
    stamps, positions, wrappers, and two messages with a oneof). The field iterator, run over any of these
    descriptor arrays, visits the members of the generated structure at their offsets; the messages without
    pointers, 22 in all, are decoded safely from any input (\<open>PbMessage\<close>).

  \<^bold>\<open>BoringSSL\<close> (\<open>src/ios/Pods/BoringSSL-GRPC/src\<close>).
  \<^item> \<open>ConstTime\<close>: the masks and selections of \<open>crypto/internal.h\<close>.
  \<^item> \<open>Base64\<close>, \<open>Base64Spec\<close>, \<open>Base64Stream\<close>: \<open>crypto/base64/base64.c\<close>; its alphabet is the one of RFC
    4648, decoding undoes encoding, and the streaming encoder and decoder do on any cut of the input what
    one call does on the whole.
  \<^item> \<open>Cbs\<close>, \<open>CbsTime\<close>, \<open>CalendarSpec\<close>: \<open>crypto/bytestring/cbs.c\<close> and \<open>crypto/asn1/posix_time.c\<close>; the
    calendar arithmetic is compared with a count of days of the Gregorian calendar.
  \<^item> \<open>Asn1Spec\<close>, \<open>Asn1Elem\<close>, \<open>Asn1Int\<close>: the DER encoding of tags, lengths, elements, integers and
    booleans, and the proof that the readers accept exactly these; \<open>Canonical\<close> is the contract of a
    reader with one encoding per value, from which prefix-freeness and the refusal of truncated input
    follow for each of them.
  \<^item> \<open>Cbb\<close>, \<open>SetOf\<close>: \<open>crypto/bytestring/cbb.c\<close>. \<open>CbbState\<close> abstracts a builder to the stack of its open
    byte strings, \<open>CbbSpec\<close> and \<open>CbbAsn1\<close> say what each operation does to the stack, and \<open>CbbBuild\<close>
    proves that every sequence of operations, from \<open>CBB_init\<close> or \<open>CBB_init_fixed\<close> on, keeps the abstraction and
    is defined, \<open>CBB_finish\<close> too, that \<open>CBB_data\<close> and \<open>CBB_len\<close> answer the contents of a byte string without an
    open child, and that what is built is read back.
  \<^item> \<open>Stack\<close>, \<open>StackSort\<close>, \<open>StackSpec\<close>: \<open>crypto/stack/stack.c\<close>, the growable array of pointers. \<open>StackSort\<close>
    proves that the heap sort sorts and that the binary search finds what a linear one would, in the locale
    \<open>comparison\<close> that states the contract of a comparison function; \<open>StackSpec\<close> refines every operation,
    the refusals included, to one on the list of elements, the comparison function, the flag and the capacity.
    The flag stays true of the elements but for \<open>OPENSSL_sk_set\<close>, which leaves it set when it replaces an element
    of a sorted stack; what a search then misses is a theorem of its own.
  \<^item> \<open>LHash\<close>, \<open>LHashSpec\<close>: the hash table of \<open>crypto/lhash/lhash.c\<close>. The locale \<open>hashing\<close> is what it asks of
    the functions it is given, \<open>keyed_table\<close> what it promises; every sequence of operations answers as a
    list without equal elements does.
  \<^item> \<open>SipHash\<close>, \<open>Pool\<close>, \<open>PoolSpec\<close>: \<open>crypto/siphash/siphash.c\<close>, \<open>crypto/refcount.c\<close> and
    \<open>crypto/pool/pool.c\<close>, whose table both locales are interpreted on. \<open>PoolSpec\<close> lets threads interleave
    their critical sections (\<open>pool_step\<close>): no buffer is used after it is freed, a call answers a buffer with the
    bytes it was asked for, and equal contents are shared as long as the buffer is held and is not replaced
    by one with static data. A section under a lock is one step, so that waiting for a lock is not modelled. A search of the pool counts as undefined unless every buffer of the table is allocated.

  \<^bold>\<open>Bounds and fuel.\<close> A loop that ends by its data is a function with a termination proof. Where the bound
  is not in the data it is a parameter with a proof that it suffices: the searches over descriptors get
  the number of fields plus one, the loops over input bytes the number of bytes left plus one,
  \<open>pb_decode\<close> the nesting depth of the descriptors (\<open>desc_ok E r\<close> asks for less than the fuel), and the
  digits of a 64-bit integer in base 128 are at most ten. Reaching a bound counts as undefined behaviour,
  so that the safety theorems exclude it.

  \<^bold>\<open>Not modelled.\<close> The rest of BoringSSL (bignum, curves, ciphers, X.509, TLS), gRPC, Abseil, LevelDB,
  which are C++ or large generated C and are not app-specific; of Firestore all but the message tables above:
  its messages with pointers, repeated members or members that are named unions, and its C++ core; the Objective-C around the
  nanopb messages; the Dart code, which contains no C; and the generated runners of the other platforms.
  Of the pool, \<open>CRYPTO_BUFFER_alloc\<close>, \<open>CRYPTO_BUFFER_POOL_free\<close> and the conversions from and to \<open>CBS\<close>;
  of the hash table, callbacks of \<open>OPENSSL_lh_doall_arg\<close> that change the table they are called for.
\<close>

end
